(* ===== verification/Prelude.thy ===== *)
theory Prelude
  imports Main "HOL-Library.Word" "HOL-Library.Char_ord" "HOL-Library.List_Lexorder"
    "HOL-Library.Product_Lexorder" "HOL-Library.Option_ord" "HOL-Library.Sublist"
begin

text \<open>
  Shared vocabulary of the development: Rust strings and the operations of the standard
  library that the modelled code calls on them, checked machine arithmetic, the FNV-1a hash
  the repository uses for bounded names, and ordered maps (\<open>BTreeMap\<close>).

  A Rust \<open>&str\<close> is modelled by its UTF-8 bytes, one \<open>char\<close> of HOL per byte. Byte
  loops of the source are then literal; loops over \<open>chars()\<close> only ever compare with ASCII
  characters, and a byte of a multi-byte sequence is never ASCII, so they read the same way
  on bytes. Where the source maps every \<open>char\<close> to one output character, \<open>utf8_heads\<close>
  selects one byte per character.
\<close>

named_theorems rust_simps \<open>evaluation rules for the standard-library operations\<close>
named_theorems btree_simps \<open>lookup and key laws of ordered maps\<close>

type_synonym str = string
type_synonym uuid = "128 word"

text \<open>Characters that inner syntax cannot hold in a string literal.\<close>

abbreviation sq :: char where "sq \<equiv> CHR 0x27"
abbreviation dq :: char where "dq \<equiv> CHR 0x22"
abbreviation bq :: char where "bq \<equiv> CHR 0x60"
abbreviation bsl :: char where "bsl \<equiv> CHR 0x5C"
abbreviation nl :: char where "nl \<equiv> CHR 0x0A"

section \<open>Checked machine integers\<close>

definition i64_min :: int where "i64_min = - (2 ^ 63)"
definition i64_max :: int where "i64_max = 2 ^ 63 - 1"

definition is_i64 :: "int \<Rightarrow> bool" where
  "is_i64 x \<longleftrightarrow> i64_min \<le> x \<and> x \<le> i64_max"

definition i64_checked_add :: "int \<Rightarrow> int \<Rightarrow> int option" where
  "i64_checked_add a b = (if is_i64 (a + b) then Some (a + b) else None)"

definition u64_checked_add :: "nat \<Rightarrow> nat \<Rightarrow> nat option" where
  "u64_checked_add a b = (if a + b < 2 ^ 64 then Some (a + b) else None)"

lemma i64_checked_add_Some [simp]:
  "i64_checked_add a b = Some c \<longleftrightarrow> c = a + b \<and> is_i64 (a + b)"
  by (auto simp: i64_checked_add_def)

lemma i64_checked_add_None [simp]:
  "i64_checked_add a b = None \<longleftrightarrow> \<not> is_i64 (a + b)"
  by (auto simp: i64_checked_add_def)

lemma u64_checked_add_Some [simp]:
  "u64_checked_add a b = Some c \<longleftrightarrow> c = a + b \<and> a + b < 2 ^ 64"
  by (auto simp: u64_checked_add_def)

lemmas i64_bounds = is_i64_def i64_min_def i64_max_def

section \<open>ASCII classes and case mapping\<close>

definition is_ascii_digit :: "char \<Rightarrow> bool" where
  "is_ascii_digit c \<longleftrightarrow> (let n = (of_char c :: nat) in 48 \<le> n \<and> n \<le> 57)"

definition is_ascii_uppercase :: "char \<Rightarrow> bool" where
  "is_ascii_uppercase c \<longleftrightarrow> (let n = (of_char c :: nat) in 65 \<le> n \<and> n \<le> 90)"

definition is_ascii_lowercase :: "char \<Rightarrow> bool" where
  "is_ascii_lowercase c \<longleftrightarrow> (let n = (of_char c :: nat) in 97 \<le> n \<and> n \<le> 122)"

definition is_ascii_alphabetic :: "char \<Rightarrow> bool" where
  "is_ascii_alphabetic c \<longleftrightarrow> is_ascii_uppercase c \<or> is_ascii_lowercase c"

definition is_ascii_alphanumeric :: "char \<Rightarrow> bool" where
  "is_ascii_alphanumeric c \<longleftrightarrow> is_ascii_alphabetic c \<or> is_ascii_digit c"

definition is_ascii :: "char \<Rightarrow> bool" where
  "is_ascii c \<longleftrightarrow> (of_char c :: nat) < 128"

text \<open>\<open>u8::is_ascii_whitespace\<close>: space, tab, line feed, form feed, carriage return.\<close>

definition is_ascii_whitespace :: "char \<Rightarrow> bool" where
  "is_ascii_whitespace c \<longleftrightarrow> (of_char c :: nat) \<in> {9, 10, 12, 13, 32}"

definition ascii_lower :: "char \<Rightarrow> char" where
  "ascii_lower c = (if is_ascii_uppercase c then char_of ((of_char c :: nat) + 32) else c)"

definition ascii_upper :: "char \<Rightarrow> char" where
  "ascii_upper c = (if is_ascii_lowercase c then char_of ((of_char c :: nat) - 32) else c)"

definition to_ascii_lowercase :: "str \<Rightarrow> str" where
  "to_ascii_lowercase s = map ascii_lower s"

definition to_ascii_uppercase :: "str \<Rightarrow> str" where
  "to_ascii_uppercase s = map ascii_upper s"

definition eq_ignore_ascii_case :: "str \<Rightarrow> str \<Rightarrow> bool" where
  "eq_ignore_ascii_case a b \<longleftrightarrow> to_ascii_lowercase a = to_ascii_lowercase b"

lemmas ascii_defs =
  is_ascii_digit_def is_ascii_uppercase_def is_ascii_lowercase_def is_ascii_alphabetic_def
  is_ascii_alphanumeric_def is_ascii_def is_ascii_whitespace_def ascii_lower_def ascii_upper_def

lemma of_char_ascii_lower:
  "(of_char (ascii_lower c) :: nat) =
     (if is_ascii_uppercase c then of_char c + 32 else of_char c)"
  by (auto simp: ascii_lower_def is_ascii_uppercase_def Let_def)

lemma of_char_ascii_upper:
  "(of_char (ascii_upper c) :: nat) =
     (if is_ascii_lowercase c then of_char c - 32 else of_char c)"
  by (auto simp: ascii_upper_def is_ascii_lowercase_def Let_def)

lemma of_char_eq_nat: "(of_char c :: nat) = of_char d \<longleftrightarrow> c = d"
  by (metis char_of_char)

lemma ascii_lower_idem [simp]: "ascii_lower (ascii_lower c) = ascii_lower c"
  by (auto simp: of_char_eq_nat [symmetric] of_char_ascii_lower is_ascii_uppercase_def Let_def)

lemma ascii_upper_idem [simp]: "ascii_upper (ascii_upper c) = ascii_upper c"
  by (auto simp: of_char_eq_nat [symmetric] of_char_ascii_upper is_ascii_lowercase_def Let_def)

lemma ascii_lower_upper [simp]: "ascii_lower (ascii_upper c) = ascii_lower c"
  by (auto simp: of_char_eq_nat [symmetric] of_char_ascii_upper of_char_ascii_lower
      is_ascii_lowercase_def is_ascii_uppercase_def Let_def)

lemma ascii_upper_lower [simp]: "ascii_upper (ascii_lower c) = ascii_upper c"
  by (auto simp: of_char_eq_nat [symmetric] of_char_ascii_upper of_char_ascii_lower
      is_ascii_lowercase_def is_ascii_uppercase_def Let_def)

lemma to_ascii_lowercase_idem [simp]:
  "to_ascii_lowercase (to_ascii_lowercase s) = to_ascii_lowercase s"
  by (simp add: to_ascii_lowercase_def)

lemma to_ascii_uppercase_idem [simp]:
  "to_ascii_uppercase (to_ascii_uppercase s) = to_ascii_uppercase s"
  by (simp add: to_ascii_uppercase_def)

lemma to_ascii_lower_upper [simp]:
  "to_ascii_lowercase (to_ascii_uppercase s) = to_ascii_lowercase s"
  by (simp add: to_ascii_lowercase_def to_ascii_uppercase_def)

lemma to_ascii_upper_lower [simp]:
  "to_ascii_uppercase (to_ascii_lowercase s) = to_ascii_uppercase s"
  by (simp add: to_ascii_lowercase_def to_ascii_uppercase_def)

lemma eq_ignore_ascii_case_refl [simp]: "eq_ignore_ascii_case a a"
  by (simp add: eq_ignore_ascii_case_def)

lemma eq_ignore_ascii_case_sym: "eq_ignore_ascii_case a b \<Longrightarrow> eq_ignore_ascii_case b a"
  by (simp add: eq_ignore_ascii_case_def)

lemma eq_ignore_ascii_case_trans:
  "eq_ignore_ascii_case a b \<Longrightarrow> eq_ignore_ascii_case b c \<Longrightarrow> eq_ignore_ascii_case a c"
  by (simp add: eq_ignore_ascii_case_def)

section \<open>String operations\<close>

definition starts_with :: "str \<Rightarrow> str \<Rightarrow> bool" where
  "starts_with p s \<longleftrightarrow> take (length p) s = p"

definition ends_with :: "str \<Rightarrow> str \<Rightarrow> bool" where
  "ends_with p s \<longleftrightarrow> starts_with (rev p) (rev s)"

definition strip_prefix :: "str \<Rightarrow> str \<Rightarrow> str option" where
  "strip_prefix p s = (if starts_with p s then Some (drop (length p) s) else None)"

definition strip_suffix :: "str \<Rightarrow> str \<Rightarrow> str option" where
  "strip_suffix p s = (if ends_with p s then Some (take (length s - length p) s) else None)"

text \<open>\<open>str::replace\<close> with a one-character pattern.\<close>

definition replace_char :: "char \<Rightarrow> str \<Rightarrow> str \<Rightarrow> str" where
  "replace_char c r s = concat (map (\<lambda>x. if x = c then r else [x]) s)"

text \<open>\<open>str::split_once\<close> with a one-character pattern.\<close>

definition split_once :: "char \<Rightarrow> str \<Rightarrow> (str \<times> str) option" where
  "split_once c s =
     (if c \<in> set s then Some (takeWhile (\<lambda>x. x \<noteq> c) s, drop 1 (dropWhile (\<lambda>x. x \<noteq> c) s))
      else None)"

fun join :: "str \<Rightarrow> str list \<Rightarrow> str" where
  "join sep [] = []"
| "join sep [x] = x"
| "join sep (x # y # ys) = x @ sep @ join sep (y # ys)"

text \<open>\<open>str::split\<close> with a character: the pieces between its occurrences, at least one.\<close>

fun split_char :: "char \<Rightarrow> str \<Rightarrow> str list" where
  "split_char c [] = [[]]"
| "split_char c (x # xs) =
     (if x = c then [] # split_char c xs else (x # hd (split_char c xs)) # tl (split_char c xs))"

text \<open>\<open>str::trim_matches\<close> with a one-character pattern.\<close>

definition trim_char :: "char \<Rightarrow> str \<Rightarrow> str" where
  "trim_char c s = rev (dropWhile (\<lambda>x. x = c) (rev (dropWhile (\<lambda>x. x = c) s)))"

lemma starts_with_iff_prefix: "starts_with p s \<longleftrightarrow> prefix p s"
  by (auto simp: starts_with_def prefix_def) (metis append_take_drop_id)

lemma ends_with_iff_suffix: "ends_with p s \<longleftrightarrow> suffix p s"
  by (simp add: ends_with_def starts_with_iff_prefix suffix_to_prefix)

lemma strip_prefix_Some: "strip_prefix p s = Some t \<longleftrightarrow> s = p @ t"
  by (auto simp: strip_prefix_def starts_with_def) (metis append_take_drop_id)

lemma strip_suffix_Some: "strip_suffix p s = Some t \<longleftrightarrow> s = t @ p"
  by (auto simp: strip_suffix_def ends_with_iff_suffix suffix_def)

lemma replace_char_Nil [simp]: "replace_char c r [] = []"
  by (simp add: replace_char_def)

lemma replace_char_Cons [simp]:
  "replace_char c r (x # xs) = (if x = c then r else [x]) @ replace_char c r xs"
  by (simp add: replace_char_def)

lemma replace_char_append [simp]:
  "replace_char c r (xs @ ys) = replace_char c r xs @ replace_char c r ys"
  by (simp add: replace_char_def)

lemma split_once_Some:
  assumes "split_once c s = Some (a, b)"
  shows "s = a @ c # b \<and> c \<notin> set a"
proof -
  from assms have c: "c \<in> set s" and a: "a = takeWhile (\<lambda>x. x \<noteq> c) s"
    and b: "b = drop 1 (dropWhile (\<lambda>x. x \<noteq> c) s)"
    by (auto simp: split_once_def split: if_splits)
  from c have "dropWhile (\<lambda>x. x \<noteq> c) s \<noteq> []" by (auto simp: dropWhile_eq_Nil_conv)
  then obtain d ds where d: "dropWhile (\<lambda>x. x \<noteq> c) s = d # ds" by (cases "dropWhile (\<lambda>x. x \<noteq> c) s") auto
  then have "d = c" using hd_dropWhile [of "\<lambda>x. x \<noteq> c" s] by fastforce
  with d a b have "s = a @ c # b" using takeWhile_dropWhile_id [of "\<lambda>x. x \<noteq> c" s] by simp
  moreover from a have "c \<notin> set a" by (auto dest: set_takeWhileD)
  ultimately show ?thesis by simp
qed

lemma split_char_nonempty [simp]: "split_char c s \<noteq> []"
  by (cases s) simp_all

lemma split_char_pieces: "p \<in> set (split_char c s) \<Longrightarrow> c \<notin> set p"
proof (induction s arbitrary: p)
  case (Cons x xs)
  then show ?case
    by (cases "split_char c xs") (auto split: if_splits)
qed simp

lemma split_char_free: "c \<notin> set s \<Longrightarrow> split_char c s = [s]"
  by (induction s) auto

lemma split_char_append: "c \<notin> set p \<Longrightarrow> split_char c (p @ c # s) = p # split_char c s"
  by (induction p) auto

lemma join_split_char [simp]: "join [c] (split_char c s) = s"
proof (induction s)
  case (Cons x xs)
  then show ?case by (cases "split_char c xs"; cases "tl (split_char c xs)") auto
qed simp

lemma split_char_join: "ps \<noteq> [] \<Longrightarrow> \<forall>p \<in> set ps. c \<notin> set p \<Longrightarrow> split_char c (join [c] ps) = ps"
  by (induction "[c]" ps rule: join.induct) (auto simp: split_char_free split_char_append)

lemma join_Cons: "ys \<noteq> [] \<Longrightarrow> join sep (x # ys) = x @ sep @ join sep ys"
  by (cases ys) auto

section \<open>Whitespace and trimming\<close>

text \<open>
  The UTF-8 encodings of the characters with the Unicode property \<open>White_Space\<close>, which is
  what \<open>char::is_whitespace\<close> and \<open>str::trim\<close> test.
\<close>

definition ws_seqs :: "str list" where
  "ws_seqs =
     [[CHR 0x09], [CHR 0x0A], [CHR 0x0B], [CHR 0x0C], [CHR 0x0D], [CHR 0x20],
      [CHR 0xC2, CHR 0x85], [CHR 0xC2, CHR 0xA0], [CHR 0xE1, CHR 0x9A, CHR 0x80],
      [CHR 0xE2, CHR 0x80, CHR 0x80], [CHR 0xE2, CHR 0x80, CHR 0x81],
      [CHR 0xE2, CHR 0x80, CHR 0x82], [CHR 0xE2, CHR 0x80, CHR 0x83],
      [CHR 0xE2, CHR 0x80, CHR 0x84], [CHR 0xE2, CHR 0x80, CHR 0x85],
      [CHR 0xE2, CHR 0x80, CHR 0x86], [CHR 0xE2, CHR 0x80, CHR 0x87],
      [CHR 0xE2, CHR 0x80, CHR 0x88], [CHR 0xE2, CHR 0x80, CHR 0x89],
      [CHR 0xE2, CHR 0x80, CHR 0x8A], [CHR 0xE2, CHR 0x80, CHR 0xA8],
      [CHR 0xE2, CHR 0x80, CHR 0xA9], [CHR 0xE2, CHR 0x80, CHR 0xAF],
      [CHR 0xE2, CHR 0x81, CHR 0x9F], [CHR 0xE3, CHR 0x80, CHR 0x80]]"

definition ws_prefix :: "str list \<Rightarrow> str \<Rightarrow> str option" where
  "ws_prefix seqs s = find (\<lambda>w. w \<noteq> [] \<and> starts_with w s) seqs"

lemma ws_prefix_Some:
  "ws_prefix seqs s = Some w \<Longrightarrow> w \<noteq> [] \<and> w \<in> set seqs \<and> s = w @ drop (length w) s"
  by (auto simp: ws_prefix_def find_Some_iff starts_with_def) (metis append_take_drop_id)

lemma ws_prefix_shorter:
  "ws_prefix seqs s = Some w \<Longrightarrow> length s - length w < length s"
  by (drule ws_prefix_Some) (cases s; auto)

function strip_ws :: "str list \<Rightarrow> str \<Rightarrow> str" where
  "strip_ws seqs s =
     (case ws_prefix seqs s of None \<Rightarrow> s | Some w \<Rightarrow> strip_ws seqs (drop (length w) s))"
  by pat_completeness auto
termination
  by (relation "measure (\<lambda>(seqs, s). length s)") (auto simp: ws_prefix_shorter)

declare strip_ws.simps [simp del]

definition trim_start :: "str \<Rightarrow> str" where
  "trim_start s = strip_ws ws_seqs s"

definition trim_end :: "str \<Rightarrow> str" where
  "trim_end s = rev (strip_ws (map rev ws_seqs) (rev s))"

definition trim :: "str \<Rightarrow> str" where
  "trim s = trim_end (trim_start s)"

lemma strip_ws_none: "ws_prefix seqs (strip_ws seqs s) = None"
proof (induction seqs s rule: strip_ws.induct)
  case (1 seqs s)
  then show ?case
    by (cases "ws_prefix seqs s") (auto simp: strip_ws.simps [of seqs s])
qed

lemma strip_ws_suffix: "suffix (strip_ws seqs s) s"
proof (induction seqs s rule: strip_ws.induct)
  case (1 seqs s)
  show ?case
  proof (cases "ws_prefix seqs s")
    case None
    then show ?thesis by (simp add: strip_ws.simps [of seqs s])
  next
    case (Some w)
    with 1 have "suffix (strip_ws seqs (drop (length w) s)) (drop (length w) s)" by blast
    then have "suffix (strip_ws seqs (drop (length w) s)) s"
      using suffix_drop suffix_order.trans by blast
    with Some show ?thesis by (simp add: strip_ws.simps [of seqs s])
  qed
qed

lemma strip_ws_id: "ws_prefix seqs s = None \<Longrightarrow> strip_ws seqs s = s"
  by (simp add: strip_ws.simps)

lemma strip_ws_idem [simp]: "strip_ws seqs (strip_ws seqs s) = strip_ws seqs s"
  by (rule strip_ws_id) (rule strip_ws_none)

lemma ws_prefix_None_prefix:
  "prefix t s \<Longrightarrow> ws_prefix seqs s = None \<Longrightarrow> ws_prefix seqs t = None"
  by (auto simp: ws_prefix_def find_None_iff starts_with_iff_prefix
      intro: prefix_order.trans)

lemma trim_idem [simp]: "trim (trim s) = trim s"
proof -
  let ?u = "trim_start s"
  let ?t = "trim_end ?u"
  have "suffix (rev ?t) (rev ?u)"
    by (simp add: trim_end_def strip_ws_suffix)
  then have "prefix ?t ?u"
    by (simp add: suffix_to_prefix)
  moreover have "ws_prefix ws_seqs ?u = None"
    by (simp add: trim_start_def strip_ws_none)
  ultimately have "ws_prefix ws_seqs ?t = None"
    by (rule ws_prefix_None_prefix)
  then have "trim_start ?t = ?t"
    by (simp add: trim_start_def strip_ws_id)
  moreover have "trim_end ?t = ?t"
    by (simp add: trim_end_def)
  ultimately show ?thesis by (simp add: trim_def)
qed

lemma trim_length: "length (trim s) \<le> length s"
proof -
  have "length (trim_end (trim_start s)) \<le> length (trim_start s)"
    using strip_ws_suffix [of "map rev ws_seqs" "rev (trim_start s)"]
    by (auto simp: trim_end_def dest: suffix_length_le)
  also have "\<dots> \<le> length s"
    using strip_ws_suffix [of ws_seqs s] by (auto simp: trim_start_def dest: suffix_length_le)
  finally show ?thesis by (simp add: trim_def)
qed

section \<open>Numbers as text, hexadecimal, FNV-1a\<close>

definition digit_char :: "nat \<Rightarrow> char" where
  "digit_char d = (if d < 10 then char_of (48 + d) else char_of (87 + d))"

fun show_nat :: "nat \<Rightarrow> str" where
  "show_nat n = (if n < 10 then [digit_char n] else show_nat (n div 10) @ [digit_char (n mod 10)])"

declare show_nat.simps [simp del]

definition show_int :: "int \<Rightarrow> str" where
  "show_int x = (if x < 0 then CHR ''-'' # show_nat (nat (- x)) else show_nat (nat x))"

text \<open>\<open>format!("{byte:02x}")\<close> for one byte and \<open>format!("{hash:016x}")\<close> for a word.\<close>

definition hex_byte :: "char \<Rightarrow> str" where
  "hex_byte c = (let n = of_char c in [digit_char (n div 16), digit_char (n mod 16)])"

fun hex_digits :: "nat \<Rightarrow> nat \<Rightarrow> str" where
  "hex_digits 0 n = []"
| "hex_digits (Suc k) n = hex_digits k (n div 16) @ [digit_char (n mod 16)]"

definition hex16 :: "64 word \<Rightarrow> str" where
  "hex16 w = hex_digits 16 (unat w)"

definition hex_encode :: "str \<Rightarrow> str" where
  "hex_encode s = concat (map hex_byte s)"

text \<open>\<open>u8::is_ascii_hexdigit\<close> and the value of a hexadecimal digit of either case.\<close>

definition hex_value :: "char \<Rightarrow> nat option" where
  "hex_value c =
     (let n = of_char c in
      if 48 \<le> n \<and> n \<le> 57 then Some (n - 48)
      else if 65 \<le> n \<and> n \<le> 70 then Some (n - 55)
      else if 97 \<le> n \<and> n \<le> 102 then Some (n - 87)
      else None)"

text \<open>
  The decoding loop shared by the cursor and the constraint-comment decoders: an even number
  of hexadecimal digits, two per byte.
\<close>

fun hex_decode :: "str \<Rightarrow> str option" where
  "hex_decode [] = Some []"
| "hex_decode [_] = None"
| "hex_decode (a # b # rest) =
     (case (hex_value a, hex_value b, hex_decode rest) of
        (Some x, Some y, Some bytes) \<Rightarrow> Some (char_of (16 * x + y) # bytes)
      | _ \<Rightarrow> None)"

definition fnv_step :: "64 word \<Rightarrow> char \<Rightarrow> 64 word" where
  "fnv_step h c = (xor h (word_of_nat (of_char c))) * 0x100000001b3"

definition fnv1a64 :: "str \<Rightarrow> 64 word" where
  "fnv1a64 s = foldl fnv_step 0xcbf29ce484222325 s"

lemma of_char_less: "(of_char c :: nat) < 256"
  by (metis char_of_char nat_of_char_less_256)

lemma digit_char_less: "d < 16 \<Longrightarrow> (of_char (digit_char d) :: nat) = (if d < 10 then 48 + d else 87 + d)"
  by (auto simp: digit_char_def)

lemma hex_value_digit [simp]: "d < 16 \<Longrightarrow> hex_value (digit_char d) = Some d"
  by (auto simp: hex_value_def digit_char_less Let_def)

lemma hex_decode_encode [simp]: "hex_decode (hex_encode s) = Some s"
proof (induction s)
  case Nil
  then show ?case by (simp add: hex_encode_def)
next
  case (Cons c s)
  let ?n = "of_char c :: nat"
  have "?n div 16 < 16" using of_char_less [of c] by (simp add: less_mult_imp_div_less)
  moreover have "?n mod 16 < 16" by simp
  moreover have "char_of (16 * (?n div 16) + ?n mod 16) = c" by simp
  ultimately show ?case
    using Cons by (simp add: hex_encode_def hex_byte_def Let_def)
qed

lemma hex_digits_length [simp]: "length (hex_digits k n) = k"
  by (induction k arbitrary: n) auto

lemma hex16_length [simp]: "length (hex16 w) = 16"
  by (simp add: hex16_def)

lemma is_ascii_digit_digit_char: "d < 10 \<Longrightarrow> is_ascii_digit (digit_char d)"
  by (simp add: is_ascii_digit_def digit_char_less)

lemma show_nat_digits: "\<forall>c \<in> set (show_nat n). is_ascii_digit c"
proof (induction n rule: show_nat.induct)
  case (1 n)
  show ?case
  proof (cases "n < 10")
    case True
    then show ?thesis by (simp add: show_nat.simps [of n] is_ascii_digit_digit_char)
  next
    case False
    with 1 have "\<forall>c \<in> set (show_nat (n div 10)). is_ascii_digit c" by blast
    with False show ?thesis
      by (auto simp: show_nat.simps [of n] is_ascii_digit_digit_char)
  qed
qed

lemma show_nat_nonempty [simp]: "show_nat n \<noteq> []"
  by (subst show_nat.simps) simp

section \<open>UTF-8 structure\<close>

definition utf8_continuation :: "char \<Rightarrow> bool" where
  "utf8_continuation c \<longleftrightarrow> (let n = (of_char c :: nat) in 128 \<le> n \<and> n < 192)"

text \<open>One byte per character: the bytes that do not continue a sequence.\<close>

definition utf8_heads :: "str \<Rightarrow> str" where
  "utf8_heads s = filter (\<lambda>c. \<not> utf8_continuation c) s"

definition is_char_boundary :: "str \<Rightarrow> nat \<Rightarrow> bool" where
  "is_char_boundary s i \<longleftrightarrow>
     i = 0 \<or> i = length s \<or> (i < length s \<and> \<not> utf8_continuation (s ! i))"

text \<open>\<open>String::from_utf8\<close>: whether a byte string is well-formed UTF-8.\<close>

definition utf8_second_ok :: "nat \<Rightarrow> nat \<Rightarrow> bool" where
  "utf8_second_ok b c \<longleftrightarrow>
     (if b = 0xE0 then 0xA0 \<le> c \<and> c < 0xC0
      else if b = 0xED then 0x80 \<le> c \<and> c < 0xA0
      else if b = 0xF0 then 0x90 \<le> c \<and> c < 0xC0
      else if b = 0xF4 then 0x80 \<le> c \<and> c < 0x90
      else 0x80 \<le> c \<and> c < 0xC0)"

fun utf8_valid :: "str \<Rightarrow> bool" where
  "utf8_valid [] = True"
| "utf8_valid (a # s) =
     (let n = (of_char a :: nat) in
      if n < 0x80 then utf8_valid s
      else if 0xC2 \<le> n \<and> n < 0xE0 then
        (case s of b # s' \<Rightarrow> utf8_second_ok n (of_char b) \<and> utf8_valid s' | [] \<Rightarrow> False)
      else if 0xE0 \<le> n \<and> n < 0xF0 then
        (case s of b # c # s' \<Rightarrow> utf8_second_ok n (of_char b) \<and> utf8_continuation c \<and> utf8_valid s'
         | _ \<Rightarrow> False)
      else if 0xF0 \<le> n \<and> n < 0xF5 then
        (case s of b # c # d # s' \<Rightarrow>
           utf8_second_ok n (of_char b) \<and> utf8_continuation c \<and> utf8_continuation d \<and> utf8_valid s'
         | _ \<Rightarrow> False)
      else False)"

section \<open>Ordered maps\<close>

text \<open>
  A \<open>BTreeMap\<close> is the association list of its entries in key order; \<open>collect\<close> inserts the
  entries of an iterator from the left, so a later entry replaces an earlier one with the
  same key.
\<close>

type_synonym ('k, 'v) btree = "('k \<times> 'v) list"

definition btree :: "('k::linorder, 'v) btree \<Rightarrow> bool" where
  "btree m \<longleftrightarrow> sorted_wrt (<) (map fst m)"

definition btree_insert :: "'k::linorder \<Rightarrow> 'v \<Rightarrow> ('k, 'v) btree \<Rightarrow> ('k, 'v) btree" where
  "btree_insert k v m =
     takeWhile (\<lambda>(k', _). k' < k) m @ (k, v) # dropWhile (\<lambda>(k', _). k' \<le> k) m"

definition btree_get :: "('k::linorder, 'v) btree \<Rightarrow> 'k \<Rightarrow> 'v option" where
  "btree_get m k = map_of m k"

definition btree_collect :: "('k::linorder \<times> 'v) list \<Rightarrow> ('k, 'v) btree" where
  "btree_collect kvs = foldl (\<lambda>m (k, v). btree_insert k v m) [] kvs"

text \<open>The interface the planner and the validators rely on.\<close>

locale ordered_map =
  fixes empty :: "'m"
    and insert :: "'k::linorder \<Rightarrow> 'v \<Rightarrow> 'm \<Rightarrow> 'm"
    and get :: "'m \<Rightarrow> 'k \<Rightarrow> 'v option"
    and entries :: "'m \<Rightarrow> ('k \<times> 'v) list"
    and inv :: "'m \<Rightarrow> bool"
  assumes inv_empty: "inv empty"
    and inv_insert: "inv m \<Longrightarrow> inv (insert k v m)"
    and get_empty: "get empty = Map.empty"
    and get_insert: "inv m \<Longrightarrow> get (insert k v m) = (get m)(k \<mapsto> v)"
    and entries_sorted: "inv m \<Longrightarrow> sorted_wrt (<) (map fst (entries m))"
    and entries_get: "inv m \<Longrightarrow> map_of (entries m) = get m"
begin

lemma fold_inv: "inv m \<Longrightarrow> inv (foldl (\<lambda>m (k, v). insert k v m) m kvs)"
  by (induction kvs arbitrary: m) (auto simp: inv_insert)

lemma fold_get:
  "inv m \<Longrightarrow> get (foldl (\<lambda>m (k, v). insert k v m) m kvs) = get m ++ map_of (rev kvs)"
proof (induction kvs arbitrary: m)
  case Nil
  then show ?case by simp
next
  case (Cons kv kvs)
  obtain k v where kv: "kv = (k, v)" by (cases kv)
  with Cons show ?case
    by (simp add: inv_insert get_insert map_add_upd_left map_add_def fun_eq_iff split: option.splits)
qed

lemma collect_inv: "inv (foldl (\<lambda>m (k, v). insert k v m) empty kvs)"
  by (rule fold_inv) (rule inv_empty)

lemma collect_get: "get (foldl (\<lambda>m (k, v). insert k v m) empty kvs) = map_of (rev kvs)"
  by (simp add: fold_get inv_empty get_empty)

lemma entries_distinct: "inv m \<Longrightarrow> distinct (map fst (entries m))"
  by (drule entries_sorted) (simp add: strict_sorted_iff)

lemma entry_iff: "inv m \<Longrightarrow> (k, v) \<in> set (entries m) \<longleftrightarrow> get m k = Some v"
  by (simp add: entries_get [symmetric] entries_distinct)

end

lemma btree_Cons:
  "btree ((a, b) # m) \<longleftrightarrow> (\<forall>x \<in> fst ` set m. a < x) \<and> btree m"
  by (simp add: btree_def)

lemma btree_insert_Nil [simp]: "btree_insert k v [] = [(k, v)]"
  by (simp add: btree_insert_def)

lemma btree_insert_Cons:
  assumes "btree ((a, b) # m)"
  shows "btree_insert k v ((a, b) # m) =
    (if a < k then (a, b) # btree_insert k v m else (k, v) # (if a = k then m else (a, b) # m))"
proof -
  have "dropWhile (\<lambda>(k', _). k' \<le> k) m = m" if "k \<le> a"
    using assms that by (cases m) (auto simp: btree_Cons)
  then show ?thesis by (auto simp: btree_insert_def)
qed

lemma btree_insert_keys:
  "btree m \<Longrightarrow> fst ` set (btree_insert k v m) = insert k (fst ` set m)"
proof (induction m)
  case Nil
  then show ?case by simp
next
  case (Cons e m)
  obtain a b where e: "e = (a, b)" by (cases e)
  with Cons.prems Cons.IH have "fst ` set (btree_insert k v m) = insert k (fst ` set m)"
    by (simp add: btree_Cons)
  then show ?case
    by (simp add: e btree_insert_Cons [OF Cons.prems [unfolded e]] insert_commute)
qed

lemma btree_insert_inv: "btree m \<Longrightarrow> btree (btree_insert k v m)"
proof (induction m)
  case Nil
  then show ?case by (simp add: btree_def)
next
  case (Cons e m)
  obtain a b where e: "e = (a, b)" by (cases e)
  with Cons.prems have m: "btree m" and lt: "\<forall>x \<in> fst ` set m. a < x"
    by (auto simp: btree_Cons)
  show ?case
  proof (cases "a < k")
    case True
    with Cons.IH m lt show ?thesis
      by (simp add: e btree_insert_Cons [OF Cons.prems [unfolded e]] btree_Cons btree_insert_keys)
  next
    case False
    with Cons.prems m lt show ?thesis
      by (force simp: e btree_insert_Cons [OF Cons.prems [unfolded e]] btree_Cons)
  qed
qed

lemma btree_insert_get: "btree m \<Longrightarrow> btree_get (btree_insert k v m) = (btree_get m)(k \<mapsto> v)"
proof (induction m)
  case Nil
  then show ?case by (simp add: btree_get_def fun_eq_iff)
next
  case (Cons e m)
  obtain a b where e: "e = (a, b)" by (cases e)
  with Cons.prems have "btree m" by (simp add: btree_Cons)
  with Cons.IH have "btree_get (btree_insert k v m) = (btree_get m)(k \<mapsto> v)" by blast
  then show ?case
    by (auto simp: e btree_insert_Cons [OF Cons.prems [unfolded e]] btree_get_def fun_eq_iff)
qed

interpretation bt: ordered_map "[]" btree_insert btree_get "\<lambda>m. m" btree
proof unfold_locales
  show "btree []" by (simp add: btree_def)
next
  fix m :: "('a, 'b) btree" and k v
  assume "btree m"
  then show "btree (btree_insert k v m)" by (rule btree_insert_inv)
next
  show "btree_get [] = Map.empty" by (simp add: btree_get_def fun_eq_iff)
next
  fix m :: "('a, 'b) btree" and k v
  assume "btree m"
  then show "btree_get (btree_insert k v m) = (btree_get m)(k \<mapsto> v)" by (rule btree_insert_get)
qed (auto simp: btree_def btree_get_def fun_eq_iff)

lemma btree_collect_inv [simp]: "btree (btree_collect kvs)"
  unfolding btree_collect_def by (rule bt.collect_inv)

lemma btree_get_collect [btree_simps]: "btree_get (btree_collect kvs) = map_of (rev kvs)"
  unfolding btree_collect_def by (rule bt.collect_get)

lemma btree_entry_iff: "(k, v) \<in> set (btree_collect kvs) \<longleftrightarrow> map_of (rev kvs) k = Some v"
  by (simp add: bt.entry_iff btree_get_collect)

lemma btree_map_of_collect [btree_simps]: "map_of (btree_collect kvs) = map_of (rev kvs)"
  using btree_get_collect [of kvs] by (simp add: btree_get_def fun_eq_iff)

lemma btree_keys_collect [btree_simps]: "fst ` set (btree_collect kvs) = fst ` set kvs"
proof -
  have "fst ` set (btree_collect kvs) = dom (map_of (btree_collect kvs))"
    by (simp add: dom_map_of_conv_image_fst)
  also have "\<dots> = dom (map_of (rev kvs))"
    by (simp only: btree_map_of_collect)
  finally show ?thesis by (simp add: dom_map_of_conv_image_fst)
qed

lemma btree_keys_distinct [simp]: "distinct (map fst (btree_collect kvs))"
  by (rule bt.entries_distinct) simp

section \<open>Results\<close>

text \<open>
  A \<open>Result<(), E>\<close> is \<open>'e + unit\<close>. \<open>and_then\<close> is the \<open>?\<close> operator before further
  checks; \<open>check_all\<close> is a loop whose body returns early with the first error.
\<close>

fun and_then :: "'e + unit \<Rightarrow> 'e + 'a \<Rightarrow> 'e + 'a" where
  "and_then (Inl e) k = Inl e"
| "and_then (Inr u) k = k"

fun check_all :: "('a \<Rightarrow> 'e + unit) \<Rightarrow> 'a list \<Rightarrow> 'e + unit" where
  "check_all f [] = Inr ()"
| "check_all f (x # xs) = and_then (f x) (check_all f xs)"

lemma and_then_Inr: "and_then r k = Inr x \<longleftrightarrow> r = Inr () \<and> k = Inr x"
  by (cases r) auto

lemma check_all_Inr: "check_all f xs = Inr () \<longleftrightarrow> (\<forall>x \<in> set xs. f x = Inr ())"
  by (induction xs) (auto simp: and_then_Inr)

lemma check_all_Inl: "check_all f xs = Inl e \<Longrightarrow> \<exists>x \<in> set xs. f x = Inl e"
proof (induction xs)
  case (Cons x xs)
  then show ?case by (cases "f x") auto
qed simp

section \<open>Binary search\<close>

text \<open>\<open>slice::binary_search\<close> of the standard library, as far as \<open>is_ok\<close> observes it.\<close>

function bs_loop :: "'a::linorder list \<Rightarrow> 'a \<Rightarrow> nat \<Rightarrow> nat \<Rightarrow> nat" where
  "bs_loop xs k base sz =
     (if sz \<le> 1 then base
      else let half = sz div 2; mid = base + half
           in bs_loop xs k (if k < xs ! mid then base else mid) (sz - half))"
  by pat_completeness auto
termination by (relation "measure (\<lambda>(xs, k, base, sz). sz)") auto

declare bs_loop.simps [simp del]

definition binary_search_ok :: "'a::linorder list \<Rightarrow> 'a \<Rightarrow> bool" where
  "binary_search_ok xs k \<longleftrightarrow> xs \<noteq> [] \<and> xs ! bs_loop xs k 0 (length xs) = k"

text \<open>A linear check of sortedness for the tables.\<close>

fun ascending :: "'a::linorder list \<Rightarrow> bool" where
  "ascending (x # y # zs) \<longleftrightarrow> x \<le> y \<and> ascending (y # zs)"
| "ascending _ \<longleftrightarrow> True"

lemma ascending_sorted: "ascending xs \<longleftrightarrow> sorted xs"
  by (induction xs rule: ascending.induct) (auto intro: order_trans)

lemma bs_loop_finds:
  assumes "sorted xs" and "base \<le> i" and "i < base + sz" and "base + sz \<le> length xs"
    and "xs ! i = k"
  shows "xs ! bs_loop xs k base sz = k"
  using assms
proof (induction xs k base sz arbitrary: i rule: bs_loop.induct)
  case (1 xs k base sz)
  show ?case
  proof (cases "sz \<le> 1")
    case True
    with 1(3,4) have "i = base" by simp
    with True 1(6) show ?thesis by (simp add: bs_loop.simps [of xs k base sz])
  next
    case False
    define mid where "mid = base + sz div 2"
    define base' where "base' = (if k < xs ! mid then base else mid)"
    have mid: "base < mid" "mid < base + sz" using False by (auto simp: mid_def)
    have step: "bs_loop xs k base sz = bs_loop xs k base' (sz - sz div 2)"
      using False by (simp add: bs_loop.simps [of xs k base sz] Let_def mid_def base'_def)
    have IH: "xs ! bs_loop xs k base' (sz - sz div 2) = k"
      if "base' \<le> j" "j < base' + (sz - sz div 2)" "xs ! j = k" for j
      using 1(1) [OF False refl refl, of j] that 1(2,5) mid
      by (auto simp: mid_def [symmetric] base'_def) (auto simp: mid_def)
    have "\<exists>j. base' \<le> j \<and> j < base' + (sz - sz div 2) \<and> xs ! j = k"
    proof (cases "k < xs ! mid")
      case True
      have "i < mid"
      proof (rule ccontr)
        assume "\<not> i < mid"
        then have "xs ! mid \<le> xs ! i" using 1(2,4,5) by (intro sorted_nth_mono) auto
        with True 1(6) show False by simp
      qed
      with True 1(3,6) show ?thesis by (intro exI [of _ i]) (auto simp: base'_def mid_def)
    next
      case ge: False
      show ?thesis
      proof (cases "mid \<le> i")
        case True
        with ge 1(4,6) mid show ?thesis by (intro exI [of _ i]) (auto simp: base'_def mid_def)
      next
        case False
        with 1(2,5,6) mid have "k \<le> xs ! mid" using sorted_nth_mono [of xs i mid] by auto
        with ge have "xs ! mid = k" by simp
        with ge mid show ?thesis by (intro exI [of _ mid]) (auto simp: base'_def mid_def)
      qed
    qed
    with IH step show ?thesis by metis
  qed
qed

lemma bs_loop_bound: "base < base + sz \<Longrightarrow> bs_loop xs k base sz < base + sz"
proof (induction xs k base sz rule: bs_loop.induct)
  case (1 xs k base sz)
  show ?case
  proof (cases "sz \<le> 1")
    case False
    then have "sz div 2 < sz" by simp
    then have "base < base + sz - sz div 2" by linarith
    with False show ?thesis
      using 1(1) [OF False refl refl]
      by (cases "k < xs ! (base + sz div 2)")
        (simp_all add: bs_loop.simps [of xs k base sz] Let_def)
  qed (use 1 in \<open>simp add: bs_loop.simps [of xs k base sz]\<close>)
qed

lemma binary_search_ok_iff: "sorted xs \<Longrightarrow> binary_search_ok xs k \<longleftrightarrow> k \<in> set xs"
  using bs_loop_finds [of xs 0 _ "length xs" k] bs_loop_bound [of 0 "length xs" xs k]
  by (fastforce simp: binary_search_ok_def in_set_conv_nth)

end
