(* ===== verification/Lease.thy ===== *)
theory Lease
  imports Prelude
begin

text \<open>
  Fenced leases (\<open>crates/graphql-orm/src/graphql/orm/lease.rs\<close>): the portable lease row, the
  proof a worker carries, and the transitions \<open>claim\<close>, \<open>heartbeat\<close>, \<open>commit_fenced_write\<close>
  and \<open>release\<close>, each with its compare-and-swap row version. A method taking \<open>&mut self\<close>
  is a function from the state to the new state and the \<open>Result\<close>. The locale \<open>cas_machine\<close>
  states the contract these transitions and the run machine built on them share.
\<close>

section \<open>Compare-and-swap machines\<close>

text \<open>Executing a sequence of operations, collecting each result.\<close>

fun run_ops :: "('s \<Rightarrow> 'op \<Rightarrow> 's \<times> 'x) \<Rightarrow> 's \<Rightarrow> 'op list \<Rightarrow> 's \<times> 'x list" where
  "run_ops exec s [] = (s, [])"
| "run_ops exec s (op # ops) =
     (let (s1, r) = exec s op; (s2, rs) = run_ops exec s1 ops in (s2, r # rs))"

locale cas_machine =
  fixes exec :: "'s \<Rightarrow> 'op \<Rightarrow> 's \<times> ('e + 'r)"
    and version :: "'s \<Rightarrow> int"
    and generation :: "'s \<Rightarrow> nat"
    and expected :: "'op \<Rightarrow> int"
  assumes failed_unchanged: "exec s op = (s', Inl e) \<Longrightarrow> s' = s"
    and ok_expected: "exec s op = (s', Inr r) \<Longrightarrow> expected op = version s"
    and ok_version: "exec s op = (s', Inr r) \<Longrightarrow> version s' = version s + 1"
    and ok_generation: "exec s op = (s', Inr r) \<Longrightarrow> generation s \<le> generation s'"
begin

lemma exec_version:
  "exec s op = (s', r) \<Longrightarrow> version s' = version s + (if isl r then 0 else 1)"
  by (cases r) (auto dest: failed_unchanged ok_version)

lemma exec_generation: "exec s op = (s', r) \<Longrightarrow> generation s \<le> generation s'"
  by (cases r) (auto dest: failed_unchanged ok_generation)

lemma run_version:
  "run_ops exec s ops = (s', rs) \<Longrightarrow>
     version s' = version s + int (length (filter (\<lambda>r. \<not> isl r) rs))"
  by (induction ops arbitrary: s s' rs) (auto dest!: exec_version split: prod.splits)

lemma run_generation: "run_ops exec s ops = (s', rs) \<Longrightarrow> generation s \<le> generation s'"
  by (induction ops arbitrary: s s' rs)
    (auto dest!: exec_generation intro: order_trans split: prod.splits)

lemma run_succeeds_at:
  "run_ops exec s ops = (s', rs) \<Longrightarrow> j < length ops \<Longrightarrow> \<not> isl (rs ! j) \<Longrightarrow>
     version s \<le> expected (ops ! j)"
proof (induction ops arbitrary: s s' rs j)
  case Nil
  then show ?case by simp
next
  case (Cons op ops)
  obtain s1 r where e: "exec s op = (s1, r)" by (cases "exec s op")
  obtain s2 rs' where t: "run_ops exec s1 ops = (s2, rs')" by (cases "run_ops exec s1 ops")
  from Cons.prems(1) e t have rs: "rs = r # rs'" by simp
  show ?case
  proof (cases j)
    case 0
    with Cons.prems(3) rs obtain x where "r = Inr x" by (cases r) auto
    with e ok_expected 0 show ?thesis by fastforce
  next
    case (Suc j')
    with Cons.prems rs have "version s1 \<le> expected (ops ! j')" by (intro Cons.IH [OF t]) auto
    with Suc exec_version [OF e] show ?thesis by (auto split: if_splits)
  qed
qed

lemma cas_serializes:
  "run_ops exec s ops = (s', rs) \<Longrightarrow> i < j \<Longrightarrow> j < length ops \<Longrightarrow>
     \<not> isl (rs ! i) \<Longrightarrow> \<not> isl (rs ! j) \<Longrightarrow> expected (ops ! i) < expected (ops ! j)"
proof (induction ops arbitrary: s s' rs i j)
  case Nil
  then show ?case by simp
next
  case (Cons op ops)
  obtain s1 r where e: "exec s op = (s1, r)" by (cases "exec s op")
  obtain s2 rs' where t: "run_ops exec s1 ops = (s2, rs')" by (cases "run_ops exec s1 ops")
  from Cons.prems(1) e t have rs: "rs = r # rs'" by simp
  from Cons.prems(2) obtain j' where j: "j = Suc j'" by (cases j) auto
  show ?case
  proof (cases i)
    case 0
    with Cons.prems(4) rs obtain x where r: "r = Inr x" by (cases r) auto
    with e ok_expected ok_version have "expected op < version s1" by fastforce
    also have "version s1 \<le> expected (ops ! j')"
      using Cons.prems rs j by (intro run_succeeds_at [OF t]) auto
    finally show ?thesis using 0 j by simp
  next
    case (Suc i')
    with Cons.prems rs j show ?thesis by (auto intro: Cons.IH [OF t])
  qed
qed

end

section \<open>Data\<close>

type_synonym fencing_token = nat

definition token_zero :: fencing_token where "token_zero = 0"

record LeaseProof =
  lp_resource_id :: str
  lp_owner_id :: str
  lp_attempt_id :: uuid
  lp_fencing_token :: fencing_token

record FencedLeaseState =
  ls_resource_id :: str
  ls_owner_id :: "str option"
  ls_attempt_id :: "uuid option"
  ls_fencing_token :: fencing_token
  ls_expires_at_ms :: "int option"
  ls_row_version :: int

datatype LeaseError =
    InvalidTtl
  | AlreadyLeased
  | Expired
  | StaleFence
  | VersionConflict int int
  | GenerationExhausted
  | VersionExhausted
  | TimeOverflow

section \<open>Operations\<close>

definition token_next :: "fencing_token \<Rightarrow> LeaseError + fencing_token" where
  "token_next t = (case u64_checked_add t 1 of None \<Rightarrow> Inl GenerationExhausted | Some t' \<Rightarrow> Inr t')"

definition lease_new :: "str \<Rightarrow> int \<Rightarrow> FencedLeaseState" where
  "lease_new resource_id row_version =
     \<lparr>ls_resource_id = resource_id, ls_owner_id = None, ls_attempt_id = None,
      ls_fencing_token = token_zero, ls_expires_at_ms = None, ls_row_version = row_version\<rparr>"

definition is_active :: "FencedLeaseState \<Rightarrow> int \<Rightarrow> bool" where
  "is_active s now_ms \<longleftrightarrow>
     ls_owner_id s \<noteq> None \<and> ls_attempt_id s \<noteq> None \<and>
     (case ls_expires_at_ms s of None \<Rightarrow> False | Some deadline \<Rightarrow> now_ms < deadline)"

definition ensure_version :: "FencedLeaseState \<Rightarrow> int \<Rightarrow> LeaseError + unit" where
  "ensure_version s expected =
     (if ls_row_version s = expected then Inr ()
      else Inl (VersionConflict expected (ls_row_version s)))"

definition claim ::
  "FencedLeaseState \<Rightarrow> str \<Rightarrow> uuid \<Rightarrow> int \<Rightarrow> int \<Rightarrow> int \<Rightarrow>
     FencedLeaseState \<times> (LeaseError + LeaseProof)" where
  "claim s owner_id attempt_id now_ms lease_ttl_ms expected_row_version =
     (if lease_ttl_ms \<le> 0 then (s, Inl InvalidTtl) else
      case ensure_version s expected_row_version of Inl e \<Rightarrow> (s, Inl e) | Inr _ \<Rightarrow>
      if is_active s now_ms then (s, Inl AlreadyLeased) else
      case i64_checked_add (ls_row_version s) 1 of None \<Rightarrow> (s, Inl VersionExhausted)
      | Some next_row_version \<Rightarrow>
      case i64_checked_add now_ms lease_ttl_ms of None \<Rightarrow> (s, Inl TimeOverflow)
      | Some expires_at_ms \<Rightarrow>
      case token_next (ls_fencing_token s) of Inl e \<Rightarrow> (s, Inl e)
      | Inr fencing_token \<Rightarrow>
        (s\<lparr>ls_owner_id := Some owner_id, ls_attempt_id := Some attempt_id,
           ls_fencing_token := fencing_token, ls_expires_at_ms := Some expires_at_ms,
           ls_row_version := next_row_version\<rparr>,
         Inr \<lparr>lp_resource_id = ls_resource_id s, lp_owner_id = owner_id,
              lp_attempt_id = attempt_id, lp_fencing_token = fencing_token\<rparr>))"

definition validate :: "FencedLeaseState \<Rightarrow> LeaseProof \<Rightarrow> int \<Rightarrow> int \<Rightarrow> LeaseError + unit" where
  "validate s proof now_ms expected_row_version =
     (case ensure_version s expected_row_version of Inl e \<Rightarrow> Inl e | Inr _ \<Rightarrow>
      if lp_resource_id proof \<noteq> ls_resource_id s
        \<or> ls_owner_id s \<noteq> Some (lp_owner_id proof)
        \<or> ls_attempt_id s \<noteq> Some (lp_attempt_id proof)
        \<or> ls_fencing_token s \<noteq> lp_fencing_token proof
      then Inl StaleFence
      else if \<not> is_active s now_ms then Inl Expired
      else Inr ())"

definition heartbeat ::
  "FencedLeaseState \<Rightarrow> LeaseProof \<Rightarrow> int \<Rightarrow> int \<Rightarrow> int \<Rightarrow> FencedLeaseState \<times> (LeaseError + unit)" where
  "heartbeat s proof now_ms lease_ttl_ms expected_row_version =
     (if lease_ttl_ms \<le> 0 then (s, Inl InvalidTtl) else
      case validate s proof now_ms expected_row_version of Inl e \<Rightarrow> (s, Inl e) | Inr _ \<Rightarrow>
      case i64_checked_add now_ms lease_ttl_ms of None \<Rightarrow> (s, Inl TimeOverflow)
      | Some expires_at_ms \<Rightarrow>
      case i64_checked_add (ls_row_version s) 1 of None \<Rightarrow> (s, Inl VersionExhausted)
      | Some next_row_version \<Rightarrow>
        (s\<lparr>ls_expires_at_ms := Some expires_at_ms, ls_row_version := next_row_version\<rparr>, Inr ()))"

definition commit_fenced_write ::
  "FencedLeaseState \<Rightarrow> LeaseProof \<Rightarrow> int \<Rightarrow> int \<Rightarrow> FencedLeaseState \<times> (LeaseError + int)" where
  "commit_fenced_write s proof now_ms expected_row_version =
     (case validate s proof now_ms expected_row_version of Inl e \<Rightarrow> (s, Inl e) | Inr _ \<Rightarrow>
      case i64_checked_add (ls_row_version s) 1 of None \<Rightarrow> (s, Inl VersionExhausted)
      | Some next_row_version \<Rightarrow>
        (s\<lparr>ls_row_version := next_row_version\<rparr>, Inr next_row_version))"

definition release ::
  "FencedLeaseState \<Rightarrow> LeaseProof \<Rightarrow> int \<Rightarrow> int \<Rightarrow> FencedLeaseState \<times> (LeaseError + unit)" where
  "release s proof now_ms expected_row_version =
     (case validate s proof now_ms expected_row_version of Inl e \<Rightarrow> (s, Inl e) | Inr _ \<Rightarrow>
      case i64_checked_add (ls_row_version s) 1 of None \<Rightarrow> (s, Inl VersionExhausted)
      | Some next_row_version \<Rightarrow>
        (s\<lparr>ls_owner_id := None, ls_attempt_id := None, ls_expires_at_ms := None,
           ls_row_version := next_row_version\<rparr>, Inr ()))"

definition display_lease_error :: "LeaseError \<Rightarrow> str" where
  "display_lease_error e =
     (case e of
        InvalidTtl \<Rightarrow> ''lease ttl must be positive''
      | AlreadyLeased \<Rightarrow> ''resource is already leased''
      | Expired \<Rightarrow> ''lease expired''
      | StaleFence \<Rightarrow> ''lease fence is stale''
      | VersionConflict expected actual \<Rightarrow>
          ''lease version conflict: expected '' @ show_int expected @ '', actual '' @ show_int actual
      | GenerationExhausted \<Rightarrow> ''lease generation exhausted''
      | VersionExhausted \<Rightarrow> ''lease version exhausted''
      | TimeOverflow \<Rightarrow> ''lease deadline overflowed'')"

text \<open>One transition of any kind, as a persistence backend would execute it.\<close>

datatype lease_op =
    OpClaim str uuid int int int
  | OpHeartbeat LeaseProof int int int
  | OpCommit LeaseProof int int
  | OpRelease LeaseProof int int

datatype lease_outcome = Claimed LeaseProof | Extended | Written int | Released

fun lease_exec :: "FencedLeaseState \<Rightarrow> lease_op \<Rightarrow> FencedLeaseState \<times> (LeaseError + lease_outcome)" where
  "lease_exec s (OpClaim owner attempt now ttl ver) =
     map_prod id (map_sum id Claimed) (claim s owner attempt now ttl ver)"
| "lease_exec s (OpHeartbeat proof now ttl ver) =
     map_prod id (map_sum id (\<lambda>_. Extended)) (heartbeat s proof now ttl ver)"
| "lease_exec s (OpCommit proof now ver) =
     map_prod id (map_sum id Written) (commit_fenced_write s proof now ver)"
| "lease_exec s (OpRelease proof now ver) =
     map_prod id (map_sum id (\<lambda>_. Released)) (release s proof now ver)"

fun op_expected :: "lease_op \<Rightarrow> int" where
  "op_expected (OpClaim _ _ _ _ ver) = ver"
| "op_expected (OpHeartbeat _ _ _ ver) = ver"
| "op_expected (OpCommit _ _ ver) = ver"
| "op_expected (OpRelease _ _ ver) = ver"

fun op_proof :: "lease_op \<Rightarrow> LeaseProof option" where
  "op_proof (OpClaim _ _ _ _ _) = None"
| "op_proof (OpHeartbeat proof _ _ _) = Some proof"
| "op_proof (OpCommit proof _ _) = Some proof"
| "op_proof (OpRelease proof _ _) = Some proof"

fun op_clock :: "lease_op \<Rightarrow> int" where
  "op_clock (OpClaim _ _ now _ _) = now"
| "op_clock (OpHeartbeat _ now _ _) = now"
| "op_clock (OpCommit _ now _) = now"
| "op_clock (OpRelease _ now _) = now"

section \<open>Invariant\<close>

text \<open>
  Owner, attempt and deadline are set and cleared together; every integer fits its Rust type.
\<close>

definition lease_wf :: "FencedLeaseState \<Rightarrow> bool" where
  "lease_wf s \<longleftrightarrow>
     (ls_owner_id s = None \<longleftrightarrow> ls_attempt_id s = None) \<and>
     (ls_owner_id s = None \<longleftrightarrow> ls_expires_at_ms s = None) \<and>
     (\<forall>d. ls_expires_at_ms s = Some d \<longrightarrow> is_i64 d) \<and>
     is_i64 (ls_row_version s) \<and> ls_fencing_token s < 2 ^ 64"

lemmas lease_op_defs =
  claim_def heartbeat_def commit_fenced_write_def release_def token_next_def

lemmas lease_splits = if_splits option.splits sum.splits

section \<open>Lemmas\<close>

lemma ensure_version_ok [simp]:
  "ensure_version s v = Inr u \<longleftrightarrow> ls_row_version s = v"
  by (simp add: ensure_version_def)

lemma validate_iff:
  "validate s proof now ver = Inr u \<longleftrightarrow>
     ls_row_version s = ver \<and> lp_resource_id proof = ls_resource_id s \<and>
     ls_owner_id s = Some (lp_owner_id proof) \<and> ls_attempt_id s = Some (lp_attempt_id proof) \<and>
     ls_fencing_token s = lp_fencing_token proof \<and> is_active s now"
  by (auto simp: validate_def ensure_version_def split: lease_splits)

lemma lease_exec_failed: "lease_exec s op = (s', Inl e) \<Longrightarrow> s' = s"
  by (cases op) (auto simp: lease_op_defs split: lease_splits)

lemma lease_exec_ok:
  assumes "lease_exec s op = (s', Inr r)"
  shows "op_expected op = ls_row_version s"
    and "ls_row_version s' = ls_row_version s + 1"
    and "is_i64 (ls_row_version s')"
    and "ls_resource_id s' = ls_resource_id s"
    and "ls_fencing_token s' = ls_fencing_token s + (case op of OpClaim _ _ _ _ _ \<Rightarrow> 1 | _ \<Rightarrow> 0)"
  using assms by (cases op; auto simp: lease_op_defs validate_iff split: lease_splits)+

lemma claim_token:
  "claim s owner attempt now ttl ver = (s', Inr p) \<Longrightarrow>
     lp_fencing_token p = ls_fencing_token s' \<and> ls_fencing_token s' = ls_fencing_token s + 1"
  by (auto simp: claim_def token_next_def split: lease_splits)

interpretation lease: cas_machine lease_exec ls_row_version ls_fencing_token op_expected
proof unfold_locales
  fix s op s' e
  assume "lease_exec s op = (s', Inl e)"
  then show "s' = s" by (rule lease_exec_failed)
next
  fix s op s' r
  assume ok: "lease_exec s op = (s', Inr r)"
  show "op_expected op = ls_row_version s" by (rule lease_exec_ok(1) [OF ok])
  show "ls_row_version s' = ls_row_version s + 1" by (rule lease_exec_ok(2) [OF ok])
  show "ls_fencing_token s \<le> ls_fencing_token s'"
    using lease_exec_ok(5) [OF ok] by (auto split: lease_op.splits)
qed

lemma stale_token_rejected:
  assumes "op_proof op = Some p" and "lp_fencing_token p < ls_fencing_token s"
  shows "\<exists>e. lease_exec s op = (s, Inl e)"
proof (cases "lease_exec s op")
  case (Pair s' r)
  show ?thesis
  proof (cases r)
    case (Inl e)
    with Pair lease_exec_failed show ?thesis by blast
  next
    case (Inr x)
    with Pair assms have False
      by (cases op) (auto simp: lease_op_defs validate_iff split: lease_splits)
    then show ?thesis ..
  qed
qed

lemma lease_exec_wf:
  assumes wf: "lease_wf s"
  shows "lease_wf (fst (lease_exec s op))"
proof (cases "lease_exec s op")
  case (Pair s' r)
  show ?thesis
  proof (cases r)
    case (Inl e)
    with Pair lease_exec_failed wf show ?thesis by fastforce
  next
    case (Inr x)
    with Pair have ok: "lease_exec s op = (s', Inr x)" by simp
    then show ?thesis
      using wf by (cases op; simp add: lease_op_defs validate_iff split: lease_splits)
        (auto simp: lease_wf_def)
  qed
qed

lemma run_lease_wf: "lease_wf s \<Longrightarrow> lease_wf (fst (run_ops lease_exec s ops))"
proof (induction ops arbitrary: s)
  case Nil
  then show ?case by simp
next
  case (Cons op ops)
  then have "lease_wf (fst (lease_exec s op))" by (intro lease_exec_wf)
  then have "lease_wf (fst (run_ops lease_exec (fst (lease_exec s op)) ops))" by (rule Cons.IH)
  then show ?case by (simp add: case_prod_beta Let_def)
qed

text \<open>
  What a holder of \<open>p\<close> relies on until the clock reaches \<open>t\<close>: the row still names it and
  the deadline is not before \<open>t\<close>.
\<close>

definition held_until :: "LeaseProof \<Rightarrow> int \<Rightarrow> FencedLeaseState \<Rightarrow> bool" where
  "held_until p t s \<longleftrightarrow>
     lp_resource_id p = ls_resource_id s \<and> ls_owner_id s = Some (lp_owner_id p) \<and>
     ls_attempt_id s = Some (lp_attempt_id p) \<and> ls_fencing_token s = lp_fencing_token p \<and>
     (\<exists>d. ls_expires_at_ms s = Some d \<and> t \<le> d)"

text \<open>
  Operations that do not give the lease of \<open>p\<close> away before \<open>t\<close>: the clock has not reached
  \<open>t\<close>, \<open>p\<close> is not released and no heartbeat shortens the deadline below \<open>t\<close>.
\<close>

fun op_keeps :: "LeaseProof \<Rightarrow> int \<Rightarrow> lease_op \<Rightarrow> bool" where
  "op_keeps p t (OpClaim _ _ now _ _) \<longleftrightarrow> now < t"
| "op_keeps p t (OpHeartbeat _ now ttl _) \<longleftrightarrow> t \<le> now + ttl"
| "op_keeps p t (OpCommit _ _ _) \<longleftrightarrow> True"
| "op_keeps p t (OpRelease q _ _) \<longleftrightarrow> q \<noteq> p"

lemma held_until_active: "held_until p t s \<Longrightarrow> now < t \<Longrightarrow> is_active s now"
  by (auto simp: held_until_def is_active_def)

lemma validate_same_proof:
  "held_until p t s \<Longrightarrow> validate s q now ver = Inr u \<Longrightarrow> q = p"
  by (cases p; cases q) (auto simp: held_until_def validate_iff)

lemma lease_exec_held:
  assumes h: "held_until p t s" and k: "op_keeps p t op"
  shows "held_until p t (fst (lease_exec s op))"
proof (cases op)
  case (OpClaim owner attempt now ttl ver)
  with k held_until_active [OF h] have "is_active s now" by simp
  with OpClaim h show ?thesis by (auto simp: claim_def split: lease_splits)
next
  case (OpHeartbeat q now ttl ver)
  with h k show ?thesis
    by (auto simp: heartbeat_def held_until_def split: lease_splits)
next
  case (OpCommit q now ver)
  with h show ?thesis by (auto simp: commit_fenced_write_def held_until_def split: lease_splits)
next
  case (OpRelease q now ver)
  with k have "q \<noteq> p" by simp
  with validate_same_proof [OF h] obtain e where "validate s q now ver = Inl e"
    by (cases "validate s q now ver") auto
  with OpRelease h show ?thesis by (simp add: release_def)
qed

lemma run_lease_held:
  "held_until p t s \<Longrightarrow> list_all (op_keeps p t) ops \<Longrightarrow>
     held_until p t (fst (run_ops lease_exec s ops))"
proof (induction ops arbitrary: s)
  case Nil
  then show ?case by simp
next
  case (Cons op ops)
  then have "held_until p t (fst (lease_exec s op))" by (simp add: lease_exec_held)
  with Cons have "held_until p t (fst (run_ops lease_exec (fst (lease_exec s op)) ops))" by simp
  then show ?case by (simp add: case_prod_beta Let_def)
qed

lemma claim_held:
  "claim s owner attempt now ttl ver = (s', Inr p) \<Longrightarrow> held_until p (now + ttl) s'"
  by (auto simp: claim_def held_until_def split: lease_splits)

section \<open>Properties\<close>

text \<open>
  C23. Fencing: once a worker's lease has been superseded by a later claim, every heartbeat,
  write or release that carries the worker's old proof fails and leaves the row unchanged,
  whatever clock, row version or further operations come in between.
\<close>

theorem lease_stale_proof_fenced:
  assumes "claim s0 owner attempt now ttl ver = (s1, Inr p)"
    and "run_ops lease_exec s1 ops = (s2, rs)"
    and "claim s2 owner' attempt' now' ttl' ver' = (s3, Inr q)"
    and "run_ops lease_exec s3 ops' = (s4, rs')"
    and "op_proof op = Some p"
  shows "\<exists>e. lease_exec s4 op = (s4, Inl e)"
proof (rule stale_token_rejected [OF assms(5)])
  have "lp_fencing_token p = ls_fencing_token s1" using claim_token [OF assms(1)] by simp
  also have "\<dots> \<le> ls_fencing_token s2" by (rule lease.run_generation [OF assms(2)])
  also have "\<dots> < ls_fencing_token s3" using claim_token [OF assms(3)] by simp
  also have "\<dots> \<le> ls_fencing_token s4" by (rule lease.run_generation [OF assms(4)])
  finally show "lp_fencing_token p < ls_fencing_token s4" .
qed

definition demo_lease :: FencedLeaseState where
  "demo_lease = lease_new ''run-1'' 0"

definition demo_claimed :: FencedLeaseState where
  "demo_claimed = fst (claim demo_lease ''w1'' 7 100 50 0)"

definition demo_proof :: LeaseProof where
  "demo_proof = \<lparr>lp_resource_id = ''run-1'', lp_owner_id = ''w1'', lp_attempt_id = 7,
     lp_fencing_token = 1\<rparr>"

lemmas demo_defs = demo_lease_def demo_claimed_def demo_proof_def lease_new_def token_zero_def
  claim_def token_next_def is_active_def ensure_version_def i64_checked_add_def
  u64_checked_add_def i64_bounds

lemma demo_claim: "claim demo_lease ''w1'' 7 100 50 0 = (demo_claimed, Inr demo_proof)"
  by (simp add: demo_defs)

definition demo_reclaimed :: FencedLeaseState where
  "demo_reclaimed = fst (claim demo_claimed ''w2'' 8 150 50 1)"

lemma demo_reclaim:
  "claim demo_claimed ''w2'' 8 150 50 1 =
     (demo_reclaimed, Inr \<lparr>lp_resource_id = ''run-1'', lp_owner_id = ''w2'', lp_attempt_id = 8,
        lp_fencing_token = 2\<rparr>)"
  by (simp add: demo_reclaimed_def demo_defs)

theorem lease_stale_proof_fenced_witness:
  "\<exists>e. lease_exec demo_reclaimed (OpCommit demo_proof 160 2) = (demo_reclaimed, Inl e)"
  by (rule lease_stale_proof_fenced [OF demo_claim, of "[]" demo_claimed "[]" "''w2''" 8 150 50 1
        demo_reclaimed _ "[]" demo_reclaimed "[]"])
    (simp_all add: demo_reclaim)

text \<open>
  C36. The row version serializes writers: in any sequence of lease operations, two operations
  that both succeed expected different row versions, the later one a strictly larger version.
  So of several writers that read the same version at most one succeeds.
\<close>

theorem lease_cas_serializes:
  assumes "run_ops lease_exec s ops = (s', rs)" and "i < j" and "j < length ops"
    and "\<not> isl (rs ! i)" and "\<not> isl (rs ! j)"
  shows "op_expected (ops ! i) < op_expected (ops ! j)"
  using assms by (rule lease.cas_serializes)

theorem lease_cas_serializes_witness:
  "op_expected ([OpClaim ''w1'' 7 100 50 0, OpCommit demo_proof 110 1] ! 0)
     < op_expected ([OpClaim ''w1'' 7 100 50 0, OpCommit demo_proof 110 1] ! 1)"
proof -
  let ?ops = "[OpClaim ''w1'' 7 100 50 0, OpCommit demo_proof 110 1]"
  obtain s' rs where run: "run_ops lease_exec demo_lease ?ops = (s', rs)"
    by (cases "run_ops lease_exec demo_lease ?ops")
  have "rs = [Inr (Claimed demo_proof), Inr (Written 2)]"
    using run by (auto simp: demo_defs commit_fenced_write_def validate_def)
  then show ?thesis
    by (intro lease_cas_serializes [OF run]) simp_all
qed

text \<open>
  C34. A granted lease is kept: from a successful claim at \<open>now\<close> with time to live \<open>ttl\<close>, after
  any interleaving of operations before the deadline in which the holder neither releases nor
  shortens its own lease, the holder's proof still validates at every time before the deadline
  (so no other worker has claimed the resource in between).
\<close>

theorem lease_held_until_deadline:
  assumes "claim s owner attempt now ttl ver = (s1, Inr p)"
    and "list_all (op_keeps p (now + ttl)) ops"
    and "t < now + ttl"
  shows "let s2 = fst (run_ops lease_exec s1 ops)
         in validate s2 p t (ls_row_version s2) = Inr ()"
proof -
  have "held_until p (now + ttl) (fst (run_ops lease_exec s1 ops))"
    using claim_held [OF assms(1)] assms(2) by (rule run_lease_held)
  with assms(3) show ?thesis
    by (auto simp: Let_def validate_iff held_until_active) (auto simp: held_until_def)
qed

theorem lease_held_until_deadline_witness:
  "let s2 = fst (run_ops lease_exec demo_claimed
       [OpClaim ''w2'' 8 120 50 1, OpCommit demo_proof 130 1])
   in validate s2 demo_proof 149 (ls_row_version s2) = Inr ()"
  by (rule lease_held_until_deadline [OF demo_claim]) simp_all

text \<open>
  C40. Well-formed rows stay well-formed: every operation keeps owner, attempt and deadline set
  together or cleared together, the row version and deadline inside \<open>i64\<close> and the fencing
  token inside \<open>u64\<close>, along every sequence of operations.
\<close>

theorem lease_wf_preserved:
  assumes "lease_wf s"
  shows "lease_wf (fst (run_ops lease_exec s ops))"
  using assms by (rule run_lease_wf)

theorem lease_wf_preserved_witness:
  "lease_wf (fst (run_ops lease_exec demo_lease [OpClaim ''w1'' 7 100 50 0, OpRelease demo_proof 120 1]))"
  by (rule lease_wf_preserved) (simp add: lease_wf_def demo_lease_def lease_new_def token_zero_def i64_bounds)

end
