(* ===== verification/RunState.thy ===== *)
theory RunState
  imports Lease
begin

text \<open>
  Durable agent-run states (\<open>crates/graphql-orm-ai/src/run_state.rs\<close>): the run state machine,
  the fenced run row \<open>AiRunLeaseMachine\<close> built on the lease of theory \<open>Lease\<close>, and the
  classification of terminal runs for retry.
\<close>

section \<open>Data\<close>

datatype AiRunState =
    Queued | Leased | Running | WaitingApproval | WaitingTool | WaitingReauth
  | WaitingProvider | WaitingSubscription | RetryScheduled | RecoveryRequired
  | Completed | Failed | Cancelled

datatype AiRunTerminalEvent =
    EvCompleted | EvFailed | EvCancelled | EvRecoveryRequired

fun from_run_state :: "AiRunState \<Rightarrow> AiRunTerminalEvent option" where
  "from_run_state Completed = Some EvCompleted"
| "from_run_state Failed = Some EvFailed"
| "from_run_state Cancelled = Some EvCancelled"
| "from_run_state RecoveryRequired = Some EvRecoveryRequired"
| "from_run_state _ = None"

definition from_event_type :: "str \<Rightarrow> AiRunTerminalEvent option" where
  "from_event_type t =
     (if t = ''run_completed'' then Some EvCompleted
      else if t = ''run_failed'' then Some EvFailed
      else if t = ''run_cancelled'' then Some EvCancelled
      else if t = ''run_recovery_required'' then Some EvRecoveryRequired
      else None)"

fun event_type :: "AiRunTerminalEvent \<Rightarrow> str" where
  "event_type EvCompleted = ''run_completed''"
| "event_type EvFailed = ''run_failed''"
| "event_type EvCancelled = ''run_cancelled''"
| "event_type EvRecoveryRequired = ''run_recovery_required''"

fun event_run_state :: "AiRunTerminalEvent \<Rightarrow> AiRunState" where
  "event_run_state EvCompleted = Completed"
| "event_run_state EvFailed = Failed"
| "event_run_state EvCancelled = Cancelled"
| "event_run_state EvRecoveryRequired = RecoveryRequired"

fun run_state_as_str :: "AiRunState \<Rightarrow> str" where
  "run_state_as_str Queued = ''queued''"
| "run_state_as_str Leased = ''leased''"
| "run_state_as_str Running = ''running''"
| "run_state_as_str WaitingApproval = ''waiting_approval''"
| "run_state_as_str WaitingTool = ''waiting_tool''"
| "run_state_as_str WaitingReauth = ''waiting_reauth''"
| "run_state_as_str WaitingProvider = ''waiting_provider''"
| "run_state_as_str WaitingSubscription = ''waiting_subscription''"
| "run_state_as_str RetryScheduled = ''retry_scheduled''"
| "run_state_as_str RecoveryRequired = ''recovery_required''"
| "run_state_as_str Completed = ''completed''"
| "run_state_as_str Failed = ''failed''"
| "run_state_as_str Cancelled = ''cancelled''"

definition from_persisted :: "str \<Rightarrow> AiRunState option" where
  "from_persisted v =
     (if v = ''queued'' then Some Queued
      else if v = ''leased'' then Some Leased
      else if v = ''running'' then Some Running
      else if v = ''waiting_approval'' then Some WaitingApproval
      else if v = ''waiting_tool'' then Some WaitingTool
      else if v = ''waiting_reauth'' then Some WaitingReauth
      else if v = ''waiting_provider'' then Some WaitingProvider
      else if v = ''waiting_subscription'' then Some WaitingSubscription
      else if v = ''retry_scheduled'' then Some RetryScheduled
      else if v = ''recovery_required'' then Some RecoveryRequired
      else if v = ''completed'' then Some Completed
      else if v = ''failed'' then Some Failed
      else if v = ''cancelled'' then Some Cancelled
      else None)"

definition is_terminal :: "AiRunState \<Rightarrow> bool" where
  "is_terminal s \<longleftrightarrow> s \<in> {Completed, Failed, Cancelled}"

fun can_transition_to :: "AiRunState \<Rightarrow> AiRunState \<Rightarrow> bool" where
  "can_transition_to Queued next \<longleftrightarrow> next \<in> {Leased, Cancelled}"
| "can_transition_to RetryScheduled next \<longleftrightarrow> next \<in> {Leased, Cancelled}"
| "can_transition_to Leased next \<longleftrightarrow> next \<in> {Running, Cancelled, Failed}"
| "can_transition_to Running next \<longleftrightarrow>
     next \<in> {WaitingApproval, WaitingTool, WaitingReauth, WaitingProvider, WaitingSubscription,
             RetryScheduled, Completed, Failed, Cancelled, RecoveryRequired}"
| "can_transition_to WaitingApproval next \<longleftrightarrow>
     next \<in> {Running, WaitingTool, WaitingReauth, Cancelled, Failed, RecoveryRequired}"
| "can_transition_to WaitingTool next \<longleftrightarrow>
     next \<in> {Running, RetryScheduled, Cancelled, Failed, RecoveryRequired}"
| "can_transition_to WaitingReauth next \<longleftrightarrow> next \<in> {Queued, Cancelled, Failed, RecoveryRequired}"
| "can_transition_to WaitingProvider next \<longleftrightarrow> next \<in> {Cancelled}"
| "can_transition_to WaitingSubscription next \<longleftrightarrow>
     next \<in> {Queued, Cancelled, Failed, RecoveryRequired}"
| "can_transition_to RecoveryRequired next \<longleftrightarrow> False"
| "can_transition_to Completed next \<longleftrightarrow> False"
| "can_transition_to Failed next \<longleftrightarrow> False"
| "can_transition_to Cancelled next \<longleftrightarrow> False"

section \<open>The fenced run row\<close>

record AiRunLeaseMachine =
  rm_state :: AiRunState
  rm_lease :: FencedLeaseState

datatype AiRunTransitionError =
    InvalidTransition AiRunState AiRunState
  | LeaseFailure LeaseError

definition run_queued :: "str \<Rightarrow> int \<Rightarrow> AiRunLeaseMachine" where
  "run_queued run_id row_version = \<lparr>rm_state = Queued, rm_lease = lease_new run_id row_version\<rparr>"

definition run_claim ::
  "AiRunLeaseMachine \<Rightarrow> str \<Rightarrow> uuid \<Rightarrow> int \<Rightarrow> int \<Rightarrow> int \<Rightarrow>
     AiRunLeaseMachine \<times> (AiRunTransitionError + LeaseProof)" where
  "run_claim m worker_id attempt_id now_ms lease_ttl_ms expected_row_version =
     (if rm_state m \<notin> {Queued, RetryScheduled}
      then (m, Inl (InvalidTransition (rm_state m) Leased))
      else case claim (rm_lease m) worker_id attempt_id now_ms lease_ttl_ms expected_row_version of
        (lease', Inl e) \<Rightarrow> (m\<lparr>rm_lease := lease'\<rparr>, Inl (LeaseFailure e))
      | (lease', Inr proof) \<Rightarrow> (m\<lparr>rm_lease := lease', rm_state := Leased\<rparr>, Inr proof))"

definition run_transition ::
  "AiRunLeaseMachine \<Rightarrow> LeaseProof \<Rightarrow> AiRunState \<Rightarrow> int \<Rightarrow> int \<Rightarrow>
     AiRunLeaseMachine \<times> (AiRunTransitionError + int)" where
  "run_transition m proof next now_ms expected_row_version =
     (if \<not> can_transition_to (rm_state m) next
      then (m, Inl (InvalidTransition (rm_state m) next))
      else case commit_fenced_write (rm_lease m) proof now_ms expected_row_version of
        (lease', Inl e) \<Rightarrow> (m\<lparr>rm_lease := lease'\<rparr>, Inl (LeaseFailure e))
      | (lease', Inr ver) \<Rightarrow> (m\<lparr>rm_lease := lease', rm_state := next\<rparr>, Inr ver))"

definition commit_child_write ::
  "AiRunLeaseMachine \<Rightarrow> LeaseProof \<Rightarrow> int \<Rightarrow> int \<Rightarrow>
     AiRunLeaseMachine \<times> (AiRunTransitionError + int)" where
  "commit_child_write m proof now_ms expected_row_version =
     (case commit_fenced_write (rm_lease m) proof now_ms expected_row_version of
        (lease', Inl e) \<Rightarrow> (m\<lparr>rm_lease := lease'\<rparr>, Inl (LeaseFailure e))
      | (lease', Inr ver) \<Rightarrow> (m\<lparr>rm_lease := lease'\<rparr>, Inr ver))"

datatype run_op =
    RunClaim str uuid int int int
  | RunTransition LeaseProof AiRunState int int
  | RunChild LeaseProof int int

datatype run_outcome = RunLeased LeaseProof | RunVersion int

fun run_exec ::
  "AiRunLeaseMachine \<Rightarrow> run_op \<Rightarrow> AiRunLeaseMachine \<times> (AiRunTransitionError + run_outcome)" where
  "run_exec m (RunClaim w a now ttl ver) =
     map_prod id (map_sum id RunLeased) (run_claim m w a now ttl ver)"
| "run_exec m (RunTransition p next now ver) =
     map_prod id (map_sum id RunVersion) (run_transition m p next now ver)"
| "run_exec m (RunChild p now ver) =
     map_prod id (map_sum id RunVersion) (commit_child_write m p now ver)"

fun run_op_expected :: "run_op \<Rightarrow> int" where
  "run_op_expected (RunClaim _ _ _ _ ver) = ver"
| "run_op_expected (RunTransition _ _ _ ver) = ver"
| "run_op_expected (RunChild _ _ ver) = ver"

section \<open>Retry classification\<close>

datatype AiRunRetryAdmission = Allowed | RefusedUncertain | RefusedAlreadyAnswered

fun admission_as_str :: "AiRunRetryAdmission \<Rightarrow> str" where
  "admission_as_str Allowed = ''allowed''"
| "admission_as_str RefusedUncertain = ''refused_uncertain''"
| "admission_as_str RefusedAlreadyAnswered = ''refused_already_answered''"

definition is_allowed :: "AiRunRetryAdmission \<Rightarrow> bool" where
  "is_allowed a \<longleftrightarrow> a = Allowed"

record AiRunRetryEvidence =
  re_terminal :: AiRunTerminalEvent
  re_produced_assistant_output :: bool
  re_provider_dispatch_possible :: bool

definition is_retryable_failure_code :: "str \<Rightarrow> bool" where
  "is_retryable_failure_code code \<longleftrightarrow>
     code \<in> {''provider_session_cleanup_unavailable'', ''provider_budget_denied'',
             ''provider_pre_transport_failed'', ''agent_rule_budget_exceeded'',
             ''agent_rule_changed_after_provider'', ''agent_turn_limit_reached'',
             ''provider_unavailable'', ''provider_rate_limited'', ''provider_request_rejected'',
             ''provider_native_item_rejected'', ''runtime_not_ready''}"

definition valid_error_classification :: "str \<Rightarrow> bool" where
  "valid_error_classification v \<longleftrightarrow>
     v \<noteq> [] \<and> length v \<le> 64 \<and> list_all (\<lambda>b. is_ascii_lowercase b \<or> b = CHR ''_'') v"

definition is_initial_planning_failure_code :: "str \<Rightarrow> bool" where
  "is_initial_planning_failure_code code =
     (let (base, classification) =
        (case split_once (CHR '':'') code of
           Some (base, classification) \<Rightarrow> (base, Some classification)
         | None \<Rightarrow> (code, None));
        qualified_base = (base \<in> {''supervised_initial_plan_failed'', ''initial_plan_failed''})
      in case classification of
           None \<Rightarrow> qualified_base \<or>
             base \<in> {''supervised_initial_plan_phase_invalid'', ''initial_plan_phase_invalid'',
                     ''supervised_initial_plan_invalid''}
         | Some c \<Rightarrow> qualified_base \<and> valid_error_classification c)"

definition classify_run_retry :: "AiRunRetryEvidence \<Rightarrow> str option \<Rightarrow> AiRunRetryAdmission" where
  "classify_run_retry evidence outcome_code =
     (case re_terminal evidence of
        EvRecoveryRequired \<Rightarrow>
          if re_produced_assistant_output evidence then RefusedAlreadyAnswered
          else if re_provider_dispatch_possible evidence then RefusedUncertain
          else Allowed
      | EvCompleted \<Rightarrow> RefusedAlreadyAnswered
      | EvCancelled \<Rightarrow>
          if re_produced_assistant_output evidence then RefusedAlreadyAnswered else Allowed
      | EvFailed \<Rightarrow>
          if re_produced_assistant_output evidence then RefusedAlreadyAnswered
          else (case outcome_code of
                  None \<Rightarrow> RefusedUncertain
                | Some code \<Rightarrow>
                    if code \<in> {''provider_pre_transport_failed'', ''provider_budget_denied''}
                       \<and> re_provider_dispatch_possible evidence then RefusedUncertain
                    else if is_retryable_failure_code code then Allowed
                    else if is_initial_planning_failure_code code
                       \<and> \<not> re_provider_dispatch_possible evidence then Allowed
                    else RefusedUncertain))"

record AiRunFailure =
  rf_code :: "str option"
  rf_retryable :: bool
  rf_admission :: AiRunRetryAdmission

definition run_failure_new :: "AiRunRetryAdmission \<Rightarrow> str option \<Rightarrow> AiRunFailure" where
  "run_failure_new admission code =
     \<lparr>rf_code = code, rf_retryable = is_allowed admission, rf_admission = admission\<rparr>"

section \<open>Lemmas\<close>

lemmas run_op_defs = run_claim_def run_transition_def commit_child_write_def

lemmas run_splits = if_splits option.splits sum.splits prod.splits

lemma claim_failed: "claim s w a now ttl ver = (s', Inl e) \<Longrightarrow> s' = s"
  using lease_exec_failed [of s "OpClaim w a now ttl ver"] by simp

lemma commit_failed: "commit_fenced_write s p now ver = (s', Inl e) \<Longrightarrow> s' = s"
  using lease_exec_failed [of s "OpCommit p now ver"] by simp

lemma claim_ok:
  "claim s w a now ttl ver = (s', Inr p) \<Longrightarrow>
     ver = ls_row_version s \<and> ls_row_version s' = ls_row_version s + 1 \<and>
     ls_fencing_token s' = ls_fencing_token s + 1 \<and> ls_owner_id s' = Some w"
  by (auto simp: claim_def token_next_def split: lease_splits)

lemma commit_ok:
  "commit_fenced_write s p now ver = (s', Inr v) \<Longrightarrow>
     ver = ls_row_version s \<and> ls_row_version s' = ls_row_version s + 1 \<and>
     ls_fencing_token s' = ls_fencing_token s \<and> ls_owner_id s' = ls_owner_id s \<and>
     v = ls_row_version s' \<and> ls_fencing_token s = lp_fencing_token p"
  by (auto simp: commit_fenced_write_def validate_iff split: lease_splits)

lemma run_exec_failed: "run_exec m op = (m', Inl e) \<Longrightarrow> m' = m"
  by (cases op) (auto simp: run_op_defs dest!: claim_failed commit_failed split: run_splits)

lemma run_exec_ok:
  "run_exec m op = (m', Inr r) \<Longrightarrow>
     run_op_expected op = ls_row_version (rm_lease m) \<and>
     ls_row_version (rm_lease m') = ls_row_version (rm_lease m) + 1 \<and>
     ls_fencing_token (rm_lease m) \<le> ls_fencing_token (rm_lease m')"
  by (cases op) (auto simp: run_op_defs dest!: claim_ok commit_ok split: run_splits)

text \<open>The run row is a compare-and-swap machine because its lease is one.\<close>

interpretation run: cas_machine run_exec "\<lambda>m. ls_row_version (rm_lease m)"
  "\<lambda>m. ls_fencing_token (rm_lease m)" run_op_expected
proof unfold_locales
  fix m op m' e
  assume "run_exec m op = (m', Inl e)"
  then show "m' = m" by (rule run_exec_failed)
next
  fix m op m' r
  assume ok: "run_exec m op = (m', Inr r)"
  show "run_op_expected op = ls_row_version (rm_lease m)" using run_exec_ok [OF ok] by simp
  show "ls_row_version (rm_lease m') = ls_row_version (rm_lease m) + 1"
    using run_exec_ok [OF ok] by simp
  show "ls_fencing_token (rm_lease m) \<le> ls_fencing_token (rm_lease m')"
    using run_exec_ok [OF ok] by simp
qed

section \<open>Reachable run rows\<close>

text \<open>The rows a queued run can reach by any interleaving of worker operations.\<close>

inductive run_step :: "AiRunLeaseMachine \<Rightarrow> AiRunLeaseMachine \<Rightarrow> bool" where
  claimed: "run_claim m w a now ttl ver = (m', Inr p) \<Longrightarrow> run_step m m'"
| moved: "run_transition m p next now ver = (m', Inr v) \<Longrightarrow> run_step m m'"
| appended: "commit_child_write m p now ver = (m', Inr v) \<Longrightarrow> run_step m m'"

inductive run_reachable :: "str \<Rightarrow> int \<Rightarrow> AiRunLeaseMachine \<Rightarrow> bool" for run_id v0 where
  start: "run_reachable run_id v0 (run_queued run_id v0)"
| step: "run_reachable run_id v0 m \<Longrightarrow> run_step m m' \<Longrightarrow> run_reachable run_id v0 m'"

inductive_cases run_stepE: "run_step m m'"

text \<open>
  What every reachable row satisfies: it belongs to the run, a row outside \<open>Queued\<close> was claimed by
  some worker, and a claim is only possible after the previous generation went through its states.
  \<open>phase_steps\<close> is the number of versions the present generation still lacks to a full cycle of
  three: claimed, running, left.
\<close>

fun phase_steps :: "AiRunState \<Rightarrow> int" where
  "phase_steps Leased = 2"
| "phase_steps Running = 1"
| "phase_steps Cancelled = 1"
| "phase_steps Failed = 1"
| "phase_steps _ = 0"

definition run_inv :: "str \<Rightarrow> int \<Rightarrow> AiRunLeaseMachine \<Rightarrow> bool" where
  "run_inv run_id v0 m \<longleftrightarrow>
     ls_resource_id (rm_lease m) = run_id \<and>
     3 * int (ls_fencing_token (rm_lease m)) \<le> ls_row_version (rm_lease m) - v0 + phase_steps (rm_state m) \<and>
     (ls_owner_id (rm_lease m) \<noteq> None \<longrightarrow> ls_fencing_token (rm_lease m) \<noteq> 0) \<and>
     (rm_state m \<noteq> Queued \<longrightarrow> ls_owner_id (rm_lease m) \<noteq> None)"

lemma transition_phase: "can_transition_to s s' \<Longrightarrow> phase_steps s \<le> phase_steps s' + 1"
  by (cases s; cases s') auto

lemma phase_bound: "phase_steps s \<le> 2"
  by (cases s) auto

lemma run_step_inv:
  assumes "run_step m m'" and "run_inv run_id v0 m"
  shows "run_inv run_id v0 m'"
  using assms
proof (cases rule: run_step.cases)
  case (claimed w a now ttl ver p)
  with assms(2) show ?thesis
    by (auto simp: run_claim_def claim_def token_next_def run_inv_def split: run_splits)
next
  case (moved p next' now ver v)
  then have "phase_steps (rm_state m) \<le> phase_steps next' + 1"
    by (auto simp: run_transition_def intro: transition_phase split: if_splits)
  with moved assms(2) show ?thesis
    by (auto simp: run_transition_def commit_fenced_write_def validate_iff run_inv_def split: run_splits)
next
  case (appended p now ver v)
  with assms(2) show ?thesis
    by (auto simp: commit_child_write_def commit_fenced_write_def validate_iff run_inv_def split: run_splits)
qed

lemma run_reachable_inv: "run_reachable run_id v0 m \<Longrightarrow> run_inv run_id v0 m"
proof (induction rule: run_reachable.induct)
  case start
  show ?case by (simp add: run_inv_def run_queued_def lease_new_def token_zero_def)
next
  case (step m m')
  then show ?case by (blast intro: run_step_inv)
qed

lemma run_step_state:
  "run_step m m' \<Longrightarrow> rm_state m' \<noteq> rm_state m \<Longrightarrow> can_transition_to (rm_state m) (rm_state m')"
  by (auto elim!: run_stepE simp: run_op_defs split: run_splits)

lemma run_step_closed:
  "run_step m m' \<Longrightarrow> from_run_state (rm_state m) \<noteq> None \<Longrightarrow> rm_state m' = rm_state m"
  using run_step_state [of m m'] by (cases "rm_state m") auto

text \<open>
  Three places where the comments promise something else: a qualified \<open>*_phase_invalid\<close> code is
  never an initial planning failure, \<open>RecoveryRequired\<close> admits no transition although
  \<open>is_terminal\<close> does not hold of it, and a transition to \<open>WaitingProvider\<close> or
  \<open>WaitingSubscription\<close>, documented as states without a lease, leaves the lease with its worker.
\<close>

lemma phase_invalid_never_qualified:
  "\<not> is_initial_planning_failure_code (''initial_plan_phase_invalid:'' @ c) \<and>
   \<not> is_initial_planning_failure_code (''supervised_initial_plan_phase_invalid:'' @ c)"
  by (simp add: is_initial_planning_failure_code_def split_once_def Let_def)

lemma recovery_required_closed:
  "\<not> can_transition_to RecoveryRequired next \<and> \<not> is_terminal RecoveryRequired"
  by (simp add: is_terminal_def)

lemma waiting_keeps_lease:
  assumes "run_transition m p next now ver = (m', Inr v)" and "next \<in> {WaitingProvider, WaitingSubscription}"
  shows "rm_state m' = next \<and> validate (rm_lease m') p now (ls_row_version (rm_lease m')) = Inr () \<and> ls_owner_id (rm_lease m') = Some (lp_owner_id p)"
  using assms by (auto simp: run_transition_def commit_fenced_write_def validate_iff is_active_def split: run_splits)

section \<open>Properties\<close>

text \<open>
  C35. A run that reached a terminal event (completed, failed, cancelled or recovery required)
  never leaves that state, under any interleaving of claims, fenced transitions and child
  writes by any workers.
\<close>

theorem run_terminal_absorbing:
  assumes "run_step\<^sup>*\<^sup>* m m'" and "from_run_state (rm_state m) = Some ev"
  shows "rm_state m' = rm_state m \<and> event_run_state ev = rm_state m'"
  using assms
proof (induction rule: rtranclp_induct)
  case base
  then show ?case by (cases "rm_state m") auto
next
  case (step m' m'')
  then show ?case using run_step_closed [of m' m''] by auto
qed

theorem run_terminal_absorbing_witness:
  "rm_state (fst (commit_child_write \<lparr>rm_state = Failed, rm_lease = demo_claimed\<rparr> demo_proof 110 1))
     = Failed \<and> event_run_state EvFailed = Failed"
proof -
  let ?m = "\<lparr>rm_state = Failed, rm_lease = demo_claimed\<rparr>"
  let ?m' = "fst (commit_child_write ?m demo_proof 110 1)"
  have "commit_child_write ?m demo_proof 110 1 = (?m', Inr 2)"
    by (simp add: run_op_defs demo_defs commit_fenced_write_def validate_def)
  then have "run_step\<^sup>*\<^sup>* ?m ?m'" by (blast intro: run_step.appended)
  from run_terminal_absorbing [OF this, of EvFailed] show ?thesis by simp
qed

text \<open>
  C38. Every row a queued run can reach keeps its resource identity, and its fencing generation is
  bounded by its history: a row that left \<open>Queued\<close> has a generation, and every generation but the
  present one took at least the three versions of a claim, a start and a step back, so a row that
  may be claimed again has at most a third as many generations as versions. The row is the
  in-memory \<open>AiRunLeaseMachine\<close>; who holds its lease is not part of the statement.
\<close>

theorem run_reachable_invariant:
  assumes "run_reachable run_id v0 m"
  shows "ls_resource_id (rm_lease m) = run_id \<and>
    3 * int (ls_fencing_token (rm_lease m)) \<le> ls_row_version (rm_lease m) - v0 + 2 \<and>
    (rm_state m \<in> {Queued, RetryScheduled} \<longrightarrow> 3 * int (ls_fencing_token (rm_lease m)) \<le> ls_row_version (rm_lease m) - v0) \<and>
    (rm_state m \<noteq> Queued \<longrightarrow> 0 < ls_fencing_token (rm_lease m))"
  using run_reachable_inv [OF assms] phase_bound [of "rm_state m"] by (auto simp: run_inv_def)

theorem run_reachable_invariant_witness:
  "run_reachable ''run-1'' 0 \<lparr>rm_state = Leased, rm_lease = demo_claimed\<rparr> \<and>
   3 * int (ls_fencing_token (rm_lease \<lparr>rm_state = Leased, rm_lease = demo_claimed\<rparr>))
     \<le> ls_row_version (rm_lease \<lparr>rm_state = Leased, rm_lease = demo_claimed\<rparr>) + 2 \<and>
   0 < ls_fencing_token (rm_lease \<lparr>rm_state = Leased, rm_lease = demo_claimed\<rparr>)"
proof -
  have "run_claim (run_queued ''run-1'' 0) ''w1'' 7 100 50 0 =
      (\<lparr>rm_state = Leased, rm_lease = demo_claimed\<rparr>, Inr demo_proof)"
    using demo_claim by (simp add: run_claim_def run_queued_def demo_lease_def)
  then have "run_step (run_queued ''run-1'' 0) \<lparr>rm_state = Leased, rm_lease = demo_claimed\<rparr>"
    by (rule run_step.claimed)
  then have "run_reachable ''run-1'' 0 \<lparr>rm_state = Leased, rm_lease = demo_claimed\<rparr>"
    by (rule run_reachable.step [OF run_reachable.start])
  with run_reachable_invariant [OF this] show ?thesis by simp
qed

text \<open>
  Two writers of a run row are serialized: in any sequence of claims, transitions and
  child writes, two that succeed expected strictly increasing row versions.
\<close>

theorem run_cas_serializes:
  assumes "run_ops run_exec m ops = (m', rs)" and "i < j" and "j < length ops"
    and "\<not> isl (rs ! i)" and "\<not> isl (rs ! j)"
  shows "run_op_expected (ops ! i) < run_op_expected (ops ! j)"
  using assms by (rule run.cas_serializes)

theorem run_cas_serializes_witness:
  "run_op_expected ([RunClaim ''w1'' 7 100 50 0, RunTransition demo_proof Running 110 1] ! 0)
     < run_op_expected ([RunClaim ''w1'' 7 100 50 0, RunTransition demo_proof Running 110 1] ! 1)"
proof -
  let ?ops = "[RunClaim ''w1'' 7 100 50 0, RunTransition demo_proof Running 110 1]"
  obtain m' rs where run: "run_ops run_exec (run_queued ''run-1'' 0) ?ops = (m', rs)"
    by (cases "run_ops run_exec (run_queued ''run-1'' 0) ?ops")
  have "rs = [Inr (RunLeased demo_proof), Inr (RunVersion 2)]"
    using run by (auto simp: run_op_defs run_queued_def demo_defs commit_fenced_write_def validate_def)
  then show ?thesis
    by (intro run_cas_serializes [OF run]) simp_all
qed

text \<open>
  C37. Retry is admitted only on proof of safety: when a terminal run is classified as
  retryable, it produced no assistant output and did not complete, and either it was
  cancelled, or committed rows exclude every provider dispatch, or it failed with a code of
  the closed allowlist other than the two codes that describe only the last turn.
\<close>

theorem retry_admission_sound:
  assumes "classify_run_retry evidence code = Allowed"
  shows "\<not> re_produced_assistant_output evidence \<and> re_terminal evidence \<noteq> EvCompleted \<and>
    (re_terminal evidence = EvCancelled \<or> \<not> re_provider_dispatch_possible evidence \<or>
     (re_terminal evidence = EvFailed \<and>
      (\<exists>c. code = Some c \<and> is_retryable_failure_code c \<and>
           c \<noteq> ''provider_pre_transport_failed'' \<and> c \<noteq> ''provider_budget_denied'')))"
  using assms
  by (auto simp: classify_run_retry_def split: AiRunTerminalEvent.splits if_splits option.splits)

text \<open>A run that failed on a rate limit after it reached the provider, without output.\<close>

definition rate_limited_run :: AiRunRetryEvidence where
  "rate_limited_run =
     \<lparr>re_terminal = EvFailed, re_produced_assistant_output = False, re_provider_dispatch_possible = True\<rparr>"

theorem retry_admission_sound_witness:
  "classify_run_retry rate_limited_run (Some ''provider_rate_limited'') = Allowed \<and>
   \<not> re_produced_assistant_output rate_limited_run \<and> re_terminal rate_limited_run \<noteq> EvCompleted \<and>
   (re_terminal rate_limited_run = EvCancelled \<or> \<not> re_provider_dispatch_possible rate_limited_run \<or>
    (re_terminal rate_limited_run = EvFailed \<and>
     (\<exists>c. Some ''provider_rate_limited'' = Some c \<and> is_retryable_failure_code c \<and>
          c \<noteq> ''provider_pre_transport_failed'' \<and> c \<noteq> ''provider_budget_denied'')))"
proof -
  have allowed: "classify_run_retry rate_limited_run (Some ''provider_rate_limited'') = Allowed" by code_simp
  from allowed retry_admission_sound [OF allowed] show ?thesis by (rule conjI)
qed

text \<open>
  Persisted run states round-trip: decoding the stored text of a state gives the state
  back, text that decodes is exactly the stored text of its state, and the owner-visible event
  names round-trip as well.
\<close>

theorem run_state_text_roundtrip:
  "(from_persisted v = Some st \<longleftrightarrow> v = run_state_as_str st) \<and>
   (from_event_type t = Some ev \<longleftrightarrow> t = event_type ev) \<and>
   from_run_state (event_run_state ev) = Some ev"
proof (intro conjI)
  show "from_persisted v = Some st \<longleftrightarrow> v = run_state_as_str st"
    by (cases st) (auto simp: from_persisted_def)
  show "from_event_type t = Some ev \<longleftrightarrow> t = event_type ev"
    by (cases ev) (auto simp: from_event_type_def)
  show "from_run_state (event_run_state ev) = Some ev"
    by (cases ev) auto
qed

end
