(* ===== verification/Dialect.thy ===== *)
theory Dialect
  imports Prelude
begin

text \<open>
  SQL dialects (\<open>crates/graphql-orm/src/graphql/orm/dialect.rs\<close>): backends, identifier
  quoting and qualified names, reserved words, and the dialect-specific expressions that
  generated statements are assembled from. Delimited SQL tokens are read back by the locale
  \<open>delimited\<close>, which states the doubled-delimiter convention that identifiers and string
  literals share.
\<close>

section \<open>Backends\<close>

datatype DatabaseBackend = Sqlite | Postgres | Mysql | Mssql

datatype SpatialPredicate =
    SpEquals | SpDisjoint | SpIntersects | SpTouches | SpCrosses | SpWithin | SpContains | SpOverlaps

fun backend_name :: "DatabaseBackend \<Rightarrow> str" where
  "backend_name Sqlite = ''sqlite''"
| "backend_name Postgres = ''postgres''"
| "backend_name Mysql = ''mysql''"
| "backend_name Mssql = ''mssql''"

definition supports_native_spatial_predicates :: "DatabaseBackend \<Rightarrow> bool" where
  "supports_native_spatial_predicates b \<longleftrightarrow> b = Postgres"

text \<open>The backend selected by the enabled cargo features.\<close>

definition current_backend :: "bool \<Rightarrow> bool \<Rightarrow> bool \<Rightarrow> DatabaseBackend" where
  "current_backend sqlite postgres mssql =
     (if sqlite \<and> \<not> (postgres \<or> mssql) then Sqlite
      else if postgres \<and> \<not> (sqlite \<or> mssql) then Postgres
      else if mssql \<and> \<not> (sqlite \<or> postgres) then Mssql
      else Sqlite)"

section \<open>Reserved words\<close>

definition SQLITE_RESERVED_IDENTIFIERS :: "str list" where
  "SQLITE_RESERVED_IDENTIFIERS =
     [''add'', ''all'', ''alter'', ''and'', ''as'', ''autoincrement'', ''between'', ''case'',
      ''cast'', ''check'', ''collate'', ''commit'', ''constraint'', ''create'', ''current_date'',
      ''current_time'', ''current_timestamp'', ''default'', ''deferrable'', ''delete'',
      ''distinct'', ''drop'', ''else'', ''escape'', ''except'', ''exists'', ''foreign'',
      ''from'', ''group'', ''having'', ''if'', ''in'', ''index'', ''insert'', ''intersect'',
      ''into'', ''is'', ''isnull'', ''join'', ''limit'', ''not'', ''nothing'', ''notnull'',
      ''null'', ''on'', ''or'', ''order'', ''primary'', ''raise'', ''references'', ''returning'',
      ''select'', ''set'', ''table'', ''then'', ''to'', ''transaction'', ''union'', ''unique'',
      ''update'', ''using'', ''values'', ''when'', ''where'']"

definition POSTGRES_RESERVED_IDENTIFIERS :: "str list" where
  "POSTGRES_RESERVED_IDENTIFIERS =
     [''all'', ''analyse'', ''analyze'', ''and'', ''any'', ''array'', ''as'', ''asc'',
      ''asymmetric'', ''authorization'', ''binary'', ''both'', ''case'', ''cast'', ''check'',
      ''collate'', ''collation'', ''column'', ''concurrently'', ''constraint'', ''create'',
      ''cross'', ''current_catalog'', ''current_date'', ''current_role'', ''current_schema'',
      ''current_time'', ''current_timestamp'', ''current_user'', ''default'', ''deferrable'',
      ''desc'', ''distinct'', ''do'', ''else'', ''end'', ''except'', ''false'', ''fetch'',
      ''for'', ''foreign'', ''freeze'', ''from'', ''full'', ''grant'', ''group'', ''having'',
      ''ilike'', ''in'', ''initially'', ''inner'', ''intersect'', ''into'', ''is'', ''isnull'',
      ''join'', ''lateral'', ''leading'', ''left'', ''like'', ''limit'', ''localtime'',
      ''localtimestamp'', ''natural'', ''not'', ''notnull'', ''null'', ''offset'', ''on'',
      ''only'', ''or'', ''order'', ''outer'', ''overlaps'', ''placing'', ''primary'',
      ''references'', ''returning'', ''right'', ''select'', ''session_user'', ''similar'',
      ''some'', ''symmetric'', ''system_user'', ''table'', ''tablesample'', ''then'', ''to'',
      ''trailing'', ''true'', ''union'', ''unique'', ''user'', ''using'', ''variadic'',
      ''verbose'', ''when'', ''where'', ''window'', ''with'']"

definition MSSQL_RESERVED_IDENTIFIERS :: "str list" where
  "MSSQL_RESERVED_IDENTIFIERS =
     [''add'', ''all'', ''alter'', ''and'', ''any'', ''as'', ''asc'', ''authorization'',
      ''backup'', ''begin'', ''between'', ''break'', ''browse'', ''bulk'', ''by'', ''cascade'',
      ''case'', ''check'', ''checkpoint'', ''close'', ''clustered'', ''coalesce'', ''collate'',
      ''column'', ''commit'', ''compute'', ''constraint'', ''contains'', ''containstable'',
      ''continue'', ''convert'', ''create'', ''cross'', ''current'', ''current_date'',
      ''current_time'', ''current_timestamp'', ''current_user'', ''cursor'', ''database'',
      ''dbcc'', ''deallocate'', ''declare'', ''default'', ''delete'', ''deny'', ''desc'',
      ''disk'', ''distinct'', ''distributed'', ''double'', ''drop'', ''dump'', ''else'', ''end'',
      ''errlvl'', ''escape'', ''except'', ''exec'', ''execute'', ''exists'', ''exit'',
      ''external'', ''fetch'', ''file'', ''fillfactor'', ''for'', ''foreign'', ''freetext'',
      ''freetexttable'', ''from'', ''full'', ''function'', ''goto'', ''grant'', ''group'',
      ''having'', ''holdlock'', ''identity'', ''identity_insert'', ''identitycol'', ''if'',
      ''in'', ''index'', ''inner'', ''insert'', ''intersect'', ''into'', ''is'', ''join'',
      ''key'', ''kill'', ''left'', ''like'', ''lineno'', ''load'', ''merge'', ''national'',
      ''nocheck'', ''nonclustered'', ''not'', ''null'', ''nullif'', ''of'', ''off'', ''offsets'',
      ''on'', ''open'', ''opendatasource'', ''openquery'', ''openrowset'', ''openxml'',
      ''option'', ''or'', ''order'', ''outer'', ''over'', ''percent'', ''pivot'', ''plan'',
      ''precision'', ''primary'', ''print'', ''proc'', ''procedure'', ''public'', ''raiserror'',
      ''read'', ''readtext'', ''reconfigure'', ''references'', ''replication'', ''restore'',
      ''restrict'', ''return'', ''revert'', ''revoke'', ''right'', ''rollback'', ''rowcount'',
      ''rowguidcol'', ''rule'', ''save'', ''schema'', ''securityaudit'', ''select'',
      ''semantickeyphrasetable'', ''semanticsimilaritydetailstable'',
      ''semanticsimilaritytable'', ''session_user'', ''set'', ''setuser'', ''shutdown'',
      ''some'', ''statistics'', ''system_user'', ''table'', ''tablesample'', ''textsize'',
      ''then'', ''to'', ''top'', ''tran'', ''transaction'', ''trigger'', ''truncate'',
      ''try_convert'', ''tsequal'', ''union'', ''unique'', ''unpivot'', ''update'',
      ''updatetext'', ''use'', ''user'', ''values'', ''varying'', ''view'', ''waitfor'',
      ''when'', ''where'', ''while'', ''with'', ''within'', ''writetext'']"

fun reserved_identifiers :: "DatabaseBackend \<Rightarrow> str list" where
  "reserved_identifiers Sqlite = SQLITE_RESERVED_IDENTIFIERS"
| "reserved_identifiers Postgres = POSTGRES_RESERVED_IDENTIFIERS"
| "reserved_identifiers Mssql = MSSQL_RESERVED_IDENTIFIERS"
| "reserved_identifiers Mysql = []"

section \<open>Identifiers\<close>

definition wrapped_in :: "char \<Rightarrow> char \<Rightarrow> str \<Rightarrow> bool" where
  "wrapped_in a b s \<longleftrightarrow> starts_with [a] s \<and> ends_with [b] s"

fun quote_identifier :: "DatabaseBackend \<Rightarrow> str \<Rightarrow> str" where
  "quote_identifier Mssql s =
     (if wrapped_in (CHR ''['') (CHR '']'') s \<or> wrapped_in dq dq s then s
      else ''['' @ replace_char (CHR '']'') '']]'' s @ '']'')"
| "quote_identifier Postgres s =
     (if wrapped_in dq dq s then s else [dq] @ replace_char dq [dq, dq] s @ [dq])"
| "quote_identifier Sqlite s =
     (if wrapped_in dq dq s \<or> wrapped_in (CHR ''['') (CHR '']'') s \<or> wrapped_in bq bq s then s
      else [dq] @ replace_char dq [dq, dq] s @ [dq])"
| "quote_identifier Mysql s = s"

text \<open>
  \<open>identifier_path_parts\<close>: the characters of the current part, the closing delimiter when
  inside a delimited part, and the rest of the input. A delimiter opens only at the start of a
  part (\<open>offset - 1 == start\<close>).
\<close>

fun path_scan :: "str \<Rightarrow> char option \<Rightarrow> str \<Rightarrow> str list" where
  "path_scan part closing [] = [part]"
| "path_scan part (Some d) (c # cs) =
     (if c = d then
        (case cs of
           [] \<Rightarrow> path_scan (part @ [c]) None cs
         | c2 # cs2 \<Rightarrow> if c2 = d then path_scan (part @ [c, c2]) (Some d) cs2
                      else path_scan (part @ [c]) None cs)
      else path_scan (part @ [c]) (Some d) cs)"
| "path_scan part None (c # cs) =
     (if (c = dq \<or> c = bq) \<and> part = [] then path_scan [c] (Some c) cs
      else if c = CHR ''['' \<and> part = [] then path_scan [c] (Some (CHR '']'')) cs
      else if c = CHR ''.'' then part # path_scan [] None cs
      else path_scan (part @ [c]) None cs)"

definition identifier_path_parts :: "str \<Rightarrow> str list" where
  "identifier_path_parts s = path_scan [] None s"

definition plain_start :: "DatabaseBackend \<Rightarrow> char \<Rightarrow> bool" where
  "plain_start b c \<longleftrightarrow>
     is_ascii_alphabetic c \<or> c = CHR ''_'' \<or> \<not> is_ascii c \<or> (b = Mssql \<and> (c = CHR ''#'' \<or> c = CHR 0x40))"

definition plain_rest :: "DatabaseBackend \<Rightarrow> char \<Rightarrow> bool" where
  "plain_rest b c \<longleftrightarrow> plain_start b c \<or> is_ascii_digit c \<or> c = CHR ''$''"

definition identifier_needs_quoting :: "DatabaseBackend \<Rightarrow> str \<Rightarrow> bool" where
  "identifier_needs_quoting b s =
     (if b = Mysql \<or> quote_identifier b s = s then False
      else case s of
        [] \<Rightarrow> True
      | first # rest \<Rightarrow>
          if \<not> plain_start b first \<or> \<not> list_all (plain_rest b) rest then True
          else binary_search_ok (reserved_identifiers b) (to_ascii_lowercase s))"

definition render_identifier :: "DatabaseBackend \<Rightarrow> str \<Rightarrow> str" where
  "render_identifier b s = (if identifier_needs_quoting b s then quote_identifier b s else s)"

definition render_identifier_path :: "DatabaseBackend \<Rightarrow> str \<Rightarrow> str" where
  "render_identifier_path b s =
     (if \<not> list_ex (\<lambda>part. part \<noteq> [] \<and> identifier_needs_quoting b part) (identifier_path_parts s)
      then s
      else join ''.'' (map (render_identifier b) (filter (\<lambda>part. part \<noteq> []) (identifier_path_parts s))))"

definition render_identifier_list :: "DatabaseBackend \<Rightarrow> str list \<Rightarrow> str" where
  "render_identifier_list b ss = join '', '' (map (render_identifier b) ss)"

definition quote_identifier_path :: "DatabaseBackend \<Rightarrow> str \<Rightarrow> str" where
  "quote_identifier_path b s =
     (if b \<noteq> Mssql \<and> b \<noteq> Postgres \<and> b \<noteq> Sqlite then s
      else join ''.'' (map (quote_identifier b) (filter (\<lambda>part. part \<noteq> []) (identifier_path_parts s))))"

section \<open>Dialect expressions\<close>

fun placeholder :: "DatabaseBackend \<Rightarrow> nat \<Rightarrow> str" where
  "placeholder Postgres i = ''$'' @ show_nat i"
| "placeholder Mssql i = CHR 0x40 # ''P'' @ show_nat i"
| "placeholder Sqlite i = ''?''"
| "placeholder Mysql i = ''?''"

definition count_projection :: "DatabaseBackend \<Rightarrow> str" where
  "count_projection b =
     (case b of Mssql \<Rightarrow> ''COUNT_BIG(*) AS [count]'' | _ \<Rightarrow> ''COUNT(*) AS count'')"

definition render_pagination :: "DatabaseBackend \<Rightarrow> int option \<Rightarrow> int \<Rightarrow> str" where
  "render_pagination b limit offset =
     (case b of
        Mssql \<Rightarrow>
          (case limit of
             Some limit \<Rightarrow>
               '' OFFSET '' @ show_int (max offset 0) @ '' ROWS FETCH NEXT '' @
               show_int (max limit 0) @ '' ROWS ONLY''
           | None \<Rightarrow> if offset > 0 then '' OFFSET '' @ show_int offset @ '' ROWS'' else [])
      | _ \<Rightarrow>
          (case limit of Some limit \<Rightarrow> '' LIMIT '' @ show_int (max limit 0) | None \<Rightarrow> []) @
          (if offset > 0 then '' OFFSET '' @ show_int offset else []))"

definition relation_key_cast :: "DatabaseBackend \<Rightarrow> str \<Rightarrow> str" where
  "relation_key_cast b column =
     (case b of
        Mssql \<Rightarrow> ''CAST('' @ column @ '' AS NVARCHAR(4000))''
      | _ \<Rightarrow> ''CAST('' @ column @ '' AS TEXT)'')"

fun current_epoch_expr :: "DatabaseBackend \<Rightarrow> str" where
  "current_epoch_expr Postgres = ''(EXTRACT(EPOCH FROM NOW())::bigint)''"
| "current_epoch_expr Mssql = (''DATEDIFF_BIG(second, '' @ [sq] @ ''1970-01-01'' @ [sq] @ '', SYSUTCDATETIME())'')"
| "current_epoch_expr Sqlite = ''(unixepoch())''"
| "current_epoch_expr Mysql = ''(unixepoch())''"

fun current_date_expr :: "DatabaseBackend \<Rightarrow> str" where
  "current_date_expr Postgres = ''CURRENT_DATE''"
| "current_date_expr Mssql = ''CAST(GETDATE() AS date)''"
| "current_date_expr Sqlite = (''date('' @ [sq] @ ''now'' @ [sq] @ '')'')"
| "current_date_expr Mysql = (''date('' @ [sq] @ ''now'' @ [sq] @ '')'')"

definition ci_like :: "DatabaseBackend \<Rightarrow> str \<Rightarrow> str \<Rightarrow> str" where
  "ci_like b column ph =
     (case b of
        Postgres \<Rightarrow> column @ '' ILIKE '' @ ph @ ('' ESCAPE '' @ [sq, bsl, sq])
      | _ \<Rightarrow> ''LOWER('' @ column @ '') LIKE LOWER('' @ ph @ ('') ESCAPE '' @ [sq, bsl, sq]))"

definition days_ago_expr :: "DatabaseBackend \<Rightarrow> int \<Rightarrow> str" where
  "days_ago_expr b days =
     (case b of
        Postgres \<Rightarrow> (''CURRENT_DATE - INTERVAL '' @ [sq]) @ show_int days @ ('' days'' @ [sq])
      | Mssql \<Rightarrow> ''DATEADD(day, -'' @ show_int days @ '', CAST(GETDATE() AS date))''
      | _ \<Rightarrow> (''date('' @ [sq] @ ''now'' @ [sq] @ '', '' @ [sq] @ ''-'') @ show_int days @ ('' days'' @ [sq] @ '')''))"

definition days_ahead_expr :: "DatabaseBackend \<Rightarrow> int \<Rightarrow> str" where
  "days_ahead_expr b days =
     (case b of
        Postgres \<Rightarrow> (''CURRENT_DATE + INTERVAL '' @ [sq]) @ show_int days @ ('' days'' @ [sq])
      | Mssql \<Rightarrow> ''DATEADD(day, '' @ show_int days @ '', CAST(GETDATE() AS date))''
      | _ \<Rightarrow> (''date('' @ [sq] @ ''now'' @ [sq] @ '', '' @ [sq] @ ''+'') @ show_int days @ ('' days'' @ [sq] @ '')''))"

definition spatial_geojson_expr :: "DatabaseBackend \<Rightarrow> str \<Rightarrow> int \<Rightarrow> str" where
  "spatial_geojson_expr b ph srid =
     (case b of
        Postgres \<Rightarrow> ''ST_SetSRID(ST_GeomFromGeoJSON('' @ ph @ ''::jsonb), '' @ show_int srid @ '')''
      | _ \<Rightarrow> ''/* spatial unsupported on '' @ backend_name b @ '' */ '' @ ph)"

fun spatial_function :: "SpatialPredicate \<Rightarrow> str" where
  "spatial_function SpEquals = ''ST_Equals(''"
| "spatial_function SpDisjoint = ''NOT ST_Intersects(''"
| "spatial_function SpIntersects = ''ST_Intersects(''"
| "spatial_function SpTouches = ''ST_Touches(''"
| "spatial_function SpCrosses = ''ST_Crosses(''"
| "spatial_function SpWithin = ''ST_Within(''"
| "spatial_function SpContains = ''ST_Contains(''"
| "spatial_function SpOverlaps = ''ST_Overlaps(''"

definition spatial_predicate :: "DatabaseBackend \<Rightarrow> SpatialPredicate \<Rightarrow> str \<Rightarrow> str \<Rightarrow> str" where
  "spatial_predicate b predicate column geometry_expr =
     (case b of
        Postgres \<Rightarrow> spatial_function predicate @ column @ '', '' @ geometry_expr @ '')''
      | _ \<Rightarrow> ''FALSE /* spatial unsupported on '' @ backend_name b @ '' */'')"

fun implicit_timestamp_defaults :: "DatabaseBackend \<Rightarrow> (str \<times> str) option" where
  "implicit_timestamp_defaults Sqlite =
     Some (''unixepoch()'', (''strftime('' @ [sq] @ ''%Y-%m-%dT%H:%M:%f000Z'' @ [sq] @ '','' @ [sq] @ ''now'' @ [sq] @ '')''))"
| "implicit_timestamp_defaults Postgres =
     Some (''EXTRACT(EPOCH FROM NOW())::bigint'',
       (''to_char(NOW() AT TIME ZONE '' @ [sq] @ ''UTC'' @ [sq] @ '', '' @ [sq] @ ''YYYY-MM-DD'' @ [dq] @ ''T'' @ [dq] @ ''HH24:MI:SS.US'' @ [dq] @ ''Z'' @ [dq, sq] @ '')''))"
| "implicit_timestamp_defaults Mssql =
     Some ((''DATEDIFF_BIG(second, '' @ [sq] @ ''1970-01-01'' @ [sq] @ '', SYSUTCDATETIME())''),
       (''CONVERT(varchar(27), SYSUTCDATETIME(), 126) + '' @ [sq] @ ''Z'' @ [sq]))"
| "implicit_timestamp_defaults Mysql = None"

section \<open>Delimited tokens\<close>

text \<open>
  How SQL reads a delimited token: up to the first closing delimiter that is not doubled. The
  reader returns the text between the delimiters and the rest of the input.
\<close>

fun scan_body :: "char \<Rightarrow> str \<Rightarrow> (str \<times> str) option" where
  "scan_body d [] = None"
| "scan_body d [c] = (if c = d then Some ([], []) else None)"
| "scan_body d (c # c2 # cs) =
     (if c = d then
        (if c2 = d then map_option (map_prod ((#) d) id) (scan_body d cs) else Some ([], c2 # cs))
      else map_option (map_prod ((#) c) id) (scan_body d (c2 # cs)))"

definition scan_delimited :: "char \<Rightarrow> char \<Rightarrow> str \<Rightarrow> (str \<times> str) option" where
  "scan_delimited a d s = (case s of [] \<Rightarrow> None | c # cs \<Rightarrow> if c = a then scan_body d cs else None)"

definition delimit :: "char \<Rightarrow> char \<Rightarrow> str \<Rightarrow> str" where
  "delimit a d s = [a] @ replace_char d [d, d] s @ [d]"

locale delimited =
  fixes encode :: "'a \<Rightarrow> str"
    and scan :: "str \<Rightarrow> ('a \<times> str) option"
    and ends :: "str \<Rightarrow> bool"
  assumes scan_encode: "ends rest \<Longrightarrow> scan (encode x @ rest) = Some (x, rest)"
    and ends_Nil: "ends []"
begin

lemma encode_prefix_free:
  assumes "encode x @ r = encode y @ r'" and "ends r" and "ends r'"
  shows "x = y \<and> r = r'"
proof -
  have "Some (x, r) = scan (encode y @ r')"
    unfolding assms(1) [symmetric] by (rule scan_encode [OF assms(2), symmetric])
  also have "\<dots> = Some (y, r')" by (rule scan_encode [OF assms(3)])
  finally show ?thesis by simp
qed

lemma encode_inj: "encode x = encode y \<Longrightarrow> x = y"
  using encode_prefix_free [of x "[]" y "[]"] ends_Nil by simp

lemma encode_list_inj:
  assumes sep: "\<And>r. ends (sep @ r)" and "sep \<noteq> []"
  shows "join sep (map encode xs) = join sep (map encode ys) \<Longrightarrow> length xs = length ys \<Longrightarrow> xs = ys"
proof (induction xs arbitrary: ys)
  case Nil
  then show ?case by simp
next
  case (Cons x xs)
  then obtain y ys' where ys: "ys = y # ys'" by (cases ys) auto
  show ?case
  proof (cases xs)
    case Nil
    with Cons.prems ys show ?thesis by (auto dest: encode_inj)
  next
    case (Cons x2 xs2)
    with Cons.prems ys have ne: "xs \<noteq> []" "ys' \<noteq> []" by auto
    with Cons.prems(1) ys have
      "encode x @ sep @ join sep (map encode xs) = encode y @ sep @ join sep (map encode ys')"
      by (simp add: join_Cons)
    from encode_prefix_free [OF this sep sep] have "x = y"
      and "join sep (map encode xs) = join sep (map encode ys')" by auto
    with Cons.IH [of ys'] Cons.prems(2) ys show ?thesis by simp
  qed
qed

end

definition not_starting :: "char \<Rightarrow> str \<Rightarrow> bool" where
  "not_starting d s \<longleftrightarrow> \<not> starts_with [d] s"

lemma not_starting_simps [simp]:
  "not_starting d []" "not_starting d (c # cs) \<longleftrightarrow> c \<noteq> d"
  by (auto simp: not_starting_def starts_with_def)

lemma scan_body_closing: "not_starting d rest \<Longrightarrow> scan_body d (d # rest) = Some ([], rest)"
  by (cases rest) auto

lemma scan_body_double:
  "not_starting d rest \<Longrightarrow> scan_body d (replace_char d [d, d] s @ d # rest) = Some (s, rest)"
proof (induction s)
  case Nil
  then show ?case by (simp add: scan_body_closing)
next
  case (Cons c cs)
  then show ?case
    by (cases "replace_char d [d, d] cs @ d # rest") auto
qed

lemma scan_delimit: "not_starting d rest \<Longrightarrow> scan_delimited a d (delimit a d s @ rest) = Some (s, rest)"
  by (simp add: scan_delimited_def delimit_def scan_body_double)

interpretation dquoted: delimited "delimit dq dq" "scan_delimited dq dq" "not_starting dq"
  by unfold_locales (simp_all add: scan_delimit)

interpretation bracketed: delimited "delimit (CHR ''['') (CHR '']'')"
  "scan_delimited (CHR ''['') (CHR '']'')" "not_starting (CHR '']'')"
  by unfold_locales (simp_all add: scan_delimit)

interpretation squoted: delimited "delimit sq sq" "scan_delimited sq sq" "not_starting sq"
  by unfold_locales (simp_all add: scan_delimit)

section \<open>Quoting\<close>

fun open_delimiter :: "DatabaseBackend \<Rightarrow> char" where
  "open_delimiter Mssql = CHR ''[''" | "open_delimiter _ = dq"

fun close_delimiter :: "DatabaseBackend \<Rightarrow> char" where
  "close_delimiter Mssql = CHR '']''" | "close_delimiter _ = dq"

lemma wrapped_in_delimit [simp]: "wrapped_in a d (delimit a d s)"
  by (simp add: wrapped_in_def delimit_def starts_with_def ends_with_def)

lemma delimit_Cons [simp]: "delimit a d s \<noteq> []"
  by (simp add: delimit_def)

lemma quote_identifier_cases:
  "quote_identifier b s = s \<or>
     (b \<noteq> Mysql \<and> quote_identifier b s = delimit (open_delimiter b) (close_delimiter b) s)"
  by (cases b) (auto simp: delimit_def)

lemma quote_identifier_delimit [simp]:
  "quote_identifier b (delimit (open_delimiter b) (close_delimiter b) s) =
     delimit (open_delimiter b) (close_delimiter b) s"
  by (cases b) auto

lemma quote_identifier_idem [simp]: "quote_identifier b (quote_identifier b s) = quote_identifier b s"
  using quote_identifier_cases [of b s] by auto

lemma quote_identifier_nonempty: "s \<noteq> [] \<Longrightarrow> quote_identifier b s \<noteq> []"
  using quote_identifier_cases [of b s] by auto

lemma render_identifier_idem [simp]: "render_identifier b (render_identifier b s) = render_identifier b s"
  by (auto simp: render_identifier_def identifier_needs_quoting_def)

lemma needs_quoting_render [simp]: "\<not> identifier_needs_quoting b (render_identifier b s)"
  by (auto simp: render_identifier_def identifier_needs_quoting_def)

lemma render_identifier_cases:
  "render_identifier b s = s \<or> render_identifier b s = quote_identifier b s"
  by (simp add: render_identifier_def)

section \<open>Qualified names\<close>

lemma path_scan_nonempty: "path_scan part closing s \<noteq> []"
proof (induction part closing s rule: path_scan.induct)
  case (2 part d c cs)
  then show ?case by (cases cs) simp_all
qed simp_all

lemma path_scan_join: "join ''.'' (path_scan part closing s) = part @ s"
proof (induction part closing s rule: path_scan.induct)
  case (2 part d c cs)
  then show ?case by (cases cs) simp_all
qed (simp_all add: join_Cons path_scan_nonempty)

text \<open>
  A part is read alone, or up to the next dot whatever follows the dot: the scanner never
  looks past the dot.
\<close>

lemma path_scan_cases:
  "path_scan part closing s = [part @ s] \<or>
     (\<exists>u v. s = u @ CHR ''.'' # v \<and>
        (\<forall>r. path_scan part closing (u @ CHR ''.'' # r) = (part @ u) # path_scan [] None r))"
  (is "?P part closing s")
proof (induction part closing s rule: path_scan.induct)
  case (1 part closing)
  then show ?case by simp
next
  case (2 part d c cs)
  show ?case
  proof (cases "c = d \<and> cs \<noteq> [] \<and> hd cs = d")
    case True
    then obtain cs2 where cs: "c = d" "cs = d # cs2" by (cases cs) auto
    with 2 have "?P (part @ [d, d]) (Some d) cs2" by auto
    then show ?thesis
    proof
      assume "\<exists>u v. cs2 = u @ CHR ''.'' # v \<and>
        (\<forall>r. path_scan (part @ [d, d]) (Some d) (u @ CHR ''.'' # r) = ((part @ [d, d]) @ u) # path_scan [] None r)"
      then obtain u v where "cs2 = u @ CHR ''.'' # v"
        "\<forall>r. path_scan (part @ [d, d]) (Some d) (u @ CHR ''.'' # r) = ((part @ [d, d]) @ u) # path_scan [] None r"
        by blast
      with cs show ?thesis by (intro disjI2 exI [of _ "d # d # u"] exI [of _ v]) auto
    qed (simp add: cs)
  next
    case False
    let ?cl = "if c = d then None else Some d"
    have step: "path_scan part (Some d) (c # t) = path_scan (part @ [c]) ?cl t"
      if "t = [] \<or> (cs \<noteq> [] \<and> hd t = hd cs)" for t
      using that False by (cases t; cases cs) auto
    have "?P (part @ [c]) ?cl cs" using 2 False by (cases cs) (auto split: if_splits)
    then show ?thesis
    proof
      assume "path_scan (part @ [c]) ?cl cs = [(part @ [c]) @ cs]"
      with step [of cs] show ?thesis by (cases cs) auto
    next
      assume "\<exists>u v. cs = u @ CHR ''.'' # v \<and>
        (\<forall>r. path_scan (part @ [c]) ?cl (u @ CHR ''.'' # r) = ((part @ [c]) @ u) # path_scan [] None r)"
      then obtain u v where u: "cs = u @ CHR ''.'' # v"
        "\<forall>r. path_scan (part @ [c]) ?cl (u @ CHR ''.'' # r) = ((part @ [c]) @ u) # path_scan [] None r"
        by blast
      have "path_scan part (Some d) ((c # u) @ CHR ''.'' # r) = (part @ c # u) # path_scan [] None r" for r
        using step [of "u @ CHR ''.'' # r"] u by (cases u) auto
      with u(1) show ?thesis by (intro disjI2 exI [of _ "c # u"] exI [of _ v]) auto
    qed
  qed
next
  case (3 part c cs)
  show ?case
  proof (cases "c = CHR ''.''")
    case True
    then show ?thesis by (intro disjI2 exI [of _ "[]"] exI [of _ cs]) auto
  next
    case False
    then obtain cl where step: "\<And>t. path_scan part None (c # t) = path_scan (part @ [c]) cl t"
      and "?P (part @ [c]) cl cs"
      using 3 by (cases "(c = dq \<or> c = bq) \<and> part = []"; cases "c = CHR ''['' \<and> part = []") auto
    from this(2) show ?thesis
    proof
      assume "\<exists>u v. cs = u @ CHR ''.'' # v \<and>
        (\<forall>r. path_scan (part @ [c]) cl (u @ CHR ''.'' # r) = ((part @ [c]) @ u) # path_scan [] None r)"
      then obtain u v where "cs = u @ CHR ''.'' # v"
        "\<forall>r. path_scan (part @ [c]) cl (u @ CHR ''.'' # r) = ((part @ [c]) @ u) # path_scan [] None r"
        by blast
      with step show ?thesis by (intro disjI2 exI [of _ "c # u"] exI [of _ v]) auto
    qed (simp add: step del: path_scan.simps)
  qed
qed

text \<open>
  \<open>dot_closed\<close>: a dot after the part ends it; \<open>whole_part\<close>: alone it is one part.
\<close>

definition dot_closed :: "str \<Rightarrow> bool" where
  "dot_closed p \<longleftrightarrow> (\<forall>r. path_scan [] None (p @ CHR ''.'' # r) = p # path_scan [] None r)"

definition whole_part :: "str \<Rightarrow> bool" where
  "whole_part p \<longleftrightarrow> path_scan [] None p = [p]"

lemma dot_closed_whole: "dot_closed p \<Longrightarrow> whole_part p"
  using path_scan_cases [of "[]" None p] by (auto simp: dot_closed_def whole_part_def)

lemma path_parts_shape:
  "\<exists>ps p. path_scan [] None s = ps @ [p] \<and> list_all dot_closed ps \<and> whole_part p"
proof (induction "length s" arbitrary: s rule: less_induct)
  case less
  from path_scan_cases [of "[]" None s] show ?case
  proof
    assume "path_scan [] None s = [[] @ s]"
    then show ?thesis by (intro exI [of _ "[]"] exI [of _ s]) (simp add: whole_part_def)
  next
    assume "\<exists>u v. s = u @ CHR ''.'' # v \<and>
      (\<forall>r. path_scan [] None (u @ CHR ''.'' # r) = ([] @ u) # path_scan [] None r)"
    then obtain u v where s: "s = u @ CHR ''.'' # v" and u: "dot_closed u"
      by (auto simp: dot_closed_def)
    from s less [of v] obtain ps p where v: "path_scan [] None v = ps @ [p]"
      "list_all dot_closed ps" "whole_part p" by auto
    have "path_scan [] None s = (u # ps) @ [p]" using u v s by (simp add: dot_closed_def)
    then show ?thesis using u v by (intro exI [of _ "u # ps"] exI [of _ p]) simp
  qed
qed

lemma path_scan_joined:
  "list_all dot_closed ps \<Longrightarrow> whole_part p \<Longrightarrow> path_scan [] None (join ''.'' (ps @ [p])) = ps @ [p]"
  by (induction ps) (auto simp: join_Cons dot_closed_def whole_part_def)

lemma path_scan_closing:
  assumes "not_starting d rest"
  shows "path_scan part (Some d) (replace_char d [d, d] s @ d # rest) =
    path_scan (part @ replace_char d [d, d] s @ [d]) None rest"
proof (induction s arbitrary: part)
  case Nil
  with assms show ?case by (cases rest) auto
next
  case (Cons c cs)
  then show ?case by (cases "c = d") simp_all
qed

lemma delimit_dot_closed:
  "dot_closed (delimit (open_delimiter b) (close_delimiter b) s)"
  by (cases b) (simp_all add: dot_closed_def delimit_def path_scan_closing)

locale part_renderer =
  fixes render :: "str \<Rightarrow> str"
  assumes render_nonempty: "p \<noteq> [] \<Longrightarrow> render p \<noteq> []"
    and render_idem: "render (render p) = render p"
    and render_closed: "render p = p \<or> dot_closed (render p)"
begin

lemma render_parts:
  assumes "filter (\<lambda>p. p \<noteq> []) (path_scan [] None s) \<noteq> []"
  shows "path_scan [] None (join ''.'' (map render (filter (\<lambda>p. p \<noteq> []) (path_scan [] None s)))) =
    map render (filter (\<lambda>p. p \<noteq> []) (path_scan [] None s))"
proof -
  obtain ps p where s: "path_scan [] None s = ps @ [p]" "list_all dot_closed ps" "whole_part p"
    using path_parts_shape by blast
  define qs where "qs = filter (\<lambda>p. p \<noteq> []) (path_scan [] None s)"
  have closed: "dot_closed (render q)" if "dot_closed q" for q
    using that render_closed [of q] by metis
  have whole: "whole_part (render q)" if "whole_part q" for q
    using that render_closed [of q] dot_closed_whole by metis
  have "list_all dot_closed (butlast qs)" and "whole_part (last qs)"
  proof -
    let ?f = "filter (\<lambda>p. p \<noteq> []) ps"
    have f: "\<forall>q \<in> set ?f. dot_closed q" using s(2) by (auto simp: list_all_iff)
    have "?f \<noteq> [] \<Longrightarrow> dot_closed (last ?f)" using f last_in_set by blast
    with f s assms show "list_all dot_closed (butlast qs)" "whole_part (last qs)"
      by (auto simp: qs_def list_all_iff intro!: dot_closed_whole dest: in_set_butlastD)
  qed
  moreover have "qs = butlast qs @ [last qs]" using assms by (simp add: qs_def)
  ultimately have "path_scan [] None (join ''.'' (map render (butlast qs) @ [render (last qs)])) =
    map render (butlast qs) @ [render (last qs)]"
    using closed whole by (intro path_scan_joined) (auto simp: list_all_iff)
  with \<open>qs = butlast qs @ [last qs]\<close> show ?thesis
    unfolding qs_def [symmetric] by (metis (no_types, lifting) list.map(1) list.map(2) map_append)
qed

lemma render_path_idem:
  fixes s :: str
  defines "qs \<equiv> map render (filter (\<lambda>p. p \<noteq> []) (path_scan [] None s))"
  shows "map render (filter (\<lambda>p. p \<noteq> []) (path_scan [] None (join ''.'' qs))) = qs"
proof (cases "filter (\<lambda>p. p \<noteq> []) (path_scan [] None s) = []")
  case True
  then show ?thesis by (simp add: qs_def)
next
  case False
  from render_parts [OF False] have "path_scan [] None (join ''.'' qs) = qs" by (simp add: qs_def)
  moreover have "filter (\<lambda>p. p \<noteq> []) qs = qs"
    using render_nonempty by (auto simp: qs_def filter_id_conv)
  moreover have "map render qs = qs" by (simp add: qs_def render_idem)
  ultimately show ?thesis by simp
qed

end

interpretation quoted_part: part_renderer "quote_identifier b"
proof unfold_locales
  show "quote_identifier b p = p \<or> dot_closed (quote_identifier b p)" for p
    using quote_identifier_cases [of b p] delimit_dot_closed by auto
qed (simp_all add: quote_identifier_nonempty)

interpretation rendered_part: part_renderer "render_identifier b"
proof unfold_locales
  show "p \<noteq> [] \<Longrightarrow> render_identifier b p \<noteq> []" for p
    using render_identifier_cases [of b p] quote_identifier_nonempty [of p b] by auto
  show "render_identifier b p = p \<or> dot_closed (render_identifier b p)" for p
    using render_identifier_cases [of b p] quoted_part.render_closed [of b p] by auto
qed simp

section \<open>Reserved words are found\<close>

text \<open>The tables are sorted as bytes, which is what the binary search needs.\<close>

lemma sqlite_reserved_sorted: "ascending SQLITE_RESERVED_IDENTIFIERS"
  by code_simp

lemma postgres_reserved_sorted: "ascending POSTGRES_RESERVED_IDENTIFIERS"
  by code_simp

lemma mssql_reserved_sorted: "ascending MSSQL_RESERVED_IDENTIFIERS"
  by code_simp

lemma reserved_sorted: "sorted (reserved_identifiers b)"
  by (cases b)
    (simp_all add: ascending_sorted [symmetric] sqlite_reserved_sorted postgres_reserved_sorted
      mssql_reserved_sorted)

section \<open>Properties\<close>

text \<open>
  C27. Quoting is injection-safe: an identifier that is not passed through is rendered as one
  delimited token, and reading that token from any statement text that continues with
  something other than the closing delimiter gives back exactly the identifier and exactly the
  rest, whatever delimiters, dots or quotes the identifier contains.
\<close>

theorem quote_identifier_reads_back:
  assumes "quote_identifier b s \<noteq> s" and "not_starting (close_delimiter b) rest"
  shows "scan_delimited (open_delimiter b) (close_delimiter b) (quote_identifier b s @ rest) = Some (s, rest)"
proof -
  have "quote_identifier b s = delimit (open_delimiter b) (close_delimiter b) s"
    using quote_identifier_cases [of b s] assms(1) by blast
  then show ?thesis using scan_delimit [OF assms(2)] by metis
qed

theorem quote_identifier_reads_back_witness:
  "scan_delimited dq dq (quote_identifier Postgres (''x'' @ [dq] @ ''; DROP'') @ '' = 1'') =
     Some (''x'' @ [dq] @ ''; DROP'', '' = 1'')"
  using quote_identifier_reads_back [of Postgres "''x'' @ [dq] @ ''; DROP''" "'' = 1''"]
  by (simp add: wrapped_in_def starts_with_def ends_with_def)

text \<open>
  Qualified names keep their parts: splitting loses nothing (joining the parts with dots
  gives the input back), a quoted path splits into exactly the quoted non-empty parts of the
  input, so no part can add or hide a qualification level, and quoting a path twice changes
  nothing.
\<close>

theorem quote_identifier_path_stable:
  assumes "b \<noteq> Mysql" and "filter (\<lambda>p. p \<noteq> []) (identifier_path_parts s) \<noteq> []"
  shows "join ''.'' (identifier_path_parts s) = s \<and>
    identifier_path_parts (quote_identifier_path b s) =
      map (quote_identifier b) (filter (\<lambda>p. p \<noteq> []) (identifier_path_parts s)) \<and>
    quote_identifier_path b (quote_identifier_path b s) = quote_identifier_path b s"
proof -
  have b: "\<not> (b \<noteq> Mssql \<and> b \<noteq> Postgres \<and> b \<noteq> Sqlite)" using assms(1) by (cases b) auto
  show ?thesis
    using quoted_part.render_parts [of s b] quoted_part.render_path_idem [of b s] assms(2)
    unfolding quote_identifier_path_def identifier_path_parts_def if_not_P [OF b]
    by (simp add: path_scan_join)
qed

theorem quote_identifier_path_stable_witness:
  "identifier_path_parts (quote_identifier_path Postgres ''app.order'') =
     [[dq] @ ''app'' @ [dq], [dq] @ ''order'' @ [dq]]"
  using quote_identifier_path_stable [of Postgres "''app.order''"]
  by (simp add: identifier_path_parts_def wrapped_in_def starts_with_def)

text \<open>
  A bare identifier is safe: when the renderer leaves an identifier that is not already
  delimited without quotes, it is non-empty, starts with a plain start character, continues
  with plain characters only, and its lower-case form is none of the backend's reserved words
  (the binary search over the reserved table is exact).
\<close>

theorem render_identifier_bare:
  assumes "b \<noteq> Mysql" and "render_identifier b s = s" and "quote_identifier b s \<noteq> s"
  shows "s \<noteq> [] \<and> plain_start b (hd s) \<and> list_all (plain_rest b) (tl s) \<and>
    to_ascii_lowercase s \<notin> set (reserved_identifiers b)"
  using assms binary_search_ok_iff [OF reserved_sorted, of b "to_ascii_lowercase s"]
  by (auto simp: render_identifier_def identifier_needs_quoting_def
      split: list.splits if_splits)

theorem render_identifier_bare_witness:
  "to_ascii_lowercase ''Link_Table'' \<notin> set (reserved_identifiers Sqlite)"
proof -
  have "render_identifier Sqlite ''Link_Table'' = ''Link_Table''" by code_simp
  from render_identifier_bare [OF _ this] show ?thesis
    by (simp add: wrapped_in_def starts_with_def ends_with_def)
qed

text \<open>
  Rendering is stable: rendering a rendered identifier or a rendered qualified name again
  returns it unchanged, so names that already went through the renderer can be rendered again
  by a later layer.
\<close>

theorem render_identifier_path_idem:
  "render_identifier b (render_identifier b s) = render_identifier b s \<and>
   render_identifier_path b (render_identifier_path b s) = render_identifier_path b s"
proof
  let ?qs = "filter (\<lambda>p. p \<noteq> []) (identifier_path_parts s)"
  show "render_identifier_path b (render_identifier_path b s) = render_identifier_path b s"
  proof (cases "list_ex (\<lambda>p. p \<noteq> [] \<and> identifier_needs_quoting b p) (identifier_path_parts s)")
    case True
    then have "?qs \<noteq> []" by (auto simp: list_ex_iff filter_empty_conv)
    then have "identifier_path_parts (render_identifier_path b s) = map (render_identifier b) ?qs"
      using True rendered_part.render_parts [of s b]
      by (simp add: render_identifier_path_def identifier_path_parts_def)
    then show ?thesis
      by (simp add: render_identifier_path_def [of b "render_identifier_path b s"] list_ex_iff)
  qed (simp add: render_identifier_path_def)
qed simp

end
