(* ===== verification/SqlText.thy ===== *)
theory SqlText
  imports Dialect
begin

text \<open>
  SQL text scanners of \<open>dialect.rs\<close>: canonical column defaults and placeholder
  normalization. Each scanner skips quoted regions; the loops over an index are functions of
  the remaining input.
\<close>

section \<open>Column defaults\<close>

text \<open>
  \<open>is_fully_parenthesized\<close>: \<open>paren_loop\<close> is its loop over the remaining characters with the
  current depth and quote (\<open>None\<close> outside quotes); the last character is at the last index.
  The depth is an \<open>i32\<close> in the source and cannot overflow on strings below two gigabytes.
\<close>

fun paren_loop :: "int \<Rightarrow> char option \<Rightarrow> str \<Rightarrow> bool" where
  "paren_loop depth quote [] \<longleftrightarrow> depth = 0"
| "paren_loop depth (Some q) (c # cs) =
     (if c = q then
        (case cs of
           [] \<Rightarrow> paren_loop depth None cs
         | c2 # cs2 \<Rightarrow> if c2 = q then paren_loop depth (Some q) cs2 else paren_loop depth None cs)
      else paren_loop depth (Some q) cs)"
| "paren_loop depth None (c # cs) =
     (if c = sq \<or> c = dq then paren_loop depth (Some c) cs
      else if c = CHR ''('' then paren_loop (depth + 1) None cs
      else if c = CHR '')'' then
        (if depth - 1 = 0 \<and> cs \<noteq> [] then False
         else if depth - 1 < 0 then False
         else paren_loop (depth - 1) None cs)
      else paren_loop depth None cs)"

definition is_fully_parenthesized :: "str \<Rightarrow> bool" where
  "is_fully_parenthesized v \<longleftrightarrow>
     \<not> (length v < 2 \<or> hd v \<noteq> CHR ''('' \<or> last v \<noteq> CHR '')'') \<and> paren_loop 0 None v"

function strip_parens :: "str \<Rightarrow> str" where
  "strip_parens v =
     (if is_fully_parenthesized v then strip_parens (trim (butlast (tl v))) else v)"
  by pat_completeness auto
termination
proof (relation "measure length", simp)
  fix v :: str
  assume "is_fully_parenthesized v"
  then have "length v \<ge> 2" by (simp add: is_fully_parenthesized_def)
  moreover have "length (trim (butlast (tl v))) \<le> length (butlast (tl v))" by (rule trim_length)
  ultimately show "(trim (butlast (tl v)), v) \<in> measure length" by simp
qed

declare strip_parens.simps [simp del]

definition canonicalize_column_default_expression :: "str \<Rightarrow> str" where
  "canonicalize_column_default_expression expr =
     (let value = strip_parens (trim expr) in
      if to_ascii_lowercase value \<in>
           {''extract(epoch from now())::bigint'', ''(extract(epoch from now()))::bigint''}
      then ''EXTRACT(EPOCH FROM NOW())::bigint''
      else let uppercase = to_ascii_uppercase value in
        if uppercase \<in> {''CURRENT_TIMESTAMP'', ''CURRENT_DATE'', ''CURRENT_TIME'', ''NULL''}
        then uppercase
        else if uppercase \<in> {''TRUE'', ''FALSE''} then to_ascii_lowercase value
        else value)"

section \<open>Placeholders\<close>

datatype scan_mode = Plain | Quoted char

text \<open>The loop of \<open>normalize_sql_placeholders\<close> with the next index and the quote state.\<close>

function normalize_loop :: "DatabaseBackend \<Rightarrow> nat \<Rightarrow> scan_mode \<Rightarrow> str \<Rightarrow> str" where
  "normalize_loop b n md [] = []"
| "normalize_loop b n (Quoted q) (c # cs) =
     c # (if c = q then
            (case cs of
               [] \<Rightarrow> normalize_loop b n Plain cs
             | c2 # cs2 \<Rightarrow> if c2 = q then c2 # normalize_loop b n (Quoted q) cs2
                          else normalize_loop b n Plain cs)
          else normalize_loop b n (Quoted q) cs)"
| "normalize_loop b n Plain (c # cs) =
     (if c = sq \<or> c = dq then c # normalize_loop b n (Quoted c) cs
      else if b = Mssql \<and> c = CHR ''['' then c # normalize_loop b n (Quoted (CHR '']'')) cs
      else if c = CHR ''?'' \<or> c = CHR ''$'' then
        placeholder b n @ normalize_loop b (n + 1) Plain (dropWhile is_ascii_digit cs)
      else if c = CHR 0x40 \<and> cs \<noteq> [] \<and> ascii_lower (hd cs) = CHR ''p'' then
        placeholder b n @ normalize_loop b (n + 1) Plain (dropWhile is_ascii_digit (tl cs))
      else c # normalize_loop b n Plain cs)"
  by pat_completeness auto
termination
proof (relation "measure (\<lambda>(b, n, md, s). length s)", goal_cases)
  case (8 b n c cs)
  show ?case using length_dropWhile_le [of is_ascii_digit cs] by simp
next
  case (9 b n c cs)
  show ?case using length_dropWhile_le [of is_ascii_digit "tl cs"] by simp
qed auto

definition normalize_sql_placeholders :: "DatabaseBackend \<Rightarrow> str \<Rightarrow> nat \<Rightarrow> str" where
  "normalize_sql_placeholders b sql start_index =
     (if b \<noteq> Postgres \<and> b \<noteq> Mssql then sql else normalize_loop b start_index Plain sql)"

section \<open>PostgreSQL statements\<close>

text \<open>
  \<open>normalize_postgres_statement\<close> scans bytes by index. \<open>byte_at\<close> is \<open>bytes.get(i)\<close>;
  \<open>skip_while\<close> is a loop that advances while a byte test holds.
\<close>

definition byte_at :: "str \<Rightarrow> nat \<Rightarrow> char option" where
  "byte_at s i = (if i < length s then Some (s ! i) else None)"

definition skip_while :: "(char \<Rightarrow> bool) \<Rightarrow> str \<Rightarrow> nat \<Rightarrow> nat" where
  "skip_while P s i = i + length (takeWhile P (drop i s))"

definition postgres_identifier_byte :: "char \<Rightarrow> bool" where
  "postgres_identifier_byte c \<longleftrightarrow>
     is_ascii_alphanumeric c \<or> c = CHR ''_'' \<or> c = CHR ''$'' \<or> 128 \<le> (of_char c :: nat)"

text \<open>The first offset at which a non-empty pattern occurs (\<open>str::find\<close>).\<close>

fun find_sub :: "str \<Rightarrow> str \<Rightarrow> nat option" where
  "find_sub pat [] = (if pat = [] then Some 0 else None)"
| "find_sub pat (c # cs) =
     (if starts_with pat (c # cs) then Some 0 else map_option Suc (find_sub pat cs))"

function pg_quote_end :: "str \<Rightarrow> char \<Rightarrow> bool \<Rightarrow> nat \<Rightarrow> nat" where
  "pg_quote_end s quote escaped i =
     (if i \<ge> length s then i
      else if escaped \<and> s ! i = bsl then pg_quote_end s quote escaped (min (i + 2) (length s))
      else if s ! i = quote then
        (if byte_at s (i + 1) = Some quote then pg_quote_end s quote escaped (i + 2) else i + 1)
      else pg_quote_end s quote escaped (i + 1))"
  by pat_completeness auto
termination by (relation "measure (\<lambda>(s, q, e, i). length s - i)") auto

declare pg_quote_end.simps [simp del]

function pg_block_end :: "str \<Rightarrow> nat \<Rightarrow> nat \<Rightarrow> nat" where
  "pg_block_end s depth i =
     (if i \<ge> length s \<or> depth = 0 then i
      else if byte_at s i = Some (CHR ''/'') \<and> byte_at s (i + 1) = Some (CHR ''*'')
      then pg_block_end s (depth + 1) (i + 2)
      else if byte_at s i = Some (CHR ''*'') \<and> byte_at s (i + 1) = Some (CHR ''/'')
      then pg_block_end s (depth - 1) (i + 2)
      else pg_block_end s depth (i + 1))"
  by pat_completeness auto
termination by (relation "measure (\<lambda>(s, d, i). length s - i)") auto

declare pg_block_end.simps [simp del]

lemma pg_quote_end_ge: "i \<le> pg_quote_end s quote escaped i"
proof (induction s quote escaped i rule: pg_quote_end.induct)
  case (1 s quote escaped i)
  then show ?case by (subst pg_quote_end.simps) (auto split: if_splits)
qed

lemma pg_block_end_ge: "i \<le> pg_block_end s depth i"
proof (induction s depth i rule: pg_block_end.induct)
  case (1 s depth i)
  then show ?case by (subst pg_block_end.simps) (auto split: if_splits)
qed

lemma skip_while_ge: "i \<le> skip_while P s i"
  by (simp add: skip_while_def)

definition pg_escaped :: "str \<Rightarrow> nat \<Rightarrow> bool" where
  "pg_escaped s i \<longleftrightarrow>
     s ! i = sq \<and> i > 0 \<and> (s ! (i - 1) = CHR ''e'' \<or> s ! (i - 1) = CHR ''E'') \<and>
     (i = 1 \<or> \<not> postgres_identifier_byte (s ! (i - 2)))"

text \<open>The end of a dollar-quoted string that opens at \<open>start\<close>, or the byte after the dollar.\<close>

definition pg_tag_end :: "str \<Rightarrow> nat \<Rightarrow> nat" where
  "pg_tag_end s i =
     (case byte_at s i of
        Some c \<Rightarrow>
          if is_ascii_alphabetic c \<or> c = CHR ''_'' \<or> 128 \<le> (of_char c :: nat)
          then skip_while (\<lambda>c. is_ascii_alphanumeric c \<or> c = CHR ''_'' \<or> 128 \<le> (of_char c :: nat)) s (i + 1)
          else i
      | None \<Rightarrow> i)"

definition pg_dollar_end :: "str \<Rightarrow> nat \<Rightarrow> nat" where
  "pg_dollar_end s start =
     (let tag_start = start + 1; i = pg_tag_end s tag_start in
      if byte_at s i = Some (CHR ''$'') then
        (let delimiter = take (i + 1 - start) (drop start s) in
         case find_sub delimiter (drop (i + 1) s) of
           None \<Rightarrow> length s
         | Some offset \<Rightarrow> i + 1 + offset + length delimiter)
      else tag_start)"

lemma pg_tag_end_ge: "i \<le> pg_tag_end s i"
  by (auto simp: pg_tag_end_def skip_while_def split: option.splits)

lemma pg_dollar_end_gt:
  assumes "start < length s"
  shows "start < pg_dollar_end s start"
  using assms pg_tag_end_ge [of "start + 1" s]
  by (auto simp: pg_dollar_end_def Let_def split: option.splits)

datatype pg_scan = Anonymous | Slots "(nat \<times> nat) list"

fun pg_push :: "nat \<times> nat \<Rightarrow> pg_scan \<Rightarrow> pg_scan" where
  "pg_push p Anonymous = Anonymous"
| "pg_push p (Slots ps) = Slots (p # ps)"

text \<open>
  The main loop: the byte ranges of the numbered parameters, or \<open>Anonymous\<close> where the source
  returns early through \<open>normalize_sql_placeholders\<close>.
\<close>

function pg_scan_loop :: "str \<Rightarrow> nat \<Rightarrow> pg_scan" where
  "pg_scan_loop s i =
     (if i \<ge> length s then Slots []
      else let c = s ! i in
      if c = sq \<or> c = dq then pg_scan_loop s (pg_quote_end s c (pg_escaped s i) (i + 1))
      else if c = CHR ''-'' \<and> byte_at s (i + 1) = Some (CHR ''-'') then
        pg_scan_loop s (skip_while (\<lambda>c. c \<noteq> nl \<and> c \<noteq> CHR 0x0D) s (i + 2))
      else if c = CHR ''/'' \<and> byte_at s (i + 1) = Some (CHR ''*'') then
        pg_scan_loop s (pg_block_end s 1 (i + 2))
      else if c = CHR ''$'' \<and> (i = 0 \<or> \<not> postgres_identifier_byte (s ! (i - 1))) then
        (case byte_at s (i + 1) of
           Some d \<Rightarrow>
             if is_ascii_digit d then
               (let j = skip_while is_ascii_digit s (i + 1) in pg_push (i, j) (pg_scan_loop s j))
             else pg_scan_loop s (pg_dollar_end s i)
         | None \<Rightarrow> pg_scan_loop s (pg_dollar_end s i))
      else if c = CHR ''?'' then Anonymous
      else if c = CHR 0x40 \<and> (case byte_at s (i + 1) of Some d \<Rightarrow> ascii_lower d = CHR ''p'' | None \<Rightarrow> False)
      then Anonymous
      else pg_scan_loop s (i + 1))"
  by pat_completeness auto
termination
proof (relation "measure (\<lambda>(s, i). length s - i)", goal_cases)
  case (2 s i c)
  then show ?case using pg_quote_end_ge [of "i + 1" s c "pg_escaped s i"] by (auto simp: Let_def)
next
  case (3 s i c)
  then show ?case using skip_while_ge [of "i + 2" "\<lambda>c. c \<noteq> nl \<and> c \<noteq> CHR 0x0D" s] by auto
next
  case (4 s i c)
  then show ?case using pg_block_end_ge [of "i + 2" s 1] by auto
next
  case (5 s i c)
  then show ?case using pg_dollar_end_gt [of i s] by auto
next
  case (6 s i c d)
  then show ?case using skip_while_ge [of "i + 1" is_ascii_digit s] by auto
next
  case (7 s i c d)
  then show ?case using pg_dollar_end_gt [of i s] by auto
qed auto

declare pg_scan_loop.simps [simp del]

text \<open>\<open>str::parse::<usize>\<close> of a run of ASCII digits on a 64-bit target.\<close>

definition parse_usize :: "str \<Rightarrow> nat option" where
  "parse_usize ds =
     (if ds = [] \<or> \<not> list_all is_ascii_digit ds then None
      else let n = foldl (\<lambda>n c. 10 * n + (of_char c - 48)) 0 ds in if n < 2 ^ 64 then Some n else None)"

definition pg_rebased :: "str \<Rightarrow> nat \<Rightarrow> nat \<times> nat \<Rightarrow> str" where
  "pg_rebased s offset = (\<lambda>(start, end').
     case parse_usize (take (end' - (start + 1)) (drop (start + 1) s)) of
       Some n \<Rightarrow>
         if n > 0 then
           (case u64_checked_add n offset of
              Some index \<Rightarrow> placeholder Postgres index
            | None \<Rightarrow> take (end' - start) (drop start s))
         else take (end' - start) (drop start s)
     | None \<Rightarrow> take (end' - start) (drop start s))"

fun pg_output :: "str \<Rightarrow> nat \<Rightarrow> nat \<Rightarrow> (nat \<times> nat) list \<Rightarrow> str" where
  "pg_output s offset previous [] = drop previous s"
| "pg_output s offset previous ((start, end') # ps) =
     take (start - previous) (drop previous s) @ pg_rebased s offset (start, end') @
     pg_output s offset end' ps"

definition normalize_postgres_statement :: "str \<Rightarrow> nat \<Rightarrow> str" where
  "normalize_postgres_statement sql start_index =
     (case pg_scan_loop sql 0 of
        Anonymous \<Rightarrow> normalize_sql_placeholders Postgres sql start_index
      | Slots parameters \<Rightarrow>
          (let offset = start_index - 1 in
           if offset = 0 then sql else pg_output sql offset 0 parameters))"

section \<open>Specification of placeholder normalization\<close>

text \<open>
  A statement as the characters outside placeholders and the placeholder slots with their
  digits; \<open>number\<close> gives the slots consecutive numbers.
\<close>

datatype sql_token = Ch char | Slot str

function slot_tokens :: "DatabaseBackend \<Rightarrow> scan_mode \<Rightarrow> str \<Rightarrow> sql_token list" where
  "slot_tokens b md [] = []"
| "slot_tokens b (Quoted q) (c # cs) =
     Ch c # (if c = q then
               (case cs of
                  [] \<Rightarrow> slot_tokens b Plain cs
                | c2 # cs2 \<Rightarrow> if c2 = q then Ch c2 # slot_tokens b (Quoted q) cs2
                             else slot_tokens b Plain cs)
             else slot_tokens b (Quoted q) cs)"
| "slot_tokens b Plain (c # cs) =
     (if c = sq \<or> c = dq then Ch c # slot_tokens b (Quoted c) cs
      else if b = Mssql \<and> c = CHR ''['' then Ch c # slot_tokens b (Quoted (CHR '']'')) cs
      else if c = CHR ''?'' \<or> c = CHR ''$'' then
        Slot (takeWhile is_ascii_digit cs) # slot_tokens b Plain (dropWhile is_ascii_digit cs)
      else if c = CHR 0x40 \<and> cs \<noteq> [] \<and> ascii_lower (hd cs) = CHR ''p'' then
        Slot (takeWhile is_ascii_digit (tl cs)) # slot_tokens b Plain (dropWhile is_ascii_digit (tl cs))
      else Ch c # slot_tokens b Plain cs)"
  by pat_completeness auto
termination
proof (relation "measure (\<lambda>(b, md, s). length s)", goal_cases)
  case (8 b c cs)
  show ?case using length_dropWhile_le [of is_ascii_digit cs] by simp
next
  case (9 b c cs)
  show ?case using length_dropWhile_le [of is_ascii_digit "tl cs"] by simp
qed auto

fun number :: "nat \<Rightarrow> sql_token list \<Rightarrow> sql_token list" where
  "number n [] = []"
| "number n (Ch c # ts) = Ch c # number n ts"
| "number n (Slot ds # ts) = Slot (show_nat n) # number (n + 1) ts"

fun token_text :: "DatabaseBackend \<Rightarrow> sql_token \<Rightarrow> str" where
  "token_text b (Ch c) = [c]"
| "token_text Postgres (Slot ds) = ''$'' @ ds"
| "token_text Mssql (Slot ds) = CHR 0x40 # ''P'' @ ds"
| "token_text _ (Slot ds) = ''?'' @ ds"

definition renumbered :: "DatabaseBackend \<Rightarrow> nat \<Rightarrow> scan_mode \<Rightarrow> str \<Rightarrow> str" where
  "renumbered b n md s = concat (map (token_text b) (number n (slot_tokens b md s)))"

lemma number_idem [simp]: "number n (number n ts) = number n ts"
  by (induction n ts rule: number.induct) auto

lemma placeholder_token: "b = Postgres \<or> b = Mssql \<Longrightarrow> placeholder b n = token_text b (Slot (show_nat n))"
  by auto

lemma normalize_loop_renumbered:
  assumes "b = Postgres \<or> b = Mssql"
  shows "normalize_loop b n md s = renumbered b n md s"
  using assms
proof (induction b n md s rule: normalize_loop.induct)
  case (2 b n q c cs)
  then show ?case by (cases cs) (simp_all add: renumbered_def)
next
  case (3 b n c cs)
  then show ?case by (simp add: renumbered_def placeholder_token [of b n])
qed (simp add: renumbered_def)

definition mode_ok :: "scan_mode \<Rightarrow> bool" where
  "mode_ok md \<longleftrightarrow> md \<in> {Plain, Quoted sq, Quoted dq, Quoted (CHR '']'')}"

lemma renumbered_head:
  assumes "b = Postgres \<or> b = Mssql"
  shows "renumbered b n md s = [] \<and> s = [] \<or>
    s \<noteq> [] \<and> renumbered b n md s \<noteq> [] \<and> hd (renumbered b n md s) \<in> {hd s, CHR ''$'', CHR 0x40}"
proof (cases s)
  case (Cons c cs)
  with assms show ?thesis by (cases md) (auto simp: renumbered_def)
qed (simp add: renumbered_def)

lemma placeholder_start_no_digit [simp]: "\<not> is_ascii_digit (CHR ''$'')" "\<not> is_ascii_digit (CHR 0x40)"
  by (simp_all add: is_ascii_digit_def)

lemma digits_then_renumbered:
  fixes cs :: str and n :: nat and md :: scan_mode
  assumes "b = Postgres \<or> b = Mssql"
  defines "rest \<equiv> renumbered b n md (dropWhile is_ascii_digit cs)"
  shows "takeWhile is_ascii_digit (show_nat k @ rest) = show_nat k"
    and "dropWhile is_ascii_digit (show_nat k @ rest) = rest"
proof -
  have "rest = [] \<or> \<not> is_ascii_digit (hd rest)"
  proof (cases "dropWhile is_ascii_digit cs")
    case Nil
    with renumbered_head [OF assms(1), of n md "[]"] show ?thesis unfolding rest_def Nil by simp
  next
    case (Cons c cs')
    then have "\<not> is_ascii_digit c" by (auto simp: dropWhile_eq_Cons_conv)
    with Cons renumbered_head [OF assms(1), of n md "c # cs'"] show ?thesis by (auto simp: rest_def)
  qed
  then have "takeWhile is_ascii_digit rest = []" and "dropWhile is_ascii_digit rest = rest"
    by (cases rest; auto)+
  then show "takeWhile is_ascii_digit (show_nat k @ rest) = show_nat k"
    and "dropWhile is_ascii_digit (show_nat k @ rest) = rest"
    using show_nat_digits [of k] by (simp_all add: takeWhile_append2 dropWhile_append2)
qed

lemma ascii_lower_p: "ascii_lower (CHR ''P'') = CHR ''p''"
  by code_simp

lemma renumbered_Quoted:
  "renumbered b n (Quoted q) (c # cs) = c # (if c = q then
      (case cs of [] \<Rightarrow> renumbered b n Plain cs
       | c2 # cs2 \<Rightarrow> if c2 = q then c2 # renumbered b n (Quoted q) cs2 else renumbered b n Plain cs)
      else renumbered b n (Quoted q) cs)"
  by (cases cs) (simp_all add: renumbered_def)

lemma renumbered_Plain:
  assumes "b = Postgres \<or> b = Mssql"
  shows "renumbered b n Plain (c # cs) =
     (if c = sq \<or> c = dq then c # renumbered b n (Quoted c) cs
      else if b = Mssql \<and> c = CHR ''['' then c # renumbered b n (Quoted (CHR '']'')) cs
      else if c = CHR ''?'' \<or> c = CHR ''$'' then
        placeholder b n @ renumbered b (n + 1) Plain (dropWhile is_ascii_digit cs)
      else if c = CHR 0x40 \<and> cs \<noteq> [] \<and> ascii_lower (hd cs) = CHR ''p'' then
        placeholder b n @ renumbered b (n + 1) Plain (dropWhile is_ascii_digit (tl cs))
      else c # renumbered b n Plain cs)"
  by (simp add: renumbered_def placeholder_token [OF assms])

lemma slot_tokens_renumbered:
  assumes "b = Postgres \<or> b = Mssql" and "mode_ok md"
  shows "slot_tokens b md (renumbered b n md s) = number n (slot_tokens b md s)"
  using assms
proof (induction b md s arbitrary: n rule: slot_tokens.induct)
  case (1 b md)
  then show ?case by (simp add: renumbered_def)
next
  case (2 b q c cs)
  have "q \<noteq> CHR ''$''" "q \<noteq> CHR 0x40" using 2(6) by (auto simp: mode_ok_def)
  with renumbered_head [OF 2(5), of n Plain cs] have H: "renumbered b n Plain cs = [] \<and> cs = [] \<or>
      (\<exists>h t. renumbered b n Plain cs = h # t \<and> (h = hd cs \<or> h \<noteq> q))"
    by (cases "renumbered b n Plain cs") auto
  show ?case
  proof (cases "c = q")
    case False
    with 2(4) [OF False 2(5,6), of n] show ?thesis unfolding renumbered_Quoted by simp
  next
    case True
    show ?thesis
    proof (cases cs)
      case Nil
      with True H show ?thesis unfolding renumbered_Quoted by (auto simp: renumbered_def)
    next
      case (Cons c2 cs2)
      show ?thesis
      proof (cases "c2 = q")
        case t: True
        with 2(2) [OF True Cons t 2(5,6), of n] True Cons show ?thesis unfolding renumbered_Quoted by simp
      next
        case f: False
        have ok: "mode_ok Plain" by (simp add: mode_ok_def)
        obtain h t where ht: "renumbered b n Plain cs = h # t" "h \<noteq> q" using H Cons f by auto
        with 2(3) [OF True Cons f 2(5) ok, of n] True Cons f show ?thesis unfolding renumbered_Quoted by simp
      qed
    qed
  qed
next
  case (3 b c cs)
  have D: "slot_tokens b Plain (placeholder b n @ renumbered b m Plain (dropWhile is_ascii_digit ds)) =
      Slot (show_nat n) # slot_tokens b Plain (renumbered b m Plain (dropWhile is_ascii_digit ds))" for m ds
    using 3(6) digits_then_renumbered [OF 3(6), where n = m and md = Plain and cs = ds and k = n] by (auto simp: ascii_lower_p)
  have A: "ascii_lower (hd (renumbered b n Plain cs)) \<noteq> CHR ''p''"
    if "cs = [] \<or> ascii_lower (hd cs) \<noteq> CHR ''p''" "renumbered b n Plain cs \<noteq> []"
    using renumbered_head [OF 3(6), of n Plain cs] that
    by (auto simp: ascii_lower_def is_ascii_uppercase_def)
  have ok: "mode_ok Plain" "mode_ok (Quoted sq)" "mode_ok (Quoted dq)" "mode_ok (Quoted (CHR '']''))"
    by (simp_all add: mode_ok_def)
  note P = renumbered_Plain [OF 3(6)]
  consider (quote) "c = sq \<or> c = dq" | (bracket) "b = Mssql" "c = CHR ''[''"
    | (slot) "c = CHR ''?'' \<or> c = CHR ''$''"
    | (named) "c = CHR 0x40" "cs \<noteq> []" "ascii_lower (hd cs) = CHR ''p''"
    | (other) "\<not> (c = sq \<or> c = dq)" "\<not> (b = Mssql \<and> c = CHR ''['')"
        "\<not> (c = CHR ''?'' \<or> c = CHR ''$'')"
        "\<not> (c = CHR 0x40 \<and> cs \<noteq> [] \<and> ascii_lower (hd cs) = CHR ''p'')"
    by blast
  then show ?case
  proof cases
    case quote
    with 3(1) [OF quote 3(6), of n] ok show ?thesis unfolding P by auto
  next
    case bracket
    with 3(2) [OF _ _ 3(6) ok(4), of n] show ?thesis unfolding P by simp
  next
    case slot
    with 3(3) [OF _ _ slot 3(6) ok(1), of "n + 1"] D show ?thesis unfolding P by auto
  next
    case named
    with 3(4) [OF _ _ _ _ 3(6) ok(1), of "n + 1"] D show ?thesis unfolding P by simp
  next
    case other
    with 3(5) [OF other 3(6) ok(1), of n] A show ?thesis unfolding P by (cases "c = CHR 0x40") auto
  qed
qed

section \<open>Canonical defaults\<close>

lemma strip_parens_result:
  "\<not> is_fully_parenthesized (strip_parens v) \<and> (trim v = v \<longrightarrow> trim (strip_parens v) = strip_parens v)"
proof (induction v rule: strip_parens.induct)
  case (1 v)
  then show ?case by (cases "is_fully_parenthesized v") (simp_all add: strip_parens.simps [of v])
qed

lemma strip_parens_fixed: "strip_parens (trim (strip_parens (trim e))) = strip_parens (trim e)"
  using strip_parens_result [of "trim e"] by (simp add: strip_parens.simps [of "strip_parens (trim e)"])

lemma canonical_keyword:
  "v \<in> {''EXTRACT(EPOCH FROM NOW())::bigint'', ''CURRENT_TIMESTAMP'', ''CURRENT_DATE'', ''CURRENT_TIME'',
     ''NULL'', ''true'', ''false''} \<Longrightarrow> canonicalize_column_default_expression v = v"
  by (elim insertE emptyE; simp only:; code_simp)

lemma lower_of_upper: "to_ascii_uppercase v = w \<Longrightarrow> to_ascii_lowercase v = to_ascii_lowercase w"
  by (auto simp: to_ascii_lower_upper)

lemma true_false_lower:
  "to_ascii_lowercase ''TRUE'' = ''true''" "to_ascii_lowercase ''FALSE'' = ''false''"
  by code_simp+

lemma canonicalize_cases:
  fixes e :: str
  defines "v \<equiv> strip_parens (trim e)"
  shows "canonicalize_column_default_expression e \<in>
      {''EXTRACT(EPOCH FROM NOW())::bigint'', ''CURRENT_TIMESTAMP'', ''CURRENT_DATE'', ''CURRENT_TIME'',
       ''NULL'', ''true'', ''false''} \<or>
    canonicalize_column_default_expression e = v \<and> canonicalize_column_default_expression v = v"
proof -
  have "to_ascii_uppercase v = ''TRUE'' \<Longrightarrow> to_ascii_lowercase v = ''true''"
    and "to_ascii_uppercase v = ''FALSE'' \<Longrightarrow> to_ascii_lowercase v = ''false''"
    using lower_of_upper [of v] true_false_lower by metis+
  then show ?thesis
    by (auto simp: canonicalize_column_default_expression_def Let_def v_def strip_parens_fixed)
qed

lemma trim_parenthesized: "trim (CHR ''('' # v @ '')'') = CHR ''('' # v @ '')''"
proof -
  have "ws_prefix ws_seqs (CHR ''('' # v @ '')'') = None"
    by (simp add: ws_prefix_def ws_seqs_def starts_with_def)
  moreover have "ws_prefix (map rev ws_seqs) (rev (CHR ''('' # v @ '')'')) = None"
    by (simp add: ws_prefix_def ws_seqs_def starts_with_def)
  ultimately show ?thesis
    by (simp add: trim_def trim_start_def trim_end_def strip_ws_id)
qed

lemma canonicalize_idem:
  "canonicalize_column_default_expression (canonicalize_column_default_expression e) =
     canonicalize_column_default_expression e"
  using canonicalize_cases [of e] canonical_keyword by metis

lemma canonicalize_parens:
  assumes "is_fully_parenthesized (CHR ''('' # e @ '')'')"
  shows "canonicalize_column_default_expression (CHR ''('' # e @ '')'') =
    canonicalize_column_default_expression e"
proof -
  have "strip_parens (CHR ''('' # e @ '')'') = strip_parens (trim e)"
    using assms by (simp add: strip_parens.simps [of "CHR ''('' # e @ '')''"])
  then show ?thesis by (simp add: canonicalize_column_default_expression_def trim_parenthesized)
qed

section \<open>Properties\<close>

text \<open>
  Canonical defaults are canonical: canonicalizing twice is canonicalizing once, and a
  balanced pair of parentheses around an expression never changes its canonical form, so the
  spelling a database reports for a default and the spelling of the entity compare equal.
\<close>

theorem canonical_default_stable:
  "canonicalize_column_default_expression (canonicalize_column_default_expression e) =
     canonicalize_column_default_expression e \<and>
   (is_fully_parenthesized (CHR ''('' # e @ '')'') \<longrightarrow>
     canonicalize_column_default_expression (CHR ''('' # e @ '')'') =
     canonicalize_column_default_expression e)"
  using canonicalize_idem canonicalize_parens by blast

theorem canonical_default_stable_witness:
  "canonicalize_column_default_expression ''(unixepoch())'' =
     canonicalize_column_default_expression ''unixepoch()''"
  using canonical_default_stable [of "''unixepoch()''"] by (simp add: is_fully_parenthesized_def)

text \<open>
  C33. Placeholder normalization renumbers and does nothing else: reading the normalized
  statement gives the same characters in the same places, with the placeholders outside quoted
  text numbered consecutively from the start index, and normalizing again changes nothing.
\<close>

theorem normalize_placeholders_renumbers:
  assumes "b = Postgres \<or> b = Mssql"
  shows "slot_tokens b Plain (normalize_sql_placeholders b s n) = number n (slot_tokens b Plain s) \<and>
    normalize_sql_placeholders b (normalize_sql_placeholders b s n) n = normalize_sql_placeholders b s n"
proof -
  have N: "normalize_sql_placeholders b t n = renumbered b n Plain t" for t
    using assms normalize_loop_renumbered [OF assms] by (auto simp: normalize_sql_placeholders_def)
  have T: "slot_tokens b Plain (renumbered b n Plain s) = number n (slot_tokens b Plain s)"
    using slot_tokens_renumbered [OF assms] by (simp add: mode_ok_def)
  have "renumbered b n Plain (renumbered b n Plain s) = renumbered b n Plain s"
    by (simp add: renumbered_def [of b n Plain "renumbered b n Plain s"] T)
      (simp add: renumbered_def)
  with N T show ?thesis by simp
qed

theorem normalize_placeholders_renumbers_witness:
  "slot_tokens Postgres Plain (normalize_sql_placeholders Postgres ''a = ? OR b = $9'' 3) =
     number 3 (slot_tokens Postgres Plain ''a = ? OR b = $9'')"
  using normalize_placeholders_renumbers [of Postgres "''a = ? OR b = $9''" 3] by simp

end
