(* ===== verification/Schema.thy ===== *)
theory Schema
  imports SqlText
begin

text \<open>
  The physical schema contract (\<open>orm/core.rs\<close> and \<open>orm/owned_schema.rs\<close>): columns, indexes,
  foreign keys, search indexes and tables, the conversion from entity metadata, generated
  names, and \<open>validate_physical_contract\<close>. The borrowed \<open>*Ref\<close> views and the \<open>'static\<close>
  legacy storage of the source hold the same fields and are one record here.
\<close>

section \<open>Data\<close>

datatype SearchWeight = WeightA | WeightB | WeightC | WeightD

fun weight_as_str :: "SearchWeight \<Rightarrow> str" where
  "weight_as_str WeightA = ''A''" | "weight_as_str WeightB = ''B''"
| "weight_as_str WeightC = ''C''" | "weight_as_str WeightD = ''D''"

datatype SearchIndexStrategy =
  PostgresTsvector | SqliteFts5 | FallbackTable | MysqlFullText | MssqlFullText

fun strategy_as_str :: "SearchIndexStrategy \<Rightarrow> str" where
  "strategy_as_str PostgresTsvector = ''postgres_tsvector''"
| "strategy_as_str SqliteFts5 = ''sqlite_fts5''"
| "strategy_as_str FallbackTable = ''fallback_table''"
| "strategy_as_str MysqlFullText = ''mysql_fulltext''"
| "strategy_as_str MssqlFullText = ''mssql_fulltext''"

datatype SpatialKind = KindGeometry

fun kind_as_sql :: "SpatialKind \<Rightarrow> str" where
  "kind_as_sql KindGeometry = ''geometry''"

datatype SpatialGeometryType =
    GtGeometry | GtPoint | GtLineString | GtPolygon | GtMultiPoint | GtMultiLineString
  | GtMultiPolygon | GtGeometryCollection

fun geometry_as_sql :: "SpatialGeometryType \<Rightarrow> str" where
  "geometry_as_sql GtGeometry = ''Geometry''"
| "geometry_as_sql GtPoint = ''Point''"
| "geometry_as_sql GtLineString = ''LineString''"
| "geometry_as_sql GtPolygon = ''Polygon''"
| "geometry_as_sql GtMultiPoint = ''MultiPoint''"
| "geometry_as_sql GtMultiLineString = ''MultiLineString''"
| "geometry_as_sql GtMultiPolygon = ''MultiPolygon''"
| "geometry_as_sql GtGeometryCollection = ''GeometryCollection''"

definition geometry_from_sql :: "str \<Rightarrow> SpatialGeometryType option" where
  "geometry_from_sql v =
     (let l = to_ascii_lowercase v in
      if l = ''geometry'' then Some GtGeometry
      else if l = ''point'' then Some GtPoint
      else if l = ''linestring'' then Some GtLineString
      else if l = ''polygon'' then Some GtPolygon
      else if l = ''multipoint'' then Some GtMultiPoint
      else if l = ''multilinestring'' then Some GtMultiLineString
      else if l = ''multipolygon'' then Some GtMultiPolygon
      else if l = ''geometrycollection'' then Some GtGeometryCollection
      else None)"

record SpatialColumnDef =
  sp_kind :: SpatialKind
  sp_geometry_type :: SpatialGeometryType
  sp_srid :: int

definition spatial_sql_type :: "SpatialColumnDef \<Rightarrow> str" where
  "spatial_sql_type s =
     kind_as_sql (sp_kind s) @ ''('' @ geometry_as_sql (sp_geometry_type s) @ '','' @ show_int (sp_srid s) @ '')''"

datatype IndexMethod = MethodDefault | Gist

datatype IndexDirection = Asc | Desc

fun direction_as_sql :: "IndexDirection \<Rightarrow> str" where
  "direction_as_sql Asc = ''ASC''" | "direction_as_sql Desc = ''DESC''"

datatype DeletePolicy = Restrict | Cascade | SetNull

fun delete_as_sql :: "DeletePolicy \<Rightarrow> str" where
  "delete_as_sql Restrict = ''RESTRICT''"
| "delete_as_sql Cascade = ''CASCADE''"
| "delete_as_sql SetNull = ''SET NULL''"

text \<open>The derived \<open>Ord\<close> of \<open>DeletePolicy\<close>: declaration order.\<close>

fun delete_rank :: "DeletePolicy \<Rightarrow> nat" where
  "delete_rank Restrict = 0" | "delete_rank Cascade = 1" | "delete_rank SetNull = 2"

lemma delete_rank_inject: "delete_rank a = delete_rank b \<longleftrightarrow> a = b"
  by (cases a; cases b) auto

instantiation DeletePolicy :: linorder
begin

definition less_eq_DeletePolicy :: "DeletePolicy \<Rightarrow> DeletePolicy \<Rightarrow> bool" where
  "less_eq_DeletePolicy a b \<longleftrightarrow> delete_rank a \<le> delete_rank b"

definition less_DeletePolicy :: "DeletePolicy \<Rightarrow> DeletePolicy \<Rightarrow> bool" where
  "less_DeletePolicy a b \<longleftrightarrow> delete_rank a < delete_rank b"

instance
  by standard (auto simp: less_eq_DeletePolicy_def less_DeletePolicy_def delete_rank_inject)

end

record ColumnModel =
  cm_name :: str
  cm_sql_type :: str
  cm_spatial :: "SpatialColumnDef option"
  cm_nullable :: bool
  cm_is_primary_key :: bool
  cm_is_unique :: bool
  cm_default :: "str option"

text \<open>A column pair is \<open>(source_column, target_column)\<close>, ordered lexicographically.\<close>

type_synonym ForeignKeyColumnPairModel = "str \<times> str"

record ForeignKeyModel =
  fk_constraint_name :: "str option"
  fk_column_pairs :: "ForeignKeyColumnPairModel list"
  fk_target_table :: str
  fk_is_multiple :: bool
  fk_on_delete :: DeletePolicy

definition source_columns :: "ForeignKeyModel \<Rightarrow> str list" where
  "source_columns fk = map fst (fk_column_pairs fk)"

definition target_columns :: "ForeignKeyModel \<Rightarrow> str list" where
  "target_columns fk = map snd (fk_column_pairs fk)"

record SearchFieldModel =
  sf_field_name :: str
  sf_column_name :: str
  sf_weight :: SearchWeight
  sf_alias :: "str option"
  sf_policy :: "str option"

record SearchJsonPathModel =
  sj_field_name :: str
  sj_column_name :: str
  sj_path :: str
  sj_weight :: SearchWeight
  sj_policy :: "str option"

record SearchRelationFieldModel =
  sr_relation_field :: str
  sr_target_type :: str
  sr_fields :: "str list"
  sr_weight :: SearchWeight
  sr_max_items :: nat
  sr_policy :: "str option"

record SearchIndexModel =
  si_name :: str
  si_table_name :: str
  si_entity_name :: str
  si_primary_key :: str
  si_strategy :: SearchIndexStrategy
  si_language :: str
  si_tokenizer :: str
  si_min_token_len :: nat
  si_fallback_enabled :: bool
  si_fields :: "SearchFieldModel list"
  si_json_paths :: "SearchJsonPathModel list"
  si_relations :: "SearchRelationFieldModel list"
  si_readiness_tracked :: bool

record IndexPredicateModel =
  ip_column :: str
  ip_values :: "str list"

record IndexModel =
  ix_name :: str
  ix_columns :: "str list"
  ix_column_directions :: "IndexDirection list"
  ix_is_unique :: bool
  ix_method :: IndexMethod
  ix_is_spatial :: bool
  ix_predicate :: "IndexPredicateModel option"

definition index_new :: "str \<Rightarrow> str list \<Rightarrow> IndexModel" where
  "index_new name columns =
     \<lparr>ix_name = name, ix_columns = columns, ix_column_directions = [], ix_is_unique = False,
      ix_method = MethodDefault, ix_is_spatial = False, ix_predicate = None\<rparr>"

definition direction_at :: "IndexModel \<Rightarrow> nat \<Rightarrow> IndexDirection" where
  "direction_at ix i =
     (if i < length (ix_column_directions ix) then ix_column_directions ix ! i else Asc)"

text \<open>
  \<open>PartialEq for IndexRef\<close>: equality up to the ascending default, and never for malformed
  direction lists.
\<close>

definition index_eq :: "IndexModel \<Rightarrow> IndexModel \<Rightarrow> bool" where
  "index_eq a b \<longleftrightarrow>
     ix_name a = ix_name b \<and> ix_columns a = ix_columns b \<and>
     (ix_column_directions a = [] \<or> length (ix_column_directions a) = length (ix_columns a)) \<and>
     (ix_column_directions b = [] \<or> length (ix_column_directions b) = length (ix_columns b)) \<and>
     ix_is_unique a = ix_is_unique b \<and> ix_method a = ix_method b \<and>
     ix_is_spatial a = ix_is_spatial b \<and> ix_predicate a = ix_predicate b \<and>
     list_all (\<lambda>i. direction_at a i = direction_at b i) [0..<length (ix_columns a)]"

record CheckConstraintModel =
  cc_name :: str
  cc_expression :: str

record TableModel =
  tm_entity_name :: str
  tm_table_name :: str
  tm_primary_key :: str
  tm_primary_keys :: "str list"
  tm_default_sort :: str
  tm_columns :: "ColumnModel list"
  tm_indexes :: "IndexModel list"
  tm_composite_unique_indexes :: "str list list"
  tm_foreign_keys :: "ForeignKeyModel list"
  tm_search_indexes :: "SearchIndexModel list"
  tm_append_only :: bool
  tm_retention_purge :: bool
  tm_check_constraints :: "CheckConstraintModel list"

definition primary_keys :: "TableModel \<Rightarrow> str list" where
  "primary_keys t = (if tm_primary_keys t = [] then [tm_primary_key t] else tm_primary_keys t)"

record SchemaModel =
  sm_extensions :: "str list"
  sm_tables :: "TableModel list"

section \<open>Generated names\<close>

text \<open>\<open>sanitize_generated_index_part\<close>: a run of other characters becomes one underscore.\<close>

fun sanitize_loop :: "str \<Rightarrow> str \<Rightarrow> str" where
  "sanitize_loop acc [] = acc"
| "sanitize_loop acc (c # cs) =
     (if is_ascii_alphanumeric c then sanitize_loop (acc @ [ascii_lower c]) cs
      else if c = CHR ''_'' then sanitize_loop (acc @ ''_'') cs
      else if \<not> ends_with ''_'' acc then sanitize_loop (acc @ ''_'') cs
      else sanitize_loop acc cs)"

definition sanitize_generated_index_part :: "str \<Rightarrow> str" where
  "sanitize_generated_index_part v =
     (let s = trim_char (CHR ''_'') (sanitize_loop [] v) in if s = [] then ''column'' else s)"

text \<open>The largest character boundary at or below a byte index (boundary 0 always exists).\<close>

fun floor_boundary :: "str \<Rightarrow> nat \<Rightarrow> nat" where
  "floor_boundary s 0 = 0"
| "floor_boundary s (Suc n) = (if is_char_boundary s (Suc n) then Suc n else floor_boundary s n)"

text \<open>The bound both generated index names and foreign-key names apply.\<close>

definition bound_identifier :: "str \<Rightarrow> str" where
  "bound_identifier full =
     (if length full \<le> 63 then full
      else let hash = hex16 (fnv1a64 full);
               prefix_len = floor_boundary full (63 - (length hash + 1))
           in take prefix_len full @ ''_'' @ hash)"

definition generated_index_name :: "str \<Rightarrow> str list \<Rightarrow> str" where
  "generated_index_name table_name columns =
     bound_identifier
       (''idx_'' @ sanitize_generated_index_part table_name @ ''_'' @
        join ''_'' (map sanitize_generated_index_part columns))"

definition foreign_key_constraint_name :: "str \<Rightarrow> ForeignKeyModel \<Rightarrow> str" where
  "foreign_key_constraint_name table_name fk =
     (case fk_constraint_name fk of
        Some name \<Rightarrow> name
      | None \<Rightarrow>
          bound_identifier
            (''fk_'' @ table_name @ ''_'' @ join ''_'' (source_columns fk) @ ''_'' @
             fk_target_table fk @ ''_'' @ join ''_'' (target_columns fk)))"

section \<open>Entities\<close>

text \<open>
  The parts of \<open>EntityMetadata\<close>, \<open>FieldMetadata\<close>, \<open>RelationMetadata\<close> and \<open>SearchIndexDef\<close>
  that the schema conversion reads.
\<close>

record FieldMetadata =
  fm_name :: str
  fm_rust_name :: str
  fm_sql_type :: str
  fm_spatial :: "SpatialColumnDef option"
  fm_nullable :: bool
  fm_is_primary_key :: bool
  fm_is_unique :: bool
  fm_is_filterable :: bool
  fm_default :: "str option"

record RelationMetadata =
  rl_target_type :: str
  rl_source_columns :: "str list"
  rl_target_columns :: "str list"
  rl_is_multiple :: bool
  rl_emit_foreign_key :: bool
  rl_on_delete :: DeletePolicy

record SearchIndexDef =
  sd_entity_name :: str
  sd_table_name :: str
  sd_primary_key :: str
  sd_index_name :: str
  sd_strategy :: SearchIndexStrategy
  sd_enabled :: bool
  sd_language :: str
  sd_tokenizer :: str
  sd_min_token_len :: nat
  sd_fallback_enabled :: bool
  sd_fields :: "SearchFieldModel list"
  sd_json_paths :: "SearchJsonPathModel list"
  sd_relations :: "SearchRelationFieldModel list"

record EntityMetadata =
  em_entity_name :: str
  em_table_name :: str
  em_primary_key :: str
  em_primary_keys :: "str list"
  em_default_sort :: str
  em_append_only :: bool
  em_retention_policy :: "str option"
  em_check_constraints :: "CheckConstraintModel list"
  em_fields :: "FieldMetadata list"
  em_indexes :: "IndexModel list"
  em_composite_unique_indexes :: "str list list"
  em_relations :: "RelationMetadata list"
  em_search :: "SearchIndexDef option"

definition column_of_field :: "FieldMetadata \<Rightarrow> ColumnModel" where
  "column_of_field f =
     \<lparr>cm_name = fm_name f, cm_sql_type = fm_sql_type f, cm_spatial = fm_spatial f,
      cm_nullable = fm_nullable f, cm_is_primary_key = fm_is_primary_key f,
      cm_is_unique = fm_is_unique f,
      cm_default = map_option canonicalize_column_default_expression (fm_default f)\<rparr>"

definition physical_source :: "EntityMetadata \<Rightarrow> str \<Rightarrow> str" where
  "physical_source e source_field =
     (case find (\<lambda>f. fm_rust_name f = source_field) (em_fields e) of
        Some f \<Rightarrow> fm_name f | None \<Rightarrow> source_field)"

definition foreign_key_of_relation :: "EntityMetadata \<Rightarrow> RelationMetadata \<Rightarrow> ForeignKeyModel" where
  "foreign_key_of_relation e r =
     \<lparr>fk_constraint_name = None,
      fk_column_pairs = zip (map (physical_source e) (rl_source_columns r)) (rl_target_columns r),
      fk_target_table = rl_target_type r, fk_is_multiple = rl_is_multiple r,
      fk_on_delete = rl_on_delete r\<rparr>"

definition search_index_of_def :: "SearchIndexDef \<Rightarrow> SearchIndexModel" where
  "search_index_of_def d =
     \<lparr>si_name = sd_index_name d, si_table_name = sd_table_name d, si_entity_name = sd_entity_name d,
      si_primary_key = sd_primary_key d, si_strategy = sd_strategy d, si_language = sd_language d,
      si_tokenizer = sd_tokenizer d, si_min_token_len = sd_min_token_len d,
      si_fallback_enabled = sd_fallback_enabled d, si_fields = sd_fields d,
      si_json_paths = sd_json_paths d, si_relations = sd_relations d, si_readiness_tracked = False\<rparr>"

definition index_columns_match :: "str list \<Rightarrow> str list \<Rightarrow> bool" where
  "index_columns_match left right \<longleftrightarrow>
     length left = length right \<and> list_all (\<lambda>(l, r). l = r) (zip left right)"

definition table_has_index_for_columns :: "TableModel \<Rightarrow> str list \<Rightarrow> bool" where
  "table_has_index_for_columns t columns =
     (if columns = [] then True
      else if length (primary_keys t) = length columns
        \<and> list_all (\<lambda>(l, r). l = r) (zip (primary_keys t) columns) then True
      else if length columns = 1
        \<and> list_ex (\<lambda>c. cm_name c = hd columns \<and> (cm_is_primary_key c \<or> cm_is_unique c)) (tm_columns t)
      then True
      else if list_ex (\<lambda>ix. index_columns_match ix columns) (tm_composite_unique_indexes t) then True
      else list_ex (\<lambda>ix. index_columns_match (ix_columns ix) columns) (tm_indexes t))"

definition add_owned_generated_index :: "TableModel \<Rightarrow> str list \<Rightarrow> TableModel" where
  "add_owned_generated_index t columns =
     (if table_has_index_for_columns t columns then t
      else let name = generated_index_name (tm_table_name t) columns in
        if list_ex (\<lambda>ix. ix_name ix = name) (tm_indexes t) then t
        else t\<lparr>tm_indexes := tm_indexes t @ [index_new name columns]\<rparr>)"

definition table_of_entity :: "EntityMetadata \<Rightarrow> TableModel" where
  "table_of_entity e =
     (let table =
        \<lparr>tm_entity_name = em_entity_name e, tm_table_name = em_table_name e,
         tm_primary_key = em_primary_key e, tm_primary_keys = em_primary_keys e,
         tm_default_sort = em_default_sort e, tm_columns = map column_of_field (em_fields e),
         tm_indexes = em_indexes e, tm_composite_unique_indexes = em_composite_unique_indexes e,
         tm_foreign_keys =
           map (foreign_key_of_relation e) (filter rl_emit_foreign_key (em_relations e)),
         tm_search_indexes =
           (case em_search e of
              Some d \<Rightarrow> if sd_enabled d then [search_index_of_def d] else []
            | None \<Rightarrow> []),
         tm_append_only = em_append_only e,
         tm_retention_purge = (em_retention_policy e \<noteq> None),
         tm_check_constraints =
           sort_key (\<lambda>c. (cc_name c, cc_expression c)) (em_check_constraints e)\<rparr>
      in foldl (\<lambda>t f. if fm_is_filterable f \<and> fm_spatial f = None
                      then add_owned_generated_index t [fm_name f] else t)
           table (em_fields e))"

definition resolve_targets :: "(str, str) btree \<Rightarrow> TableModel \<Rightarrow> TableModel" where
  "resolve_targets names t =
     t\<lparr>tm_foreign_keys :=
       map (\<lambda>fk. case btree_get names (fk_target_table fk) of
                   Some table_name \<Rightarrow> fk\<lparr>fk_target_table := table_name\<rparr>
                 | None \<Rightarrow> fk) (tm_foreign_keys t)\<rparr>"

definition relation_index :: "(str, str) btree \<Rightarrow> EntityMetadata \<Rightarrow> RelationMetadata \<Rightarrow> (str \<times> str list) option" where
  "relation_index names e r =
     (if rl_is_multiple r then
        (case btree_get names (rl_target_type r) of
           None \<Rightarrow> None
         | Some target_table \<Rightarrow> Some (target_table, rl_target_columns r))
      else Some (em_table_name e, map (physical_source e) (rl_source_columns r)))"

definition add_relation_index ::
  "(str, nat) btree \<Rightarrow> (str, str) btree \<Rightarrow> TableModel list \<Rightarrow> EntityMetadata \<times> RelationMetadata \<Rightarrow> TableModel list" where
  "add_relation_index positions names tables = (\<lambda>(e, r).
     case relation_index names e r of
       None \<Rightarrow> tables
     | Some (table_name, columns) \<Rightarrow>
         (case btree_get positions table_name of
            None \<Rightarrow> tables
          | Some i \<Rightarrow> tables[i := add_owned_generated_index (tables ! i) columns]))"

definition entity_names :: "EntityMetadata list \<Rightarrow> (str, str) btree" where
  "entity_names entities = btree_collect (map (\<lambda>e. (em_entity_name e, em_table_name e)) entities)"

definition table_positions :: "TableModel list \<Rightarrow> (str, nat) btree" where
  "table_positions tables = btree_collect (zip (map tm_table_name tables) [0..<length tables])"

definition from_entities :: "EntityMetadata list \<Rightarrow> SchemaModel" where
  "from_entities entities =
     (let names = entity_names entities;
          tables = map (\<lambda>e. resolve_targets names (table_of_entity e)) entities
      in \<lparr>sm_extensions =
            (if list_ex (\<lambda>e. list_ex (\<lambda>f. fm_spatial f \<noteq> None) (em_fields e)) entities
             then [''postgis''] else []),
          sm_tables =
            foldl (add_relation_index (table_positions tables) names) tables
              (concat (map (\<lambda>e. map (Pair e) (em_relations e)) entities))\<rparr>)"

section \<open>Validation\<close>

definition find_column :: "TableModel \<Rightarrow> str \<Rightarrow> ColumnModel option" where
  "find_column t name = find (\<lambda>c. cm_name c = name) (tm_columns t)"

text \<open>The loop over index columns with the members inserted so far.\<close>

fun check_index_members :: "TableModel \<Rightarrow> IndexModel \<Rightarrow> str list \<Rightarrow> str list \<Rightarrow> str + unit" where
  "check_index_members t ix seen [] = Inr ()"
| "check_index_members t ix seen (c # cs) =
     (if c \<in> set seen \<or> \<not> list_ex (\<lambda>column. cm_name column = c) (tm_columns t)
      then Inl (''index '' @ tm_table_name t @ ''.'' @ ix_name ix @
                '' contains a duplicate or missing column '' @ c)
      else check_index_members t ix (c # seen) cs)"

definition check_index :: "TableModel \<Rightarrow> IndexModel \<Rightarrow> str + unit" where
  "check_index t ix =
     (if trim (ix_name ix) = [] \<or> ix_columns ix = [] \<or>
         (ix_column_directions ix \<noteq> [] \<and> length (ix_column_directions ix) \<noteq> length (ix_columns ix))
      then Inl (''invalid index column metadata for '' @ tm_table_name t @ ''.'' @ ix_name ix)
      else check_index_members t ix [] (ix_columns ix))"

fun check_pairs ::
  "TableModel \<Rightarrow> TableModel \<Rightarrow> ForeignKeyModel \<Rightarrow> str list \<Rightarrow> str list \<Rightarrow> ForeignKeyColumnPairModel list \<Rightarrow> str + unit" where
  "check_pairs t target fk sources targets [] = Inr ()"
| "check_pairs t target fk sources targets ((sc, tc) # pairs) =
     (if sc \<in> set sources \<or> tc \<in> set targets
      then Inl (''foreign key on '' @ tm_table_name t @ '' contains duplicate column members'')
      else case find_column t sc of
        None \<Rightarrow> Inl (''foreign key on '' @ tm_table_name t @ '' references missing source column '' @ sc)
      | Some source \<Rightarrow>
      case find_column target tc of
        None \<Rightarrow> Inl (''foreign key on '' @ tm_table_name t @ '' references missing target column '' @
                    tm_table_name target @ ''.'' @ tc)
      | Some target_column \<Rightarrow>
      if \<not> eq_ignore_ascii_case (cm_sql_type source) (cm_sql_type target_column)
      then Inl (''foreign key type mismatch between '' @ tm_table_name t @ ''.'' @ sc @ '' ('' @
                cm_sql_type source @ '') and '' @ tm_table_name target @ ''.'' @ tc @ '' ('' @
                cm_sql_type target_column @ '')'')
      else if fk_on_delete fk = SetNull \<and> \<not> cm_nullable source
      then Inl (''SET NULL foreign key source '' @ tm_table_name t @ ''.'' @ sc @ '' is not nullable'')
      else check_pairs t target fk (sc # sources) (tc # targets) pairs)"

definition target_is_unique :: "TableModel \<Rightarrow> str list \<Rightarrow> bool" where
  "target_is_unique target columns \<longleftrightarrow>
     primary_keys target = columns \<or>
     (length columns = 1 \<and>
      list_ex (\<lambda>c. cm_name c = hd columns \<and> (cm_is_primary_key c \<or> cm_is_unique c)) (tm_columns target)) \<or>
     list_ex (\<lambda>ix. ix = columns) (tm_composite_unique_indexes target) \<or>
     list_ex (\<lambda>ix. ix_is_unique ix \<and> ix_predicate ix = None \<and> ix_columns ix = columns) (tm_indexes target)"

type_synonym fk_identity = "(str \<times> str) list \<times> str \<times> DeletePolicy"

definition fk_identity :: "ForeignKeyModel \<Rightarrow> fk_identity" where
  "fk_identity fk = (fk_column_pairs fk, fk_target_table fk, fk_on_delete fk)"

definition check_foreign_key :: "(str, TableModel) btree \<Rightarrow> TableModel \<Rightarrow> ForeignKeyModel \<Rightarrow> str + unit" where
  "check_foreign_key tables t fk =
     (case btree_get tables (fk_target_table fk) of
        None \<Rightarrow> Inl (''foreign key on '' @ tm_table_name t @ '' references unmanaged target table '' @
                    fk_target_table fk)
      | Some target \<Rightarrow>
          and_then (check_pairs t target fk [] [] (fk_column_pairs fk))
            (if target_is_unique target (target_columns fk) then Inr ()
             else Inl (''foreign key on '' @ tm_table_name t @
                       '' does not reference an exact unique key on '' @ tm_table_name target)))"

fun check_foreign_keys ::
  "(str, TableModel) btree \<Rightarrow> TableModel \<Rightarrow> fk_identity list \<Rightarrow> ForeignKeyModel list \<Rightarrow> str + unit" where
  "check_foreign_keys tables t seen [] = Inr ()"
| "check_foreign_keys tables t seen (fk # fks) =
     (if (case fk_constraint_name fk of Some name \<Rightarrow> trim name = [] | None \<Rightarrow> False)
         \<or> fk_column_pairs fk = []
      then Inl (''foreign key on '' @ tm_table_name t @
                '' has invalid constraint identity or no column pairs'')
      else if fk_identity fk \<in> set seen
      then Inl (''table '' @ tm_table_name t @ '' contains duplicate semantic foreign keys'')
      else and_then (check_foreign_key tables t fk)
             (check_foreign_keys tables t (fk_identity fk # seen) fks))"

definition tables_by_name :: "TableModel list \<Rightarrow> (str, TableModel) btree" where
  "tables_by_name ts = btree_collect (map (\<lambda>t. (tm_table_name t, t)) ts)"

definition validate_physical_contract :: "SchemaModel \<Rightarrow> str + unit" where
  "validate_physical_contract s =
     (let tables = tables_by_name (sm_tables s) in
      check_all (\<lambda>t. and_then (check_all (check_index t) (tm_indexes t))
                       (check_foreign_keys tables t [] (tm_foreign_keys t))) (sm_tables s))"

section \<open>What validation establishes\<close>

definition index_sound :: "TableModel \<Rightarrow> IndexModel \<Rightarrow> bool" where
  "index_sound t ix \<longleftrightarrow>
     trim (ix_name ix) \<noteq> [] \<and> ix_columns ix \<noteq> [] \<and> distinct (ix_columns ix) \<and>
     (ix_column_directions ix = [] \<or> length (ix_column_directions ix) = length (ix_columns ix)) \<and>
     set (ix_columns ix) \<subseteq> cm_name ` set (tm_columns t)"

definition pair_sound :: "TableModel \<Rightarrow> TableModel \<Rightarrow> ForeignKeyModel \<Rightarrow> str \<times> str \<Rightarrow> bool" where
  "pair_sound t target fk = (\<lambda>(sc, tc).
     \<exists>source target_column. find_column t sc = Some source \<and> find_column target tc = Some target_column \<and>
       eq_ignore_ascii_case (cm_sql_type source) (cm_sql_type target_column) \<and>
       (fk_on_delete fk = SetNull \<longrightarrow> cm_nullable source))"

definition foreign_key_sound :: "SchemaModel \<Rightarrow> TableModel \<Rightarrow> ForeignKeyModel \<Rightarrow> bool" where
  "foreign_key_sound s t fk \<longleftrightarrow>
     (\<forall>name. fk_constraint_name fk = Some name \<longrightarrow> trim name \<noteq> []) \<and> fk_column_pairs fk \<noteq> [] \<and>
     (\<exists>target. map_of (map (\<lambda>t. (tm_table_name t, t)) (rev (sm_tables s))) (fk_target_table fk) = Some target \<and>
        distinct (source_columns fk) \<and> distinct (target_columns fk) \<and>
        list_all (pair_sound t target fk) (fk_column_pairs fk) \<and>
        target_is_unique target (target_columns fk))"

definition table_sound :: "SchemaModel \<Rightarrow> TableModel \<Rightarrow> bool" where
  "table_sound s t \<longleftrightarrow>
     list_all (index_sound t) (tm_indexes t) \<and> list_all (foreign_key_sound s t) (tm_foreign_keys t) \<and>
     distinct (map fk_identity (tm_foreign_keys t))"

lemma check_index_members_ok:
  "check_index_members t ix seen cs = Inr () \<longleftrightarrow>
     distinct cs \<and> set cs \<inter> set seen = {} \<and> set cs \<subseteq> cm_name ` set (tm_columns t)"
  by (induction t ix seen cs rule: check_index_members.induct) (auto simp: list_ex_iff)

lemma check_index_ok: "check_index t ix = Inr () \<longleftrightarrow> index_sound t ix"
  by (auto simp: check_index_def index_sound_def check_index_members_ok)

lemma check_pairs_ok:
  "check_pairs t target fk ss ts ps = Inr () \<longleftrightarrow>
     distinct (map fst ps) \<and> distinct (map snd ps) \<and> fst ` set ps \<inter> set ss = {} \<and>
     snd ` set ps \<inter> set ts = {} \<and> list_all (pair_sound t target fk) ps"
proof (induction t target fk ss ts ps rule: check_pairs.induct)
  case (2 t target fk sources targets sc tc pairs)
  then show ?case
    by (cases "find_column t sc"; cases "find_column target tc") (auto simp: pair_sound_def)
qed simp

lemma check_foreign_keys_ok:
  "check_foreign_keys tables t seen fks = Inr () \<longleftrightarrow>
     distinct (map fk_identity fks) \<and> fk_identity ` set fks \<inter> set seen = {} \<and>
     (\<forall>fk \<in> set fks. (\<forall>name. fk_constraint_name fk = Some name \<longrightarrow> trim name \<noteq> []) \<and>
        fk_column_pairs fk \<noteq> [] \<and> check_foreign_key tables t fk = Inr ())"
  by (induction tables t seen fks rule: check_foreign_keys.induct)
    (auto simp: and_then_Inr split: option.splits)

lemma get_tables_by_name:
  "btree_get (tables_by_name ts) = map_of (map (\<lambda>t. (tm_table_name t, t)) (rev ts))"
  by (simp add: tables_by_name_def btree_simps rev_map)

lemma check_foreign_key_ok:
  "check_foreign_key (tables_by_name ts) t fk = Inr () \<longleftrightarrow>
     (\<exists>target. map_of (map (\<lambda>t. (tm_table_name t, t)) (rev ts)) (fk_target_table fk) = Some target \<and>
        distinct (source_columns fk) \<and> distinct (target_columns fk) \<and>
        list_all (pair_sound t target fk) (fk_column_pairs fk) \<and>
        target_is_unique target (target_columns fk))"
  by (auto simp: check_foreign_key_def get_tables_by_name and_then_Inr check_pairs_ok
      source_columns_def target_columns_def split: option.splits if_splits)

lemma validate_iff_sound:
  "validate_physical_contract s = Inr () \<longleftrightarrow> list_all (table_sound s) (sm_tables s)"
proof -
  have "and_then (check_all (check_index t) (tm_indexes t))
      (check_foreign_keys (tables_by_name (sm_tables s)) t [] (tm_foreign_keys t)) = Inr () \<longleftrightarrow> table_sound s t" for t
    by (auto simp: and_then_Inr check_all_Inr check_index_ok check_foreign_keys_ok
        check_foreign_key_ok table_sound_def foreign_key_sound_def list_all_iff)
  then show ?thesis by (simp add: validate_physical_contract_def check_all_Inr list_all_iff)
qed

section \<open>Lemmas on names and indexes\<close>

lemma floor_boundary_le: "floor_boundary s n \<le> n"
  by (induction s n rule: floor_boundary.induct) auto

lemma floor_boundary_ok: "is_char_boundary s (floor_boundary s n)"
  by (induction s n rule: floor_boundary.induct) (auto simp: is_char_boundary_def)

lemma bound_identifier_length: "length (bound_identifier full) \<le> 63"
proof (cases "length full \<le> 63")
  case False
  have "floor_boundary full 46 \<le> 46" by (rule floor_boundary_le)
  with False show ?thesis by (simp add: bound_identifier_def Let_def)
qed (simp add: bound_identifier_def)

lemma bound_identifier_short: "length full \<le> 63 \<Longrightarrow> bound_identifier full = full"
  by (simp add: bound_identifier_def)

definition directions_ok :: "IndexModel \<Rightarrow> bool" where
  "directions_ok ix \<longleftrightarrow>
     ix_column_directions ix = [] \<or> length (ix_column_directions ix) = length (ix_columns ix)"

lemma index_eq_refl: "directions_ok ix \<Longrightarrow> index_eq ix ix"
  by (auto simp: index_eq_def directions_ok_def list_all_iff)

lemma index_eq_sym: "index_eq a b \<Longrightarrow> index_eq b a"
  by (auto simp: index_eq_def list_all_iff)

lemma index_eq_trans: "index_eq a b \<Longrightarrow> index_eq b c \<Longrightarrow> index_eq a c"
  by (auto simp: index_eq_def list_all_iff)

lemma index_sound_directions: "index_sound t ix \<Longrightarrow> directions_ok ix"
  by (auto simp: index_sound_def directions_ok_def)

section \<open>Lemmas on generated indexes\<close>

definition index_ready :: "TableModel \<Rightarrow> str list \<Rightarrow> bool" where
  "index_ready t columns \<longleftrightarrow>
     table_has_index_for_columns t columns \<or>
     generated_index_name (tm_table_name t) columns \<in> ix_name ` set (tm_indexes t)"

lemma index_columns_match_iff: "index_columns_match a b \<longleftrightarrow> a = b"
  by (auto simp: index_columns_match_def list_all_iff zip_same_conv_map list_eq_iff_zip_eq
      intro: list_eq_iff_zip_eq [THEN iffD2])

lemma add_index_name [simp]: "tm_table_name (add_owned_generated_index t columns) = tm_table_name t"
  by (simp add: add_owned_generated_index_def Let_def)

lemma add_index_ready: "index_ready (add_owned_generated_index t columns) columns"
  by (auto simp: add_owned_generated_index_def index_ready_def index_new_def Let_def list_ex_iff
      intro: rev_image_eqI)

lemma add_index_keeps: "index_ready t c \<Longrightarrow> index_ready (add_owned_generated_index t d) c"
  by (auto simp: add_owned_generated_index_def index_ready_def table_has_index_for_columns_def
      primary_keys_def Let_def split: if_splits)

lemma relation_step_length [simp]: "length (add_relation_index p n ts x) = length ts"
  by (auto simp: add_relation_index_def split: prod.splits option.splits)

lemma relation_step_name:
  "i < length ts \<Longrightarrow> tm_table_name (add_relation_index p n ts x ! i) = tm_table_name (ts ! i)"
  by (auto simp: add_relation_index_def split: prod.splits option.splits)
    (metis add_index_name nth_list_update_eq nth_list_update_neq)

lemma relation_step_keeps:
  "i < length ts \<Longrightarrow> index_ready (ts ! i) c \<Longrightarrow> index_ready (add_relation_index p n ts x ! i) c"
  by (auto simp: add_relation_index_def split: prod.splits option.splits)
    (metis add_index_keeps nth_list_update_eq nth_list_update_neq)

lemma relation_steps_keep:
  "i < length ts \<Longrightarrow> index_ready (ts ! i) c \<Longrightarrow> index_ready (foldl (add_relation_index p n) ts xs ! i) c"
  by (induction xs arbitrary: ts) (auto simp: relation_step_keeps)

lemma relation_steps_length [simp]: "length (foldl (add_relation_index p n) ts xs) = length ts"
  by (induction xs arbitrary: ts) auto

lemma relation_steps_name:
  "i < length ts \<Longrightarrow> tm_table_name (foldl (add_relation_index p n) ts xs ! i) = tm_table_name (ts ! i)"
  by (induction xs arbitrary: ts) (auto simp: relation_step_name)

lemma relation_steps_ready:
  assumes "(e, r) \<in> set xs" and "relation_index n e r = Some (tn, columns)"
    and "btree_get p tn = Some i" and "i < length ts"
  shows "index_ready (foldl (add_relation_index p n) ts xs ! i) columns"
  using assms
proof (induction xs arbitrary: ts)
  case (Cons x xs)
  show ?case
  proof (cases "x = (e, r)")
    case True
    with Cons.prems have "index_ready (add_relation_index p n ts x ! i) columns"
      by (simp add: add_relation_index_def add_index_ready)
    with Cons.prems show ?thesis by (simp add: relation_steps_keep)
  next
    case False
    with Cons show ?thesis by simp
  qed
qed simp

lemma table_of_entity_name [simp]: "tm_table_name (table_of_entity e) = em_table_name e"
proof -
  have "tm_table_name (foldl (\<lambda>t f. if fm_is_filterable f \<and> fm_spatial f = None
      then add_owned_generated_index t [fm_name f] else t) t fs) = tm_table_name t" for t and fs :: "FieldMetadata list"
    by (induction fs arbitrary: t) auto
  then show ?thesis by (simp add: table_of_entity_def Let_def)
qed

lemma table_positions_get:
  assumes "tn \<in> tm_table_name ` set ts"
  obtains i where "btree_get (table_positions ts) tn = Some i" "i < length ts" "tm_table_name (ts ! i) = tn"
proof -
  let ?kvs = "zip (map tm_table_name ts) [0..<length ts]"
  have "tn \<in> fst ` set (rev ?kvs)" using assms by (simp flip: set_map)
  then obtain i where i: "map_of (rev ?kvs) tn = Some i"
    by (metis domIff dom_map_of_conv_image_fst not_None_eq)
  then have "(tn, i) \<in> set ?kvs" using map_of_SomeD by fastforce
  then have "i < length ts" and "tm_table_name (ts ! i) = tn" by (auto simp: set_zip)
  with i show thesis by (intro that) (simp_all add: table_positions_def btree_simps)
qed

section \<open>Properties\<close>

text \<open>
  C28. Validation is exact: the physical contract is accepted if and only if every table is
  sound, that is every index has a name, distinct existing columns and a well-formed direction
  list, foreign keys are pairwise semantically distinct, and every foreign key references a
  managed table through distinct existing column pairs of the same type that form an exact
  unique key of the target, with nullable sources under \<open>SET NULL\<close>.
\<close>

theorem validate_physical_contract_exact:
  "validate_physical_contract s = Inr () \<longleftrightarrow> list_all (table_sound s) (sm_tables s)"
  by (rule validate_iff_sound)

text \<open>
  Generated physical names fit PostgreSQL: a generated index name and a generated
  foreign-key name are at most 63 bytes long for any table and column names, so they are never
  truncated by the server.
\<close>

theorem generated_names_bounded:
  "length (generated_index_name table columns) \<le> 63 \<and>
   (fk_constraint_name fk = None \<longrightarrow> length (foreign_key_constraint_name table fk) \<le> 63)"
  by (simp add: generated_index_name_def foreign_key_constraint_name_def bound_identifier_length)

theorem generated_names_bounded_witness:
  "length (foreign_key_constraint_name (replicate 100 (CHR ''t''))
     \<lparr>fk_constraint_name = None, fk_column_pairs = [(''a'', ''id'')], fk_target_table = ''users'',
      fk_is_multiple = False, fk_on_delete = Cascade\<rparr>) \<le> 63"
  using generated_names_bounded [of _ _ "\<lparr>fk_constraint_name = None, fk_column_pairs = [(''a'', ''id'')],
      fk_target_table = ''users'', fk_is_multiple = False, fk_on_delete = Cascade\<rparr>"]
  by simp

text \<open>
  Relations are indexed: in the schema built from entities, the table that holds the
  columns of a relation (its own table, or the target's table for a to-many relation) ends with
  a primary key, unique constraint or index on exactly those columns, unless another index of
  that table already carries the generated name.
\<close>

theorem relation_columns_indexed:
  assumes "e \<in> set entities" and "r \<in> set (em_relations e)"
    and "relation_index (entity_names entities) e r = Some (tn, columns)"
    and "tn \<in> em_table_name ` set entities"
  shows "\<exists>t \<in> set (sm_tables (from_entities entities)). tm_table_name t = tn \<and>
    (table_has_index_for_columns t columns \<or>
     (\<exists>ix \<in> set (tm_indexes t). ix_name ix = generated_index_name tn columns))"
proof -
  let ?n = "entity_names entities"
  define ts where "ts = map (\<lambda>e. resolve_targets ?n (table_of_entity e)) entities"
  define xs where "xs = concat (map (\<lambda>e. map (Pair e) (em_relations e)) entities)"
  have "tm_table_name ` set ts = em_table_name ` set entities"
    by (auto simp: ts_def resolve_targets_def image_image)
  with assms(4) obtain i where i: "btree_get (table_positions ts) tn = Some i" "i < length ts"
    "tm_table_name (ts ! i) = tn" by (metis table_positions_get)
  let ?final = "foldl (add_relation_index (table_positions ts) ?n) ts xs"
  have "(e, r) \<in> set xs" using assms(1,2) by (auto simp: xs_def)
  then have "index_ready (?final ! i) columns" using assms(3) i by (intro relation_steps_ready)
  moreover have "tm_table_name (?final ! i) = tn" using i by (simp add: relation_steps_name)
  moreover have "sm_tables (from_entities entities) = ?final"
    by (simp add: from_entities_def ts_def xs_def Let_def)
  moreover have "?final ! i \<in> set ?final" using i by simp
  ultimately show ?thesis by (auto simp: index_ready_def intro!: bexI [of _ "?final ! i"])
qed

definition demo_entity :: EntityMetadata where
  "demo_entity =
     \<lparr>em_entity_name = ''Post'', em_table_name = ''posts'', em_primary_key = ''id'',
      em_primary_keys = [''id''], em_default_sort = ''id'', em_append_only = False,
      em_retention_policy = None, em_check_constraints = [], em_fields = [], em_indexes = [],
      em_composite_unique_indexes = [],
      em_relations = [\<lparr>rl_target_type = ''Post'', rl_source_columns = [''parent_id''],
        rl_target_columns = [''id''], rl_is_multiple = False, rl_emit_foreign_key = True,
        rl_on_delete = Cascade\<rparr>],
      em_search = None\<rparr>"

theorem relation_columns_indexed_witness:
  "\<exists>t \<in> set (sm_tables (from_entities [demo_entity])). tm_table_name t = ''posts'' \<and>
    (table_has_index_for_columns t [''parent_id''] \<or>
     (\<exists>ix \<in> set (tm_indexes t). ix_name ix = generated_index_name ''posts'' [''parent_id'']))"
  by (rule relation_columns_indexed [of demo_entity _ "hd (em_relations demo_entity)"])
    (simp_all add: demo_entity_def relation_index_def physical_source_def)

text \<open>
  The generated name does not determine the columns: an existing index on one column can
  silently take the place of the index a relation needs.
\<close>

lemma generated_index_name_collision:
  "generated_index_name ''t'' [''a_b''] = generated_index_name ''t'' [''a'', ''b'']"
  by code_simp

end
