(* ===== verification/Defaults.thy ===== *)
theory Defaults
  imports Schema
begin

text \<open>
  Column comparison (\<open>orm/migrations.rs\<close>, \<open>orm/default_equivalence.rs\<close>): when a live column
  and its target differ. Default expressions are compared as canonical text, as complete text
  literals, or by value for the typed profile of the owned planner.

  Parsing of floats, decimals, UUIDs, JSON and calendar text is done by the standard library
  and by the crates \<open>rust_decimal\<close>, \<open>uuid\<close>, \<open>serde_json\<close> and \<open>chrono\<close>: a record of reader
  functions stands for it, each returning a code for the value it reads, equal for equal values.
\<close>

section \<open>Literals\<close>

text \<open>
  Both literal readers of the source share this loop: the unescaped text up to the closing
  quote, and the input after it.
\<close>

fun literal_loop :: "bool \<Rightarrow> str \<Rightarrow> str \<Rightarrow> (str \<times> str) option" where
  "literal_loop escaped v [] = None"
| "literal_loop escaped v (c # cs) =
     (if c = sq then
        (case cs of
           [] \<Rightarrow> Some (v, [])
         | c2 # cs2 \<Rightarrow> if c2 = sq then literal_loop escaped (v @ [sq]) cs2 else Some (v, cs))
      else if c = bsl \<and> escaped then
        (case cs of
           [] \<Rightarrow> None
         | c2 # cs2 \<Rightarrow> if c2 = bsl \<or> c2 = sq then literal_loop escaped (v @ [c2]) cs2 else None)
      else literal_loop escaped (v @ [c]) cs)"

definition postgres_text_default_literal :: "str \<Rightarrow> str option" where
  "postgres_text_default_literal d =
     (let expression = canonicalize_column_default_expression d;
          escaped = (case expression of c # _ \<Rightarrow> c = CHR ''e'' \<or> c = CHR ''E'' | [] \<Rightarrow> False);
          rest = (if escaped then tl expression else expression)
      in case rest of
           [] \<Rightarrow> None
         | c # cs \<Rightarrow>
             if c \<noteq> sq then None
             else (case literal_loop escaped [] cs of
                     None \<Rightarrow> None
                   | Some (value, after) \<Rightarrow>
                       let suffix = trim after in
                       if suffix = [] \<or> eq_ignore_ascii_case suffix ''::text'' then Some value else None))"

section \<open>Typed literals\<close>

datatype DefaultEquivalence = Pinned8e1 | TypedLiteralsV1

datatype Class =
  ClBoolean | ClInteger | ClFloat | ClUuid | ClJsonb | ClBytea | ClTimestamptz | ClNumeric

definition class_of :: "str \<Rightarrow> Class option" where
  "class_of sql_type =
     (let t = to_ascii_lowercase (trim sql_type) in
      if t = ''numeric'' \<or>
         (case strip_prefix ''numeric('' t of
            None \<Rightarrow> False
          | Some rest \<Rightarrow>
              (case strip_suffix '')'' rest of
                 None \<Rightarrow> False
               | Some args \<Rightarrow> list_all (\<lambda>b. is_ascii_digit b \<or> b = CHR '','') args))
      then Some ClNumeric
      else if t \<in> {''boolean'', ''bool''} then Some ClBoolean
      else if t \<in> {''bigint'', ''integer'', ''smallint'', ''int'', ''int8'', ''int4'', ''int2''} then Some ClInteger
      else if t \<in> {''double precision'', ''real'', ''float8'', ''float4''} then Some ClFloat
      else if t = ''uuid'' then Some ClUuid
      else if t = ''jsonb'' then Some ClJsonb
      else if t = ''bytea'' then Some ClBytea
      else if t \<in> {''timestamptz'', ''timestamp with time zone''} then Some ClTimestamptz
      else None)"

fun class_casts :: "Class \<Rightarrow> str list" where
  "class_casts ClBoolean = [''boolean'']"
| "class_casts ClInteger = [''integer'', ''bigint'', ''smallint'', ''numeric'']"
| "class_casts ClFloat = [''numeric'', ''integer'', ''bigint'', ''double precision'', ''real'']"
| "class_casts ClUuid = [''uuid'']"
| "class_casts ClJsonb = [''jsonb'']"
| "class_casts ClBytea = [''bytea'']"
| "class_casts ClTimestamptz = [''timestamp with time zone'', ''timestamptz'']"
| "class_casts ClNumeric = [''numeric'']"

definition bare_tokens :: "Class \<Rightarrow> bool" where
  "bare_tokens c \<longleftrightarrow> c \<in> {ClBoolean, ClInteger, ClFloat, ClNumeric}"

definition MAX_COMPARED_DEFAULT_BYTES :: nat where
  "MAX_COMPARED_DEFAULT_BYTES = 256 * 1024"

definition bare_token_byte :: "char \<Rightarrow> bool" where
  "bare_token_byte b \<longleftrightarrow> is_ascii_alphanumeric b \<or> b = CHR ''.'' \<or> b = CHR ''-'' \<or> b = CHR ''+''"

definition constant_text :: "Class \<Rightarrow> str \<Rightarrow> str option" where
  "constant_text class e =
     (if length e > MAX_COMPARED_DEFAULT_BYTES then None
      else let expression = canonicalize_column_default_expression e;
               escaped = (case expression of
                            c # c2 # _ \<Rightarrow> (c = CHR ''e'' \<or> c = CHR ''E'') \<and> c2 = sq | _ \<Rightarrow> False)
      in if \<not> escaped \<and> \<not> starts_with [sq] expression then
           (if bare_tokens class \<and> expression \<noteq> [] \<and> list_all bare_token_byte expression
            then Some expression else None)
         else case literal_loop escaped [] (drop (if escaped then 2 else 1) expression) of
                None \<Rightarrow> None
              | Some (value, after) \<Rightarrow>
                  (let suffix = trim after in
                   if suffix = [] then Some value
                   else case strip_prefix ''::'' suffix of
                          None \<Rightarrow> None
                        | Some cast \<Rightarrow>
                            if to_ascii_lowercase (trim cast) \<in> set (class_casts class)
                            then Some value else None))"

text \<open>Readers of other crates; values are coded as numbers, instants as seconds and nanoseconds.\<close>

record LiteralReaders =
  lr_float_bits :: "str \<Rightarrow> nat option"
  lr_decimal :: "str \<Rightarrow> nat option"
  lr_uuid :: "str \<Rightarrow> nat option"
  lr_json :: "str \<Rightarrow> nat option"
  lr_rfc3339 :: "str \<Rightarrow> (int \<times> nat) option"
  lr_naive_at_offset :: "str \<Rightarrow> int \<Rightarrow> (int \<times> nat) option"

text \<open>\<open>str::parse::<i64>\<close>.\<close>

definition digits_value :: "str \<Rightarrow> nat" where
  "digits_value ds = foldl (\<lambda>n c. 10 * n + (of_char c - 48)) 0 ds"

definition parse_i64 :: "str \<Rightarrow> int option" where
  "parse_i64 s =
     (let (neg, ds) = (case s of
          c # cs \<Rightarrow> if c = CHR ''-'' then (True, cs) else if c = CHR ''+'' then (False, cs) else (False, s)
        | [] \<Rightarrow> (False, s));
          v = (if neg then - int (digits_value ds) else int (digits_value ds))
      in if ds = [] \<or> \<not> list_all is_ascii_digit ds \<or> \<not> is_i64 v then None else Some v)"

text \<open>\<open>u8::from_str_radix(_, 16)\<close> of two bytes, which admits a leading plus sign.\<close>

definition hex_pair :: "char \<Rightarrow> char \<Rightarrow> nat option" where
  "hex_pair a b =
     (if a = CHR ''+'' then hex_value b
      else case (hex_value a, hex_value b) of (Some x, Some y) \<Rightarrow> Some (16 * x + y) | _ \<Rightarrow> None)"

fun hex_pairs :: "str \<Rightarrow> nat list option" where
  "hex_pairs [] = Some []"
| "hex_pairs [a] = None"
| "hex_pairs (a # b # cs) =
     (case hex_pair a b of None \<Rightarrow> None | Some n \<Rightarrow> map_option ((#) n) (hex_pairs cs))"

definition hex_bytea :: "str \<Rightarrow> nat list option" where
  "hex_bytea text = (case strip_prefix ([bsl] @ ''x'') text of None \<Rightarrow> None | Some hex \<Rightarrow> hex_pairs hex)"

definition timestamptz :: "LiteralReaders \<Rightarrow> str \<Rightarrow> (int \<times> nat) option" where
  "timestamptz lr text =
     (case lr_rfc3339 lr text of
        Some t \<Rightarrow> Some t
      | None \<Rightarrow>
          if length text < 19 \<or> \<not> is_char_boundary text 19 then None
          else let zone = dropWhile (\<lambda>c. c \<noteq> CHR ''+'' \<and> c \<noteq> CHR ''-'') (drop 19 text) in
          case zone of
            [] \<Rightarrow> None
          | s # rest \<Rightarrow>
              (let parts = split_char (CHR '':'') rest;
                   sign = (if s = CHR ''-'' then - 1 else 1);
                   seconds = sum_list (map (\<lambda>(p, k). int (digits_value p) * k) (zip parts [3600, 60, 1]))
               in if length parts > 3 \<or>
                     list_ex (\<lambda>p. length p \<noteq> 2 \<or> \<not> list_all is_ascii_digit p) parts then None
                  else if - 86400 < sign * seconds \<and> sign * seconds < 86400
                  then lr_naive_at_offset lr (take (length text - length zone) text) (sign * seconds)
                  else None))"

definition both_equal :: "'a option \<Rightarrow> 'a option \<Rightarrow> bool option" where
  "both_equal a b = (case (a, b) of (Some x, Some y) \<Rightarrow> Some (x = y) | _ \<Rightarrow> None)"

definition postgres_typed_defaults_equal :: "LiteralReaders \<Rightarrow> str \<Rightarrow> str \<Rightarrow> str \<Rightarrow> bool option" where
  "postgres_typed_defaults_equal lr target_sql_type live target =
     (case class_of target_sql_type of None \<Rightarrow> None
      | Some class \<Rightarrow>
      case constant_text class live of None \<Rightarrow> None
      | Some l \<Rightarrow>
      case constant_text class target of None \<Rightarrow> None
      | Some t \<Rightarrow>
          (case class of
             ClBoolean \<Rightarrow> Some (eq_ignore_ascii_case l t)
           | ClInteger \<Rightarrow> both_equal (parse_i64 l) (parse_i64 t)
           | ClFloat \<Rightarrow> both_equal (lr_float_bits lr l) (lr_float_bits lr t)
           | ClNumeric \<Rightarrow> both_equal (lr_decimal lr l) (lr_decimal lr t)
           | ClUuid \<Rightarrow> both_equal (lr_uuid lr l) (lr_uuid lr t)
           | ClJsonb \<Rightarrow> both_equal (lr_json lr l) (lr_json lr t)
           | ClBytea \<Rightarrow> both_equal (hex_bytea l) (hex_bytea t)
           | ClTimestamptz \<Rightarrow> both_equal (timestamptz lr l) (timestamptz lr t)))"

section \<open>Column changes\<close>

definition timestamp_default_for_comparison :: "DatabaseBackend \<Rightarrow> str \<Rightarrow> str" where
  "timestamp_default_for_comparison b d =
     (let value = canonicalize_column_default_expression d in
      if b = Postgres \<and>
         value = (''to_char((now() AT TIME ZONE '' @ [sq] @ ''UTC'' @ [sq] @ ''::text), '' @ [sq] @ ''YYYY-MM-DD'' @ [dq] @ ''T'' @ [dq] @ ''HH24:MI:SS.US'' @ [dq] @ ''Z'' @ [dq, sq] @ ''::text)'')
      then snd (the (implicit_timestamp_defaults Postgres))
      else if b = Mssql \<and>
         (value = (''datediff_big(second,'' @ [sq] @ ''1970-01-01'' @ [sq] @ '',sysutcdatetime())'') \<or>
          value = (''datediff_big([second],'' @ [sq] @ ''1970-01-01'' @ [sq] @ '',sysutcdatetime())''))
      then fst (the (implicit_timestamp_defaults Mssql))
      else if b = Mssql \<and>
         (value = (''CONVERT([varchar](27),sysutcdatetime(),(126))+'' @ [sq] @ ''Z'' @ [sq]) \<or>
          value = (''CONVERT([varchar](27),sysutcdatetime(),126)+'' @ [sq] @ ''Z'' @ [sq]))
      then snd (the (implicit_timestamp_defaults Mssql))
      else if (b = Postgres \<and> eq_ignore_ascii_case value ''NOW()'') \<or>
         (b = Mssql \<and> eq_ignore_ascii_case value ''SYSUTCDATETIME()'')
      then to_ascii_uppercase value
      else value)"

definition postgres_timestamptz_alias :: "str \<Rightarrow> bool" where
  "postgres_timestamptz_alias t \<longleftrightarrow>
     eq_ignore_ascii_case t ''TIMESTAMPTZ'' \<or> eq_ignore_ascii_case t ''timestamp with time zone''"

definition postgres_alter_metadata_supported :: "ColumnModel \<Rightarrow> ColumnModel \<Rightarrow> bool" where
  "postgres_alter_metadata_supported before after =
     (let same_type = eq_ignore_ascii_case (cm_sql_type before) (cm_sql_type after) \<or>
        (postgres_timestamptz_alias (cm_sql_type before) \<and> postgres_timestamptz_alias (cm_sql_type after))
      in cm_is_primary_key before = cm_is_primary_key after \<and>
         cm_is_unique before = cm_is_unique after \<and>
         (cm_spatial before = cm_spatial after \<or> \<not> same_type))"

definition sql_type_changed :: "DatabaseBackend \<Rightarrow> ColumnModel \<Rightarrow> ColumnModel \<Rightarrow> bool" where
  "sql_type_changed b before after =
     (if b = Postgres \<or> b = Mssql then
        \<not> eq_ignore_ascii_case (cm_sql_type before) (cm_sql_type after) \<and>
        \<not> (b = Postgres \<and> postgres_timestamptz_alias (cm_sql_type before) \<and>
           postgres_timestamptz_alias (cm_sql_type after))
      else cm_sql_type before \<noteq> cm_sql_type after)"

text \<open>The retained pre-0.92 text timestamp defaults (\<open>live\<close>, \<open>target\<close> in comparison form).\<close>

definition retained_timestamp_default :: "DatabaseBackend \<Rightarrow> str \<Rightarrow> str option \<Rightarrow> str option \<Rightarrow> bool" where
  "retained_timestamp_default b after_type live target =
     ((eq_ignore_ascii_case after_type ''TEXT'' \<or> eq_ignore_ascii_case after_type ''NVARCHAR(MAX)'') \<and>
      (case (live, target, implicit_timestamp_defaults b) of
         (Some l, Some t, Some (epoch, text)) \<Rightarrow>
           t = text \<and>
           (l = epoch \<or>
            (b = Postgres \<and>
             (eq_ignore_ascii_case l ''((extract(epoch from now()))::bigint)::text'' \<or>
              eq_ignore_ascii_case l ''(extract(epoch from now())::bigint)::text'')))
       | _ \<Rightarrow> False))"

text \<open>
  The comparison of complete text literals, and the comparison by value of the typed profile:
  \<open>None\<close> when the comparison does not apply or a side is not recognized.
\<close>

definition text_defaults_equal :: "DatabaseBackend \<Rightarrow> ColumnModel \<Rightarrow> ColumnModel \<Rightarrow> bool option" where
  "text_defaults_equal b before after =
     (if b = Postgres \<and> eq_ignore_ascii_case (cm_sql_type before) ''TEXT'' \<and>
         eq_ignore_ascii_case (cm_sql_type after) ''TEXT''
      then case (cm_default before, cm_default after) of
             (Some l, Some t) \<Rightarrow>
               both_equal (postgres_text_default_literal l) (postgres_text_default_literal t)
           | _ \<Rightarrow> None
      else None)"

definition typed_defaults_equal ::
  "LiteralReaders \<Rightarrow> DatabaseBackend \<Rightarrow> ColumnModel \<Rightarrow> ColumnModel \<Rightarrow> DefaultEquivalence \<Rightarrow> bool option" where
  "typed_defaults_equal lr b before after equivalence =
     (if equivalence = TypedLiteralsV1 \<and> b = Postgres
      then case (cm_default before, cm_default after) of
             (Some l, Some t) \<Rightarrow> postgres_typed_defaults_equal lr (cm_sql_type after) l t
           | _ \<Rightarrow> None
      else None)"

definition column_metadata_changed :: "DatabaseBackend \<Rightarrow> ColumnModel \<Rightarrow> ColumnModel \<Rightarrow> bool" where
  "column_metadata_changed b before after \<longleftrightarrow>
     cm_name before \<noteq> cm_name after \<or> sql_type_changed b before after \<or>
     cm_nullable before \<noteq> cm_nullable after \<or>
     cm_is_primary_key before \<noteq> cm_is_primary_key after \<or>
     cm_is_unique before \<noteq> cm_is_unique after \<or> cm_spatial before \<noteq> cm_spatial after"

definition column_changed_with ::
  "LiteralReaders \<Rightarrow> DatabaseBackend \<Rightarrow> ColumnModel \<Rightarrow> ColumnModel \<Rightarrow> DefaultEquivalence \<Rightarrow> bool" where
  "column_changed_with lr b before0 after0 equivalence =
     (let before = (if b = Sqlite then before0\<lparr>cm_spatial := None\<rparr> else before0);
          after = (if b = Sqlite then after0\<lparr>cm_spatial := None\<rparr> else after0);
          live_default = map_option (timestamp_default_for_comparison b) (cm_default before);
          target_default = map_option (timestamp_default_for_comparison b) (cm_default after)
      in if column_metadata_changed b before after then True
         else if live_default = target_default then False
         else if retained_timestamp_default b (cm_sql_type after) live_default target_default then False
         else case text_defaults_equal b before after of
                Some equal \<Rightarrow> \<not> equal
              | None \<Rightarrow>
                  (case typed_defaults_equal lr b before after equivalence of
                     Some equal \<Rightarrow> \<not> equal
                   | None \<Rightarrow> True))"

definition column_changed_for_backend ::
  "LiteralReaders \<Rightarrow> DatabaseBackend \<Rightarrow> ColumnModel \<Rightarrow> ColumnModel \<Rightarrow> bool" where
  "column_changed_for_backend lr b before after = column_changed_with lr b before after Pinned8e1"
section \<open>Lemmas\<close>

lemma literal_loop_delimit:
  "not_starting sq rest \<Longrightarrow>
     literal_loop False v (replace_char sq [sq, sq] w @ sq # rest) = Some (v @ w, rest)"
proof (induction w arbitrary: v)
  case Nil
  then show ?case by (cases rest) auto
next
  case (Cons c cs)
  then show ?case by (cases "c = sq") simp_all
qed

text \<open>Text that starts with a quote is canonical as soon as it carries no outer whitespace.\<close>

lemma canonicalize_quoted:
  assumes "e = sq # r" and "trim e = e"
  shows "canonicalize_column_default_expression e = e"
proof -
  have "\<not> is_fully_parenthesized e" using assms(1) by (simp add: is_fully_parenthesized_def)
  then have s: "strip_parens (trim e) = e" using assms(2) by (simp add: strip_parens.simps [of e])
  have "ascii_lower sq = sq" "ascii_upper sq = sq" by code_simp+
  then show ?thesis
    using s assms(1)
    by (simp add: canonicalize_column_default_expression_def Let_def to_ascii_lowercase_def
        to_ascii_uppercase_def)
qed

definition literal_with :: "str \<Rightarrow> str \<Rightarrow> str" where
  "literal_with v sx = delimit sq sq v @ sx"

lemma literal_with_trim:
  assumes "sx \<in> {[], ''::text''}"
  shows "trim (literal_with v sx) = literal_with v sx"
proof -
  have "ws_prefix ws_seqs (literal_with v sx) = None"
    by (simp add: ws_prefix_def ws_seqs_def starts_with_def literal_with_def delimit_def)
  moreover have "ws_prefix (map rev ws_seqs) (rev (literal_with v sx)) = None"
    using assms by (auto simp: ws_prefix_def ws_seqs_def starts_with_def literal_with_def delimit_def)
  ultimately show ?thesis by (simp add: trim_def trim_start_def trim_end_def strip_ws_id)
qed

lemma literal_with_quote: "\<exists>r. literal_with v sx = sq # r"
  by (simp add: literal_with_def delimit_def)

lemma canonicalize_literal_with:
  "sx \<in> {[], ''::text''} \<Longrightarrow>
     canonicalize_column_default_expression (literal_with v sx) = literal_with v sx"
  using canonicalize_quoted literal_with_trim literal_with_quote by metis

lemma trim_suffix: "sx \<in> {[], ''::text''} \<Longrightarrow> trim sx = sx"
  by (elim insertE emptyE; simp only:; code_simp)

lemma text_literal_with:
  assumes "sx \<in> {[], ''::text''}"
  shows "postgres_text_default_literal (literal_with v sx) = Some v"
proof -
  have "not_starting sq sx" using assms by auto
  then have "literal_loop False [] (replace_char sq [sq, sq] v @ sq # sx) = Some (v, sx)"
    by (simp add: literal_loop_delimit)
  moreover have "literal_with v sx = sq # replace_char sq [sq, sq] v @ sq # sx"
    by (simp add: literal_with_def delimit_def)
  ultimately show ?thesis
    using assms canonicalize_literal_with [OF assms, of v] trim_suffix [OF assms]
    by (auto simp: postgres_text_default_literal_def Let_def)
qed

lemma comparison_literal_with:
  assumes "sx \<in> {[], ''::text''}"
  shows "timestamp_default_for_comparison Postgres (literal_with v sx) = literal_with v sx"
proof -
  obtain r where r: "literal_with v sx = sq # r" using literal_with_quote by blast
  have "\<not> eq_ignore_ascii_case (sq # r) ''NOW()''"
  proof -
    have "to_ascii_lowercase ''NOW()'' = ''now()''" and "ascii_lower sq = sq" by code_simp+
    then show ?thesis by (simp add: eq_ignore_ascii_case_def) (simp add: to_ascii_lowercase_def)
  qed
  then show ?thesis
    using canonicalize_literal_with [OF assms, of v]
    by (simp add: timestamp_default_for_comparison_def r Let_def)
qed

lemma both_equal_Some [simp]: "both_equal (Some x) (Some y) = Some (x = y)"
  by (simp add: both_equal_def)

lemma column_changed_refl: "\<not> column_changed_with lr b c c equivalence"
  by (simp add: column_changed_with_def column_metadata_changed_def sql_type_changed_def Let_def)

lemma typed_change_pinned:
  "column_changed_with lr b before after TypedLiteralsV1 \<Longrightarrow> column_changed_with lr b before after Pinned8e1"
  by (auto simp: column_changed_with_def typed_defaults_equal_def Let_def split: option.splits if_splits)

section \<open>Properties\<close>

text \<open>
  Text defaults compare by value on PostgreSQL: for two text columns that differ only in
  their defaults, where each default is a quoted literal with or without the \<open>::text\<close> cast the
  server adds when it deparses, the planner reports a change exactly when the literal values
  differ, whatever quotes the values contain and under either comparison profile.
\<close>

theorem text_default_change_exact:
  assumes "eq_ignore_ascii_case (cm_sql_type c) ''TEXT''"
    and "s1 \<in> {[], ''::text''}" and "s2 \<in> {[], ''::text''}"
  shows "column_changed_with lr Postgres (c\<lparr>cm_default := Some (literal_with v s1)\<rparr>)
    (c\<lparr>cm_default := Some (literal_with w s2)\<rparr>) equivalence \<longleftrightarrow> v \<noteq> w"
proof -
  have eq: "v = w" if "literal_with v s1 = literal_with w s2"
    using that text_literal_with [OF assms(2), of v] text_literal_with [OF assms(3), of w] by simp
  have "\<not> retained_timestamp_default Postgres (cm_sql_type c) (Some (literal_with v s1)) (Some (literal_with w s2))"
    using literal_with_quote [of w s2] by (auto simp: retained_timestamp_default_def)
  then show ?thesis
    using assms eq
    by (auto simp: column_changed_with_def column_metadata_changed_def sql_type_changed_def Let_def
        comparison_literal_with text_defaults_equal_def text_literal_with)
qed

definition demo_text_column :: ColumnModel where
  "demo_text_column = \<lparr>cm_name = ''note'', cm_sql_type = ''text'', cm_spatial = None, cm_nullable = False,
     cm_is_primary_key = False, cm_is_unique = False, cm_default = None\<rparr>"

definition demo_readers :: LiteralReaders where
  "demo_readers = \<lparr>lr_float_bits = (\<lambda>_. None), lr_decimal = (\<lambda>_. None), lr_uuid = (\<lambda>_. None),
     lr_json = (\<lambda>_. None), lr_rfc3339 = (\<lambda>_. None), lr_naive_at_offset = (\<lambda>_ _. None)\<rparr>"

theorem text_default_change_exact_witness:
  "column_changed_with demo_readers Postgres
     (demo_text_column\<lparr>cm_default := Some (literal_with [sq] ''::text'')\<rparr>)
     (demo_text_column\<lparr>cm_default := Some (literal_with ''x'' [])\<rparr>) Pinned8e1"
proof -
  have "eq_ignore_ascii_case (cm_sql_type demo_text_column) ''TEXT''" by code_simp
  from text_default_change_exact [OF this, of "''::text''" "[]"] show ?thesis by simp
qed

text \<open>
  The typed profile only removes changes: whatever the readers of literals do, a column the
  owned planner reports as changed under \<open>TypedLiteralsV1\<close> is also reported under the pinned
  profile, both profiles agree outside PostgreSQL, and no profile reports a change between a
  column and itself.
\<close>

theorem typed_profile_refines_pinned:
  "(column_changed_with lr b before after TypedLiteralsV1 \<longrightarrow>
      column_changed_with lr b before after Pinned8e1) \<and>
   (b \<noteq> Postgres \<longrightarrow>
      column_changed_with lr b before after TypedLiteralsV1 = column_changed_with lr b before after Pinned8e1) \<and>
   \<not> column_changed_with lr b before before equivalence"
proof (intro conjI impI)
  show "\<not> column_changed_with lr b before before equivalence" by (rule column_changed_refl)
  show "column_changed_with lr b before after Pinned8e1"
    if "column_changed_with lr b before after TypedLiteralsV1"
    using that by (rule typed_change_pinned)
  show "column_changed_with lr b before after TypedLiteralsV1 = column_changed_with lr b before after Pinned8e1"
    if "b \<noteq> Postgres"
  proof -
    have "typed_defaults_equal lr b x y e = None" for x y e
      using that by (simp add: typed_defaults_equal_def)
    then show ?thesis by (auto simp: column_changed_with_def Let_def split: option.splits)
  qed
qed

theorem typed_profile_refines_pinned_witness:
  "column_changed_with demo_readers Postgres demo_text_column (demo_text_column\<lparr>cm_nullable := True\<rparr>) Pinned8e1"
proof -
  have "column_changed_with demo_readers Postgres demo_text_column
      (demo_text_column\<lparr>cm_nullable := True\<rparr>) TypedLiteralsV1"
    by (simp add: column_changed_with_def column_metadata_changed_def demo_text_column_def Let_def)
  with typed_profile_refines_pinned show ?thesis by blast
qed

end
