(* ===== verification/CheckSql.thy ===== *)
theory CheckSql
  imports Schema "HOL-Library.Multiset"
begin

text \<open>
  Structural readings of SQL that introspection returns (\<open>orm/migrations.rs\<close>): the canonical
  tokens CHECK constraints are compared by, the comment that carries a constraint's source
  text, and the tokenizer behind closed-set index predicates and append-only triggers.
\<close>

section \<open>Canonical CHECK tokens\<close>

lemma scan_body_shorter: "scan_body d s = Some (v, r) \<Longrightarrow> length r < length s"
proof (induction d s arbitrary: v rule: scan_body.induct)
  case (3 d c c2 cs)
  then show ?case by (fastforce split: if_splits)
qed (auto split: if_splits)

text \<open>
  \<open>value.push(byte as char)\<close> reads each byte of a string literal as a Latin-1 character, so a
  byte above 127 is stored as the two bytes of that character.
\<close>

definition latin1_char :: "char \<Rightarrow> str" where
  "latin1_char c =
     (let n = (of_char c :: nat) in
      if n < 128 then [c] else [char_of (192 + n div 64), char_of (128 + n mod 64)])"

definition check_ident_byte :: "char \<Rightarrow> bool" where
  "check_ident_byte c \<longleftrightarrow> is_ascii_alphanumeric c \<or> c = CHR ''_'' \<or> c = CHR ''.'' \<or> c = CHR ''$''"

definition check_number_byte :: "char \<Rightarrow> bool" where
  "check_number_byte c \<longleftrightarrow> is_ascii_digit c \<or> c \<in> {CHR ''.'', CHR ''e'', CHR ''E'', CHR ''+'', CHR ''-''}"

definition quoted_identifier_token :: "str \<Rightarrow> str" where
  "quoted_identifier_token identifier =
     (if list_all (\<lambda>b. is_ascii_lowercase b \<or> is_ascii_digit b \<or> b = CHR ''_'' \<or> b = CHR ''$'') identifier
      then identifier
      else ''quoted_identifier:'' @ show_nat (length identifier) @ '':'' @ identifier)"

function check_token_loop :: "str \<Rightarrow> str list option" where
  "check_token_loop s =
     (case s of
        [] \<Rightarrow> Some []
      | c # cs \<Rightarrow>
          if is_ascii_whitespace c then check_token_loop cs
          else if c = sq then
            (case scan_body sq cs of
               None \<Rightarrow> None
             | Some (v, r) \<Rightarrow>
                 (let value = concat (map latin1_char v) in
                  map_option ((#) (''string:'' @ show_nat (length value) @ '':'' @ value))
                    (check_token_loop r)))
          else if c = dq \<or> c = bq \<or> c = CHR ''['' then
            (case scan_body (if c = CHR ''['' then CHR '']'' else c) cs of
               None \<Rightarrow> None
             | Some (identifier, r) \<Rightarrow>
                 if \<not> utf8_valid identifier then None
                 else map_option ((#) (quoted_identifier_token identifier)) (check_token_loop r))
          else if is_ascii_alphabetic c \<or> c = CHR ''_'' then
            map_option ((#) (to_ascii_lowercase (c # takeWhile check_ident_byte cs)))
              (check_token_loop (dropWhile check_ident_byte cs))
          else if is_ascii_digit c \<or> ((c = CHR ''-'' \<or> c = CHR ''+'') \<and> cs \<noteq> [] \<and> is_ascii_digit (hd cs)) then
            map_option ((#) (c # takeWhile check_number_byte cs))
              (check_token_loop (dropWhile check_number_byte cs))
          else if c \<in> {CHR ''>'', CHR ''<'', CHR ''='', CHR ''!''} then
            (if cs \<noteq> [] \<and> (hd cs = CHR ''='' \<or> (c = CHR ''<'' \<and> hd cs = CHR ''>''))
             then map_option ((#) [c, hd cs]) (check_token_loop (tl cs))
             else map_option ((#) [c]) (check_token_loop cs))
          else if c \<in> {CHR ''('', CHR '')'', CHR '',''} then map_option ((#) [c]) (check_token_loop cs)
          else None)"
  by pat_completeness auto
termination
  by (relation "measure length")
    (auto dest!: scan_body_shorter simp: less_Suc_eq_le length_dropWhile_le split: if_splits)

declare check_token_loop.simps [simp del]

text \<open>One pass over the tokens: \<open>None\<close> is the early return, otherwise \<open>wraps_all\<close> and the depth.\<close>

fun wrap_pass :: "int \<Rightarrow> str list \<Rightarrow> (bool \<times> int) option" where
  "wrap_pass depth [] = Some (True, depth)"
| "wrap_pass depth (t # ts) =
     (let d = (if t = ''('' then depth + 1 else if t = '')'' then depth - 1 else depth) in
      if d = 0 \<and> ts \<noteq> [] then Some (False, d)
      else if d < 0 then None
      else wrap_pass d ts)"

function strip_wrapping :: "str list \<Rightarrow> str list option" where
  "strip_wrapping ts =
     (if ts = [] \<or> hd ts \<noteq> ''('' \<or> last ts \<noteq> '')'' then Some ts
      else case wrap_pass 0 ts of
             None \<Rightarrow> None
           | Some (wraps_all, depth) \<Rightarrow>
               if \<not> wraps_all \<or> depth \<noteq> 0 then Some ts
               else strip_wrapping (butlast (tl ts)))"
  by pat_completeness auto
termination by (relation "measure length") (auto simp: neq_Nil_conv)

declare strip_wrapping.simps [simp del]

definition canonical_check_tokens :: "str \<Rightarrow> str list option" where
  "canonical_check_tokens expression =
     (case check_token_loop (trim expression) of None \<Rightarrow> None | Some tokens \<Rightarrow> strip_wrapping tokens)"

text \<open>Collecting into \<open>Option<Vec<_>>\<close>.\<close>

fun collect_options :: "'a option list \<Rightarrow> 'a list option" where
  "collect_options [] = Some []"
| "collect_options (None # xs) = None"
| "collect_options (Some x # xs) = map_option ((#) x) (collect_options xs)"

definition canonical_checks :: "CheckConstraintModel list \<Rightarrow> str list list option" where
  "canonical_checks cs =
     map_option sort (collect_options (map (canonical_check_tokens \<circ> cc_expression) cs))"

definition check_constraints_equivalent :: "CheckConstraintModel list \<Rightarrow> CheckConstraintModel list \<Rightarrow> bool" where
  "check_constraints_equivalent current target =
     (case (canonical_checks current, canonical_checks target) of
        (Some c, Some t) \<Rightarrow> c = t
      | _ \<Rightarrow> current = target)"

section \<open>Constraint comments\<close>

definition constraint_comment :: "str \<Rightarrow> str" where
  "constraint_comment expression = ''graphql-orm:'' @ hex_encode expression"

definition is_ascii_hexdigit :: "char \<Rightarrow> bool" where
  "is_ascii_hexdigit c \<longleftrightarrow> hex_value c \<noteq> None"

definition decode_constraint_comment :: "str \<Rightarrow> str option" where
  "decode_constraint_comment comment =
     (case strip_prefix ''graphql-orm:'' comment of
        None \<Rightarrow> None
      | Some hex \<Rightarrow>
          if length hex mod 2 \<noteq> 0 \<or> \<not> list_all is_ascii_hexdigit hex then None
          else case hex_decode hex of
                 None \<Rightarrow> None
               | Some bytes \<Rightarrow> if utf8_valid bytes then Some bytes else None)"

section \<open>Structural tokens\<close>

datatype StructuralSqlToken =
    TIdent str | TString str | TNumber str | LeftParen | RightParen | LeftBracket | RightBracket
  | TComma | TEquals | DoubleColon | Semicolon

definition structural_ident_byte :: "char \<Rightarrow> bool" where
  "structural_ident_byte c \<longleftrightarrow> is_ascii_alphanumeric c \<or> c = CHR ''_''"

function tokenize_structural_sql :: "str \<Rightarrow> StructuralSqlToken list option" where
  "tokenize_structural_sql s =
     (case s of
        [] \<Rightarrow> Some []
      | c # cs \<Rightarrow>
        (case ws_prefix ws_seqs s of
           Some w \<Rightarrow> tokenize_structural_sql (drop (length w) s)
         | None \<Rightarrow>
             if c = CHR ''('' then map_option ((#) LeftParen) (tokenize_structural_sql cs)
             else if c = CHR '')'' then map_option ((#) RightParen) (tokenize_structural_sql cs)
             else if c = CHR ''['' then map_option ((#) LeftBracket) (tokenize_structural_sql cs)
             else if c = CHR '']'' then map_option ((#) RightBracket) (tokenize_structural_sql cs)
             else if c = CHR '','' then map_option ((#) TComma) (tokenize_structural_sql cs)
             else if c = CHR ''='' then map_option ((#) TEquals) (tokenize_structural_sql cs)
             else if c = CHR '';'' then map_option ((#) Semicolon) (tokenize_structural_sql cs)
             else if c = CHR '':'' then
               (if cs \<noteq> [] \<and> hd cs = CHR '':''
                then map_option ((#) DoubleColon) (tokenize_structural_sql (tl cs)) else None)
             else if c = sq then
               (case scan_body sq cs of
                  None \<Rightarrow> None
                | Some (v, r) \<Rightarrow> map_option ((#) (TString v)) (tokenize_structural_sql r))
             else if c = dq then
               (case scan_body dq cs of
                  None \<Rightarrow> None
                | Some (v, r) \<Rightarrow> map_option ((#) (TIdent v)) (tokenize_structural_sql r))
             else if is_ascii_alphabetic c \<or> c = CHR ''_'' then
               map_option ((#) (TIdent (c # takeWhile structural_ident_byte cs)))
                 (tokenize_structural_sql (dropWhile structural_ident_byte cs))
             else if is_ascii_digit c then
               map_option ((#) (TNumber (c # takeWhile is_ascii_digit cs)))
                 (tokenize_structural_sql (dropWhile is_ascii_digit cs))
             else None))"
  by pat_completeness auto
termination
  by (relation "measure length")
    (auto dest!: scan_body_shorter ws_prefix_shorter simp: less_Suc_eq_le length_dropWhile_le split: if_splits)

declare tokenize_structural_sql.simps [simp del]

definition token_at :: "StructuralSqlToken list \<Rightarrow> nat \<Rightarrow> StructuralSqlToken option" where
  "token_at ts i = (if i < length ts then Some (ts ! i) else None)"

definition structural_ident :: "StructuralSqlToken option \<Rightarrow> str \<Rightarrow> bool" where
  "structural_ident t expected =
     (case t of Some (TIdent v) \<Rightarrow> eq_ignore_ascii_case v expected | _ \<Rightarrow> False)"

text \<open>One pass of the loop: whether the first parenthesis closes last, and the final depth.\<close>

fun enclose_pass :: "nat \<Rightarrow> StructuralSqlToken list \<Rightarrow> bool \<times> nat" where
  "enclose_pass depth [] = (True, depth)"
| "enclose_pass depth (t # ts) =
     (if t = LeftParen then enclose_pass (depth + 1) ts
      else if t = RightParen then
        (let d = (if depth = 0 then 2 ^ 64 - 1 else depth - 1) in
         if d = 0 \<and> ts \<noteq> [] then (False, d) else enclose_pass d ts)
      else enclose_pass depth ts)"

function strip_redundant_outer_parentheses :: "StructuralSqlToken list \<Rightarrow> StructuralSqlToken list" where
  "strip_redundant_outer_parentheses ts =
     (if ts = [] \<or> hd ts \<noteq> LeftParen \<or> last ts \<noteq> RightParen then ts
      else let (encloses_all, depth) = enclose_pass 0 ts in
        if \<not> encloses_all \<or> depth \<noteq> 0 then ts
        else strip_redundant_outer_parentheses (butlast (tl ts)))"
  by pat_completeness auto
termination by (relation "measure length") (auto simp: neq_Nil_conv)

declare strip_redundant_outer_parentheses.simps [simp del]

text \<open>A parser takes the remaining tokens and returns a value and the tokens after it.\<close>

fun parse_structural_string_value :: "StructuralSqlToken list \<Rightarrow> (str \<times> StructuralSqlToken list) option" where
  "parse_structural_string_value (TString v # ts) =
     (case ts of
        DoubleColon # ts2 \<Rightarrow>
          if structural_ident (token_at ts2 0) ''text'' then Some (v, tl ts2) else None
      | _ \<Rightarrow> Some (v, ts))"
| "parse_structural_string_value _ = None"

lemma parse_value_shorter:
  "parse_structural_string_value ts = Some (v, r) \<Longrightarrow> length r < length ts"
  by (cases ts rule: parse_structural_string_value.cases)
    (auto split: list.splits StructuralSqlToken.splits if_splits)

function parse_value_list :: "StructuralSqlToken list \<Rightarrow> (str list \<times> StructuralSqlToken list) option" where
  "parse_value_list ts =
     (case parse_structural_string_value ts of
        None \<Rightarrow> None
      | Some (v, r) \<Rightarrow>
          (case r of
             TComma # r2 \<Rightarrow> map_option (map_prod ((#) v) id) (parse_value_list r2)
           | _ \<Rightarrow> Some ([v], r)))"
  by pat_completeness auto
termination by (relation "measure length") (auto dest!: parse_value_shorter)

declare parse_value_list.simps [simp del]

text \<open>The array form: the closing bracket and an optional \<open>::text[]\<close> cast.\<close>

definition parse_array_end :: "StructuralSqlToken list \<Rightarrow> StructuralSqlToken list option" where
  "parse_array_end ts =
     (case ts of
        RightBracket # ts2 \<Rightarrow>
          (case ts2 of
             DoubleColon # ts3 \<Rightarrow>
               if structural_ident (token_at ts3 0) ''text'' \<and> token_at ts3 1 = Some LeftBracket \<and>
                  token_at ts3 2 = Some RightBracket
               then Some (drop 3 ts3) else None
           | _ \<Rightarrow> Some ts2)
      | _ \<Rightarrow> None)"

definition parse_closed_set_index_predicate :: "str \<Rightarrow> IndexPredicateModel option" where
  "parse_closed_set_index_predicate expression =
     (case tokenize_structural_sql expression of
        None \<Rightarrow> None
      | Some all_tokens \<Rightarrow>
          (case strip_redundant_outer_parentheses all_tokens of
             TIdent column # ts \<Rightarrow>
               (let is_in = structural_ident (token_at ts 0) ''in'';
                    ts1 = drop (if is_in then 1 else 2) ts;
                    ts2 = drop (if is_in then 1 else 3) ts1
                in if column = [] then None
                   else if \<not> is_in \<and> (token_at ts 0 \<noteq> Some TEquals \<or> \<not> structural_ident (token_at ts 1) ''any'')
                   then None
                   else if token_at ts1 0 \<noteq> Some LeftParen then None
                   else if \<not> is_in \<and>
                     (\<not> structural_ident (token_at ts1 1) ''array'' \<or> token_at ts1 2 \<noteq> Some LeftBracket)
                   then None
                   else case parse_value_list ts2 of
                          None \<Rightarrow> None
                        | Some (values, ts3) \<Rightarrow>
                            (case (if is_in then Some ts3 else parse_array_end ts3) of
                               Some [RightParen] \<Rightarrow>
                                 Some \<lparr>ip_column = column, ip_values = remdups_adj (sort values)\<rparr>
                             | _ \<Rightarrow> None))
           | _ \<Rightarrow> None))"

definition sql_string_literal :: "str \<Rightarrow> str" where
  "sql_string_literal v = [sq] @ replace_char sq [sq, sq] v @ [sq]"

text \<open>The \<open>WHERE\<close> clause of \<open>render_create_index_statement\<close>.\<close>

definition render_index_predicate :: "DatabaseBackend \<Rightarrow> IndexPredicateModel \<Rightarrow> str" where
  "render_index_predicate b p =
     quote_identifier b (ip_column p) @ '' IN ('' @ join '', '' (map sql_string_literal (ip_values p)) @ '')''"

section \<open>Append-only triggers\<close>

definition append_only_name :: "str \<Rightarrow> str" where
  "append_only_name table_name =
     (let sanitized = map (\<lambda>c. if is_ascii_alphanumeric c then ascii_lower c else CHR ''_'') (utf8_heads table_name);
          full = ''graphql_orm_append_only_'' @ sanitized
      in if length full \<le> 56 then full else take 39 full @ ''_'' @ hex16 (fnv1a64 full))"

definition sqlite_append_only_trigger :: "str \<Rightarrow> str \<Rightarrow> str \<Rightarrow> str" where
  "sqlite_append_only_trigger name event table =
     ''CREATE TRIGGER '' @ name @ '' BEFORE '' @ event @ '' ON '' @ table @
     ('' BEGIN SELECT RAISE(ABORT, '' @ [sq] @ ''append-only entity'' @ [sq] @ ''); END'')"

definition sqlite_append_only_trigger_matches :: "str \<Rightarrow> str \<Rightarrow> str \<Rightarrow> str \<Rightarrow> bool" where
  "sqlite_append_only_trigger_matches sql expected_name expected_table expected_event =
     (case tokenize_structural_sql sql of
        None \<Rightarrow> False
      | Some ts \<Rightarrow>
          if \<not> (length ts = 17 \<or> length ts = 18) \<or>
             \<not> list_all (\<lambda>(i, expected). structural_ident (token_at ts i) expected)
                 [(0, ''create''), (1, ''trigger''), (3, ''before''), (4, expected_event), (5, ''on''),
                  (7, ''begin''), (8, ''select''), (9, ''raise''), (11, ''abort''), (16, ''end'')] \<or>
             \<not> structural_ident (token_at ts 2) expected_name \<or>
             \<not> structural_ident (token_at ts 6) expected_table \<or>
             token_at ts 10 \<noteq> Some LeftParen \<or> token_at ts 12 \<noteq> Some TComma \<or>
             token_at ts 14 \<noteq> Some RightParen \<or> token_at ts 15 \<noteq> Some Semicolon \<or>
             (length ts = 18 \<and> token_at ts 17 \<noteq> Some Semicolon)
          then False
          else token_at ts 13 = Some (TString ''append-only entity''))"

definition sqlite_retention_delete_trigger :: "str \<Rightarrow> str \<Rightarrow> str \<Rightarrow> str" where
  "sqlite_retention_delete_trigger name table table_literal =
     ''CREATE TRIGGER '' @ name @ '' BEFORE DELETE ON '' @ table @
     ('' WHEN NOT EXISTS (SELECT 1 FROM __graphql_orm_retention_context WHERE table_name = '' @ [sq]) @ table_literal @
     ([sq] @ '') BEGIN SELECT RAISE(ABORT, '' @ [sq] @ ''append-only entity'' @ [sq] @ ''); END'')"

definition tokens_match :: "str \<Rightarrow> str \<Rightarrow> bool" where
  "tokens_match sql expected =
     (case (tokenize_structural_sql sql, tokenize_structural_sql expected) of
        (Some a, Some e) \<Rightarrow> a = e | _ \<Rightarrow> False)"

definition sqlite_retention_delete_trigger_matches :: "str \<Rightarrow> str \<Rightarrow> str \<Rightarrow> bool" where
  "sqlite_retention_delete_trigger_matches sql expected_name expected_table =
     tokens_match sql
       (sqlite_retention_delete_trigger expected_name (render_identifier_path Sqlite expected_table)
          (replace_char sq [sq, sq] expected_table))"

definition postgres_append_only_function_body_matches :: "str \<Rightarrow> bool" where
  "postgres_append_only_function_body_matches body =
     (case tokenize_structural_sql body of
        None \<Rightarrow> False
      | Some ts \<Rightarrow>
          (length ts = 13 \<or> length ts = 14) \<and>
          structural_ident (token_at ts 0) ''begin'' \<and> structural_ident (token_at ts 1) ''raise'' \<and>
          structural_ident (token_at ts 2) ''exception'' \<and> structural_ident (token_at ts 3) ''using'' \<and>
          structural_ident (token_at ts 4) ''errcode'' \<and> token_at ts 5 = Some TEquals \<and>
          token_at ts 6 = Some (TString ''23514'') \<and> token_at ts 7 = Some TComma \<and>
          structural_ident (token_at ts 8) ''message'' \<and> token_at ts 9 = Some TEquals \<and>
          token_at ts 10 = Some (TString ''append-only entity'') \<and> token_at ts 11 = Some Semicolon \<and>
          structural_ident (token_at ts 12) ''end'' \<and>
          (length ts = 13 \<or> token_at ts 13 = Some Semicolon))"

definition postgres_append_only_body :: str where
  "postgres_append_only_body =
     (''BEGIN RAISE EXCEPTION USING ERRCODE = '' @ [sq] @ ''23514'' @ [sq] @ '', MESSAGE = '' @ [sq] @ ''append-only entity'' @ [sq] @ ''; END'')"

definition postgres_retention_body :: "str \<Rightarrow> str" where
  "postgres_retention_body table_literal =
     (''BEGIN IF TG_OP = '' @ [sq] @ ''DELETE'' @ [sq] @ '' AND current_setting('' @ [sq] @ ''graphql_orm.retention_entity'' @ [sq] @ '', true) = '' @ [sq]) @ table_literal @
     ([sq] @ '' THEN RETURN OLD; END IF; RAISE EXCEPTION USING ERRCODE = '' @ [sq] @ ''23514'' @ [sq] @ '', MESSAGE = '' @ [sq] @ ''append-only entity'' @ [sq] @ ''; END'')"

definition postgres_retention_function_body_matches :: "str \<Rightarrow> str \<Rightarrow> bool" where
  "postgres_retention_function_body_matches body expected_table =
     tokens_match body (postgres_retention_body (replace_char sq [sq, sq] expected_table))"

section \<open>Tokenizer lemmas\<close>

lemma ws_prefix_ascii_None:
  assumes "is_ascii c" and "c \<notin> {CHR 0x09, CHR 0x0A, CHR 0x0B, CHR 0x0C, CHR 0x0D, CHR 0x20}"
  shows "ws_prefix ws_seqs (c # cs) = None"
proof -
  have "c \<noteq> CHR 0xC2" "c \<noteq> CHR 0xE1" "c \<noteq> CHR 0xE2" "c \<noteq> CHR 0xE3"
    using assms(1) by (auto simp: is_ascii_def)
  with assms(2) show ?thesis by (simp add: ws_prefix_def ws_seqs_def starts_with_def)
qed

lemma tokenize_Nil [simp]: "tokenize_structural_sql [] = Some []"
  by (simp add: tokenize_structural_sql.simps [of "[]"])

lemma tokenize_space [simp]: "tokenize_structural_sql (CHR '' '' # s) = tokenize_structural_sql s"
  by (simp add: tokenize_structural_sql.simps [of "CHR '' '' # s"] ws_prefix_def ws_seqs_def starts_with_def)

lemma tokenize_punctuation [simp]:
  "tokenize_structural_sql (CHR ''('' # s) = map_option ((#) LeftParen) (tokenize_structural_sql s)"
  "tokenize_structural_sql (CHR '')'' # s) = map_option ((#) RightParen) (tokenize_structural_sql s)"
  "tokenize_structural_sql (CHR '','' # s) = map_option ((#) TComma) (tokenize_structural_sql s)"
  "tokenize_structural_sql (CHR ''='' # s) = map_option ((#) TEquals) (tokenize_structural_sql s)"
  "tokenize_structural_sql (CHR '';'' # s) = map_option ((#) Semicolon) (tokenize_structural_sql s)"
  by (subst tokenize_structural_sql.simps; simp add: ws_prefix_def ws_seqs_def starts_with_def)+

lemma tokenize_string:
  assumes "scan_body sq s = Some (v, r)"
  shows "tokenize_structural_sql (sq # s) = map_option ((#) (TString v)) (tokenize_structural_sql r)"
  using assms
  by (simp add: tokenize_structural_sql.simps [of "sq # s"] ws_prefix_def ws_seqs_def starts_with_def)

lemma tokenize_quoted:
  assumes "scan_body dq s = Some (v, r)"
  shows "tokenize_structural_sql (dq # s) = map_option ((#) (TIdent v)) (tokenize_structural_sql r)"
  using assms
  by (simp add: tokenize_structural_sql.simps [of "dq # s"] ws_prefix_def ws_seqs_def starts_with_def)

lemma tokenize_literal:
  "not_starting sq rest \<Longrightarrow>
     tokenize_structural_sql (sql_string_literal v @ rest) = map_option ((#) (TString v)) (tokenize_structural_sql rest)"
  by (simp add: sql_string_literal_def tokenize_string scan_body_double)

lemma tokenize_delimited:
  "not_starting dq rest \<Longrightarrow>
     tokenize_structural_sql (delimit dq dq v @ rest) = map_option ((#) (TIdent v)) (tokenize_structural_sql rest)"
  by (simp add: delimit_def tokenize_quoted scan_body_double)

text \<open>Words that the tokenizer reads whole: a letter or underscore, then letters, digits, underscores.\<close>

definition word_like :: "str \<Rightarrow> bool" where
  "word_like s \<longleftrightarrow>
     s \<noteq> [] \<and> (is_ascii_alphabetic (hd s) \<or> hd s = CHR ''_'') \<and> list_all structural_ident_byte s"

lemma takeWhile_word:
  assumes "list_all P w" and "rest = [] \<or> \<not> P (hd rest)"
  shows "takeWhile P (w @ rest) = w" and "dropWhile P (w @ rest) = rest"
proof -
  have w: "\<And>x. x \<in> set w \<Longrightarrow> P x" using assms(1) by (simp add: list_all_iff)
  have "takeWhile P rest = []" and "dropWhile P rest = rest" using assms(2) by (cases rest; auto)+
  with w show "takeWhile P (w @ rest) = w" and "dropWhile P (w @ rest) = rest"
    by (simp_all add: takeWhile_append2 dropWhile_append2)
qed

lemma word_start:
  assumes "is_ascii_alphabetic c \<or> c = CHR ''_''"
  shows "is_ascii c" and "c \<notin> {CHR 0x09, CHR 0x0A, CHR 0x0B, CHR 0x0C, CHR 0x0D, CHR 0x20}"
    and "c \<notin> {CHR ''('', CHR '')'', CHR ''['', CHR '']'', CHR '','', CHR ''='', CHR '';'', CHR '':'', sq, dq, bq, CHR ''.''}"
  using assms by (auto simp: ascii_defs Let_def)

lemma tokenize_word:
  assumes "word_like w" and "rest = [] \<or> \<not> structural_ident_byte (hd rest)"
  shows "tokenize_structural_sql (w @ rest) = map_option ((#) (TIdent w)) (tokenize_structural_sql rest)"
proof -
  from assms(1) obtain c cs where w: "w = c # cs" and c: "is_ascii_alphabetic c \<or> c = CHR ''_''"
    and cs: "list_all structural_ident_byte cs"
    by (cases w) (auto simp: word_like_def)
  have "ws_prefix ws_seqs (c # cs @ rest) = None"
    using word_start [OF c] by (intro ws_prefix_ascii_None)
  with c word_start [OF c] takeWhile_word [OF cs assms(2)] w show ?thesis
    by (simp add: tokenize_structural_sql.simps [of "c # cs @ rest"])
qed

lemma not_structural_ident_byte [simp]:
  "\<not> structural_ident_byte (CHR '' '')" "\<not> structural_ident_byte (CHR ''('')" "\<not> structural_ident_byte (CHR '','')"
  "\<not> structural_ident_byte (CHR '';'')"
  by (simp_all add: structural_ident_byte_def ascii_defs)

section \<open>Index predicates read back\<close>

fun value_tokens :: "str list \<Rightarrow> StructuralSqlToken list" where
  "value_tokens [] = []"
| "value_tokens [v] = [TString v]"
| "value_tokens (v # w # vs) = TString v # TComma # value_tokens (w # vs)"

lemma tokenize_values:
  "vs \<noteq> [] \<Longrightarrow> not_starting sq rest \<Longrightarrow>
     tokenize_structural_sql (join '', '' (map sql_string_literal vs) @ rest) =
       map_option (\<lambda>ts. value_tokens vs @ ts) (tokenize_structural_sql rest)"
  by (cases "tokenize_structural_sql rest"; induction vs rule: value_tokens.induct)
    (auto simp: tokenize_literal)

lemma parse_value_tokens:
  "vs \<noteq> [] \<Longrightarrow> parse_value_list (value_tokens vs @ [RightParen]) = Some (vs, [RightParen])"
  by (induction vs rule: value_tokens.induct) (simp_all add: parse_value_list.simps)

lemma quote_identifier_dq:
  "quote_identifier b s \<noteq> s \<Longrightarrow> b = Sqlite \<or> b = Postgres \<Longrightarrow> quote_identifier b s = delimit dq dq s"
  using quote_identifier_cases [of b s] by auto

lemma tokenize_in: "tokenize_structural_sql (''IN ('' @ s) =
    map_option (\<lambda>ts. TIdent ''IN'' # LeftParen # ts) (tokenize_structural_sql s)"
proof -
  have "word_like ''IN''" by code_simp
  from tokenize_word [OF this, of "'' ('' @ s"] show ?thesis
    by (simp add: option.map_comp comp_def)
qed

lemma tokenize_predicate:
  assumes "b = Sqlite \<or> b = Postgres" and "quote_identifier b (ip_column p) \<noteq> ip_column p" and "ip_values p \<noteq> []"
  shows "tokenize_structural_sql (render_index_predicate b p) =
    Some (TIdent (ip_column p) # TIdent ''IN'' # LeftParen # value_tokens (ip_values p) @ [RightParen])"
proof -
  have q: "quote_identifier b (ip_column p) = delimit dq dq (ip_column p)"
    using quote_identifier_dq assms(1,2) by blast
  have i: "tokenize_structural_sql (CHR ''I'' # CHR ''N'' # CHR '' '' # CHR ''('' # s) =
      map_option (\<lambda>ts. TIdent ''IN'' # LeftParen # ts) (tokenize_structural_sql s)" for s
    using tokenize_in [of s] by simp
  show ?thesis
    unfolding render_index_predicate_def q
    using assms(3) by (simp add: tokenize_delimited i tokenize_values option.map_comp comp_def)
qed

section \<open>Append-only triggers read back\<close>

lemma word_like_append: "word_like a \<Longrightarrow> list_all structural_ident_byte b \<Longrightarrow> word_like (a @ b)"
  by (cases a) (auto simp: word_like_def)

lemma alphanumeric_lower: "is_ascii_alphanumeric c \<Longrightarrow> is_ascii_alphanumeric (ascii_lower c)"
  by (auto simp: is_ascii_alphanumeric_def is_ascii_alphabetic_def is_ascii_uppercase_def
      is_ascii_lowercase_def is_ascii_digit_def of_char_ascii_lower Let_def)

lemma hex_digits_alphanumeric: "c \<in> set (hex_digits k n) \<Longrightarrow> is_ascii_alphanumeric c"
proof (induction k arbitrary: n)
  case (Suc k)
  have "is_ascii_alphanumeric (digit_char (n mod 16))"
    by (auto simp: is_ascii_alphanumeric_def is_ascii_alphabetic_def is_ascii_uppercase_def
        is_ascii_lowercase_def is_ascii_digit_def digit_char_less Let_def)
  with Suc show ?case by auto
qed simp

lemma append_only_name_word: "word_like (append_only_name t)"
proof -
  define body where "body =
    map (\<lambda>c. if is_ascii_alphanumeric c then ascii_lower c else CHR ''_'') (utf8_heads t)"
  have pre: "word_like ''graphql_orm_append_only_''" by code_simp
  have "list_all structural_ident_byte body"
    by (auto simp: body_def list_all_iff structural_ident_byte_def alphanumeric_lower)
  with pre have full: "word_like (''graphql_orm_append_only_'' @ body)" by (rule word_like_append)
  have "list_all structural_ident_byte (''_'' @ hex16 (fnv1a64 (''graphql_orm_append_only_'' @ body)))"
    by (auto simp: list_all_iff structural_ident_byte_def hex16_def dest: hex_digits_alphanumeric)
  moreover have "word_like (take 39 (''graphql_orm_append_only_'' @ body))"
    using full by (auto simp: word_like_def list_all_iff dest: in_set_takeD)
  ultimately have "word_like (take 39 (''graphql_orm_append_only_'' @ body) @ ''_'' @
      hex16 (fnv1a64 (''graphql_orm_append_only_'' @ body)))"
    by (intro word_like_append)
  with full show ?thesis by (simp add: append_only_name_def body_def [symmetric] Let_def)
qed

lemma path_scan_word:
  "list_all structural_ident_byte s \<Longrightarrow> part \<noteq> [] \<Longrightarrow> path_scan part None s = [part @ s]"
proof (induction s arbitrary: part)
  case (Cons c cs)
  then have "c \<noteq> CHR ''.''" by (auto simp: structural_ident_byte_def ascii_defs)
  with Cons show ?case by simp
qed simp

lemma word_path_parts:
  assumes "word_like s"
  shows "identifier_path_parts s = [s]"
proof -
  from assms obtain c cs where s: "s = c # cs" and c: "is_ascii_alphabetic c \<or> c = CHR ''_''"
    and cs: "list_all structural_ident_byte cs"
    by (cases s) (auto simp: word_like_def)
  with word_start [OF c] path_scan_word [OF cs, of "[c]"] show ?thesis
    by (simp add: identifier_path_parts_def)
qed

lemma tokenize_rendered_word:
  assumes "word_like t" and "not_starting dq rest" and "rest = [] \<or> \<not> structural_ident_byte (hd rest)"
  shows "tokenize_structural_sql (render_identifier_path Sqlite t @ rest) =
    map_option ((#) (TIdent t)) (tokenize_structural_sql rest)"
proof -
  have t: "t \<noteq> []" using assms(1) by (simp add: word_like_def)
  have "render_identifier_path Sqlite t = render_identifier Sqlite t"
    using word_path_parts [OF assms(1)] t
    by (simp add: render_identifier_path_def) (simp add: render_identifier_def)
  moreover have "render_identifier Sqlite t = t \<or> render_identifier Sqlite t = delimit dq dq t"
    using render_identifier_cases [of Sqlite t] quote_identifier_cases [of Sqlite t] by auto
  ultimately show ?thesis
    using tokenize_word [OF assms(1,3)] tokenize_delimited [OF assms(2), of t] by metis
qed

lemma tokenize_keyword:
  assumes "word_like w"
  shows "tokenize_structural_sql (w @ CHR '' '' # s) = map_option ((#) (TIdent w)) (tokenize_structural_sql s)"
    and "tokenize_structural_sql (w @ CHR ''('' # s) =
      map_option (\<lambda>ts. TIdent w # LeftParen # ts) (tokenize_structural_sql s)"
    and "tokenize_structural_sql (w @ CHR '','' # s) =
      map_option (\<lambda>ts. TIdent w # TComma # ts) (tokenize_structural_sql s)"
    and "tokenize_structural_sql w = Some [TIdent w]"
  using tokenize_word [OF assms, of "CHR '' '' # s"] tokenize_word [OF assms, of "CHR ''('' # s"]
    tokenize_word [OF assms, of "CHR '','' # s"] tokenize_word [OF assms, of "[]"]
  by (simp_all add: option.map_comp comp_def)

lemma trigger_tail:
  "tokenize_structural_sql (''BEGIN SELECT RAISE(ABORT, '' @ [sq] @ ''append-only entity'' @ [sq] @ ''); END'') =
     Some [TIdent ''BEGIN'', TIdent ''SELECT'', TIdent ''RAISE'', LeftParen, TIdent ''ABORT'', TComma,
       TString ''append-only entity'', RightParen, Semicolon, TIdent ''END'']"
  by code_simp

lemma trigger_tokens:
  assumes "word_like n" and "word_like e" and "word_like t"
  shows "tokenize_structural_sql (sqlite_append_only_trigger n e (render_identifier_path Sqlite t)) =
    Some [TIdent ''CREATE'', TIdent ''TRIGGER'', TIdent n, TIdent ''BEFORE'', TIdent e, TIdent ''ON'', TIdent t,
      TIdent ''BEGIN'', TIdent ''SELECT'', TIdent ''RAISE'', LeftParen, TIdent ''ABORT'', TComma,
      TString ''append-only entity'', RightParen, Semicolon, TIdent ''END'']"
proof -
  let ?tail = "CHR '' '' # (''BEGIN SELECT RAISE(ABORT, '' @ [sq] @ ''append-only entity'' @ [sq] @ ''); END'')"
  have w: "word_like ''CREATE''" "word_like ''TRIGGER''" "word_like ''BEFORE''" "word_like ''ON''"
    by code_simp+
  have "sqlite_append_only_trigger n e (render_identifier_path Sqlite t) =
      ''CREATE'' @ CHR '' '' # ''TRIGGER'' @ CHR '' '' # n @ CHR '' '' # ''BEFORE'' @ CHR '' '' #
      e @ CHR '' '' # ''ON'' @ CHR '' '' # render_identifier_path Sqlite t @ ?tail"
    by (simp add: sqlite_append_only_trigger_def)
  moreover have "tokenize_structural_sql (render_identifier_path Sqlite t @ ?tail) =
      map_option ((#) (TIdent t)) (tokenize_structural_sql ?tail)"
    using assms(3) by (intro tokenize_rendered_word) auto
  moreover have "tokenize_structural_sql ?tail = tokenize_structural_sql (tl ?tail)"
    by (simp only: tokenize_space list.sel)
  ultimately show ?thesis
    using trigger_tail by (simp only: tokenize_keyword(1) [OF w(1)] tokenize_keyword(1) [OF w(2)]
        tokenize_keyword(1) [OF w(3)] tokenize_keyword(1) [OF w(4)] tokenize_keyword(1) [OF assms(1)]
        tokenize_keyword(1) [OF assms(2)] list.sel option.map)
qed

section \<open>Comparison of CHECK constraints\<close>

lemma collect_options_Some:
  "collect_options xs = Some ys \<longleftrightarrow> xs = map Some ys"
  by (induction xs arbitrary: ys rule: collect_options.induct) (auto simp: Cons_eq_map_conv)

lemma check_equivalent_refl: "check_constraints_equivalent cs cs"
  by (simp add: check_constraints_equivalent_def split: option.splits)

lemma check_equivalent_sym: "check_constraints_equivalent a b \<Longrightarrow> check_constraints_equivalent b a"
  by (auto simp: check_constraints_equivalent_def split: option.splits)

lemma check_equivalent_trans:
  "check_constraints_equivalent a b \<Longrightarrow> check_constraints_equivalent b c \<Longrightarrow> check_constraints_equivalent a c"
  by (auto simp: check_constraints_equivalent_def split: option.splits)

lemma canonical_checks_mset:
  assumes "mset (map (canonical_check_tokens \<circ> cc_expression) a) = mset (map (canonical_check_tokens \<circ> cc_expression) b)"
  shows "canonical_checks a = canonical_checks b"
proof -
  let ?f = "canonical_check_tokens \<circ> cc_expression"
  have none: "collect_options xs = None \<longleftrightarrow> None \<in> set xs" for xs :: "str list option list"
    by (induction xs rule: collect_options.induct) auto
  show ?thesis
  proof (cases "collect_options (map ?f a)")
    case None
    then have "None \<in> set (map ?f a)" using none by blast
    also have "set (map ?f a) = set (map ?f b)" using assms by (rule mset_eq_setD)
    finally have "collect_options (map ?f b) = None" using none by blast
    with None show ?thesis by (simp add: canonical_checks_def)
  next
    case (Some ys)
    then have ys: "map ?f a = map Some ys" by (simp add: collect_options_Some)
    have "None \<notin> set (map ?f b)" using assms ys by (metis (no_types, lifting) ex_map_conv list.set_map image_iff mset_eq_setD option.distinct(1))
    then obtain zs where zs: "collect_options (map ?f b) = Some zs" using none by fastforce
    then have "map ?f b = map Some zs" by (simp add: collect_options_Some)
    with assms ys have "mset (map Some ys) = mset (map Some zs)" by simp
    then have "mset ys = mset zs" by (metis ex_mset inj_Some mset_map multiset.inj_map_strong multiset.map_id image_mset_eq_image_mset_plusD inj_eq injI)
    then have "sort ys = sort zs" by (rule properties_for_sort [THEN sym, OF _ sorted_sort, simplified])
    with Some zs show ?thesis by (simp add: canonical_checks_def)
  qed
qed

section \<open>Properties\<close>

text \<open>
  C32. Partial-index predicates survive introspection: reading back the rendered predicate of an
  index with \<open>parse_closed_set_index_predicate\<close> gives the column and the sorted, deduplicated
  values, whatever quotes, commas or parentheses the values contain.
\<close>

theorem index_predicate_roundtrip:
  assumes "b = Sqlite \<or> b = Postgres" and "quote_identifier b (ip_column p) \<noteq> ip_column p"
    and "ip_column p \<noteq> []" and "ip_values p \<noteq> []"
  shows "parse_closed_set_index_predicate (render_index_predicate b p) =
    Some \<lparr>ip_column = ip_column p, ip_values = remdups_adj (sort (ip_values p))\<rparr>"
proof -
  let ?ts = "TIdent (ip_column p) # TIdent ''IN'' # LeftParen # value_tokens (ip_values p) @ [RightParen]"
  have "strip_redundant_outer_parentheses ?ts = ?ts"
    by (simp add: strip_redundant_outer_parentheses.simps [of ?ts])
  moreover have "structural_ident (Some (TIdent ''IN'')) ''in''" by code_simp
  ultimately show ?thesis
    using tokenize_predicate [OF assms(1,2,4)] parse_value_tokens [OF assms(4)] assms(3)
    by (simp add: parse_closed_set_index_predicate_def token_at_def Let_def)
qed

definition demo_predicate :: IndexPredicateModel where
  "demo_predicate = \<lparr>ip_column = ''state'', ip_values = [''open'', (''it'' @ [sq] @ ''s, (ok)'')]\<rparr>"

theorem index_predicate_roundtrip_witness:
  "parse_closed_set_index_predicate (render_index_predicate Sqlite demo_predicate) =
     Some \<lparr>ip_column = ip_column demo_predicate, ip_values = remdups_adj (sort (ip_values demo_predicate))\<rparr>"
  by (rule index_predicate_roundtrip)
    (simp_all add: demo_predicate_def wrapped_in_def starts_with_def ends_with_def)

text \<open>
  Installed append-only enforcement is recognized: for a table whose name is a plain word
  (reserved or not), the SQLite update and delete triggers the migrator renders match the
  introspection test for that table, and the PostgreSQL trigger function body matches its test,
  so a table with enforcement installed causes no further migration.
\<close>

theorem append_only_enforcement_recognized:
  assumes "word_like t"
  shows "sqlite_append_only_trigger_matches
      (sqlite_append_only_trigger (append_only_name t @ ''_update'') ''UPDATE'' (render_identifier_path Sqlite t))
      (append_only_name t @ ''_update'') t ''update'' \<and>
    sqlite_append_only_trigger_matches
      (sqlite_append_only_trigger (append_only_name t @ ''_delete'') ''DELETE'' (render_identifier_path Sqlite t))
      (append_only_name t @ ''_delete'') t ''delete'' \<and>
    postgres_append_only_function_body_matches postgres_append_only_body"
proof (intro conjI)
  have "structural_ident (Some (TIdent u)) l"
    if "(u, l) \<in> {(''CREATE'', ''create''), (''TRIGGER'', ''trigger''), (''BEFORE'', ''before''), (''ON'', ''on''),
      (''BEGIN'', ''begin''), (''SELECT'', ''select''), (''RAISE'', ''raise''), (''ABORT'', ''abort''), (''END'', ''end''),
      (''UPDATE'', ''update''), (''DELETE'', ''delete'')}" for u l
    using that by (elim insertE emptyE; simp only: prod.inject; elim conjE; hypsubst; code_simp)
  note kw = this
  have m: "sqlite_append_only_trigger_matches
      (sqlite_append_only_trigger n e (render_identifier_path Sqlite t)) n t l"
    if "word_like n" "word_like e" "structural_ident (Some (TIdent e)) l" for n e l
    using trigger_tokens [OF that(1,2) assms] that(3) kw
    by (simp add: sqlite_append_only_trigger_matches_def token_at_def)
      (simp add: structural_ident_def)
  have n: "word_like (append_only_name t @ ''_update'')" "word_like (append_only_name t @ ''_delete'')"
    by (rule word_like_append [OF append_only_name_word], code_simp)+
  have e: "word_like ''UPDATE''" "word_like ''DELETE''" by code_simp+
  show "sqlite_append_only_trigger_matches
      (sqlite_append_only_trigger (append_only_name t @ ''_update'') ''UPDATE'' (render_identifier_path Sqlite t))
      (append_only_name t @ ''_update'') t ''update''"
    using n(1) e(1) by (rule m) (simp add: kw)
  show "sqlite_append_only_trigger_matches
      (sqlite_append_only_trigger (append_only_name t @ ''_delete'') ''DELETE'' (render_identifier_path Sqlite t))
      (append_only_name t @ ''_delete'') t ''delete''"
    using n(2) e(2) by (rule m) (simp add: kw)
  show "postgres_append_only_function_body_matches postgres_append_only_body" by code_simp
qed

theorem append_only_enforcement_recognized_witness:
  "sqlite_append_only_trigger_matches
     (sqlite_append_only_trigger (append_only_name ''order'' @ ''_update'') ''UPDATE''
        (render_identifier_path Sqlite ''order''))
     (append_only_name ''order'' @ ''_update'') ''order'' ''update''"
proof -
  have "word_like ''order''" by code_simp
  from append_only_enforcement_recognized [OF this] show ?thesis by blast
qed

text \<open>
  The constraint comment carries the source text exactly: decoding the comment written for
  a CHECK expression gives the expression back, byte for byte, so PostgreSQL's deparsed spelling
  never has to be compared with the declared one.
\<close>

theorem constraint_comment_roundtrip:
  assumes "utf8_valid e"
  shows "decode_constraint_comment (constraint_comment e) = Some e"
proof -
  have "length (hex_encode e) mod 2 = 0" by (induction e) (auto simp: hex_encode_def hex_byte_def Let_def)
  moreover have "list_all is_ascii_hexdigit (hex_encode e)"
  proof (induction e)
    case (Cons c cs)
    have "(of_char c :: nat) div 16 < 16" using of_char_less [of c] by (intro less_mult_imp_div_less) simp
    with Cons show ?case by (simp add: hex_encode_def hex_byte_def is_ascii_hexdigit_def Let_def)
  qed (simp add: hex_encode_def)
  ultimately show ?thesis
    using assms by (simp add: decode_constraint_comment_def constraint_comment_def strip_prefix_def starts_with_def)
qed

theorem constraint_comment_roundtrip_witness:
  "decode_constraint_comment (constraint_comment (''status IN ('' @ [sq] @ ''a'' @ [sq] @ '')'')) = Some (''status IN ('' @ [sq] @ ''a'' @ [sq] @ '')'')"
  by (rule constraint_comment_roundtrip) code_simp

text \<open>
  CHECK comparison is an equivalence that ignores names and order: it is reflexive,
  symmetric and transitive, and two constraint lists whose canonical token lists agree as
  multisets are equivalent as soon as every expression of them can be tokenized.
\<close>

theorem check_comparison_equivalence:
  "check_constraints_equivalent a a \<and>
   (check_constraints_equivalent a b \<longrightarrow> check_constraints_equivalent b a) \<and>
   (check_constraints_equivalent a b \<and> check_constraints_equivalent b c \<longrightarrow> check_constraints_equivalent a c) \<and>
   (mset (map (canonical_check_tokens \<circ> cc_expression) a) = mset (map (canonical_check_tokens \<circ> cc_expression) b) \<and>
    canonical_checks a \<noteq> None \<longrightarrow> check_constraints_equivalent a b)"
proof (intro conjI impI)
  assume "mset (map (canonical_check_tokens \<circ> cc_expression) a) =
      mset (map (canonical_check_tokens \<circ> cc_expression) b) \<and> canonical_checks a \<noteq> None"
  then show "check_constraints_equivalent a b"
    using canonical_checks_mset [of a b] by (auto simp: check_constraints_equivalent_def)
qed (use check_equivalent_refl check_equivalent_sym check_equivalent_trans in blast)+

theorem check_comparison_equivalence_witness:
  "check_constraints_equivalent
     [\<lparr>cc_name = ''a'', cc_expression = ''x > 1''\<rparr>, \<lparr>cc_name = ''b'', cc_expression = ''(Y < 2)''\<rparr>]
     [\<lparr>cc_name = ''c'', cc_expression = ''y<2''\<rparr>, \<lparr>cc_name = ''d'', cc_expression = ''((x>1))''\<rparr>]"
proof -
  have t: "canonical_check_tokens ''x > 1'' = Some [''x'', ''>'', ''1'']"
    "canonical_check_tokens ''(Y < 2)'' = Some [''y'', ''<'', ''2'']"
    "canonical_check_tokens ''y<2'' = Some [''y'', ''<'', ''2'']"
    "canonical_check_tokens ''((x>1))'' = Some [''x'', ''>'', ''1'']"
    by code_simp+
  show ?thesis
    using check_comparison_equivalence [of
        "[\<lparr>cc_name = ''a'', cc_expression = ''x > 1''\<rparr>, \<lparr>cc_name = ''b'', cc_expression = ''(Y < 2)''\<rparr>]"
        "[\<lparr>cc_name = ''c'', cc_expression = ''y<2''\<rparr>, \<lparr>cc_name = ''d'', cc_expression = ''((x>1))''\<rparr>]"]
    by (simp add: t canonical_checks_def)
qed

text \<open>
  Quoted identifiers of digits or keywords lose their quotes in the canonical form, so the
  comparison identifies a column reference with a number.
\<close>

lemma check_comparison_confuses_quoted:
  "check_constraints_equivalent [\<lparr>cc_name = ''a'', cc_expression = ''x > 1''\<rparr>]
     [\<lparr>cc_name = ''a'', cc_expression = (''x > '' @ [dq] @ ''1'' @ [dq])\<rparr>]"
  by code_simp

end
