(* ===== verification/Diff.thy ===== *)
theory Diff
  imports Defaults CheckSql
begin

text \<open>
  Schema diffing (\<open>orm/migrations.rs\<close>): the order of tables by foreign keys and
  \<open>diff_schema_views_with\<close>, which turns a live and a target schema into migration steps. Each
  section of the per-table loop is one definition.
\<close>

section \<open>Steps\<close>

datatype OwnedMigrationStep =
    EnableExtension str
  | CreateTable TableModel
  | DropTable str
  | AddColumn str ColumnModel
  | DropColumn str str
  | AlterColumn str ColumnModel ColumnModel
  | CreateIndex str IndexModel
  | DropIndex str str
  | CreateSearchIndex str SearchIndexModel
  | DropSearchIndex str str
  | AlterSearchIndex str SearchIndexModel SearchIndexModel
  | AddForeignKey str ForeignKeyModel
  | DropForeignKey str ForeignKeyModel
  | SetAppendOnly str bool bool
  | SetCheckConstraints str "CheckConstraintModel list" "CheckConstraintModel list"

fun migration_step_table_name :: "OwnedMigrationStep \<Rightarrow> str option" where
  "migration_step_table_name (EnableExtension _) = None"
| "migration_step_table_name (CreateTable t) = Some (tm_table_name t)"
| "migration_step_table_name (DropTable n) = Some n"
| "migration_step_table_name (AddColumn n _) = Some n"
| "migration_step_table_name (DropColumn n _) = Some n"
| "migration_step_table_name (AlterColumn n _ _) = Some n"
| "migration_step_table_name (CreateIndex n _) = Some n"
| "migration_step_table_name (DropIndex n _) = Some n"
| "migration_step_table_name (CreateSearchIndex n _) = Some n"
| "migration_step_table_name (DropSearchIndex n _) = Some n"
| "migration_step_table_name (AlterSearchIndex n _ _) = Some n"
| "migration_step_table_name (AddForeignKey n _) = Some n"
| "migration_step_table_name (DropForeignKey n _) = Some n"
| "migration_step_table_name (SetAppendOnly n _ _) = Some n"
| "migration_step_table_name (SetCheckConstraints n _ _) = Some n"

section \<open>Table order\<close>

text \<open>
  \<open>visit\<close> threads the visited names and the ordered tables. The set \<open>visiting\<close> is an argument:
  the source inserts the name before the loop and removes it after, and a nested call never
  removes a name that was there when it started.
\<close>

type_synonym visit_state = "str list \<times> TableModel list"

lemma unvisited_decreases:
  assumes "btree_get tables name = Some t" and "name \<notin> set visiting"
  shows "card (fst ` set tables - set (name # visiting)) < card (fst ` set tables - set visiting)"
proof (rule psubset_card_mono)
  have "name \<in> fst ` set tables" using assms(1)
    by (auto simp: btree_get_def dest!: map_of_SomeD intro: rev_image_eqI)
  then show "fst ` set tables - set (name # visiting) \<subset> fst ` set tables - set visiting"
    using assms(2) by auto
qed simp

function (sequential) visit :: "(str, TableModel) btree \<Rightarrow> str list \<Rightarrow> visit_state \<Rightarrow> str \<Rightarrow> visit_state"
  and visit_all :: "(str, TableModel) btree \<Rightarrow> str list \<Rightarrow> visit_state \<Rightarrow> str list \<Rightarrow> visit_state" where
  "visit tables visiting st name =
     (if name \<in> set (fst st) \<or> name \<in> set visiting then st
      else case btree_get tables name of
             None \<Rightarrow> st
           | Some table \<Rightarrow>
               (let targets = filter (\<lambda>n. btree_get tables n \<noteq> None) (map fk_target_table (tm_foreign_keys table));
                    st' = visit_all tables (name # visiting) st targets
                in (name # fst st', snd st' @ [table])))"
| "visit_all tables visiting st [] = st"
| "visit_all tables visiting st (n # ns) = visit_all tables visiting (visit tables visiting st n) ns"
  by pat_completeness auto

termination
  by (relation "measures
      [\<lambda>x. case x of Inl (ts, vis, st, n) \<Rightarrow> card (fst ` set ts - set vis)
                   | Inr (ts, vis, st, ns) \<Rightarrow> card (fst ` set ts - set vis),
       \<lambda>x. case x of Inl (ts, vis, st, n) \<Rightarrow> 0 | Inr (ts, vis, st, ns) \<Rightarrow> Suc (length ns)]")
    (use unvisited_decreases in auto)

declare visit.simps [simp del]

definition order_tables_by_foreign_keys :: "(str, TableModel) btree \<Rightarrow> TableModel list" where
  "order_tables_by_foreign_keys tables = snd (visit_all tables [] ([], []) (map fst tables))"

section \<open>The diff\<close>

definition diff_extensions :: "SchemaModel \<Rightarrow> SchemaModel \<Rightarrow> OwnedMigrationStep list" where
  "diff_extensions current target =
     map EnableExtension
       (filter (\<lambda>e. to_ascii_lowercase e \<notin> set (map to_ascii_lowercase (sm_extensions current)))
         (sm_extensions target))"

definition diff_created_tables :: "SchemaModel \<Rightarrow> SchemaModel \<Rightarrow> OwnedMigrationStep list" where
  "diff_created_tables current target =
     map CreateTable
       (filter (\<lambda>t. btree_get (tables_by_name (sm_tables current)) (tm_table_name t) = None)
         (order_tables_by_foreign_keys (tables_by_name (sm_tables target))))"

definition diff_dropped_table :: "TableModel \<Rightarrow> OwnedMigrationStep list" where
  "diff_dropped_table t =
     map (\<lambda>si. DropSearchIndex (tm_table_name t) (si_name si)) (tm_search_indexes t) @
     [DropTable (tm_table_name t)]"

definition columns_by_name :: "TableModel \<Rightarrow> (str, ColumnModel) btree" where
  "columns_by_name t = btree_collect (map (\<lambda>c. (cm_name c, c)) (tm_columns t))"

definition diff_columns ::
  "LiteralReaders \<Rightarrow> DatabaseBackend \<Rightarrow> DefaultEquivalence \<Rightarrow> TableModel \<Rightarrow> TableModel \<Rightarrow> OwnedMigrationStep list" where
  "diff_columns lr b equivalence table target =
     (let current_columns = columns_by_name table; target_columns = columns_by_name target;
          name = tm_table_name table
      in concat (map (\<lambda>(k, c). if btree_get current_columns k = None then [AddColumn name c] else [])
           target_columns) @
         concat (map (\<lambda>(k, c).
           case btree_get target_columns k of
             None \<Rightarrow> [DropColumn name k]
           | Some target_column \<Rightarrow>
               if column_changed_with lr b c target_column equivalence
               then [AlterColumn name c target_column] else []) current_columns))"

definition indexes_by_name :: "TableModel \<Rightarrow> (str, IndexModel) btree" where
  "indexes_by_name t = btree_collect (map (\<lambda>ix. (ix_name ix, ix)) (tm_indexes t))"

definition diff_indexes :: "TableModel \<Rightarrow> TableModel \<Rightarrow> OwnedMigrationStep list" where
  "diff_indexes table target =
     (let current_indexes = indexes_by_name table; target_indexes = indexes_by_name target;
          name = tm_table_name table
      in concat (map (\<lambda>(k, ix).
           case btree_get current_indexes k of
             Some current_index \<Rightarrow>
               if \<not> index_eq current_index ix then [DropIndex name k, CreateIndex name ix] else []
           | None \<Rightarrow> [CreateIndex name ix]) target_indexes) @
         concat (map (\<lambda>(k, ix). if btree_get target_indexes k = None then [DropIndex name k] else [])
           current_indexes))"

definition search_indexes_by_name :: "TableModel \<Rightarrow> (str, SearchIndexModel) btree" where
  "search_indexes_by_name t = btree_collect (map (\<lambda>si. (si_name si, si)) (tm_search_indexes t))"

definition diff_search_indexes :: "TableModel \<Rightarrow> TableModel \<Rightarrow> OwnedMigrationStep list" where
  "diff_search_indexes table target =
     (let current_indexes = search_indexes_by_name table; target_indexes = search_indexes_by_name target;
          name = tm_table_name table
      in concat (map (\<lambda>(k, si).
           case btree_get current_indexes k of
             Some current_index \<Rightarrow>
               if current_index \<noteq> si then [AlterSearchIndex name current_index si] else []
           | None \<Rightarrow> [CreateSearchIndex name si]) target_indexes) @
         concat (map (\<lambda>(k, si). if btree_get target_indexes k = None then [DropSearchIndex name k] else [])
           current_indexes))"

text \<open>
  Foreign keys are grouped by identity; a group keeps its list order, which the stable sort by
  constraint name then refines. The identities of both sides are visited in order.
\<close>

definition fk_group :: "fk_identity \<Rightarrow> TableModel \<Rightarrow> ForeignKeyModel list" where
  "fk_group key t =
     sort_key fk_constraint_name (filter (\<lambda>fk. fk_identity fk = key) (tm_foreign_keys t))"

definition fk_keys :: "TableModel \<Rightarrow> TableModel \<Rightarrow> fk_identity list" where
  "fk_keys table target =
     map fst (btree_collect (map (\<lambda>fk. (fk_identity fk, ())) (tm_foreign_keys table @ tm_foreign_keys target)))"

definition diff_foreign_keys :: "TableModel \<Rightarrow> TableModel \<Rightarrow> OwnedMigrationStep list" where
  "diff_foreign_keys table target =
     (let name = tm_table_name table;
          common = (\<lambda>key. min (length (fk_group key table)) (length (fk_group key target)))
      in concat (map (\<lambda>key. map (DropForeignKey name) (drop (common key) (fk_group key table))) (fk_keys table target)) @
         concat (map (\<lambda>key. map (AddForeignKey name) (drop (common key) (fk_group key target))) (fk_keys table target)))"

definition diff_enforcement :: "TableModel \<Rightarrow> TableModel \<Rightarrow> OwnedMigrationStep list" where
  "diff_enforcement table target =
     (if tm_append_only table \<noteq> tm_append_only target \<or> tm_retention_purge table \<noteq> tm_retention_purge target
      then [SetAppendOnly (tm_table_name table) (tm_append_only target) (tm_retention_purge target)] else []) @
     (if \<not> check_constraints_equivalent (tm_check_constraints table) (tm_check_constraints target)
      then [SetCheckConstraints (tm_table_name table) (tm_check_constraints table) (tm_check_constraints target)]
      else [])"

definition diff_existing_table ::
  "LiteralReaders \<Rightarrow> DatabaseBackend \<Rightarrow> DefaultEquivalence \<Rightarrow> TableModel \<Rightarrow> TableModel \<Rightarrow> OwnedMigrationStep list" where
  "diff_existing_table lr b equivalence table target =
     diff_columns lr b equivalence table target @ diff_indexes table target @
     diff_search_indexes table target @ diff_foreign_keys table target @ diff_enforcement table target"

definition diff_table ::
  "LiteralReaders \<Rightarrow> DatabaseBackend \<Rightarrow> DefaultEquivalence \<Rightarrow> SchemaModel \<Rightarrow> TableModel \<Rightarrow> OwnedMigrationStep list" where
  "diff_table lr b equivalence target table =
     (case btree_get (tables_by_name (sm_tables target)) (tm_table_name table) of
        None \<Rightarrow> diff_dropped_table table
      | Some target_table \<Rightarrow> diff_existing_table lr b equivalence table target_table)"

definition diff_schema_views_with ::
  "LiteralReaders \<Rightarrow> DatabaseBackend \<Rightarrow> SchemaModel \<Rightarrow> SchemaModel \<Rightarrow> DefaultEquivalence \<Rightarrow> OwnedMigrationStep list" where
  "diff_schema_views_with lr b current target equivalence =
     diff_extensions current target @ diff_created_tables current target @
     concat (map (diff_table lr b equivalence target)
       (rev (order_tables_by_foreign_keys (tables_by_name (sm_tables current)))))"

definition diff_schema_views ::
  "LiteralReaders \<Rightarrow> DatabaseBackend \<Rightarrow> SchemaModel \<Rightarrow> SchemaModel \<Rightarrow> OwnedMigrationStep list" where
  "diff_schema_views lr b current target = diff_schema_views_with lr b current target Pinned8e1"

section \<open>The table order is a topological permutation\<close>

definition table_map_ok :: "(str, TableModel) btree \<Rightarrow> bool" where
  "table_map_ok tables \<longleftrightarrow> (\<forall>n t. btree_get tables n = Some t \<longrightarrow> tm_table_name t = n)"

lemma tables_by_name_ok: "table_map_ok (tables_by_name ts)"
  by (auto simp: table_map_ok_def get_tables_by_name dest!: map_of_SomeD)

text \<open>The visited names are the names of the ordered tables, each once, all from the map.\<close>

definition visit_ok :: "(str, TableModel) btree \<Rightarrow> visit_state \<Rightarrow> bool" where
  "visit_ok tables st \<longleftrightarrow>
     set (fst st) = tm_table_name ` set (snd st) \<and> distinct (map tm_table_name (snd st)) \<and>
     (\<forall>t \<in> set (snd st). btree_get tables (tm_table_name t) = Some t)"

text \<open>Under \<open>acyclic_fks\<close> the tables a table references, itself apart, stand before it.\<close>

definition fk_targets :: "(str, TableModel) btree \<Rightarrow> TableModel \<Rightarrow> str list" where
  "fk_targets tables t = filter (\<lambda>n. btree_get tables n \<noteq> None) (map fk_target_table (tm_foreign_keys t))"

definition acyclic_fks :: "(str, TableModel) btree \<Rightarrow> bool" where
  "acyclic_fks tables \<longleftrightarrow>
     (\<exists>rank :: str \<Rightarrow> nat. \<forall>n t m. btree_get tables n = Some t \<and> m \<in> set (fk_targets tables t) \<and> m \<noteq> n \<longrightarrow> rank m < rank n)"

fun targets_before :: "(str, TableModel) btree \<Rightarrow> str set \<Rightarrow> TableModel list \<Rightarrow> bool" where
  "targets_before tables seen [] \<longleftrightarrow> True"
| "targets_before tables seen (t # ts) \<longleftrightarrow>
     set (fk_targets tables t) - {tm_table_name t} \<subseteq> seen \<and>
     targets_before tables (insert (tm_table_name t) seen) ts"

lemma targets_before_snoc:
  "targets_before tables seen (ts @ [t]) \<longleftrightarrow>
     targets_before tables seen ts \<and>
     set (fk_targets tables t) - {tm_table_name t} \<subseteq> seen \<union> tm_table_name ` set ts"
  by (induction ts arbitrary: seen) auto

lemma visit_unfold:
  "visit tables vis st n =
     (if n \<in> set (fst st) \<or> n \<in> set vis then st
      else case btree_get tables n of
             None \<Rightarrow> st
           | Some t \<Rightarrow> (let st' = visit_all tables (n # vis) st (fk_targets tables t)
                       in (n # fst st', snd st' @ [t])))"
  by (simp add: visit.simps(1) [of tables vis st n] fk_targets_def Let_def split: option.splits)

lemma visit_invariant:
  assumes "table_map_ok tables"
  shows "visit_ok tables st \<Longrightarrow> visit_ok tables (visit tables vis st n) \<and>
      set (fst st) \<subseteq> set (fst (visit tables vis st n)) \<and>
      (set (fst (visit tables vis st n)) - set (fst st)) \<inter> set vis = {} \<and>
      (btree_get tables n \<noteq> None \<and> n \<notin> set vis \<longrightarrow> n \<in> set (fst (visit tables vis st n)))"
    and "visit_ok tables st \<Longrightarrow> visit_ok tables (visit_all tables vis st ns) \<and>
      set (fst st) \<subseteq> set (fst (visit_all tables vis st ns)) \<and>
      (set (fst (visit_all tables vis st ns)) - set (fst st)) \<inter> set vis = {} \<and>
      (\<forall>n \<in> set ns. btree_get tables n \<noteq> None \<and> n \<notin> set vis \<longrightarrow> n \<in> set (fst (visit_all tables vis st ns)))"
  using assms
proof (induction tables vis st n and tables vis st ns rule: visit_visit_all.induct)
  case (1 tables vis st n)
  show ?case
  proof (cases "n \<in> set (fst st) \<or> n \<in> set vis \<or> btree_get tables n = None")
    case True
    with 1(2) show ?thesis by (auto simp: visit_unfold [of tables vis st n])
  next
    case False
    then obtain t where t: "btree_get tables n = Some t" by auto
    define st' where "st' = visit_all tables (n # vis) st (fk_targets tables t)"
    have v: "visit tables vis st n = (n # fst st', snd st' @ [t])"
      using False t by (simp add: visit_unfold [of tables vis st n] st'_def Let_def)
    have IH: "visit_ok tables st'" "set (fst st) \<subseteq> set (fst st')"
      "(set (fst st') - set (fst st)) \<inter> set (n # vis) = {}"
      using 1(1) [OF _ t refl _ 1(3)] False 1(2) by (auto simp: st'_def fk_targets_def)
    have "tm_table_name t = n" using 1(3) t by (auto simp: table_map_ok_def)
    moreover from this have "n \<notin> set (fst st')" using IH(3) False by auto
    ultimately have "visit_ok tables (n # fst st', snd st' @ [t])"
      using IH(1) t by (auto simp: visit_ok_def)
    with v IH False show ?thesis by auto
  qed
next
  case (3 tables vis st n ns)
  then show ?case by auto
qed simp

lemma order_visited:
  assumes "table_map_ok tables"
  shows "visit_ok tables (visit_all tables [] ([], []) (map fst tables))"
    and "\<And>n. n \<in> fst ` set tables \<Longrightarrow> btree_get tables n \<noteq> None \<Longrightarrow>
      n \<in> set (fst (visit_all tables [] ([], []) (map fst tables)))"
  using visit_invariant(2) [OF assms, of "([], [])" "[]" "map fst tables"]
  by (auto simp: visit_ok_def)

lemma order_permutation:
  assumes "table_map_ok tables" and "btree tables"
  shows "distinct (map tm_table_name (order_tables_by_foreign_keys tables))"
    and "set (order_tables_by_foreign_keys tables) = snd ` set tables"
proof -
  let ?r = "visit_all tables [] ([], []) (map fst tables)"
  have ok: "visit_ok tables ?r" by (rule order_visited(1) [OF assms(1)])
  then show "distinct (map tm_table_name (order_tables_by_foreign_keys tables))"
    by (simp add: visit_ok_def order_tables_by_foreign_keys_def)
  have get: "btree_get tables n = Some t \<longleftrightarrow> (n, t) \<in> set tables" for n t
    using bt.entry_iff [OF assms(2), of n t] by auto
  show "set (order_tables_by_foreign_keys tables) = snd ` set tables"
  proof
    show "set (order_tables_by_foreign_keys tables) \<subseteq> snd ` set tables"
      using ok get by (force simp: visit_ok_def order_tables_by_foreign_keys_def)
    show "snd ` set tables \<subseteq> set (order_tables_by_foreign_keys tables)"
    proof
      fix t
      assume "t \<in> snd ` set tables"
      then obtain n where n: "(n, t) \<in> set tables" by auto
      then have "n \<in> set (fst ?r)" using order_visited(2) [OF assms(1), of n] get by force
      then obtain t' where "t' \<in> set (snd ?r)" "tm_table_name t' = n" using ok by (auto simp: visit_ok_def)
      moreover from this have "btree_get tables n = Some t'" using ok by (auto simp: visit_ok_def)
      moreover have "btree_get tables n = Some t" using n get by blast
      ultimately show "t \<in> set (order_tables_by_foreign_keys tables)"
        by (simp add: order_tables_by_foreign_keys_def)
    qed
  qed
qed

text \<open>
  With a rank that decreases along references, a name met during a visit is never an ancestor:
  either it is the visiting table itself or it ranks below every visiting table.
\<close>

definition below_visiting :: "(str \<Rightarrow> nat) \<Rightarrow> str list \<Rightarrow> str \<Rightarrow> bool" where
  "below_visiting rank vis n \<longleftrightarrow> (vis \<noteq> [] \<and> n = hd vis) \<or> (\<forall>v \<in> set vis. rank n < rank v)"

lemma visit_topological:
  fixes rank :: "str \<Rightarrow> nat"
  assumes "table_map_ok tables"
    and "\<And>n t m. btree_get tables n = Some t \<Longrightarrow> m \<in> set (fk_targets tables t) \<Longrightarrow> m \<noteq> n \<Longrightarrow> rank m < rank n"
  shows "visit_ok tables st \<Longrightarrow> targets_before tables {} (snd st) \<Longrightarrow> below_visiting rank vis n \<Longrightarrow>
      targets_before tables {} (snd (visit tables vis st n))"
    and "visit_ok tables st \<Longrightarrow> targets_before tables {} (snd st) \<Longrightarrow> \<forall>n \<in> set ns. below_visiting rank vis n \<Longrightarrow>
      targets_before tables {} (snd (visit_all tables vis st ns))"
  using assms
proof (induction tables vis st n and tables vis st ns rule: visit_visit_all.induct)
  case (1 tables vis st n)
  show ?case
  proof (cases "n \<in> set (fst st) \<or> n \<in> set vis \<or> btree_get tables n = None")
    case True
    with 1(3) show ?thesis by (auto simp: visit_unfold [of tables vis st n])
  next
    case False
    then obtain t where t: "btree_get tables n = Some t" by auto
    define st' where "st' = visit_all tables (n # vis) st (fk_targets tables t)"
    have v: "visit tables vis st n = (n # fst st', snd st' @ [t])"
      using False t by (simp add: visit_unfold [of tables vis st n] st'_def Let_def)
    have nm: "tm_table_name t = n" using 1(5) t by (auto simp: table_map_ok_def)
    have up: "\<forall>v \<in> set vis. rank n < rank v" using 1(4) False by (auto simp: below_visiting_def)
    have low: "m = n \<or> m \<notin> set (n # vis) \<and> rank m < rank n" if "m \<in> set (fk_targets tables t)" for m
      using 1(6) [OF t that] up by fastforce
    have ns: "\<forall>m \<in> set (fk_targets tables t). below_visiting rank (n # vis) m"
      using low up by (fastforce simp: below_visiting_def)
    have inv: "visit_ok tables st'" "\<forall>m \<in> set (fk_targets tables t). m \<notin> set (n # vis) \<longrightarrow> m \<in> set (fst st')"
      using visit_invariant(2) [OF 1(5,2), of "n # vis" "fk_targets tables t"]
      by (auto simp: st'_def fk_targets_def)
    have "targets_before tables {} (snd st')"
      using 1(1) [OF _ t refl 1(2,3) _ 1(5,6)] False ns by (auto simp: st'_def fk_targets_def)
    moreover have "set (fk_targets tables t) - {n} \<subseteq> tm_table_name ` set (snd st')"
      using inv low by (fastforce simp: visit_ok_def)
    ultimately show ?thesis using v nm by (simp add: targets_before_snoc)
  qed
next
  case (3 tables vis st n ns)
  have "targets_before tables {} (snd (visit tables vis st n))"
    using 3(1) 3(3-7) by simp
  moreover have "visit_ok tables (visit tables vis st n)"
    using visit_invariant(1) [OF 3(6,3)] by simp
  ultimately show ?case using 3(2) 3(5-7) by simp
qed simp

lemma order_topological:
  assumes "table_map_ok tables" and "acyclic_fks tables"
  shows "targets_before tables {} (order_tables_by_foreign_keys tables)"
proof -
  from assms(2) obtain rank :: "str \<Rightarrow> nat" where rank:
    "\<And>n t m. btree_get tables n = Some t \<Longrightarrow> m \<in> set (fk_targets tables t) \<Longrightarrow> m \<noteq> n \<Longrightarrow> rank m < rank n"
    unfolding acyclic_fks_def by blast
  have "targets_before tables {} (snd (visit_all tables [] ([], []) (map fst tables)))"
    by (rule visit_topological(2) [OF assms(1) rank]) (auto simp: visit_ok_def below_visiting_def)
  then show ?thesis by (simp add: order_tables_by_foreign_keys_def)
qed

section \<open>Properties\<close>

lemma targets_before_split:
  "targets_before tables seen (xs @ t # ys) \<Longrightarrow>
     set (fk_targets tables t) - {tm_table_name t} \<subseteq> seen \<union> tm_table_name ` set xs"
  by (induction xs arbitrary: seen) auto

lemma filter_split:
  "filter P zs = xs @ t # ys \<Longrightarrow> \<exists>as bs. zs = as @ t # bs \<and> filter P as = xs"
proof (induction zs arbitrary: xs)
  case (Cons z zs)
  show ?case
  proof (cases "P z \<and> xs = []")
    case True
    with Cons.prems show ?thesis by (intro exI [of _ "[]"] exI [of _ zs]) auto
  next
    case False
    with Cons.prems obtain xs' where "xs = (if P z then z # xs' else xs')" "filter P zs = xs' @ t # ys"
      by (cases xs) (auto split: if_splits)
    with Cons.IH [of xs'] obtain as bs where "zs = as @ t # bs" "filter P (z # as) = xs" by auto
    then show ?thesis by (intro exI [of _ "z # as"] exI [of _ bs]) auto
  qed
qed simp

text \<open>
  C31. Tables are created after the tables they reference: when the references of the target
  schema (self references apart) have no cycle, a created table's foreign keys to managed tables
  point to the table itself, to a table that already exists, or to a table created by an
  earlier step.
\<close>

theorem created_tables_ordered:
  assumes "acyclic_fks (tables_by_name (sm_tables target))"
    and "diff_created_tables current target = xs @ CreateTable t # ys"
    and "fk \<in> set (tm_foreign_keys t)"
    and "btree_get (tables_by_name (sm_tables target)) (fk_target_table fk) \<noteq> None"
  shows "fk_target_table fk = tm_table_name t \<or>
    btree_get (tables_by_name (sm_tables current)) (fk_target_table fk) \<noteq> None \<or>
    (\<exists>t'. CreateTable t' \<in> set xs \<and> tm_table_name t' = fk_target_table fk)"
proof -
  let ?T = "tables_by_name (sm_tables target)" and ?C = "tables_by_name (sm_tables current)"
  let ?new = "\<lambda>t. btree_get ?C (tm_table_name t) = None"
  from assms(2) obtain xs' ys' where f: "filter ?new (order_tables_by_foreign_keys ?T) = xs' @ t # ys'"
    and xs: "xs = map CreateTable xs'"
    by (auto simp: diff_created_tables_def map_eq_append_conv map_eq_Cons_conv)
  obtain as bs where o: "order_tables_by_foreign_keys ?T = as @ t # bs" "filter ?new as = xs'"
    using filter_split [OF f] by blast
  have "set (fk_targets ?T t) - {tm_table_name t} \<subseteq> tm_table_name ` set as"
    using order_topological [OF tables_by_name_ok assms(1)] o(1) targets_before_split by fastforce
  moreover have "fk_target_table fk \<in> set (fk_targets ?T t)" using assms(3,4) by (auto simp: fk_targets_def)
  ultimately consider "fk_target_table fk = tm_table_name t"
    | t' where "t' \<in> set as" "tm_table_name t' = fk_target_table fk" by force
  then show ?thesis
  proof cases
    case (2 t')
    then have "?new t' \<Longrightarrow> CreateTable t' \<in> set xs" using o(2) xs by auto
    with 2 show ?thesis by (cases "?new t'") auto
  qed simp
qed

definition demo_column :: "str \<Rightarrow> ColumnModel" where
  "demo_column n = \<lparr>cm_name = n, cm_sql_type = ''TEXT'', cm_spatial = None, cm_nullable = True,
     cm_is_primary_key = (n = ''id''), cm_is_unique = False, cm_default = None\<rparr>"

definition demo_table :: "str \<Rightarrow> str list \<Rightarrow> ForeignKeyModel list \<Rightarrow> TableModel" where
  "demo_table n cs fks =
     \<lparr>tm_entity_name = n, tm_table_name = n, tm_primary_key = ''id'', tm_primary_keys = [''id''],
      tm_default_sort = ''id'', tm_columns = map demo_column cs, tm_indexes = [],
      tm_composite_unique_indexes = [], tm_foreign_keys = fks, tm_search_indexes = [],
      tm_append_only = False, tm_retention_purge = False, tm_check_constraints = []\<rparr>"

definition demo_fk :: "str \<Rightarrow> ForeignKeyModel" where
  "demo_fk t = \<lparr>fk_constraint_name = None, fk_column_pairs = [(''ref'', ''id'')], fk_target_table = t,
     fk_is_multiple = False, fk_on_delete = Cascade\<rparr>"

definition demo_schema :: SchemaModel where
  "demo_schema = \<lparr>sm_extensions = [],
     sm_tables = [demo_table ''a_posts'' [''id'', ''ref''] [demo_fk ''users''], demo_table ''users'' [''id''] []]\<rparr>"

definition empty_schema :: SchemaModel where
  "empty_schema = \<lparr>sm_extensions = [], sm_tables = []\<rparr>"

lemma demo_created:
  "diff_created_tables empty_schema demo_schema =
     [CreateTable (demo_table ''users'' [''id''] [])] @
     CreateTable (demo_table ''a_posts'' [''id'', ''ref''] [demo_fk ''users'']) # []"
  by code_simp

lemma demo_tables:
  "tables_by_name (sm_tables demo_schema) =
     [(''a_posts'', demo_table ''a_posts'' [''id'', ''ref''] [demo_fk ''users'']),
      (''users'', demo_table ''users'' [''id''] [])]"
  by code_simp

lemma demo_acyclic: "acyclic_fks (tables_by_name (sm_tables demo_schema))"
  unfolding acyclic_fks_def demo_tables
  by (rule exI [of _ "\<lambda>n. if n = ''users'' then 0 else 1"])
    (auto simp: fk_targets_def btree_get_def demo_table_def demo_fk_def split: if_splits)

theorem created_tables_ordered_witness:
  "\<exists>t'. CreateTable t' \<in> set [CreateTable (demo_table ''users'' [''id''] [])] \<and> tm_table_name t' = ''users''"
  using created_tables_ordered [OF demo_acyclic demo_created, of "demo_fk ''users''"]
  by (simp add: demo_tables btree_get_def demo_table_def demo_fk_def empty_schema_def tables_by_name_def
      btree_collect_def)

end
