(* ===== verification/Render.thy ===== *)
theory Render
  imports Diff
begin

text \<open>
  Statement rendering (\<open>orm/migrations.rs\<close>, search table names of \<open>orm/search.rs\<close>): the SQL
  text of every migration step, the SQLite table rebuild, and the capability checks that run
  before a PostgreSQL plan is accepted. \<open>serde_json::to_string\<close>, which one field of the search
  configuration goes through, is the argument \<open>js\<close>.
\<close>

section \<open>Columns and tables\<close>

definition render_default_clause :: "DatabaseBackend \<Rightarrow> str \<Rightarrow> str" where
  "render_default_clause b d =
     (if b \<noteq> Sqlite then d
      else
        let trimmed = canonicalize_column_default_expression d;
            uppercase = to_ascii_uppercase trimmed;
            is_keyword_default = uppercase \<in>
              {''CURRENT_TIMESTAMP'', ''CURRENT_DATE'', ''CURRENT_TIME'', ''NULL'', ''TRUE'', ''FALSE''};
            is_numeric_literal =
              (trimmed \<noteq> [] \<and> (is_ascii_digit (hd trimmed) \<or> hd trimmed = CHR ''-'' \<or> hd trimmed = CHR ''+'') \<and>
               list_all (\<lambda>c. is_ascii_digit c \<or> c = CHR ''-'' \<or> c = CHR ''+'' \<or> c = CHR ''.'') trimmed);
            is_string_literal = (starts_with [sq] trimmed \<or> starts_with (''X'' @ [sq]) uppercase)
        in if is_keyword_default \<or> is_numeric_literal \<or> is_string_literal then trimmed
           else ''('' @ trimmed @ '')'')"

definition render_column_definition :: "DatabaseBackend \<Rightarrow> ColumnModel \<Rightarrow> bool \<Rightarrow> str" where
  "render_column_definition b column inline_primary_key =
     join '' ''
       ([render_identifier b (cm_name column) @ '' '' @ cm_sql_type column] @
        (if \<not> cm_nullable column then [''NOT NULL''] else []) @
        (if inline_primary_key \<and> cm_is_primary_key column then [''PRIMARY KEY''] else []) @
        (if cm_is_unique column \<and> \<not> cm_is_primary_key column then [''UNIQUE''] else []) @
        (case cm_default column of None \<Rightarrow> [] | Some d \<Rightarrow> [''DEFAULT '' @ render_default_clause b d]))"

definition render_foreign_key_clause :: "DatabaseBackend \<Rightarrow> str \<Rightarrow> ForeignKeyModel \<Rightarrow> str" where
  "render_foreign_key_clause b table_name fk =
     ''CONSTRAINT '' @ quote_identifier b (foreign_key_constraint_name table_name fk) @
     '' FOREIGN KEY ('' @ render_identifier_list b (source_columns fk) @ '') REFERENCES '' @
     render_identifier_path b (fk_target_table fk) @ ''('' @ render_identifier_list b (target_columns fk) @
     '') ON DELETE '' @ delete_as_sql (fk_on_delete fk)"

definition render_create_table_statement_for_name :: "DatabaseBackend \<Rightarrow> TableModel \<Rightarrow> str \<Rightarrow> str" where
  "render_create_table_statement_for_name b table table_name =
     (let has_composite_primary_key = 1 < length (primary_keys table);
          parts =
            map (\<lambda>column. render_column_definition b column (\<not> has_composite_primary_key)) (tm_columns table) @
            (if has_composite_primary_key
             then [''PRIMARY KEY ('' @ render_identifier_list b (primary_keys table) @ '')''] else []) @
            map (\<lambda>columns. ''UNIQUE ('' @ render_identifier_list b columns @ '')'')
              (tm_composite_unique_indexes table) @
            map (render_foreign_key_clause b table_name) (tm_foreign_keys table) @
            map (\<lambda>constraint. ''CONSTRAINT '' @ quote_identifier b (cc_name constraint) @ '' CHECK ('' @
                   cc_expression constraint @ '')'') (tm_check_constraints table)
      in ''CREATE TABLE '' @ render_identifier_path b table_name @ '' ('' @ join '', '' parts @ '')'')"

definition render_create_table_statement :: "DatabaseBackend \<Rightarrow> TableModel \<Rightarrow> str" where
  "render_create_table_statement b table =
     render_create_table_statement_for_name b table (tm_table_name table)"

definition render_index_columns :: "DatabaseBackend \<Rightarrow> IndexModel \<Rightarrow> str" where
  "render_index_columns b ix =
     join '', '' (map (\<lambda>(position, column).
       if ix_column_directions ix = [] then quote_identifier b column
       else quote_identifier b column @ '' '' @ direction_as_sql (direction_at ix position))
       (enumerate 0 (ix_columns ix)))"

definition render_create_index_statement :: "DatabaseBackend \<Rightarrow> str \<Rightarrow> IndexModel \<Rightarrow> str" where
  "render_create_index_statement b table_name ix =
     ''CREATE '' @ (if ix_is_unique ix then ''UNIQUE '' else []) @ ''INDEX '' @
     quote_identifier b (ix_name ix) @ '' ON '' @ quote_identifier_path b table_name @
     (if b = Postgres \<and> ix_method ix = Gist then '' USING GIST'' else []) @
     '' ('' @ render_index_columns b ix @ '')'' @
     (case ix_predicate ix of None \<Rightarrow> [] | Some p \<Rightarrow> '' WHERE '' @ render_index_predicate b p)"

section \<open>Enforcement\<close>

definition sqlite_append_only_statements :: "str \<Rightarrow> str \<Rightarrow> str \<Rightarrow> bool \<Rightarrow> str list" where
  "sqlite_append_only_statements name table table_literal retention_purge =
     (if retention_purge
      then [''DROP TABLE IF EXISTS __graphql_orm_retention_context'',
            ''CREATE TABLE __graphql_orm_retention_context (table_name TEXT PRIMARY KEY NOT NULL)'']
      else []) @
     [''DROP TRIGGER IF EXISTS '' @ name @ ''_update'',
      ''DROP TRIGGER IF EXISTS '' @ name @ ''_delete'',
      sqlite_append_only_trigger (name @ ''_update'') ''UPDATE'' table,
      if retention_purge then sqlite_retention_delete_trigger (name @ ''_delete'') table table_literal
      else sqlite_append_only_trigger (name @ ''_delete'') ''DELETE'' table]"

definition postgres_append_only_statements :: "str \<Rightarrow> str \<Rightarrow> str \<Rightarrow> str \<Rightarrow> bool \<Rightarrow> str list" where
  "postgres_append_only_statements name table table_literal table_regclass retention_purge =
     [''DROP TRIGGER IF EXISTS '' @ name @ '' ON '' @ table,
      ''DROP FUNCTION IF EXISTS '' @ name @ ''()'',
      ''CREATE OR REPLACE FUNCTION '' @ name @
      ''() RETURNS trigger LANGUAGE plpgsql SECURITY DEFINER SET search_path = pg_catalog AS $$ '' @
      (if retention_purge then postgres_retention_body table_literal else postgres_append_only_body) @ '' $$'',
      ''REVOKE ALL ON FUNCTION '' @ name @ ''() FROM PUBLIC'',
      ''CREATE TRIGGER '' @ name @ '' BEFORE UPDATE OR DELETE ON '' @ table @
      '' FOR EACH ROW EXECUTE FUNCTION '' @ name @ ''()'',
      (''DO $graphql_orm$ DECLARE target_owner name; BEGIN SELECT pg_get_userbyid(relowner) INTO target_owner FROM pg_class WHERE oid = '' @ [sq]) @
      table_regclass @ ([sq] @ ''::regclass; EXECUTE format('' @ [sq] @ ''ALTER FUNCTION '') @ name @
      (''() OWNER TO %I'' @ [sq] @ '', target_owner); END $graphql_orm$'')]"

definition render_append_only_statements :: "DatabaseBackend \<Rightarrow> str \<Rightarrow> bool \<Rightarrow> bool \<Rightarrow> str list" where
  "render_append_only_statements b table_name enabled retention_purge =
     (let name = append_only_name table_name;
          table_literal = replace_char sq [sq, sq] table_name;
          table = render_identifier_path b table_name;
          table_regclass = replace_char sq [sq, sq] table
      in case b of
           Sqlite \<Rightarrow>
             if enabled then sqlite_append_only_statements name table table_literal retention_purge
             else [''DROP TRIGGER IF EXISTS '' @ name @ ''_update'', ''DROP TRIGGER IF EXISTS '' @ name @ ''_delete'']
         | Postgres \<Rightarrow>
             if enabled then postgres_append_only_statements name table table_literal table_regclass retention_purge
             else [''DROP TRIGGER IF EXISTS '' @ name @ '' ON '' @ table, ''DROP FUNCTION IF EXISTS '' @ name @ ''()'']
         | _ \<Rightarrow> [''-- append-only enforcement is not supported on '' @ backend_name b])"

definition constraint_comment_statement :: "str \<Rightarrow> str \<Rightarrow> CheckConstraintModel \<Rightarrow> str" where
  "constraint_comment_statement name table constraint =
     ''COMMENT ON CONSTRAINT '' @ name @ '' ON '' @ table @ ('' IS '' @ [sq]) @
     constraint_comment (cc_expression constraint) @ [sq]"

definition render_constraint_comments :: "DatabaseBackend \<Rightarrow> TableModel \<Rightarrow> str list" where
  "render_constraint_comments b table =
     (if b \<noteq> Postgres then []
      else map (\<lambda>constraint. constraint_comment_statement (render_identifier b (cc_name constraint))
                  (render_identifier_path b (tm_table_name table)) constraint) (tm_check_constraints table))"

section \<open>Search structures\<close>

definition sanitize_search_name :: "str \<Rightarrow> str" where
  "sanitize_search_name v =
     map (\<lambda>c. if is_ascii_alphanumeric c \<or> c = CHR ''_'' then c else CHR ''_'') (utf8_heads v)"

definition search_table_name :: "str \<Rightarrow> str" where
  "search_table_name t = ''__graphql_orm_search_'' @ sanitize_search_name t"

definition sqlite_fts_table_name :: "str \<Rightarrow> str" where
  "sqlite_fts_table_name t = ''__graphql_orm_fts_'' @ sanitize_search_name t"

definition search_token_table_name :: "str \<Rightarrow> str" where
  "search_token_table_name t = ''__graphql_orm_search_token_'' @ sanitize_search_name t"

definition search_metadata_table_name :: str where
  "search_metadata_table_name = ''__graphql_orm_search_metadata''"

text \<open>\<open>value.replace('"', "\\\"")\<close>, the text between quotes, and optional texts.\<close>

definition escape_quotes :: "str \<Rightarrow> str" where
  "escape_quotes v = replace_char dq [bsl, dq] v"

definition json_quoted :: "str \<Rightarrow> str" where
  "json_quoted v = [dq] @ escape_quotes v @ [dq]"

definition json_quoted_option :: "str option \<Rightarrow> str" where
  "json_quoted_option v = (case v of None \<Rightarrow> ''null'' | Some t \<Rightarrow> json_quoted t)"

definition json_option_string :: "(str \<Rightarrow> str) \<Rightarrow> str option \<Rightarrow> str" where
  "json_option_string js v = (case v of None \<Rightarrow> ''null'' | Some t \<Rightarrow> js t)"

definition search_field_json :: "SearchFieldModel \<Rightarrow> str" where
  "search_field_json f =
     (''{'' @ [dq] @ ''field'' @ [dq] @ '':'') @ json_quoted (sf_field_name f) @ ('','' @ [dq] @ ''column'' @ [dq] @ '':'') @ json_quoted (sf_column_name f) @
     ('','' @ [dq] @ ''weight'' @ [dq] @ '':'' @ [dq]) @ weight_as_str (sf_weight f) @ ([dq] @ '','' @ [dq] @ ''alias'' @ [dq] @ '':'') @ json_quoted_option (sf_alias f) @
     ('','' @ [dq] @ ''policy'' @ [dq] @ '':'') @ json_quoted_option (sf_policy f) @ ''}''"

definition search_json_path_json :: "(str \<Rightarrow> str) \<Rightarrow> SearchJsonPathModel \<Rightarrow> str" where
  "search_json_path_json js p =
     (''{'' @ [dq] @ ''field'' @ [dq] @ '':'') @ json_quoted (sj_field_name p) @ ('','' @ [dq] @ ''column'' @ [dq] @ '':'') @ json_quoted (sj_column_name p) @
     ('','' @ [dq] @ ''path'' @ [dq] @ '':'') @ json_quoted (sj_path p) @ ('','' @ [dq] @ ''weight'' @ [dq] @ '':'' @ [dq]) @ weight_as_str (sj_weight p) @
     ([dq] @ '','' @ [dq] @ ''policy'' @ [dq] @ '':'') @ json_option_string js (sj_policy p) @ ''}''"

definition search_relation_json :: "SearchRelationFieldModel \<Rightarrow> str" where
  "search_relation_json r =
     (''{'' @ [dq] @ ''relation'' @ [dq] @ '':'') @ json_quoted (sr_relation_field r) @ ('','' @ [dq] @ ''target'' @ [dq] @ '':'') @ json_quoted (sr_target_type r) @
     ('','' @ [dq] @ ''fields'' @ [dq] @ '':['') @ join '','' (map json_quoted (sr_fields r)) @ (''],'' @ [dq] @ ''weight'' @ [dq] @ '':'' @ [dq]) @
     weight_as_str (sr_weight r) @ ([dq] @ '','' @ [dq] @ ''max_items'' @ [dq] @ '':'') @ show_nat (sr_max_items r) @
     ('','' @ [dq] @ ''policy'' @ [dq] @ '':'') @ json_quoted_option (sr_policy r) @ ''}''"

definition search_index_config_json :: "(str \<Rightarrow> str) \<Rightarrow> SearchIndexModel \<Rightarrow> str" where
  "search_index_config_json js si =
     (''{'' @ [dq] @ ''name'' @ [dq] @ '':'') @ json_quoted (si_name si) @ ('','' @ [dq] @ ''table'' @ [dq] @ '':'') @ json_quoted (si_table_name si) @
     ('','' @ [dq] @ ''entity'' @ [dq] @ '':'') @ json_quoted (si_entity_name si) @ ('','' @ [dq] @ ''primary_key'' @ [dq] @ '':'') @ json_quoted (si_primary_key si) @
     ('','' @ [dq] @ ''strategy'' @ [dq] @ '':'' @ [dq]) @ strategy_as_str (si_strategy si) @ ([dq] @ '','' @ [dq] @ ''language'' @ [dq] @ '':'') @ json_quoted (si_language si) @
     ('','' @ [dq] @ ''tokenizer'' @ [dq] @ '':'') @ json_quoted (si_tokenizer si) @ ('','' @ [dq] @ ''min_token_len'' @ [dq] @ '':'') @ show_nat (si_min_token_len si) @
     ('','' @ [dq] @ ''fallback_enabled'' @ [dq] @ '':'') @ (if si_fallback_enabled si then ''true'' else ''false'') @
     ('','' @ [dq] @ ''fields'' @ [dq] @ '':['') @ join '','' (map search_field_json (si_fields si)) @
     (''],'' @ [dq] @ ''json_paths'' @ [dq] @ '':['') @ join '','' (map (search_json_path_json js) (si_json_paths si)) @
     (''],'' @ [dq] @ ''relations'' @ [dq] @ '':['') @ join '','' (map search_relation_json (si_relations si)) @ '']'' @
     (if si_readiness_tracked si then ('','' @ [dq] @ ''readiness'' @ [dq] @ '':'' @ [dq] @ ''building'' @ [dq]) else []) @ ''}''"

definition metadata_now_expr :: "DatabaseBackend \<Rightarrow> str" where
  "metadata_now_expr b =
     (case b of Postgres \<Rightarrow> ''EXTRACT(EPOCH FROM NOW())::bigint'' | Sqlite \<Rightarrow> ''unixepoch()''
      | Mysql \<Rightarrow> ''UNIX_TIMESTAMP()''
      | Mssql \<Rightarrow> (''DATEDIFF_BIG(second, '' @ [sq] @ ''1970-01-01'' @ [sq] @ '', SYSUTCDATETIME())''))"

definition render_search_metadata_upsert :: "(str \<Rightarrow> str) \<Rightarrow> DatabaseBackend \<Rightarrow> SearchIndexModel \<Rightarrow> str list" where
  "render_search_metadata_upsert js b si =
     (let config = search_index_config_json js si;
          create = ''CREATE TABLE IF NOT EXISTS '' @ search_metadata_table_name @
            (if b = Postgres
             then '' (entity_name TEXT PRIMARY KEY, table_name TEXT NOT NULL, strategy TEXT NOT NULL, config_json JSONB NOT NULL, updated_at BIGINT NOT NULL)''
             else '' (entity_name TEXT PRIMARY KEY, table_name TEXT NOT NULL, strategy TEXT NOT NULL, config_json TEXT NOT NULL, updated_at INTEGER NOT NULL)'');
          columns = '' (entity_name, table_name, strategy, config_json, updated_at) VALUES ('';
          values = sql_string_literal (si_entity_name si) @ '', '' @ sql_string_literal (si_table_name si) @ '', '' @
            sql_string_literal (strategy_as_str (si_strategy si)) @ '', '' @ sql_string_literal config;
          insert =
            (if b = Postgres
             then ''INSERT INTO '' @ search_metadata_table_name @ columns @ values @ ''::jsonb, '' @ metadata_now_expr b @
               '') ON CONFLICT (entity_name) DO UPDATE SET table_name = EXCLUDED.table_name, strategy = EXCLUDED.strategy, config_json = EXCLUDED.config_json, updated_at = EXCLUDED.updated_at''
             else ''INSERT OR REPLACE INTO '' @ search_metadata_table_name @ columns @ values @ '', '' @ metadata_now_expr b @ '')'')
      in [create, insert])"

definition render_create_search_index_statement :: "(str \<Rightarrow> str) \<Rightarrow> DatabaseBackend \<Rightarrow> SearchIndexModel \<Rightarrow> str list" where
  "render_create_search_index_statement js b si =
     (let table = search_table_name (si_table_name si);
          token_table = search_token_table_name (si_table_name si)
      in render_search_metadata_upsert js b si @
         (case b of
            Postgres \<Rightarrow>
              [''CREATE TABLE '' @ table @ '' (entity_pk TEXT PRIMARY KEY, entity_pk_json JSONB NOT NULL, document_text TEXT NOT NULL, document_vector TSVECTOR NOT NULL, updated_at BIGINT NOT NULL)'',
               ''CREATE INDEX '' @ render_identifier b (si_name si) @ '' ON '' @ table @ '' USING GIN (document_vector)'']
          | Sqlite \<Rightarrow>
              if si_strategy si = FallbackTable then
                [''CREATE TABLE '' @ table @ '' (entity_pk TEXT PRIMARY KEY, entity_pk_json TEXT NOT NULL, document_text TEXT NOT NULL, weight_a TEXT NOT NULL, weight_b TEXT NOT NULL, weight_c TEXT NOT NULL, weight_d TEXT NOT NULL, updated_at INTEGER NOT NULL)'',
                 ''CREATE TABLE '' @ token_table @ '' (entity_pk TEXT NOT NULL, token TEXT NOT NULL, weight INTEGER NOT NULL, frequency INTEGER NOT NULL, PRIMARY KEY (entity_pk, token, weight))'',
                 ''CREATE INDEX idx_gom_search_token_'' @ sanitize_search_name (si_table_name si) @ '' ON '' @ token_table @ '' (token)'']
              else
                [''CREATE VIRTUAL TABLE '' @ sqlite_fts_table_name (si_table_name si) @
                 ('' USING fts5(entity_pk UNINDEXED, weight_a, weight_b, weight_c, weight_d, document_text, tokenize = '' @ [sq]) @
                 replace_char sq [sq, sq] (si_tokenizer si) @ ([sq] @ '')'')]
          | _ \<Rightarrow> [''-- full-text search indexes for '' @ backend_name b @ '' are planned but not implemented by graphql-orm yet'']))"

definition render_drop_search_index_statement :: "DatabaseBackend \<Rightarrow> str \<Rightarrow> str \<Rightarrow> str list" where
  "render_drop_search_index_statement b table_name index_name =
     (let delete = ''DELETE FROM '' @ search_metadata_table_name @ '' WHERE table_name = '' @ sql_string_literal table_name
      in case b of
           Postgres \<Rightarrow>
             [''DROP INDEX IF EXISTS '' @ render_identifier b index_name,
              ''DROP TABLE IF EXISTS '' @ search_table_name table_name, delete]
         | Sqlite \<Rightarrow>
             [''DROP TABLE IF EXISTS '' @ sqlite_fts_table_name table_name,
              ''DROP TABLE IF EXISTS '' @ search_token_table_name table_name,
              ''DROP TABLE IF EXISTS '' @ search_table_name table_name, delete]
         | _ \<Rightarrow> [''-- dropping full-text search index '' @ index_name @ '' for '' @ backend_name b @
                 '' is not implemented by graphql-orm yet''])"

section \<open>SQLite rebuilds\<close>

text \<open>\<open>inner.replace("''", "")\<close>: the text without its doubled quotes, left to right.\<close>

fun without_doubled_quotes :: "str \<Rightarrow> str" where
  "without_doubled_quotes (a # b # cs) =
     (if a = sq \<and> b = sq then without_doubled_quotes cs else a # without_doubled_quotes (b # cs))"
| "without_doubled_quotes cs = cs"

definition sqlite_constant_default :: "str \<Rightarrow> bool" where
  "sqlite_constant_default d =
     (let value = canonicalize_column_default_expression d;
          unprefixed = (if value \<noteq> [] \<and> (hd value = CHR ''x'' \<or> hd value = CHR ''X'') then tl value else value);
          quoted =
            (case strip_prefix [sq] unprefixed of
               None \<Rightarrow> False
             | Some rest \<Rightarrow>
                 (case strip_suffix [sq] rest of
                    None \<Rightarrow> False
                  | Some inner \<Rightarrow> sq \<notin> set (without_doubled_quotes inner)))
      in quoted \<or>
         (value \<noteq> [] \<and> \<not> starts_with ''CURRENT_'' value \<and>
          list_all (\<lambda>c. is_ascii_alphanumeric c \<or> c = CHR ''.'' \<or> c = CHR ''-'' \<or> c = CHR ''+'') value))"

fun sqlite_requires_table_rebuild :: "OwnedMigrationStep \<Rightarrow> bool" where
  "sqlite_requires_table_rebuild (AddColumn _ column) \<longleftrightarrow>
     (case cm_default column of None \<Rightarrow> False | Some d \<Rightarrow> \<not> sqlite_constant_default d)"
| "sqlite_requires_table_rebuild (DropColumn _ _) \<longleftrightarrow> True"
| "sqlite_requires_table_rebuild (AlterColumn _ _ _) \<longleftrightarrow> True"
| "sqlite_requires_table_rebuild (AddForeignKey _ _) \<longleftrightarrow> True"
| "sqlite_requires_table_rebuild (DropForeignKey _ _) \<longleftrightarrow> True"
| "sqlite_requires_table_rebuild (SetCheckConstraints _ _ _) \<longleftrightarrow> True"
| "sqlite_requires_table_rebuild _ \<longleftrightarrow> False"

definition rebuild_common_columns :: "TableModel \<Rightarrow> TableModel \<Rightarrow> str list" where
  "rebuild_common_columns current_table target_table =
     map cm_name (filter (\<lambda>target. list_ex (\<lambda>current. cm_name current = cm_name target) (tm_columns current_table))
       (tm_columns target_table))"

definition render_sqlite_table_rebuild_statements :: "TableModel \<Rightarrow> TableModel \<Rightarrow> str list" where
  "render_sqlite_table_rebuild_statements current_table target_table =
     (let temp_table_name = ''__graphql_orm_'' @ tm_table_name target_table @ ''_new'';
          common_columns = rebuild_common_columns current_table target_table;
          temp_table = render_identifier_path Sqlite temp_table_name;
          current_table_name = render_identifier_path Sqlite (tm_table_name current_table);
          columns = render_identifier_list Sqlite common_columns
      in [render_create_table_statement_for_name Sqlite target_table temp_table_name] @
         (if common_columns = [] then []
          else [''INSERT INTO '' @ temp_table @ '' ('' @ columns @ '') SELECT '' @ columns @ '' FROM '' @ current_table_name]) @
         [''DROP TABLE '' @ current_table_name,
          ''ALTER TABLE '' @ temp_table @ '' RENAME TO '' @ render_identifier_path Sqlite (tm_table_name target_table)] @
         map (render_create_index_statement Sqlite (tm_table_name target_table)) (tm_indexes target_table) @
         (if tm_append_only target_table
          then render_append_only_statements Sqlite (tm_table_name target_table) True (tm_retention_purge target_table)
          else []))"

section \<open>Steps\<close>

text \<open>
  The PostgreSQL statements of a column change. The default comparison reuses the planner's
  comparison on the live column with the target's default.
\<close>

definition postgres_type_changed :: "ColumnModel \<Rightarrow> ColumnModel \<Rightarrow> bool" where
  "postgres_type_changed before after \<longleftrightarrow>
     \<not> eq_ignore_ascii_case (cm_sql_type before) (cm_sql_type after) \<and>
     \<not> (postgres_timestamptz_alias (cm_sql_type before) \<and> postgres_timestamptz_alias (cm_sql_type after))"

definition postgres_default_changed :: "LiteralReaders \<Rightarrow> ColumnModel \<Rightarrow> ColumnModel \<Rightarrow> bool" where
  "postgres_default_changed lr before after =
     column_changed_for_backend lr Postgres before (before\<lparr>cm_default := cm_default after\<rparr>)"

definition render_postgres_alter_column ::
  "LiteralReaders \<Rightarrow> str \<Rightarrow> ColumnModel \<Rightarrow> ColumnModel \<Rightarrow> str list" where
  "render_postgres_alter_column lr table_name before after =
     (let table = render_identifier_path Postgres table_name;
          before_column = render_identifier Postgres (cm_name before);
          after_column = render_identifier Postgres (cm_name after);
          type_changed = postgres_type_changed before after;
          default_changed = postgres_default_changed lr before after;
          alter = (\<lambda>column. ''ALTER TABLE '' @ table @ '' ALTER COLUMN '' @ column)
      in (if type_changed \<and> cm_default before \<noteq> None then [alter before_column @ '' DROP DEFAULT''] else []) @
         (if type_changed then [alter after_column @ '' TYPE '' @ cm_sql_type after] else []) @
         (if cm_nullable before \<noteq> cm_nullable after
          then [alter after_column @ '' '' @ (if cm_nullable after then ''DROP'' else ''SET'') @ '' NOT NULL''] else []) @
         (if default_changed \<or> type_changed then
            (case cm_default after of
               Some d \<Rightarrow> [alter after_column @ '' SET DEFAULT '' @ render_default_clause Postgres d]
             | None \<Rightarrow>
                 if cm_default before \<noteq> None \<and> \<not> type_changed then [alter after_column @ '' DROP DEFAULT'']
                 else [])
          else []))"

definition render_alter_column ::
  "LiteralReaders \<Rightarrow> DatabaseBackend \<Rightarrow> str \<Rightarrow> ColumnModel \<Rightarrow> ColumnModel \<Rightarrow> str list" where
  "render_alter_column lr b table_name before after =
     (case b of
        Postgres \<Rightarrow> render_postgres_alter_column lr table_name before after
      | Sqlite \<Rightarrow> [''-- sqlite requires table rebuild to alter column '' @ cm_name after @ '' on '' @ table_name]
      | _ \<Rightarrow> [''ALTER TABLE '' @ render_identifier_path b table_name @ '' ALTER COLUMN '' @
              render_identifier b (cm_name after) @ '' '' @ cm_sql_type after])"

definition render_drop_index :: "DatabaseBackend \<Rightarrow> str \<Rightarrow> str \<Rightarrow> str" where
  "render_drop_index b table_name index_name =
     (case b of
        Mysql \<Rightarrow> ''DROP INDEX '' @ index_name @ '' ON '' @ table_name
      | Mssql \<Rightarrow> ''DROP INDEX '' @ quote_identifier b index_name @ '' ON '' @ quote_identifier_path b table_name
      | _ \<Rightarrow> ''DROP INDEX '' @ quote_identifier b index_name)"

definition render_add_foreign_key :: "DatabaseBackend \<Rightarrow> str \<Rightarrow> ForeignKeyModel \<Rightarrow> str" where
  "render_add_foreign_key b table_name fk =
     (if b = Sqlite
      then ''-- sqlite requires table rebuild to add foreign key '' @ foreign_key_constraint_name table_name fk @
        '' on '' @ table_name
      else ''ALTER TABLE '' @ render_identifier_path b table_name @ '' ADD '' @ render_foreign_key_clause b table_name fk)"

definition render_drop_foreign_key :: "DatabaseBackend \<Rightarrow> str \<Rightarrow> ForeignKeyModel \<Rightarrow> str" where
  "render_drop_foreign_key b table_name fk =
     (let constraint_name = foreign_key_constraint_name table_name fk in
      if b = Sqlite
      then ''-- sqlite requires table rebuild to drop foreign key '' @ constraint_name @ '' on '' @ table_name
      else ''ALTER TABLE '' @ render_identifier_path b table_name @
        (if b = Mysql then '' DROP FOREIGN KEY '' else '' DROP CONSTRAINT '') @ quote_identifier b constraint_name)"

definition render_check_constraints ::
  "DatabaseBackend \<Rightarrow> str \<Rightarrow> CheckConstraintModel list \<Rightarrow> CheckConstraintModel list \<Rightarrow> str list" where
  "render_check_constraints b table_name before after =
     (case b of
        Postgres \<Rightarrow>
          (let table = render_identifier_path b table_name in
           map (\<lambda>c. ''ALTER TABLE '' @ table @ '' DROP CONSTRAINT IF EXISTS '' @ quote_identifier b (cc_name c)) before @
           map (\<lambda>c. ''ALTER TABLE '' @ table @ '' ADD CONSTRAINT '' @ quote_identifier b (cc_name c) @
                  '' CHECK ('' @ cc_expression c @ '')'') after @
           map (\<lambda>c. constraint_comment_statement (quote_identifier b (cc_name c)) table c) after)
      | Sqlite \<Rightarrow> [''-- sqlite rebuild required for portable constraints on '' @ table_name]
      | _ \<Rightarrow> [''-- portable constraints are not supported on '' @ backend_name b])"

definition render_create_table :: "(str \<Rightarrow> str) \<Rightarrow> DatabaseBackend \<Rightarrow> TableModel \<Rightarrow> str list" where
  "render_create_table js b table =
     [render_create_table_statement b table] @
     map (render_create_index_statement b (tm_table_name table)) (tm_indexes table) @
     concat (map (render_create_search_index_statement js b) (tm_search_indexes table)) @
     (if tm_append_only table
      then render_append_only_statements b (tm_table_name table) True (tm_retention_purge table) else []) @
     render_constraint_comments b table"

fun render_migration_step_view ::
  "LiteralReaders \<Rightarrow> (str \<Rightarrow> str) \<Rightarrow> DatabaseBackend \<Rightarrow> OwnedMigrationStep \<Rightarrow> str list" where
  "render_migration_step_view lr js b (EnableExtension name) =
     (if b = Postgres then [''CREATE EXTENSION IF NOT EXISTS '' @ render_identifier b name]
      else [''-- extension '' @ name @ '' is not supported on '' @ backend_name b])"
| "render_migration_step_view lr js b (CreateTable table) = render_create_table js b table"
| "render_migration_step_view lr js b (DropTable table_name) =
     [''DROP TABLE '' @ render_identifier_path b table_name]"
| "render_migration_step_view lr js b (AddColumn table_name column) =
     (if b = Sqlite \<and> sqlite_requires_table_rebuild (AddColumn table_name column)
      then [''-- sqlite requires table rebuild to add column '' @ cm_name column @
        '' with a non-constant default to '' @ table_name]
      else [''ALTER TABLE '' @ render_identifier_path b table_name @ '' ADD COLUMN '' @
        render_column_definition b column True])"
| "render_migration_step_view lr js b (DropColumn table_name column_name) =
     (if b = Sqlite
      then [''-- sqlite requires table rebuild to drop column '' @ column_name @ '' from '' @ table_name]
      else [''ALTER TABLE '' @ render_identifier_path b table_name @ '' DROP COLUMN '' @ render_identifier b column_name])"
| "render_migration_step_view lr js b (AlterColumn table_name before after) =
     render_alter_column lr b table_name before after"
| "render_migration_step_view lr js b (CreateIndex table_name ix) = [render_create_index_statement b table_name ix]"
| "render_migration_step_view lr js b (DropIndex table_name index_name) = [render_drop_index b table_name index_name]"
| "render_migration_step_view lr js b (CreateSearchIndex table_name si) = render_create_search_index_statement js b si"
| "render_migration_step_view lr js b (DropSearchIndex table_name index_name) =
     render_drop_search_index_statement b table_name index_name"
| "render_migration_step_view lr js b (AlterSearchIndex table_name before after) =
     render_drop_search_index_statement b table_name (si_name before) @
     render_create_search_index_statement js b after"
| "render_migration_step_view lr js b (AddForeignKey table_name fk) = [render_add_foreign_key b table_name fk]"
| "render_migration_step_view lr js b (DropForeignKey table_name fk) = [render_drop_foreign_key b table_name fk]"
| "render_migration_step_view lr js b (SetAppendOnly table_name enabled retention_purge) =
     render_append_only_statements b table_name enabled retention_purge"
| "render_migration_step_view lr js b (SetCheckConstraints table_name before after) =
     render_check_constraints b table_name before after"

section \<open>Capability checks\<close>

record OverlongPostgresIdentifier =
  oi_table_name :: str
  oi_kind :: str
  oi_name :: str

definition POSTGRES_MAX_IDENTIFIER_BYTES :: nat where "POSTGRES_MAX_IDENTIFIER_BYTES = 63"

text \<open>The names a step declares, in the order the source checks them, with table and kind.\<close>

fun declared_identifiers :: "OwnedMigrationStep \<Rightarrow> OverlongPostgresIdentifier list" where
  "declared_identifiers (CreateTable t) =
     map (\<lambda>ix. \<lparr>oi_table_name = tm_table_name t, oi_kind = ''index'', oi_name = ix_name ix\<rparr>) (tm_indexes t) @
     map (\<lambda>n. \<lparr>oi_table_name = tm_table_name t, oi_kind = ''foreign key'', oi_name = n\<rparr>)
       (List.map_filter fk_constraint_name (tm_foreign_keys t)) @
     map (\<lambda>c. \<lparr>oi_table_name = tm_table_name t, oi_kind = ''check constraint'', oi_name = cc_name c\<rparr>)
       (tm_check_constraints t) @
     map (\<lambda>si. \<lparr>oi_table_name = tm_table_name t, oi_kind = ''search index'', oi_name = si_name si\<rparr>)
       (tm_search_indexes t)"
| "declared_identifiers (CreateIndex n ix) =
     [\<lparr>oi_table_name = n, oi_kind = ''index'', oi_name = ix_name ix\<rparr>]"
| "declared_identifiers (CreateSearchIndex n si) =
     [\<lparr>oi_table_name = n, oi_kind = ''search index'', oi_name = si_name si\<rparr>]"
| "declared_identifiers (AlterSearchIndex n _ si) =
     [\<lparr>oi_table_name = n, oi_kind = ''search index'', oi_name = si_name si\<rparr>]"
| "declared_identifiers (AddForeignKey n fk) =
     (case fk_constraint_name fk of
        None \<Rightarrow> [] | Some c \<Rightarrow> [\<lparr>oi_table_name = n, oi_kind = ''foreign key'', oi_name = c\<rparr>])"
| "declared_identifiers (SetCheckConstraints n _ after) =
     map (\<lambda>c. \<lparr>oi_table_name = n, oi_kind = ''check constraint'', oi_name = cc_name c\<rparr>) after"
| "declared_identifiers _ = []"

definition postgres_overlong_identifier :: "OwnedMigrationStep list \<Rightarrow> OverlongPostgresIdentifier option" where
  "postgres_overlong_identifier steps =
     find (\<lambda>i. POSTGRES_MAX_IDENTIFIER_BYTES < length (oi_name i)) (concat (map declared_identifiers steps))"

definition display_overlong :: "OverlongPostgresIdentifier \<Rightarrow> str" where
  "display_overlong i =
     ''PostgreSQL '' @ oi_kind i @ ('' name '' @ [bq]) @ oi_name i @ ([bq] @ '' on '') @ oi_table_name i @ '' is '' @
     show_nat (length (oi_name i)) @ '' bytes; PostgreSQL truncates identifiers longer than '' @
     show_nat POSTGRES_MAX_IDENTIFIER_BYTES @ '' bytes, so declare a shorter name''"

fun alter_supported :: "OwnedMigrationStep \<Rightarrow> bool" where
  "alter_supported (AlterColumn _ before after) \<longleftrightarrow> postgres_alter_metadata_supported before after"
| "alter_supported _ \<longleftrightarrow> True"

definition validate_migration_step_capabilities :: "DatabaseBackend \<Rightarrow> OwnedMigrationStep list \<Rightarrow> str + unit" where
  "validate_migration_step_capabilities b steps =
     (if b = Postgres then
        if \<not> list_all alter_supported steps then Inl ''unsupported PostgreSQL column metadata alteration''
        else (case postgres_overlong_identifier steps of Some i \<Rightarrow> Inl (display_overlong i) | None \<Rightarrow> Inr ())
      else Inr ())"

section \<open>What column statements do\<close>

text \<open>
  The actions behind the statements of a PostgreSQL column change and their effect on the live
  column. PostgreSQL may refuse a type conversion while the old default is attached, so
  \<open>SetType\<close> succeeds here only without one; a new type carries its spatial declaration.
\<close>

datatype AlterAction =
    DropDefault
  | SetType str "SpatialColumnDef option"
  | SetNullable bool
  | SetDefault str

definition alter_actions :: "LiteralReaders \<Rightarrow> ColumnModel \<Rightarrow> ColumnModel \<Rightarrow> AlterAction list" where
  "alter_actions lr before after =
     (let type_changed = postgres_type_changed before after in
      (if type_changed \<and> cm_default before \<noteq> None then [DropDefault] else []) @
      (if type_changed then [SetType (cm_sql_type after) (cm_spatial after)] else []) @
      (if cm_nullable before \<noteq> cm_nullable after then [SetNullable (cm_nullable after)] else []) @
      (if postgres_default_changed lr before after \<or> type_changed then
         (case cm_default after of
            Some d \<Rightarrow> [SetDefault d]
          | None \<Rightarrow> if cm_default before \<noteq> None \<and> \<not> type_changed then [DropDefault] else [])
       else []))"

fun action_text :: "AlterAction \<Rightarrow> str" where
  "action_text DropDefault = ''DROP DEFAULT''"
| "action_text (SetType t _) = ''TYPE '' @ t"
| "action_text (SetNullable n) = (if n then ''DROP NOT NULL'' else ''SET NOT NULL'')"
| "action_text (SetDefault d) = ''SET DEFAULT '' @ d"

definition action_statement :: "str \<Rightarrow> str \<Rightarrow> AlterAction \<Rightarrow> str" where
  "action_statement table_name column_name a =
     ''ALTER TABLE '' @ render_identifier_path Postgres table_name @ '' ALTER COLUMN '' @
     render_identifier Postgres column_name @ '' '' @ action_text a"

fun run_action :: "AlterAction \<Rightarrow> ColumnModel \<Rightarrow> ColumnModel option" where
  "run_action DropDefault c = Some (c\<lparr>cm_default := None\<rparr>)"
| "run_action (SetType t sp) c =
     (if cm_default c = None then Some (c\<lparr>cm_sql_type := t, cm_spatial := sp\<rparr>) else None)"
| "run_action (SetNullable n) c = Some (c\<lparr>cm_nullable := n\<rparr>)"
| "run_action (SetDefault d) c = Some (c\<lparr>cm_default := Some d\<rparr>)"

fun run_actions :: "AlterAction list \<Rightarrow> ColumnModel \<Rightarrow> ColumnModel option" where
  "run_actions [] c = Some c"
| "run_actions (a # as) c = (case run_action a c of None \<Rightarrow> None | Some c' \<Rightarrow> run_actions as c')"

lemma run_actions_append:
  "run_actions (as @ bs) c = (case run_actions as c of None \<Rightarrow> None | Some c' \<Rightarrow> run_actions bs c')"
  by (induction as arbitrary: c) (auto split: option.splits)

lemma alter_column_statements:
  assumes "cm_name before = cm_name after"
  shows "render_postgres_alter_column lr table_name before after =
    map (action_statement table_name (cm_name after)) (alter_actions lr before after)"
  using assms
  by (cases "cm_default before"; cases "cm_default after")
    (simp_all add: render_postgres_alter_column_def alter_actions_def action_statement_def Let_def
      render_default_clause_def)

text \<open>The column the actions leave behind.\<close>

lemma alter_actions_result:
  assumes "cm_name before = cm_name after"
  shows "run_actions (alter_actions lr before after) before =
    Some (let tc = postgres_type_changed before after; dc = postgres_default_changed lr before after in
      before\<lparr>cm_sql_type := if tc then cm_sql_type after else cm_sql_type before,
        cm_spatial := if tc then cm_spatial after else cm_spatial before,
        cm_nullable := cm_nullable after,
        cm_default := if dc \<or> tc then cm_default after else cm_default before\<rparr>)"
  by (cases "cm_default before"; cases "cm_default after")
    (auto simp: alter_actions_def run_actions_append Let_def)

lemma same_type_text:
  assumes "\<not> postgres_type_changed before after" and "X \<in> {''TEXT'', ''NVARCHAR(MAX)''}"
  shows "eq_ignore_ascii_case (cm_sql_type before) X \<longleftrightarrow> eq_ignore_ascii_case (cm_sql_type after) X"
proof (cases "eq_ignore_ascii_case (cm_sql_type before) (cm_sql_type after)")
  case True
  then show ?thesis by (auto simp: eq_ignore_ascii_case_def)
next
  case False
  have lits: "\<not> eq_ignore_ascii_case ''TIMESTAMPTZ'' X" "\<not> eq_ignore_ascii_case ''timestamp with time zone'' X"
    using assms(2) by (auto simp: eq_ignore_ascii_case_def to_ascii_lowercase_def)
  then have "\<not> eq_ignore_ascii_case t X" if "postgres_timestamptz_alias t" for t
    using that by (auto simp: postgres_timestamptz_alias_def eq_ignore_ascii_case_def)
  with assms(1) False show ?thesis by (auto simp: postgres_type_changed_def)
qed

lemma default_unchanged_transfer:
  assumes "\<not> postgres_type_changed before after" and "\<not> postgres_default_changed lr before after"
    and "\<not> column_metadata_changed Postgres c after"
    and "cm_default c = cm_default before" and "cm_sql_type c = cm_sql_type before"
  shows "\<not> column_changed_with lr Postgres c after Pinned8e1"
proof -
  have "\<not> column_metadata_changed Postgres before (before\<lparr>cm_default := cm_default after\<rparr>)"
    by (simp add: column_metadata_changed_def sql_type_changed_def)
  with assms same_type_text [OF assms(1), of "''TEXT''"] same_type_text [OF assms(1), of "''NVARCHAR(MAX)''"]
  show ?thesis
    by (auto simp: postgres_default_changed_def column_changed_for_backend_def column_changed_with_def Let_def
        retained_timestamp_default_def text_defaults_equal_def typed_defaults_equal_def
        split: option.splits if_splits)
qed

lemma altered_metadata:
  assumes "cm_name before = cm_name after" and "postgres_alter_metadata_supported before after"
    and "run_actions (alter_actions lr before after) before = Some c"
  shows "\<not> column_metadata_changed Postgres c after"
  using assms
  by (auto simp: alter_actions_result column_metadata_changed_def sql_type_changed_def Let_def
      postgres_alter_metadata_supported_def postgres_type_changed_def split: if_splits)

lemma validate_capabilities_ok:
  "validate_migration_step_capabilities Postgres steps = Inr () \<longleftrightarrow>
     list_all alter_supported steps \<and>
     (\<forall>s \<in> set steps. \<forall>i \<in> set (declared_identifiers s). length (oi_name i) \<le> 63)"
proof -
  have "postgres_overlong_identifier steps = None \<longleftrightarrow>
      (\<forall>s \<in> set steps. \<forall>i \<in> set (declared_identifiers s). length (oi_name i) \<le> 63)"
    by (simp add: postgres_overlong_identifier_def find_None_iff POSTGRES_MAX_IDENTIFIER_BYTES_def not_less)
      blast
  then show ?thesis
    by (cases "postgres_overlong_identifier steps") (auto simp: validate_migration_step_capabilities_def)
qed

lemma alter_supported_iff:
  "list_all alter_supported steps \<longleftrightarrow>
     (\<forall>n before after. AlterColumn n before after \<in> set steps \<longrightarrow> postgres_alter_metadata_supported before after)"
proof -
  have "alter_supported s \<longleftrightarrow>
      (\<forall>n before after. s = AlterColumn n before after \<longrightarrow> postgres_alter_metadata_supported before after)" for s
    by (cases s) simp_all
  then show ?thesis unfolding list_all_iff by blast
qed

lemma foreign_key_name_fits:
  "(\<And>c. fk_constraint_name fk = Some c \<Longrightarrow> length c \<le> 63) \<Longrightarrow> length (foreign_key_constraint_name n fk) \<le> 63"
  by (cases "fk_constraint_name fk") (simp_all add: foreign_key_constraint_name_def bound_identifier_length)

lemma declared_fk_fits:
  assumes "\<forall>s \<in> set steps. \<forall>i \<in> set (declared_identifiers s). length (oi_name i) \<le> 63"
  shows "(\<forall>n fk. AddForeignKey n fk \<in> set steps \<longrightarrow> length (foreign_key_constraint_name n fk) \<le> 63) \<and>
    (\<forall>t fk. CreateTable t \<in> set steps \<longrightarrow> fk \<in> set (tm_foreign_keys t) \<longrightarrow>
       length (foreign_key_constraint_name (tm_table_name t) fk) \<le> 63)"
proof (intro conjI allI impI foreign_key_name_fits)
  fix n fk c
  assume "AddForeignKey n fk \<in> set steps" "fk_constraint_name fk = Some c"
  with assms show "length c \<le> 63" by fastforce
next
  fix t fk c
  assume "CreateTable t \<in> set steps" "fk \<in> set (tm_foreign_keys t)" "fk_constraint_name fk = Some c"
  then have "c \<in> set (List.map_filter fk_constraint_name (tm_foreign_keys t))"
    by (force simp: List.map_filter_def)
  then have "\<lparr>oi_table_name = tm_table_name t, oi_kind = ''foreign key'', oi_name = c\<rparr> \<in> set (declared_identifiers (CreateTable t))"
    by simp
  with assms \<open>CreateTable t \<in> set steps\<close> have "length (oi_name \<lparr>oi_table_name = tm_table_name t, oi_kind = ''foreign key'', oi_name = c\<rparr>) \<le> 63"
    by blast
  then show "length c \<le> 63" by simp
qed

section \<open>Properties\<close>

text \<open>
  C25. A rendered column change does its job on PostgreSQL: for a change the capability check
  accepts, the statements are exactly the texts of the actions, the actions run in that order
  without meeting an attached default at a type change, and the column they leave no longer
  differs from its target under either comparison profile. So a step the planner emits for a
  real difference renders at least one statement, and planning again emits none.
\<close>

theorem postgres_alter_converges:
  assumes "cm_name before = cm_name after" and "postgres_alter_metadata_supported before after"
  shows "render_migration_step_view lr js Postgres (AlterColumn table_name before after) =
      map (action_statement table_name (cm_name after)) (alter_actions lr before after) \<and>
    (\<exists>c. run_actions (alter_actions lr before after) before = Some c \<and>
      \<not> column_changed_with lr Postgres c after equivalence) \<and>
    (column_changed_with lr Postgres before after equivalence \<longrightarrow> alter_actions lr before after \<noteq> [])"
proof -
  obtain c where c: "run_actions (alter_actions lr before after) before = Some c"
    using alter_actions_result [OF assms(1)] by blast
  note meta = altered_metadata [OF assms c]
  have "\<not> column_changed_with lr Postgres c after Pinned8e1"
  proof (cases "postgres_default_changed lr before after \<or> postgres_type_changed before after")
    case True
    then have "cm_default c = cm_default after" using c alter_actions_result [OF assms(1)] by (auto simp: Let_def)
    with meta show ?thesis by (simp add: column_changed_with_def Let_def)
  next
    case False
    then show ?thesis
      using default_unchanged_transfer [OF _ _ meta] c alter_actions_result [OF assms(1)] by (auto simp: Let_def)
  qed
  then have "\<not> column_changed_with lr Postgres c after equivalence"
    by (cases equivalence) (auto intro: typed_change_pinned)
  with c alter_column_statements [OF assms(1)] show ?thesis
    by (auto simp: render_alter_column_def)
qed

definition demo_live_column :: ColumnModel where
  "demo_live_column = \<lparr>cm_name = ''order'', cm_sql_type = ''INTEGER'', cm_spatial = None, cm_nullable = True,
     cm_is_primary_key = False, cm_is_unique = False, cm_default = Some ''0''\<rparr>"

theorem postgres_alter_converges_witness:
  "\<exists>c. run_actions (alter_actions demo_readers demo_live_column (demo_live_column\<lparr>cm_sql_type := ''BIGINT''\<rparr>))
         demo_live_column = Some c \<and>
       \<not> column_changed_with demo_readers Postgres c (demo_live_column\<lparr>cm_sql_type := ''BIGINT''\<rparr>) TypedLiteralsV1"
  using postgres_alter_converges [of demo_live_column "demo_live_column\<lparr>cm_sql_type := ''BIGINT''\<rparr>"
      demo_readers id "''t''" TypedLiteralsV1]
  by (simp add: postgres_alter_metadata_supported_def Let_def)

text \<open>
  A default rendered for SQLite reads back unchanged: the clause is the canonical default,
  in parentheses when it is an expression, and a column whose stored default is that clause does
  not differ from the declared column. The hypothesis asks that parentheses put around the
  expression enclose it as a whole.
\<close>

theorem sqlite_default_reads_back:
  assumes "is_fully_parenthesized (CHR ''('' # canonicalize_column_default_expression d @ '')'')"
  shows "canonicalize_column_default_expression (render_default_clause Sqlite d) =
      canonicalize_column_default_expression d \<and>
    \<not> column_changed_with lr Sqlite (c\<lparr>cm_default := Some (render_default_clause Sqlite d)\<rparr>)
        (c\<lparr>cm_default := Some d\<rparr>) equivalence"
proof -
  have "canonicalize_column_default_expression (render_default_clause Sqlite d) =
      canonicalize_column_default_expression d"
    using canonicalize_parens [OF assms] by (simp add: render_default_clause_def Let_def canonicalize_idem)
  then show ?thesis
    by (simp add: column_changed_with_def column_metadata_changed_def sql_type_changed_def Let_def
        timestamp_default_for_comparison_def)
qed

theorem sqlite_default_reads_back_witness:
  "\<not> column_changed_with demo_readers Sqlite (demo_live_column\<lparr>cm_default := Some (render_default_clause Sqlite ''unixepoch()'')\<rparr>)
     (demo_live_column\<lparr>cm_default := Some ''unixepoch()''\<rparr>) Pinned8e1"
proof -
  have "is_fully_parenthesized (CHR ''('' # canonicalize_column_default_expression ''unixepoch()'' @ '')'')"
    by code_simp
  from sqlite_default_reads_back [OF this] show ?thesis by blast
qed

text \<open>
  Accepted PostgreSQL plans are exactly those whose column changes are implemented and whose
  declared names fit, and in an accepted plan every foreign key, with a declared or a generated
  name, is created under a name of at most 63 bytes, so introspection finds it again.
\<close>

theorem accepted_names_fit:
  "(validate_migration_step_capabilities Postgres steps = Inr () \<longleftrightarrow>
      (\<forall>n before after. AlterColumn n before after \<in> set steps \<longrightarrow> postgres_alter_metadata_supported before after) \<and>
      (\<forall>s \<in> set steps. \<forall>i \<in> set (declared_identifiers s). length (oi_name i) \<le> 63)) \<and>
   (validate_migration_step_capabilities Postgres steps = Inr () \<longrightarrow>
      (\<forall>n fk. AddForeignKey n fk \<in> set steps \<longrightarrow> length (foreign_key_constraint_name n fk) \<le> 63) \<and>
      (\<forall>t fk. CreateTable t \<in> set steps \<longrightarrow> fk \<in> set (tm_foreign_keys t) \<longrightarrow>
         length (foreign_key_constraint_name (tm_table_name t) fk) \<le> 63))"
  using validate_capabilities_ok [of steps] declared_fk_fits by (simp add: alter_supported_iff) blast

theorem accepted_names_fit_witness:
  "length (foreign_key_constraint_name ''a_posts'' (demo_fk ''users'')) \<le> 63"
proof -
  have "validate_migration_step_capabilities Postgres [AddForeignKey ''a_posts'' (demo_fk ''users'')] = Inr ()"
    by (simp add: validate_capabilities_ok demo_fk_def)
  with accepted_names_fit [of "[AddForeignKey ''a_posts'' (demo_fk ''users'')]"] show ?thesis by simp
qed

end
