(* ===== verification/DiffSound.thy ===== *)
theory DiffSound
  imports Diff
begin

text \<open>
  What the diff means: migration steps act on an abstract physical schema. Applying the steps of
  \<open>diff_schema_views_with\<close> to the live schema drops the tables the target lacks, creates the missing
  ones as declared, and brings the compared parts of the others to those of the target; key order and
  composite unique keys of existing tables are not compared and stay. The locale \<open>keyed_steps\<close> states what columns,
  indexes and search indexes have in common: steps that act on one key of a map at a time.
\<close>

section \<open>Physical schemas\<close>

record PhysTable =
  pt_columns :: "str \<rightharpoonup> ColumnModel"
  pt_indexes :: "str \<rightharpoonup> IndexModel"
  pt_search :: "str \<rightharpoonup> SearchIndexModel"
  pt_fks :: "fk_identity multiset"
  pt_enforcement :: "bool \<times> bool"
  pt_checks :: "CheckConstraintModel list"
  pt_primary_keys :: "str list"
  pt_uniques :: "str list list"

record PhysSchema =
  ph_extensions :: "str set"
  ph_tables :: "str \<rightharpoonup> PhysTable"

definition phys_of_table :: "TableModel \<Rightarrow> PhysTable" where
  "phys_of_table t =
     \<lparr>pt_columns = btree_get (columns_by_name t), pt_indexes = btree_get (indexes_by_name t),
      pt_search = btree_get (search_indexes_by_name t),
      pt_fks = mset (map fk_identity (tm_foreign_keys t)),
      pt_enforcement = (tm_append_only t, tm_retention_purge t),
      pt_checks = tm_check_constraints t, pt_primary_keys = primary_keys t,
      pt_uniques = tm_composite_unique_indexes t\<rparr>"

definition phys_of_schema :: "SchemaModel \<Rightarrow> PhysSchema" where
  "phys_of_schema s =
     \<lparr>ph_extensions = to_ascii_lowercase ` set (sm_extensions s),
      ph_tables = (\<lambda>n. map_option phys_of_table (btree_get (tables_by_name (sm_tables s)) n))\<rparr>"

section \<open>Effects of steps\<close>

fun column_run :: "OwnedMigrationStep \<Rightarrow> (str \<rightharpoonup> ColumnModel) \<Rightarrow> (str \<rightharpoonup> ColumnModel)" where
  "column_run (AddColumn _ c) m = m(cm_name c \<mapsto> c)"
| "column_run (DropColumn _ k) m = m(k := None)"
| "column_run (AlterColumn _ _ c) m = m(cm_name c \<mapsto> c)"
| "column_run _ m = m"

fun column_key :: "OwnedMigrationStep \<Rightarrow> str" where
  "column_key (AddColumn _ c) = cm_name c"
| "column_key (DropColumn _ k) = k"
| "column_key (AlterColumn _ _ c) = cm_name c"
| "column_key _ = []"

fun index_run :: "OwnedMigrationStep \<Rightarrow> (str \<rightharpoonup> IndexModel) \<Rightarrow> (str \<rightharpoonup> IndexModel)" where
  "index_run (CreateIndex _ ix) m = m(ix_name ix \<mapsto> ix)"
| "index_run (DropIndex _ k) m = m(k := None)"
| "index_run _ m = m"

fun index_key :: "OwnedMigrationStep \<Rightarrow> str" where
  "index_key (CreateIndex _ ix) = ix_name ix"
| "index_key (DropIndex _ k) = k"
| "index_key _ = []"

fun search_run :: "OwnedMigrationStep \<Rightarrow> (str \<rightharpoonup> SearchIndexModel) \<Rightarrow> (str \<rightharpoonup> SearchIndexModel)" where
  "search_run (CreateSearchIndex _ si) m = m(si_name si \<mapsto> si)"
| "search_run (DropSearchIndex _ k) m = m(k := None)"
| "search_run (AlterSearchIndex _ _ si) m = m(si_name si \<mapsto> si)"
| "search_run _ m = m"

fun search_key :: "OwnedMigrationStep \<Rightarrow> str" where
  "search_key (CreateSearchIndex _ si) = si_name si"
| "search_key (DropSearchIndex _ k) = k"
| "search_key (AlterSearchIndex _ _ si) = si_name si"
| "search_key _ = []"

fun fk_run :: "OwnedMigrationStep \<Rightarrow> fk_identity multiset \<Rightarrow> fk_identity multiset" where
  "fk_run (AddForeignKey _ fk) m = add_mset (fk_identity fk) m"
| "fk_run (DropForeignKey _ fk) m = m - {#fk_identity fk#}"
| "fk_run _ m = m"

fun enforcement_run :: "OwnedMigrationStep \<Rightarrow> bool \<times> bool \<Rightarrow> bool \<times> bool" where
  "enforcement_run (SetAppendOnly _ enabled purge) e = (enabled, purge)"
| "enforcement_run _ e = e"

fun checks_run :: "OwnedMigrationStep \<Rightarrow> CheckConstraintModel list \<Rightarrow> CheckConstraintModel list" where
  "checks_run (SetCheckConstraints _ _ after) cs = after"
| "checks_run _ cs = cs"

definition apply_table_step :: "OwnedMigrationStep \<Rightarrow> PhysTable \<Rightarrow> PhysTable" where
  "apply_table_step s t =
     \<lparr>pt_columns = column_run s (pt_columns t), pt_indexes = index_run s (pt_indexes t),
      pt_search = search_run s (pt_search t), pt_fks = fk_run s (pt_fks t),
      pt_enforcement = enforcement_run s (pt_enforcement t), pt_checks = checks_run s (pt_checks t),
      pt_primary_keys = pt_primary_keys t, pt_uniques = pt_uniques t\<rparr>"

fun apply_step :: "OwnedMigrationStep \<Rightarrow> PhysSchema \<Rightarrow> PhysSchema" where
  "apply_step (EnableExtension e) p = p\<lparr>ph_extensions := insert (to_ascii_lowercase e) (ph_extensions p)\<rparr>"
| "apply_step (CreateTable t) p = p\<lparr>ph_tables := (ph_tables p)(tm_table_name t \<mapsto> phys_of_table t)\<rparr>"
| "apply_step (DropTable n) p = p\<lparr>ph_tables := (ph_tables p)(n := None)\<rparr>"
| "apply_step s p =
     (case migration_step_table_name s of
        None \<Rightarrow> p
      | Some n \<Rightarrow> p\<lparr>ph_tables := (ph_tables p)(n := map_option (apply_table_step s) (ph_tables p n))\<rparr>)"

section \<open>Agreement\<close>

text \<open>
  When a live column is as good as a declared one: name, nullability, key membership, uniqueness and
  (outside SQLite) spatial metadata are equal, the types are equal up to case or alias where the
  backend ignores these, and the defaults are equal in comparison form, are a retained timestamp
  default, or are recognized literals of equal value.
\<close>

definition types_agree :: "DatabaseBackend \<Rightarrow> str \<Rightarrow> str \<Rightarrow> bool" where
  "types_agree b c d \<longleftrightarrow> c = d \<or> (b = Postgres \<or> b = Mssql) \<and> eq_ignore_ascii_case c d
     \<or> b = Postgres \<and> postgres_timestamptz_alias c \<and> postgres_timestamptz_alias d"

definition defaults_agree :: "LiteralReaders \<Rightarrow> DatabaseBackend \<Rightarrow> DefaultEquivalence \<Rightarrow> ColumnModel \<Rightarrow> ColumnModel \<Rightarrow> bool" where
  "defaults_agree lr b equivalence c d \<longleftrightarrow>
     (let live = map_option (timestamp_default_for_comparison b) (cm_default c);
          target = map_option (timestamp_default_for_comparison b) (cm_default d) in
      live = target \<or> retained_timestamp_default b (cm_sql_type d) live target
      \<or> text_defaults_equal b c d = Some True \<or> typed_defaults_equal lr b c d equivalence = Some True)"

definition column_agrees :: "LiteralReaders \<Rightarrow> DatabaseBackend \<Rightarrow> DefaultEquivalence \<Rightarrow> ColumnModel \<Rightarrow> ColumnModel \<Rightarrow> bool" where
  "column_agrees lr b equivalence c d \<longleftrightarrow>
     cm_name c = cm_name d \<and> types_agree b (cm_sql_type c) (cm_sql_type d) \<and> cm_nullable c = cm_nullable d
     \<and> cm_is_primary_key c = cm_is_primary_key d \<and> cm_is_unique c = cm_is_unique d
     \<and> (b \<noteq> Sqlite \<longrightarrow> cm_spatial c = cm_spatial d) \<and> defaults_agree lr b equivalence c d"

lemma unchanged_agrees: "\<not> column_changed_with lr b c d eqv \<Longrightarrow> column_agrees lr b eqv c d"
  by (auto simp: column_changed_with_def column_agrees_def column_metadata_changed_def sql_type_changed_def types_agree_def
      defaults_agree_def Let_def text_defaults_equal_def typed_defaults_equal_def split: if_splits option.splits)

text \<open>
  CHECK constraints agree when they are equal, or all of them can be read and their token sequences
  are the same up to order.
\<close>

definition check_tokens :: "CheckConstraintModel list \<Rightarrow> str list list option" where
  "check_tokens cs = collect_options (map (canonical_check_tokens \<circ> cc_expression) cs)"

definition checks_agree :: "CheckConstraintModel list \<Rightarrow> CheckConstraintModel list \<Rightarrow> bool" where
  "checks_agree cs ds \<longleftrightarrow>
     cs = ds \<or> (\<exists>x y. check_tokens cs = Some x \<and> check_tokens ds = Some y \<and> mset x = mset y)"

lemma equivalent_checks_agree: "check_constraints_equivalent cs ds \<Longrightarrow> checks_agree cs ds"
  by (auto simp: check_constraints_equivalent_def checks_agree_def canonical_checks_def check_tokens_def
      split: option.splits) (metis mset_sort)

definition table_agrees ::
  "LiteralReaders \<Rightarrow> DatabaseBackend \<Rightarrow> DefaultEquivalence \<Rightarrow> PhysTable \<Rightarrow> PhysTable \<Rightarrow> bool" where
  "table_agrees lr b equivalence p q \<longleftrightarrow>
     (\<forall>k. rel_option (column_agrees lr b equivalence) (pt_columns p k) (pt_columns q k)) \<and>
     (\<forall>k. rel_option index_eq (pt_indexes p k) (pt_indexes q k)) \<and>
     pt_search p = pt_search q \<and> pt_fks p = pt_fks q \<and> pt_enforcement p = pt_enforcement q \<and>
     checks_agree (pt_checks p) (pt_checks q)"

text \<open>
  The state \<open>p\<close> a migration from \<open>live\<close> to \<open>target\<close> ends in: table by table, dropped, created as
  declared, or brought to agreement with the order of its key and its composite unique keys as they
  were.
\<close>

definition table_migrated ::
  "LiteralReaders \<Rightarrow> DatabaseBackend \<Rightarrow> DefaultEquivalence \<Rightarrow> PhysTable option \<Rightarrow> PhysTable option \<Rightarrow> PhysTable option \<Rightarrow> bool" where
  "table_migrated lr b equivalence live target p \<longleftrightarrow>
     (case target of
        None \<Rightarrow> p = None
      | Some u \<Rightarrow>
          (case live of
             None \<Rightarrow> p = Some u
           | Some t \<Rightarrow> (\<exists>v. p = Some v \<and> table_agrees lr b equivalence v u
               \<and> pt_primary_keys v = pt_primary_keys t \<and> pt_uniques v = pt_uniques t)))"

definition schema_migrated ::
  "LiteralReaders \<Rightarrow> DatabaseBackend \<Rightarrow> DefaultEquivalence \<Rightarrow> PhysSchema \<Rightarrow> PhysSchema \<Rightarrow> PhysSchema \<Rightarrow> bool" where
  "schema_migrated lr b equivalence live target p \<longleftrightarrow>
     ph_extensions p = ph_extensions live \<union> ph_extensions target \<and>
     (\<forall>n. table_migrated lr b equivalence (ph_tables live n) (ph_tables target n) (ph_tables p n))"

section \<open>Keyed steps\<close>

locale keyed_steps =
  fixes key :: "'op \<Rightarrow> 'k"
    and run :: "'op \<Rightarrow> ('k \<rightharpoonup> 'v) \<Rightarrow> ('k \<rightharpoonup> 'v)"
  assumes run_other: "key x \<noteq> k \<Longrightarrow> run x m k = m k"
    and run_own: "m k = m' k \<Longrightarrow> run x m k = run x m' k"
begin

lemma fold_own: "m k = m' k \<Longrightarrow> fold run ops m k = fold run ops m' k"
proof (induction ops arbitrary: m m')
  case (Cons x ops)
  have "run x m k = run x m' k" using Cons.prems by (rule run_own [of m k m'])
  then show ?case using Cons.IH [of "run x m" "run x m'"] by (simp only: fold_simps)
qed simp

lemma fold_at: "fold run ops m k = fold run (filter (\<lambda>x. key x = k) ops) m k"
proof (induction ops arbitrary: m)
  case (Cons x ops)
  show ?case
  proof (cases "key x = k")
    case True
    with Cons show ?thesis by simp
  next
    case False
    then have "run x m k = m k" by (rule run_other)
    then have "fold run ops (run x m) k = fold run ops m k" by (rule fold_own)
    with Cons False show ?thesis by simp
  qed
qed simp

lemma filter_entries:
  assumes "distinct (map fst entries)" and "\<forall>(k', v) \<in> set entries. \<forall>x \<in> set (f (k', v)). key x = k'"
  shows "filter (\<lambda>x. key x = k) (concat (map f entries)) =
    (case map_of entries k of None \<Rightarrow> [] | Some v \<Rightarrow> f (k, v))"
  using assms
proof (induction entries)
  case (Cons e entries)
  obtain k' v where e: "e = (k', v)" by (cases e)
  have "filter (\<lambda>x. key x = k) (f (k', v)) = (if k' = k then f (k', v) else [])"
    using Cons.prems(2) e by (auto simp: filter_id_conv filter_empty_conv)
  moreover have "k' \<notin> fst ` set entries" using Cons.prems(1) e by simp
  then have "map_of entries k' = None" by (simp add: map_of_eq_None_iff)
  ultimately show ?case using Cons e by (auto split: option.splits)
qed simp

lemma fold_entries:
  assumes "distinct (map fst xs)" and "\<forall>(k', v) \<in> set xs. \<forall>x \<in> set (f (k', v)). key x = k'"
    and "distinct (map fst ys)" and "\<forall>(k', v) \<in> set ys. \<forall>x \<in> set (g (k', v)). key x = k'"
  shows "fold run (concat (map f xs) @ concat (map g ys)) m k =
    fold run ((case map_of xs k of None \<Rightarrow> [] | Some v \<Rightarrow> f (k, v)) @
              (case map_of ys k of None \<Rightarrow> [] | Some v \<Rightarrow> g (k, v))) m k"
  using fold_at [of "concat (map f xs) @ concat (map g ys)" m k]
    filter_entries [OF assms(1,2), of k] filter_entries [OF assms(3,4), of k]
  by simp

end

interpretation column_steps: keyed_steps column_key column_run
proof unfold_locales
  show "column_key x \<noteq> k \<Longrightarrow> column_run x m k = m k" for x k m by (cases x) auto
  show "m k = m' k \<Longrightarrow> column_run x m k = column_run x m' k" for x k m m' by (cases x) auto
qed

interpretation index_steps: keyed_steps index_key index_run
proof unfold_locales
  show "index_key x \<noteq> k \<Longrightarrow> index_run x m k = m k" for x k m by (cases x) auto
  show "m k = m' k \<Longrightarrow> index_run x m k = index_run x m' k" for x k m m' by (cases x) auto
qed

interpretation search_steps: keyed_steps search_key search_run
proof unfold_locales
  show "search_key x \<noteq> k \<Longrightarrow> search_run x m k = m k" for x k m by (cases x) auto
  show "m k = m' k \<Longrightarrow> search_run x m k = search_run x m' k" for x k m m' by (cases x) auto
qed

section \<open>Each section of the per-table diff\<close>

lemma named_entries:
  assumes "(k, v) \<in> set (btree_collect (map (\<lambda>x. (nm x, x)) xs))"
  shows "nm v = k \<and> v \<in> set xs"
  using assms by (auto simp: btree_entry_iff dest!: map_of_SomeD)

lemma get_map_of: "btree_get m = map_of m"
  by (rule ext) (simp add: btree_get_def)

lemma named_get: "map_of (btree_collect (map (\<lambda>x. (nm x, x)) xs)) k = Some v \<Longrightarrow> nm v = k \<and> v \<in> set xs"
  by (rule named_entries) (rule map_of_SomeD)

lemmas by_name_defs = columns_by_name_def indexes_by_name_def search_indexes_by_name_def

lemma diff_columns_sound:
  "rel_option (\<lambda>c d. \<not> column_changed_with lr b c d equivalence)
     (fold column_run (diff_columns lr b equivalence t u) (btree_get (columns_by_name t)) k)
     (btree_get (columns_by_name u) k)"
proof -
  let ?C = "columns_by_name t" and ?T = "columns_by_name u" and ?n = "tm_table_name t"
  let ?f = "\<lambda>(k, c). if map_of ?C k = None then [AddColumn ?n c] else []"
  let ?g = "\<lambda>(k, c). case map_of ?T k of None \<Rightarrow> [DropColumn ?n k]
      | Some d \<Rightarrow> if column_changed_with lr b c d equivalence then [AlterColumn ?n c d] else []"
  have names: "map_of ?C k = Some c \<Longrightarrow> cm_name c = k" "map_of ?T k = Some c \<Longrightarrow> cm_name c = k"
    "(k, c) \<in> set ?T \<Longrightarrow> cm_name c = k" for k c
    by (auto simp: columns_by_name_def dest: named_get named_entries)
  have "fold column_run (diff_columns lr b equivalence t u) m k =
      fold column_run ((case map_of ?T k of None \<Rightarrow> [] | Some v \<Rightarrow> ?f (k, v)) @
        (case map_of ?C k of None \<Rightarrow> [] | Some v \<Rightarrow> ?g (k, v))) m k" for m
    unfolding diff_columns_def Let_def get_map_of
    by (rule column_steps.fold_entries)
      (auto simp: columns_by_name_def dest: names [unfolded columns_by_name_def] split: if_splits option.splits)
  then show ?thesis
    by (cases "map_of ?C k"; cases "map_of ?T k") (auto simp: get_map_of column_changed_refl dest!: names)
qed

lemma diff_indexes_sound:
  assumes "\<forall>ix \<in> set (tm_indexes u). directions_ok ix"
  shows "rel_option index_eq (fold index_run (diff_indexes t u) (btree_get (indexes_by_name t)) k)
    (btree_get (indexes_by_name u) k)"
proof -
  let ?C = "indexes_by_name t" and ?T = "indexes_by_name u" and ?n = "tm_table_name t"
  let ?f = "\<lambda>(k, ix). case map_of ?C k of
      Some c \<Rightarrow> if \<not> index_eq c ix then [DropIndex ?n k, CreateIndex ?n ix] else []
    | None \<Rightarrow> [CreateIndex ?n ix]"
  let ?g = "\<lambda>(k, ix). if map_of ?T k = None then [DropIndex ?n k] else []"
  have names: "map_of ?T k = Some ix \<Longrightarrow> ix_name ix = k \<and> index_eq ix ix"
    "(k, ix) \<in> set ?T \<Longrightarrow> ix_name ix = k" for k ix
    using assms by (auto simp: indexes_by_name_def dest!: named_get named_entries intro: index_eq_refl)
  have "fold index_run (diff_indexes t u) m k =
      fold index_run ((case map_of ?T k of None \<Rightarrow> [] | Some v \<Rightarrow> ?f (k, v)) @
        (case map_of ?C k of None \<Rightarrow> [] | Some v \<Rightarrow> ?g (k, v))) m k" for m
    unfolding diff_indexes_def Let_def get_map_of
    by (rule index_steps.fold_entries)
      (auto simp: indexes_by_name_def dest: names [unfolded indexes_by_name_def] split: if_splits option.splits)
  then show ?thesis
    by (cases "map_of ?C k"; cases "map_of ?T k") (auto simp: get_map_of dest!: names)
qed

lemma diff_search_indexes_sound:
  "fold search_run (diff_search_indexes t u) (btree_get (search_indexes_by_name t)) =
     btree_get (search_indexes_by_name u)"
proof
  fix k
  let ?C = "search_indexes_by_name t" and ?T = "search_indexes_by_name u" and ?n = "tm_table_name t"
  let ?f = "\<lambda>(k, si). case map_of ?C k of
      Some c \<Rightarrow> if c \<noteq> si then [AlterSearchIndex ?n c si] else []
    | None \<Rightarrow> [CreateSearchIndex ?n si]"
  let ?g = "\<lambda>(k, si). if map_of ?T k = None then [DropSearchIndex ?n k] else []"
  have names: "map_of ?T k = Some si \<Longrightarrow> si_name si = k" "(k, si) \<in> set ?T \<Longrightarrow> si_name si = k" for k si
    by (auto simp: search_indexes_by_name_def dest: named_get named_entries)
  have "fold search_run (diff_search_indexes t u) m k =
      fold search_run ((case map_of ?T k of None \<Rightarrow> [] | Some v \<Rightarrow> ?f (k, v)) @
        (case map_of ?C k of None \<Rightarrow> [] | Some v \<Rightarrow> ?g (k, v))) m k" for m
    unfolding diff_search_indexes_def Let_def get_map_of
    by (rule search_steps.fold_entries)
      (auto simp: search_indexes_by_name_def dest: names [unfolded search_indexes_by_name_def]
        split: if_splits option.splits)
  then show "fold search_run (diff_search_indexes t u) (btree_get ?C) k = btree_get ?T k"
    by (cases "map_of ?C k"; cases "map_of ?T k") (auto simp: get_map_of dest!: names)
qed

lemma count_map: "count (mset (map f xs)) k = length (filter (\<lambda>x. f x = k) xs)"
  by (induction xs) auto

lemma fk_group_length:
  "length (fk_group key t) = count (mset (map fk_identity (tm_foreign_keys t))) key"
  by (simp only: fk_group_def count_map length_sort)

lemma fk_group_identity: "fk \<in> set (fk_group key t) \<Longrightarrow> fk_identity fk = key"
  by (simp add: fk_group_def)

lemma fold_fk_drops: "fold fk_run (map (DropForeignKey n) fks) M = M - mset (map fk_identity fks)"
  by (induction fks arbitrary: M) (simp_all add: diff_diff_add_mset)

lemma fold_fk_adds: "fold fk_run (map (AddForeignKey n) fks) M = M + mset (map fk_identity fks)"
  by (induction fks arbitrary: M) simp_all

lemma count_groups:
  assumes "distinct keys" and "\<And>k x. x \<in> set (g k) \<Longrightarrow> fk_identity x = k"
  shows "count (mset (map fk_identity (concat (map g keys)))) key = (if key \<in> set keys then length (g key) else 0)"
  using assms
proof (induction keys)
  case (Cons k keys)
  have "map fk_identity (g k) = replicate (length (g k)) k"
    using Cons.prems(2) by (intro replicate_eqI) auto
  then have "count (mset (map fk_identity (g k))) key = (if key = k then length (g k) else 0)" by simp
  with Cons show ?case by auto
qed simp

lemma diff_foreign_keys_sound:
  "fold fk_run (diff_foreign_keys t u) (mset (map fk_identity (tm_foreign_keys t))) =
     mset (map fk_identity (tm_foreign_keys u))"
proof (rule multiset_eqI)
  fix key
  let ?common = "\<lambda>key. min (length (fk_group key t)) (length (fk_group key u))"
  let ?M = "mset (map fk_identity (tm_foreign_keys t))" and ?N = "mset (map fk_identity (tm_foreign_keys u))"
  let ?keys = "fk_keys t u"
  let ?drops = "concat (map (\<lambda>key. drop (?common key) (fk_group key t)) ?keys)"
  let ?adds = "concat (map (\<lambda>key. drop (?common key) (fk_group key u)) ?keys)"
  have steps: "diff_foreign_keys t u =
      map (DropForeignKey (tm_table_name t)) ?drops @ map (AddForeignKey (tm_table_name t)) ?adds"
    by (simp add: diff_foreign_keys_def Let_def map_concat comp_def)
  have keys: "distinct ?keys" "set ?keys = fk_identity ` set (tm_foreign_keys t @ tm_foreign_keys u)"
    by (auto simp: fk_keys_def btree_simps image_Un image_image)
  have zero: "length (fk_group key t) = 0 \<and> length (fk_group key u) = 0" if "key \<notin> set ?keys"
    using that by (auto simp: keys(2) fk_group_def filter_empty_conv)
  have d: "count (mset (map fk_identity ?drops)) key =
      (if key \<in> set ?keys then length (fk_group key t) - ?common key else 0)"
    by (subst count_groups) (auto simp: keys(1) dest: in_set_dropD fk_group_identity)
  have a: "count (mset (map fk_identity ?adds)) key =
      (if key \<in> set ?keys then length (fk_group key u) - ?common key else 0)"
    by (subst count_groups) (auto simp: keys(1) dest: in_set_dropD fk_group_identity)
  have "count (fold fk_run (diff_foreign_keys t u) ?M) key =
      count ?M key - count (mset (map fk_identity ?drops)) key + count (mset (map fk_identity ?adds)) key"
    by (simp only: steps fold_append comp_apply fold_fk_drops fold_fk_adds count_union count_diff)
  also have "\<dots> = count ?N key"
    using zero unfolding d a fk_group_length [symmetric] by auto
  finally show "count (fold fk_run (diff_foreign_keys t u) ?M) key = count ?N key" .
qed

section \<open>One table\<close>

lemma fold_table_components:
  "fold apply_table_step ss t =
     \<lparr>pt_columns = fold column_run ss (pt_columns t), pt_indexes = fold index_run ss (pt_indexes t),
      pt_search = fold search_run ss (pt_search t), pt_fks = fold fk_run ss (pt_fks t),
      pt_enforcement = fold enforcement_run ss (pt_enforcement t), pt_checks = fold checks_run ss (pt_checks t),
      pt_primary_keys = pt_primary_keys t, pt_uniques = pt_uniques t\<rparr>"
  by (induction ss arbitrary: t) (simp_all add: apply_table_step_def)

lemma fold_of_idle: "\<forall>x \<in> set ops. run x = id \<Longrightarrow> fold run ops m = m"
  by (induction ops arbitrary: m) auto

text \<open>Which steps each section of the diff produces.\<close>

lemma section_steps:
  "s \<in> set (diff_columns lr b eqv t u) \<Longrightarrow>
     \<exists>c d k. s \<in> {AddColumn (tm_table_name t) c, DropColumn (tm_table_name t) k, AlterColumn (tm_table_name t) c d}"
  "s \<in> set (diff_indexes t u) \<Longrightarrow> \<exists>ix k. s \<in> {CreateIndex (tm_table_name t) ix, DropIndex (tm_table_name t) k}"
  "s \<in> set (diff_search_indexes t u) \<Longrightarrow>
     \<exists>c d k. s \<in> {CreateSearchIndex (tm_table_name t) c, DropSearchIndex (tm_table_name t) k,
                AlterSearchIndex (tm_table_name t) c d}"
  "s \<in> set (diff_foreign_keys t u) \<Longrightarrow>
     \<exists>fk. s \<in> {AddForeignKey (tm_table_name t) fk, DropForeignKey (tm_table_name t) fk}"
  "s \<in> set (diff_enforcement t u) \<Longrightarrow>
     \<exists>e p x y. s \<in> {SetAppendOnly (tm_table_name t) e p, SetCheckConstraints (tm_table_name t) x y}"
  by (auto simp: diff_columns_def diff_indexes_def diff_search_indexes_def diff_foreign_keys_def
      diff_enforcement_def Let_def split: if_splits option.splits)

text \<open>A component a section's steps do not touch is left as it is.\<close>

lemma idle_sections:
  "fold column_run (diff_indexes t u) = id" "fold column_run (diff_search_indexes t u) = id"
  "fold column_run (diff_foreign_keys t u) = id" "fold column_run (diff_enforcement t u) = id"
  "fold index_run (diff_columns lr b eqv t u) = id" "fold index_run (diff_search_indexes t u) = id"
  "fold index_run (diff_foreign_keys t u) = id" "fold index_run (diff_enforcement t u) = id"
  "fold search_run (diff_columns lr b eqv t u) = id" "fold search_run (diff_indexes t u) = id"
  "fold search_run (diff_foreign_keys t u) = id" "fold search_run (diff_enforcement t u) = id"
  "fold fk_run (diff_columns lr b eqv t u) = id" "fold fk_run (diff_indexes t u) = id"
  "fold fk_run (diff_search_indexes t u) = id" "fold fk_run (diff_enforcement t u) = id"
  "fold enforcement_run (diff_columns lr b eqv t u) = id" "fold enforcement_run (diff_indexes t u) = id"
  "fold enforcement_run (diff_search_indexes t u) = id" "fold enforcement_run (diff_foreign_keys t u) = id"
  "fold checks_run (diff_columns lr b eqv t u) = id" "fold checks_run (diff_indexes t u) = id"
  "fold checks_run (diff_search_indexes t u) = id" "fold checks_run (diff_foreign_keys t u) = id"
  by (rule ext, simp, rule fold_of_idle, fastforce dest!: section_steps)+

lemma diff_existing_table_sound:
  assumes "\<forall>ix \<in> set (tm_indexes u). directions_ok ix"
  shows "table_migrated lr b eqv (Some (phys_of_table t)) (Some (phys_of_table u))
    (Some (fold apply_table_step (diff_existing_table lr b eqv t u) (phys_of_table t)))"
proof -
  have "fold enforcement_run (diff_enforcement t u) (tm_append_only t, tm_retention_purge t) =
      (tm_append_only u, tm_retention_purge u)"
    by (auto simp: diff_enforcement_def)
  moreover have "checks_agree (fold checks_run (diff_enforcement t u) (tm_check_constraints t)) (tm_check_constraints u)"
    by (rule equivalent_checks_agree) (auto simp: diff_enforcement_def check_equivalent_refl)
  moreover have "rel_option (column_agrees lr b eqv) (fold column_run (diff_columns lr b eqv t u) (btree_get (columns_by_name t)) k)
      (btree_get (columns_by_name u) k)" for k
    using diff_columns_sound [of lr b eqv t u k] unchanged_agrees by (rule option.rel_mono_strong) blast
  ultimately show ?thesis
    using diff_indexes_sound [OF assms, of t] diff_search_indexes_sound [of t u] diff_foreign_keys_sound [of t u]
    by (simp add: table_migrated_def table_agrees_def fold_table_components diff_existing_table_def phys_of_table_def idle_sections)
qed

section \<open>The whole schema\<close>

definition local_step :: "str \<Rightarrow> OwnedMigrationStep \<Rightarrow> bool" where
  "local_step n s \<longleftrightarrow> migration_step_table_name s = Some n \<and> (\<forall>t. s \<noteq> CreateTable t) \<and> s \<noteq> DropTable n"

lemma apply_local:
  "local_step n s \<Longrightarrow>
     apply_step s p = p\<lparr>ph_tables := (ph_tables p)(n := map_option (apply_table_step s) (ph_tables p n))\<rparr>"
  by (cases s) (auto simp: local_step_def)

lemma fold_local:
  "\<forall>s \<in> set ss. local_step n s \<Longrightarrow>
     fold apply_step ss p =
       p\<lparr>ph_tables := (ph_tables p)(n := map_option (fold apply_table_step ss) (ph_tables p n))\<rparr>"
proof (induction ss arbitrary: p)
  case (Cons s ss)
  then have "local_step n s" by simp
  then have "fold apply_step (s # ss) p =
      fold apply_step ss (p\<lparr>ph_tables := (ph_tables p)(n := map_option (apply_table_step s) (ph_tables p n))\<rparr>)"
    by (simp only: fold_simps apply_local)
  also have "\<dots> = p\<lparr>ph_tables :=
      (ph_tables p)(n := map_option (fold apply_table_step (s # ss)) (ph_tables p n))\<rparr>"
    using Cons by (cases p; cases "ph_tables p n") (auto simp: fun_eq_iff)
  finally show ?case .
next
  case Nil
  show ?case by (cases p) (simp add: fun_eq_iff option.map_ident)
qed

lemma existing_local: "s \<in> set (diff_existing_table lr b eqv t u) \<Longrightarrow> local_step (tm_table_name t) s"
  by (auto simp: diff_existing_table_def local_step_def dest!: section_steps)

definition table_effect ::
  "LiteralReaders \<Rightarrow> DatabaseBackend \<Rightarrow> DefaultEquivalence \<Rightarrow> SchemaModel \<Rightarrow> TableModel \<Rightarrow> PhysTable option \<Rightarrow> PhysTable option" where
  "table_effect lr b eqv target t x =
     (case btree_get (tables_by_name (sm_tables target)) (tm_table_name t) of
        None \<Rightarrow> None
      | Some u \<Rightarrow> map_option (fold apply_table_step (diff_existing_table lr b eqv t u)) x)"

lemma fold_diff_table:
  "fold apply_step (diff_table lr b eqv target t) p =
     p\<lparr>ph_tables := (ph_tables p)(tm_table_name t := table_effect lr b eqv target t (ph_tables p (tm_table_name t)))\<rparr>"
proof (cases "btree_get (tables_by_name (sm_tables target)) (tm_table_name t)")
  case None
  have "\<forall>s \<in> set (map (\<lambda>si. DropSearchIndex (tm_table_name t) (si_name si)) (tm_search_indexes t)).
      local_step (tm_table_name t) s" by (auto simp: local_step_def)
  from fold_local [OF this, of p] None show ?thesis
    by (simp add: diff_table_def diff_dropped_table_def table_effect_def)
next
  case (Some u)
  have "\<forall>s \<in> set (diff_existing_table lr b eqv t u). local_step (tm_table_name t) s"
    using existing_local by blast
  from fold_local [OF this, of p] Some show ?thesis by (simp add: diff_table_def table_effect_def)
qed

lemma fold_diff_tables:
  assumes "distinct (map tm_table_name ts)"
  shows "ph_extensions (fold apply_step (concat (map (diff_table lr b eqv target) ts)) p) = ph_extensions p"
    and "\<And>t. t \<in> set ts \<Longrightarrow>
      ph_tables (fold apply_step (concat (map (diff_table lr b eqv target) ts)) p) (tm_table_name t) =
      table_effect lr b eqv target t (ph_tables p (tm_table_name t))"
    and "\<And>n. n \<notin> tm_table_name ` set ts \<Longrightarrow>
      ph_tables (fold apply_step (concat (map (diff_table lr b eqv target) ts)) p) n = ph_tables p n"
  using assms
proof (induction ts arbitrary: p)
  case (Cons t ts)
  { case 1 with Cons show ?case by (simp add: fold_diff_table) }
  { case (2 t')
    then have "t' = t \<or> tm_table_name t' \<noteq> tm_table_name t" by (auto intro: rev_image_eqI)
    with 2 Cons show ?case by (cases "t' = t") (auto simp: fold_diff_table) }
  { case (3 n) with Cons show ?case by (simp add: fold_diff_table) }
qed simp_all

lemma fold_creates:
  assumes "distinct (map tm_table_name ts)"
  shows "ph_extensions (fold apply_step (map CreateTable ts) p) = ph_extensions p"
    and "\<And>t. t \<in> set ts \<Longrightarrow> ph_tables (fold apply_step (map CreateTable ts) p) (tm_table_name t) = Some (phys_of_table t)"
    and "\<And>n. n \<notin> tm_table_name ` set ts \<Longrightarrow> ph_tables (fold apply_step (map CreateTable ts) p) n = ph_tables p n"
  using assms
proof (induction ts arbitrary: p)
  case (Cons t ts)
  { case 1 with Cons show ?case by simp }
  { case (2 t') with Cons show ?case by (cases "t' = t") auto }
  { case (3 n) with Cons show ?case by simp }
qed simp_all

lemma fold_extensions:
  "fold apply_step (map EnableExtension es) p =
     p\<lparr>ph_extensions := to_ascii_lowercase ` set es \<union> ph_extensions p\<rparr>"
  by (induction es arbitrary: p) auto

lemma ordered_tables:
  fixes s :: SchemaModel
  defines "ts \<equiv> order_tables_by_foreign_keys (tables_by_name (sm_tables s))"
  shows "distinct (map tm_table_name ts)"
    and "t \<in> set ts \<longleftrightarrow> btree_get (tables_by_name (sm_tables s)) (tm_table_name t) = Some t"
    and "n \<in> tm_table_name ` set ts \<longleftrightarrow> btree_get (tables_by_name (sm_tables s)) n \<noteq> None"
proof -
  let ?T = "tables_by_name (sm_tables s)"
  have ok: "table_map_ok ?T" "btree ?T" by (rule tables_by_name_ok) (simp add: tables_by_name_def)
  show "distinct (map tm_table_name ts)" unfolding ts_def by (rule order_permutation(1) [OF ok])
  have get: "btree_get ?T n = Some t \<longleftrightarrow> (n, t) \<in> set ?T" for n t using bt.entry_iff [OF ok(2), of n t] by auto
  have nm: "btree_get ?T n = Some t \<Longrightarrow> tm_table_name t = n" for n t using ok(1) by (simp add: table_map_ok_def)
  have mem: "t \<in> set ts \<longleftrightarrow> (\<exists>n. btree_get ?T n = Some t)" for t
    unfolding ts_def order_permutation(2) [OF ok] using get by force
  show "t \<in> set ts \<longleftrightarrow> btree_get ?T (tm_table_name t) = Some t" using mem nm by metis
  show "n \<in> tm_table_name ` set ts \<longleftrightarrow> btree_get ?T n \<noteq> None" using mem nm by (force simp: image_iff)
qed

lemma diff_reaches_target:
  assumes "\<forall>u \<in> set (sm_tables target). \<forall>ix \<in> set (tm_indexes u). directions_ok ix"
  shows "schema_migrated lr b eqv (phys_of_schema current) (phys_of_schema target)
    (fold apply_step (diff_schema_views_with lr b current target eqv) (phys_of_schema current))"
proof -
  let ?C = "tables_by_name (sm_tables current)" and ?T = "tables_by_name (sm_tables target)"
  define new where "new = filter (\<lambda>t. btree_get ?C (tm_table_name t) = None) (order_tables_by_foreign_keys ?T)"
  define old where "old = rev (order_tables_by_foreign_keys ?C)"
  define p1 where "p1 = fold apply_step (diff_extensions current target) (phys_of_schema current)"
  define p2 where "p2 = fold apply_step (map CreateTable new) p1"
  define p3 where "p3 = fold apply_step (concat (map (diff_table lr b eqv target) old)) p2"
  have final: "fold apply_step (diff_schema_views_with lr b current target eqv) (phys_of_schema current) = p3"
    by (simp add: diff_schema_views_with_def diff_created_tables_def p1_def p2_def p3_def new_def old_def)
  have dnew: "distinct (map tm_table_name new)"
    using ordered_tables(1) [of target] by (simp add: new_def distinct_map_filter)
  have dold: "distinct (map tm_table_name old)"
    using ordered_tables(1) [of current] by (simp add: old_def rev_map [symmetric])
  have p1: "ph_tables p1 n = map_option phys_of_table (btree_get ?C n)"
    "ph_extensions p1 = ph_extensions (phys_of_schema current) \<union> ph_extensions (phys_of_schema target)" for n
    by (auto simp: p1_def diff_extensions_def fold_extensions phys_of_schema_def image_iff)
  have mem_new: "n \<in> tm_table_name ` set new \<longleftrightarrow> btree_get ?T n \<noteq> None \<and> btree_get ?C n = None" for n
    using ordered_tables(3) [of n target] by (auto simp: new_def)
  have mem_old: "n \<in> tm_table_name ` set old \<longleftrightarrow> btree_get ?C n \<noteq> None" for n
    using ordered_tables(3) [of n current] by (simp add: old_def)
  have ok: "\<forall>ix \<in> set (tm_indexes u). directions_ok ix" if "btree_get ?T n = Some u" for n u
    using that assms by (auto simp: get_tables_by_name dest!: map_of_SomeD)
  have nm: "btree_get ?T n = Some u \<Longrightarrow> tm_table_name u = n" "btree_get ?C n = Some u \<Longrightarrow> tm_table_name u = n" for n u
    using tables_by_name_ok by (auto simp: table_map_ok_def)
  have "table_migrated lr b eqv (map_option phys_of_table (btree_get ?C n)) (map_option phys_of_table (btree_get ?T n)) (ph_tables p3 n)" for n
  proof (cases "btree_get ?C n")
    case (Some t)
    then have t: "t \<in> set old" "tm_table_name t = n"
      using nm ordered_tables(2) [of t current] by (auto simp: old_def)
    have "ph_tables p2 n = Some (phys_of_table t)"
      unfolding p2_def using fold_creates(3) [OF dnew, of n p1] mem_new Some p1(1) by simp
    then have "ph_tables p3 n = table_effect lr b eqv target t (Some (phys_of_table t))"
      using fold_diff_tables(2) [OF dold t(1), of lr b eqv target p2] t(2) by (simp add: p3_def)
    then show ?thesis
      using t(2) diff_existing_table_sound [OF ok] Some
      by (cases "btree_get ?T n") (simp_all add: table_effect_def, simp add: table_migrated_def)
  next
    case None
    then have p3: "ph_tables p3 n = ph_tables p2 n"
      using fold_diff_tables(3) [OF dold, of n lr b eqv target p2] mem_old by (simp add: p3_def)
    show ?thesis
    proof (cases "btree_get ?T n")
      case (Some u)
      then have "u \<in> set new" "tm_table_name u = n"
        using None nm ordered_tables(2) [of u target] by (auto simp: new_def)
      then have "ph_tables p2 n = Some (phys_of_table u)"
        using fold_creates(2) [OF dnew, of u p1] by (simp add: p2_def)
      with p3 Some None show ?thesis by (simp add: table_migrated_def)
    next
      case None
      then have "ph_tables p2 n = None"
        using fold_creates(3) [OF dnew, of n p1] mem_new p1(1) \<open>btree_get ?C n = None\<close> by (simp add: p2_def)
      with p3 None show ?thesis by (simp add: table_migrated_def)
    qed
  qed
  moreover have "ph_extensions p3 = ph_extensions p1"
    by (simp add: p3_def p2_def fold_diff_tables(1) [OF dold] fold_creates(1) [OF dnew])
  ultimately show ?thesis using p1(2) unfolding schema_migrated_def final by (simp add: phys_of_schema_def)
qed

section \<open>Identity and order\<close>

lemma validated_directions:
  assumes "validate_physical_contract s = Inr ()"
  shows "\<forall>u \<in> set (sm_tables s). \<forall>ix \<in> set (tm_indexes u). directions_ok ix"
  using assms by (auto simp: validate_iff_sound list_all_iff table_sound_def dest: index_sound_directions)

lemma entry_get:
  "(k, v) \<in> set (btree_collect xs) \<Longrightarrow> btree_get (btree_collect xs) k = Some v"
  by (simp add: get_map_of)

lemma diff_existing_self:
  assumes "\<forall>ix \<in> set (tm_indexes t). directions_ok ix"
  shows "diff_existing_table lr b eqv t t = []"
proof -
  have "diff_columns lr b eqv t t = []"
    by (auto simp: diff_columns_def columns_by_name_def Let_def column_changed_refl entry_get)
  moreover have "index_eq ix ix" if "(k, ix) \<in> set (indexes_by_name t)" for k ix
    using named_entries [of k ix ix_name "tm_indexes t"] that assms index_eq_refl
    by (auto simp: indexes_by_name_def)
  then have "diff_indexes t t = []"
    by (auto simp: diff_indexes_def indexes_by_name_def Let_def entry_get)
  moreover have "diff_search_indexes t t = []"
    by (auto simp: diff_search_indexes_def search_indexes_by_name_def Let_def entry_get)
  moreover have "diff_foreign_keys t t = []" by (simp add: diff_foreign_keys_def Let_def)
  moreover have "diff_enforcement t t = []" by (simp add: diff_enforcement_def check_equivalent_refl)
  ultimately show ?thesis by (simp add: diff_existing_table_def)
qed

lemma diff_table_names: "s \<in> set (diff_table lr b eqv target t) \<Longrightarrow> migration_step_table_name s = Some (tm_table_name t)"
  by (auto simp: diff_table_def diff_dropped_table_def local_step_def dest!: existing_local split: option.splits)

lemma concat_split:
  "concat (map D ts) = xs @ a # ys \<Longrightarrow>
     \<exists>as t bs us vs. ts = as @ t # bs \<and> D t = us @ a # vs \<and> ys = vs @ concat (map D bs)"
proof (induction ts arbitrary: xs)
  case (Cons t ts)
  then have eq: "D t @ concat (map D ts) = xs @ a # ys" by simp
  show ?case
  proof (cases "length xs < length (D t)")
    case True
    then obtain vs where "D t = xs @ a # vs" "ys = vs @ concat (map D ts)"
      using eq by (auto simp: append_eq_append_conv2 append_eq_Cons_conv)
    then show ?thesis by (intro exI [of _ "[]"] exI [of _ t] exI [of _ ts] exI [of _ xs] exI [of _ vs]) simp
  next
    case False
    then obtain xs' where "concat (map D ts) = xs' @ a # ys"
      using eq by (auto simp: append_eq_append_conv2 append_eq_Cons_conv)
    with Cons.IH obtain as t' bs us vs where "ts = as @ t' # bs" "D t' = us @ a # vs" "ys = vs @ concat (map D bs)"
      by blast
    then show ?thesis by (intro exI [of _ "t # as"] exI [of _ t'] exI [of _ bs] exI [of _ us] exI [of _ vs]) simp
  qed
qed simp

lemma existing_add_after_drops:
  assumes "diff_table lr b eqv target t = us @ AddForeignKey n fk # vs"
  shows "DropForeignKey m fk' \<notin> set vs"
proof (cases "btree_get (tables_by_name (sm_tables target)) (tm_table_name t)")
  case None
  with assms have "AddForeignKey n fk \<in> set (diff_dropped_table t)" by (simp add: diff_table_def)
  then show ?thesis by (auto simp: diff_dropped_table_def)
next
  case (Some u)
  define drops where "drops = diff_columns lr b eqv t u @ diff_indexes t u @ diff_search_indexes t u @
    filter (\<lambda>s. \<exists>n fk. s = DropForeignKey n fk) (diff_foreign_keys t u)"
  define adds where "adds = filter (\<lambda>s. \<exists>n fk. s = AddForeignKey n fk) (diff_foreign_keys t u) @ diff_enforcement t u"
  have "diff_foreign_keys t u = filter (\<lambda>s. \<exists>n fk. s = DropForeignKey n fk) (diff_foreign_keys t u) @
      filter (\<lambda>s. \<exists>n fk. s = AddForeignKey n fk) (diff_foreign_keys t u)"
    unfolding diff_foreign_keys_def Let_def filter_append
    by (subst filter_True, fastforce, subst filter_False, fastforce, subst filter_False, fastforce,
        subst filter_True, fastforce, simp)
  then have D: "diff_table lr b eqv target t = drops @ adds"
    by (simp add: diff_table_def Some diff_existing_table_def drops_def adds_def)
  have "AddForeignKey n fk \<notin> set drops" by (auto simp: drops_def dest!: section_steps)
  moreover have "DropForeignKey m fk' \<notin> set adds" by (auto simp: adds_def dest!: section_steps)
  ultimately show ?thesis using assms D
    by (auto simp: append_eq_append_conv2 append_eq_Cons_conv Cons_eq_append_conv)
qed

section \<open>Properties\<close>


lemma demo_schema_valid: "validate_physical_contract demo_schema = Inr ()"
  by code_simp


text \<open>
  C24. A schema that already matches plans no work: the diff of a validated schema with itself is
  empty on every backend and under every comparison profile.
\<close>

theorem diff_schema_converged:
  assumes "validate_physical_contract s = Inr ()"
  shows "diff_schema_views_with lr b s s eqv = []"
proof -
  let ?T = "tables_by_name (sm_tables s)"
  have "diff_table lr b eqv s t = []" if "t \<in> set (order_tables_by_foreign_keys ?T)" for t
  proof -
    have t: "btree_get ?T (tm_table_name t) = Some t" using that ordered_tables(2) by blast
    then have "t \<in> set (sm_tables s)" by (auto simp: get_tables_by_name dest!: map_of_SomeD)
    then show ?thesis
      using validated_directions [OF assms] t by (simp add: diff_table_def diff_existing_self)
  qed
  moreover have "diff_created_tables s s = []"
    using ordered_tables(2) [of _ s] by (auto simp: diff_created_tables_def filter_empty_conv)
  moreover have "diff_extensions s s = []" by (auto simp: diff_extensions_def filter_empty_conv)
  ultimately show ?thesis by (simp add: diff_schema_views_with_def)
qed

theorem diff_schema_converged_witness:
  "diff_schema_views_with demo_readers Sqlite demo_schema demo_schema TypedLiteralsV1 = []"
  by (rule diff_schema_converged [OF demo_schema_valid])

text \<open>
  Replaced foreign keys never collide: in the plan, once a foreign key is added to a table no
  later step drops a foreign key of that table, so a changed key that keeps its generated
  constraint name is dropped before its replacement is added.
\<close>

theorem foreign_key_drops_first:
  assumes "diff_schema_views_with lr b current target eqv = xs @ AddForeignKey n fk # ys"
  shows "DropForeignKey n fk' \<notin> set ys"
proof -
  let ?old = "rev (order_tables_by_foreign_keys (tables_by_name (sm_tables current)))"
  define pre where "pre = diff_extensions current target @ diff_created_tables current target"
  have "AddForeignKey n fk \<notin> set pre" by (auto simp: pre_def diff_extensions_def diff_created_tables_def)
  moreover have "pre @ concat (map (diff_table lr b eqv target) ?old) = xs @ AddForeignKey n fk # ys"
    using assms by (simp add: diff_schema_views_with_def pre_def)
  ultimately obtain xs' where "concat (map (diff_table lr b eqv target) ?old) = xs' @ AddForeignKey n fk # ys"
    by (auto simp: append_eq_append_conv2 append_eq_Cons_conv Cons_eq_append_conv)
  then obtain as t bs us vs where s: "?old = as @ t # bs"
    "diff_table lr b eqv target t = us @ AddForeignKey n fk # vs" "ys = vs @ concat (map (diff_table lr b eqv target) bs)"
    using concat_split by meson
  have n: "tm_table_name t = n" using diff_table_names [of "AddForeignKey n fk" lr b eqv target t] s(2) by simp
  have "distinct (map tm_table_name (as @ t # bs))"
    using ordered_tables(1) [of current] s(1) by (metis distinct_rev rev_map)
  then have "n \<notin> tm_table_name ` set bs" using n by auto
  then have "DropForeignKey n fk' \<notin> set (concat (map (diff_table lr b eqv target) bs))"
    using diff_table_names by fastforce
  with existing_add_after_drops [OF s(2)] s(3) show ?thesis by simp
qed

definition demo_schema_restrict :: SchemaModel where
  "demo_schema_restrict = \<lparr>sm_extensions = [],
     sm_tables =
       [(demo_table ''a_posts'' [''id'', ''ref''] [(demo_fk ''users'')\<lparr>fk_on_delete := Restrict\<rparr>])\<lparr>tm_append_only := True\<rparr>,
        demo_table ''users'' [''id''] []]\<rparr>"

lemma demo_fk_change:
  "diff_schema_views_with demo_readers Postgres demo_schema demo_schema_restrict Pinned8e1 =
     [DropForeignKey ''a_posts'' (demo_fk ''users'')] @
     AddForeignKey ''a_posts'' ((demo_fk ''users'')\<lparr>fk_on_delete := Restrict\<rparr>) #
     [SetAppendOnly ''a_posts'' True False]"
  by code_simp

theorem foreign_key_drops_first_witness:
  "DropForeignKey ''a_posts'' (demo_fk ''users'') \<notin> set [SetAppendOnly ''a_posts'' True False]"
  by (rule foreign_key_drops_first [OF demo_fk_change])

text \<open>
  Composite unique keys are rendered when a table is created but are not compared: a changed
  list of an existing table plans no step.
\<close>

lemma composite_unique_change_unplanned:
  "diff_schema_views_with demo_readers Postgres demo_schema
     (demo_schema\<lparr>sm_tables := map (\<lambda>t. t\<lparr>tm_composite_unique_indexes := [[''id'', ''ref'']]\<rparr>) (sm_tables demo_schema)\<rparr>)
     Pinned8e1 = []"
  by code_simp

end
