(* ===== verification/Plan.thy ===== *)
theory Plan
  imports Render DiffSound
begin

text \<open>
  Migration plans (\<open>orm/migrations.rs\<close>): the risk of a step, the statements of a whole plan
  (on SQLite with one controlled rebuild per table that needs it), and the migration file.
\<close>

section \<open>Risk\<close>

datatype MigrationRisk = Additive | Compatible | Risky | Destructive

fun classify_migration_step_view :: "OwnedMigrationStep \<Rightarrow> MigrationRisk \<times> str" where
  "classify_migration_step_view (EnableExtension _) =
     (Additive, ''enables a database extension without changing row data'')"
| "classify_migration_step_view (CreateTable _) =
     (Additive, ''creates a new table without changing existing data'')"
| "classify_migration_step_view (DropTable _) = (Destructive, ''drops an existing table and its data'')"
| "classify_migration_step_view (AddColumn _ column) =
     (if cm_nullable column \<or> cm_default column \<noteq> None then (Additive, ''adds a nullable or defaulted column'')
      else (Risky, ''adds a required column without a default''))"
| "classify_migration_step_view (DropColumn _ _) = (Destructive, ''drops an existing column and its data'')"
| "classify_migration_step_view (AlterColumn _ before after) =
     (if cm_nullable before \<and> \<not> cm_nullable after then (Risky, ''tightens nullability on an existing column'')
      else if cm_sql_type before = cm_sql_type after
      then (Compatible, ''changes column metadata without changing the SQL type'')
      else (Risky, ''changes an existing column type''))"
| "classify_migration_step_view (CreateIndex _ _) = (Additive, ''creates an index without changing row data'')"
| "classify_migration_step_view (DropIndex _ _) = (Risky, ''drops an existing index'')"
| "classify_migration_step_view (CreateSearchIndex _ _) =
     (Additive, ''creates full-text search structures without backfilling row data'')"
| "classify_migration_step_view (DropSearchIndex _ _) = (Risky, ''drops full-text search structures'')"
| "classify_migration_step_view (AlterSearchIndex _ _ _) =
     (Risky, ''recreates full-text search structures and requires an explicit rebuild'')"
| "classify_migration_step_view (AddForeignKey _ _) = (Risky, ''adds a constraint that may reject existing rows'')"
| "classify_migration_step_view (DropForeignKey _ _) = (Risky, ''drops an existing referential constraint'')"
| "classify_migration_step_view (SetAppendOnly _ enabled _) =
     (if enabled then (Additive, ''adds database enforcement that prevents row mutation'')
      else (Risky, ''removes append-only database enforcement''))"
| "classify_migration_step_view (SetCheckConstraints _ _ _) =
     (Risky, ''adds, removes, or changes same-row check constraints'')"

record PlannedMigrationStep =
  ps_step :: OwnedMigrationStep
  ps_risk :: MigrationRisk
  ps_reason :: str

definition classify_migration_step :: "OwnedMigrationStep \<Rightarrow> PlannedMigrationStep" where
  "classify_migration_step step =
     (let (risk, reason) = classify_migration_step_view step
      in \<lparr>ps_step = step, ps_risk = risk, ps_reason = reason\<rparr>)"

definition classify_migration_steps :: "OwnedMigrationStep list \<Rightarrow> PlannedMigrationStep list" where
  "classify_migration_steps steps = map classify_migration_step steps"

section \<open>Plans\<close>

text \<open>The tables SQLite rebuilds: the names of the steps that require it.\<close>

definition rebuild_tables :: "OwnedMigrationStep list \<Rightarrow> str list" where
  "rebuild_tables steps =
     map fst (btree_collect (map (\<lambda>n. (n, ()))
       (List.map_filter migration_step_table_name (filter sqlite_requires_table_rebuild steps))))"

text \<open>
  The loop of \<open>render_owned_plan_steps\<close> on SQLite: \<open>rebuilt\<close> is the set of tables already
  rebuilt, and later steps on them are skipped.
\<close>

fun render_sqlite_steps ::
  "LiteralReaders \<Rightarrow> (str \<Rightarrow> str) \<Rightarrow> (str, TableModel) btree \<Rightarrow> (str, TableModel) btree \<Rightarrow>
     str list \<Rightarrow> str list \<Rightarrow> OwnedMigrationStep list \<Rightarrow> str list" where
  "render_sqlite_steps lr js current_tables target_tables rebuild rebuilt [] = []"
| "render_sqlite_steps lr js current_tables target_tables rebuild rebuilt (step # steps) =
     (case migration_step_table_name step of
        None \<Rightarrow>
          render_migration_step_view lr js Sqlite step @
          render_sqlite_steps lr js current_tables target_tables rebuild rebuilt steps
      | Some table_name \<Rightarrow>
          if table_name \<in> set rebuild then
            (if table_name \<in> set rebuilt then []
             else (case (btree_get current_tables table_name, btree_get target_tables table_name) of
                     (Some current_table, Some target_table) \<Rightarrow>
                       render_sqlite_table_rebuild_statements current_table target_table
                   | _ \<Rightarrow> [])) @
            render_sqlite_steps lr js current_tables target_tables rebuild (table_name # rebuilt) steps
          else
            render_migration_step_view lr js Sqlite step @
            render_sqlite_steps lr js current_tables target_tables rebuild rebuilt steps)"

definition render_owned_plan_steps ::
  "LiteralReaders \<Rightarrow> (str \<Rightarrow> str) \<Rightarrow> DatabaseBackend \<Rightarrow> SchemaModel \<Rightarrow> SchemaModel \<Rightarrow>
     OwnedMigrationStep list \<Rightarrow> str list" where
  "render_owned_plan_steps lr js b current target steps =
     (if b = Sqlite then
        let rebuild = rebuild_tables steps in
        (if rebuild \<noteq> [] then [''PRAGMA foreign_keys = OFF''] else []) @
        render_sqlite_steps lr js (tables_by_name (sm_tables current)) (tables_by_name (sm_tables target))
          rebuild [] steps @
        (if rebuild \<noteq> [] then [''PRAGMA foreign_keys = ON''] else [])
      else concat (map (render_migration_step_view lr js b) steps))"

record OwnedMigrationPlan =
  mp_backend :: DatabaseBackend
  mp_steps :: "OwnedMigrationStep list"
  mp_statements :: "str list"

definition build_migration_plan_views_with ::
  "LiteralReaders \<Rightarrow> (str \<Rightarrow> str) \<Rightarrow> DatabaseBackend \<Rightarrow> SchemaModel \<Rightarrow> SchemaModel \<Rightarrow>
     DefaultEquivalence \<Rightarrow> OwnedMigrationPlan" where
  "build_migration_plan_views_with lr js b current target equivalence =
     (let target_for_backend = (if b \<noteq> Postgres then target\<lparr>sm_extensions := []\<rparr> else target);
          steps = diff_schema_views_with lr b current target_for_backend equivalence
      in \<lparr>mp_backend = b, mp_steps = steps,
          mp_statements = render_owned_plan_steps lr js b current target_for_backend steps\<rparr>)"

definition build_migration_plan_views ::
  "LiteralReaders \<Rightarrow> (str \<Rightarrow> str) \<Rightarrow> DatabaseBackend \<Rightarrow> SchemaModel \<Rightarrow> SchemaModel \<Rightarrow> OwnedMigrationPlan" where
  "build_migration_plan_views lr js b current target =
     build_migration_plan_views_with lr js b current target Pinned8e1"

section \<open>Migration files\<close>

definition migration_filename :: "str \<Rightarrow> str \<Rightarrow> str" where
  "migration_filename version description =
     version @ ''_'' @
     trim_char (CHR ''_'')
       (map (\<lambda>c. if is_ascii_alphanumeric c then ascii_lower c else CHR ''_'') (utf8_heads description)) @
     ''.sql''"

fun backend_debug :: "DatabaseBackend \<Rightarrow> str" where
  "backend_debug Sqlite = ''Sqlite''" | "backend_debug Postgres = ''Postgres''"
| "backend_debug Mysql = ''Mysql''" | "backend_debug Mssql = ''Mssql''"

definition file_statement :: "str \<Rightarrow> str" where
  "file_statement statement =
     statement @ (if \<not> ends_with '';'' (trim_end statement) then '';'' else []) @ [nl]"

definition render_migration_file :: "OwnedMigrationPlan \<Rightarrow> str \<Rightarrow> str \<Rightarrow> str" where
  "render_migration_file plan version description =
     ''-- version: '' @ version @ [nl] @ ''-- description: '' @ description @ [nl] @
     ''-- backend: '' @ backend_debug (mp_backend plan) @ [nl, nl] @
     concat (map file_statement (mp_statements plan))"

section \<open>Where steps come from\<close>

abbreviation live_table :: "SchemaModel \<Rightarrow> str \<Rightarrow> TableModel option" where
  "live_table s n \<equiv> btree_get (tables_by_name (sm_tables s)) n"

lemma diff_step_cases:
  assumes "s \<in> set (diff_schema_views_with lr b current target eqv)"
  obtains (extension) e where "s = EnableExtension e" "e \<in> set (sm_extensions target)"
  | (create) t where "s = CreateTable t"
  | (drop) t where "live_table current (tm_table_name t) = Some t" "live_table target (tm_table_name t) = None"
      "s \<in> set (diff_dropped_table t)"
  | (existing) t u where "live_table current (tm_table_name t) = Some t"
      "live_table target (tm_table_name t) = Some u" "s \<in> set (diff_existing_table lr b eqv t u)"
proof -
  consider "s \<in> set (diff_extensions current target)" | "s \<in> set (diff_created_tables current target)"
    | t where "t \<in> set (order_tables_by_foreign_keys (tables_by_name (sm_tables current)))"
        "s \<in> set (diff_table lr b eqv target t)"
    using assms by (auto simp: diff_schema_views_with_def)
  then show ?thesis
  proof cases
    case 1 then show ?thesis using extension by (auto simp: diff_extensions_def)
  next
    case 2 then show ?thesis using create by (auto simp: diff_created_tables_def)
  next
    case (3 t)
    then have "live_table current (tm_table_name t) = Some t" using ordered_tables(2) by blast
    with 3(2) show ?thesis using drop existing
      by (cases "live_table target (tm_table_name t)") (auto simp: diff_table_def)
  qed
qed

lemma live_step:
  assumes "live_table current n = Some t" and "s \<in> set (diff_table lr b eqv target t)"
  shows "s \<in> set (diff_schema_views_with lr b current target eqv)"
proof -
  have "tm_table_name t = n" using assms(1) tables_by_name_ok by (auto simp: table_map_ok_def)
  then have "t \<in> set (order_tables_by_foreign_keys (tables_by_name (sm_tables current)))"
    using assms(1) ordered_tables(2) by auto
  with assms(2) show ?thesis by (auto simp: diff_schema_views_with_def)
qed

lemma column_entry: "btree_get (columns_by_name t) k = Some c \<longleftrightarrow> (k, c) \<in> set (columns_by_name t)"
  by (auto simp: columns_by_name_def get_map_of dest: map_of_SomeD)

lemma drop_column_step:
  "DropColumn n k \<in> set (diff_existing_table lr b eqv t u) \<longleftrightarrow>
     n = tm_table_name t \<and> btree_get (columns_by_name t) k \<noteq> None \<and> btree_get (columns_by_name u) k = None"
proof -
  have "DropColumn n k \<notin> set (diff_indexes t u)" "DropColumn n k \<notin> set (diff_search_indexes t u)"
    "DropColumn n k \<notin> set (diff_foreign_keys t u)" "DropColumn n k \<notin> set (diff_enforcement t u)"
    using section_steps(2-5) by fastforce+
  then have "DropColumn n k \<in> set (diff_existing_table lr b eqv t u) \<longleftrightarrow> DropColumn n k \<in> set (diff_columns lr b eqv t u)"
    by (simp add: diff_existing_table_def)
  also have "\<dots> \<longleftrightarrow> n = tm_table_name t \<and> (\<exists>c. (k, c) \<in> set (columns_by_name t)) \<and> btree_get (columns_by_name u) k = None"
    by (force simp: diff_columns_def Let_def split: option.splits if_splits)
  finally show ?thesis by (simp add: column_entry [symmetric])
qed

lemma lost_table_step:
  assumes "live_table current n = Some t"
    and "case live_table target n of None \<Rightarrow> True
      | Some u \<Rightarrow> \<exists>k. btree_get (columns_by_name t) k \<noteq> None \<and> btree_get (columns_by_name u) k = None"
  shows "\<exists>s \<in> set (diff_schema_views_with lr b current target eqv). (\<exists>n. s = DropTable n) \<or> (\<exists>n k. s = DropColumn n k)"
proof -
  have n: "tm_table_name t = n" using assms(1) tables_by_name_ok by (auto simp: table_map_ok_def)
  have "\<exists>s \<in> set (diff_table lr b eqv target t). (\<exists>n. s = DropTable n) \<or> (\<exists>n k. s = DropColumn n k)"
  proof (cases "live_table target n")
    case None
    then show ?thesis by (simp add: diff_table_def diff_dropped_table_def n)
  next
    case (Some u)
    then obtain k where "DropColumn n k \<in> set (diff_existing_table lr b eqv t u)"
      using assms(2) n by (auto simp: drop_column_step)
    with Some n show ?thesis by (auto simp: diff_table_def)
  qed
  with live_step [OF assms(1)] show ?thesis by blast
qed

lemma destructive_iff:
  "fst (classify_migration_step_view s) = Destructive \<longleftrightarrow> (\<exists>n. s = DropTable n) \<or> (\<exists>n k. s = DropColumn n k)"
  by (cases s) auto

text \<open>A live table or column the target does not have.\<close>

definition loses_data :: "PhysSchema \<Rightarrow> PhysSchema \<Rightarrow> bool" where
  "loses_data p q \<longleftrightarrow>
     (\<exists>n t. ph_tables p n = Some t \<and>
        (case ph_tables q n of None \<Rightarrow> True | Some u \<Rightarrow> \<exists>k. pt_columns t k \<noteq> None \<and> pt_columns u k = None))"

lemma loses_data_schemas:
  "loses_data (phys_of_schema current) (phys_of_schema target) \<longleftrightarrow>
     (\<exists>n t. live_table current n = Some t \<and>
        (case live_table target n of None \<Rightarrow> True
         | Some u \<Rightarrow> \<exists>k. btree_get (columns_by_name t) k \<noteq> None \<and> btree_get (columns_by_name u) k = None))"
proof -
  have "(case map_option phys_of_table x of None \<Rightarrow> True | Some u \<Rightarrow> \<exists>k. pt_columns (phys_of_table t) k \<noteq> None \<and> pt_columns u k = None) =
    (case x of None \<Rightarrow> True
     | Some u \<Rightarrow> \<exists>k. btree_get (columns_by_name t) k \<noteq> None \<and> btree_get (columns_by_name u) k = None)" for x t
    by (cases x) (simp_all add: phys_of_table_def)
  then show ?thesis by (auto simp: loses_data_def phys_of_schema_def)
qed

section \<open>Rebuilds\<close>

text \<open>A plan on SQLite as a sequence of chunks: a table rebuild or a step rendered on its own.\<close>

datatype PlanChunk = Rebuild str | Direct OwnedMigrationStep

fun plan_chunks :: "str list \<Rightarrow> str list \<Rightarrow> OwnedMigrationStep list \<Rightarrow> PlanChunk list" where
  "plan_chunks rebuild rebuilt [] = []"
| "plan_chunks rebuild rebuilt (step # steps) =
     (case migration_step_table_name step of
        None \<Rightarrow> Direct step # plan_chunks rebuild rebuilt steps
      | Some n \<Rightarrow>
          if n \<notin> set rebuild then Direct step # plan_chunks rebuild rebuilt steps
          else if n \<in> set rebuilt then plan_chunks rebuild rebuilt steps
          else Rebuild n # plan_chunks rebuild (n # rebuilt) steps)"

definition rebuilt_names :: "PlanChunk list \<Rightarrow> str list" where
  "rebuilt_names cs = concat (map (\<lambda>c. case c of Rebuild n \<Rightarrow> [n] | Direct _ \<Rightarrow> []) cs)"

definition direct_steps :: "PlanChunk list \<Rightarrow> OwnedMigrationStep list" where
  "direct_steps cs = concat (map (\<lambda>c. case c of Rebuild _ \<Rightarrow> [] | Direct s \<Rightarrow> [s]) cs)"

fun chunk_statements ::
  "LiteralReaders \<Rightarrow> (str \<Rightarrow> str) \<Rightarrow> SchemaModel \<Rightarrow> SchemaModel \<Rightarrow> PlanChunk \<Rightarrow> str list" where
  "chunk_statements lr js current target (Rebuild n) =
     (case (live_table current n, live_table target n) of
        (Some t, Some u) \<Rightarrow> render_sqlite_table_rebuild_statements t u | _ \<Rightarrow> [])"
| "chunk_statements lr js current target (Direct s) = render_migration_step_view lr js Sqlite s"

lemma chunk_simps [simp]:
  "rebuilt_names [] = []" "direct_steps [] = []"
  "rebuilt_names (Rebuild n # cs) = n # rebuilt_names cs" "rebuilt_names (Direct s # cs) = rebuilt_names cs"
  "direct_steps (Rebuild n # cs) = direct_steps cs" "direct_steps (Direct s # cs) = s # direct_steps cs"
  by (simp_all add: rebuilt_names_def direct_steps_def)

lemma render_sqlite_steps_chunks:
  assumes "set r1 = set r2"
  shows "render_sqlite_steps lr js (tables_by_name (sm_tables current)) (tables_by_name (sm_tables target)) rebuild r1 steps =
    concat (map (chunk_statements lr js current target) (plan_chunks rebuild r2 steps))"
  using assms
proof (induction steps arbitrary: r1 r2)
  case (Cons s steps)
  show ?case
  proof (cases "migration_step_table_name s")
    case (Some n)
    have "set (n # r1) = set (if n \<in> set r2 then r2 else n # r2)" using Cons.prems by auto
    from Cons.IH [OF this] Cons.IH [OF Cons.prems] Some Cons.prems show ?thesis by auto
  qed (use Cons in simp)
qed simp

lemma plan_chunks_names:
  "distinct (rebuilt_names (plan_chunks rebuild rebuilt steps)) \<and>
   set (rebuilt_names (plan_chunks rebuild rebuilt steps)) =
     {n \<in> set rebuild. \<exists>s \<in> set steps. migration_step_table_name s = Some n} - set rebuilt"
proof (induction steps arbitrary: rebuilt)
  case (Cons s steps)
  show ?case
  proof (cases "migration_step_table_name s")
    case (Some n)
    with Cons.IH [of "n # rebuilt"] Cons.IH [of rebuilt] show ?thesis by auto
  qed (use Cons in simp)
qed simp

lemma plan_chunks_direct:
  "direct_steps (plan_chunks rebuild rebuilt steps) =
     filter (\<lambda>s. \<forall>n. migration_step_table_name s = Some n \<longrightarrow> n \<notin> set rebuild) steps"
  by (induction steps arbitrary: rebuilt) (auto split: option.split)

lemma rebuild_tables_iff:
  "n \<in> set (rebuild_tables steps) \<longleftrightarrow>
     (\<exists>s \<in> set steps. sqlite_requires_table_rebuild s \<and> migration_step_table_name s = Some n)"
  by (force simp: rebuild_tables_def btree_keys_collect List.map_filter_def)

lemma rebuild_tables_live:
  assumes "n \<in> set (rebuild_tables (diff_schema_views_with lr b current target eqv))"
  shows "live_table current n \<noteq> None \<and> live_table target n \<noteq> None"
proof -
  from assms obtain s where s: "s \<in> set (diff_schema_views_with lr b current target eqv)"
    "sqlite_requires_table_rebuild s" "migration_step_table_name s = Some n"
    unfolding rebuild_tables_iff by blast
  from s(1) show ?thesis
  proof (cases rule: diff_step_cases)
    case (existing t u)
    then have "tm_table_name t = n" using s(3) existing_local by (force simp: local_step_def)
    with existing show ?thesis by auto
  qed (use s in \<open>auto simp: diff_dropped_table_def\<close>)
qed

lemma rebuild_step_named: "sqlite_requires_table_rebuild s \<Longrightarrow> \<exists>n. migration_step_table_name s = Some n"
  by (cases s) auto

definition sqlite_plan_steps ::
  "LiteralReaders \<Rightarrow> SchemaModel \<Rightarrow> SchemaModel \<Rightarrow> DefaultEquivalence \<Rightarrow> OwnedMigrationStep list" where
  "sqlite_plan_steps lr current target eqv =
     diff_schema_views_with lr Sqlite current (target\<lparr>sm_extensions := []\<rparr>) eqv"

definition sqlite_plan_chunks ::
  "LiteralReaders \<Rightarrow> SchemaModel \<Rightarrow> SchemaModel \<Rightarrow> DefaultEquivalence \<Rightarrow> PlanChunk list" where
  "sqlite_plan_chunks lr current target eqv =
     plan_chunks (rebuild_tables (sqlite_plan_steps lr current target eqv)) [] (sqlite_plan_steps lr current target eqv)"

lemma sqlite_chunk_names:
  "distinct (rebuilt_names (sqlite_plan_chunks lr current target eqv))"
  "set (rebuilt_names (sqlite_plan_chunks lr current target eqv)) =
     set (rebuild_tables (sqlite_plan_steps lr current target eqv))"
  using plan_chunks_names [of "rebuild_tables (sqlite_plan_steps lr current target eqv)" "[]"
      "sqlite_plan_steps lr current target eqv"] rebuild_tables_iff
  by (auto simp: sqlite_plan_chunks_def)

lemma sqlite_plan_statements:
  fixes lr current target eqv
  defines "chunks \<equiv> sqlite_plan_chunks lr current target eqv"
  shows "mp_statements (build_migration_plan_views_with lr js Sqlite current target eqv) =
    (if rebuilt_names chunks = [] then [] else [''PRAGMA foreign_keys = OFF'']) @
    concat (map (chunk_statements lr js current target) chunks) @
    (if rebuilt_names chunks = [] then [] else [''PRAGMA foreign_keys = ON''])"
proof -
  have "rebuilt_names chunks = [] \<longleftrightarrow> rebuild_tables (sqlite_plan_steps lr current target eqv) = []"
    using sqlite_chunk_names(2) [of lr current target eqv] unfolding chunks_def by (metis set_empty)
  moreover have "chunk_statements lr js current (target\<lparr>sm_extensions := []\<rparr>) c = chunk_statements lr js current target c" for c
    by (cases c) simp_all
  ultimately show ?thesis
    using render_sqlite_steps_chunks [of "[]" "[]" lr js current target
        "rebuild_tables (sqlite_plan_steps lr current target eqv)" "sqlite_plan_steps lr current target eqv"]
    by (simp add: build_migration_plan_views_with_def render_owned_plan_steps_def Let_def
        sqlite_plan_steps_def [symmetric] sqlite_plan_chunks_def [symmetric] chunks_def [symmetric])
qed

lemma sqlite_direct_steps:
  assumes "s \<in> set (direct_steps (sqlite_plan_chunks lr current target eqv))"
  shows "\<not> sqlite_requires_table_rebuild s" and "s \<noteq> EnableExtension e"
proof -
  let ?ss = "sqlite_plan_steps lr current target eqv"
  have s: "s \<in> set ?ss" "\<And>n. migration_step_table_name s = Some n \<Longrightarrow> n \<notin> set (rebuild_tables ?ss)"
    using assms by (auto simp: sqlite_plan_chunks_def plan_chunks_direct)
  show "\<not> sqlite_requires_table_rebuild s"
    using rebuild_step_named [of s] s rebuild_tables_iff [of _ ?ss] by blast
  from s(1) show "s \<noteq> EnableExtension e" unfolding sqlite_plan_steps_def
    by (cases rule: diff_step_cases) (auto simp: diff_dropped_table_def local_step_def dest!: existing_local)
qed

section \<open>Executable statements\<close>

definition comment_statement :: "str \<Rightarrow> bool" where
  "comment_statement s \<longleftrightarrow> starts_with ''--'' s"

lemma append_only_executable:
  "b \<in> {Postgres, Sqlite} \<Longrightarrow> list_all (\<lambda>s. \<not> comment_statement s) (render_append_only_statements b n e p)"
  by (auto simp: comment_statement_def starts_with_def render_append_only_statements_def Let_def
      sqlite_append_only_statements_def postgres_append_only_statements_def
      sqlite_append_only_trigger_def sqlite_retention_delete_trigger_def)

lemma create_index_executable: "\<not> comment_statement (render_create_index_statement b n ix)"
  by (simp add: comment_statement_def starts_with_def render_create_index_statement_def)

lemma create_table_executable: "\<not> comment_statement (render_create_table_statement_for_name b t n)"
  by (simp add: comment_statement_def starts_with_def render_create_table_statement_for_name_def Let_def)

lemma search_executable:
  assumes "b \<in> {Postgres, Sqlite}"
  shows "list_all (\<lambda>s. \<not> comment_statement s) (render_create_search_index_statement js b si)"
    and "list_all (\<lambda>s. \<not> comment_statement s) (render_drop_search_index_statement b n i)"
  using assms
  by (auto simp: comment_statement_def starts_with_def render_create_search_index_statement_def Let_def
      render_search_metadata_upsert_def render_drop_search_index_statement_def)

lemma comments_executable: "list_all (\<lambda>s. \<not> comment_statement s) (render_constraint_comments b t)"
  by (auto simp: list_all_iff render_constraint_comments_def constraint_comment_statement_def
      comment_statement_def starts_with_def)

lemma create_executable:
  "b \<in> {Postgres, Sqlite} \<Longrightarrow> list_all (\<lambda>s. \<not> comment_statement s) (render_create_table js b t)"
  using append_only_executable [of b "tm_table_name t"] search_executable(1) [of b js] comments_executable [of b t]
  by (auto simp: render_create_table_def list_all_iff render_create_table_statement_def create_table_executable
      create_index_executable)

lemma check_constraints_executable:
  "list_all (\<lambda>s. \<not> comment_statement s) (render_check_constraints Postgres n before after)"
  by (auto simp: list_all_iff render_check_constraints_def Let_def constraint_comment_statement_def
      comment_statement_def starts_with_def)

lemma alter_executable:
  "list_all (\<lambda>s. \<not> comment_statement s) (render_alter_column lr Postgres n before after)"
  by (auto simp: list_all_iff render_alter_column_def render_postgres_alter_column_def Let_def
      comment_statement_def starts_with_def split: option.splits if_splits)

lemma step_executable:
  assumes "b = Postgres \<or> b = Sqlite \<and> \<not> sqlite_requires_table_rebuild s \<and> (\<forall>e. s \<noteq> EnableExtension e)"
  shows "list_all (\<lambda>s. \<not> comment_statement s) (render_migration_step_view lr js b s)"
proof -
  have b: "b \<in> {Postgres, Sqlite}" using assms by auto
  note parts = create_executable [OF b] search_executable [OF b] append_only_executable [OF b]
    create_index_executable check_constraints_executable alter_executable
  show ?thesis
    using assms parts
    by (cases s) (auto simp: list_all_iff render_drop_index_def render_add_foreign_key_def
        render_drop_foreign_key_def render_foreign_key_clause_def Let_def comment_statement_def starts_with_def)
qed

lemma rebuild_executable:
  "list_all (\<lambda>s. \<not> comment_statement s) (render_sqlite_table_rebuild_statements t u)"
proof -
  note parts = create_table_executable [of Sqlite u] create_index_executable [of Sqlite "tm_table_name u"]
    append_only_executable [of Sqlite "tm_table_name u"]
  have "list_all (\<lambda>s. \<not> comment_statement s) (map (render_create_index_statement Sqlite (tm_table_name u)) (tm_indexes u))"
    by (simp add: list_all_iff parts)
  then show ?thesis
    by (simp add: render_sqlite_table_rebuild_statements_def Let_def parts)
      (simp add: comment_statement_def starts_with_def)
qed

section \<open>Properties\<close>

text \<open>
  C26. Destructive steps are exact: the plan between two schemas contains a step classified as
  destructive if and only if some table or some column of the live physical schema is absent from
  the target, so a plan accepted without destructive steps loses no table and no column.
\<close>

theorem destructive_steps_exact:
  "list_ex (\<lambda>s. ps_risk s = Destructive)
     (classify_migration_steps (diff_schema_views_with lr b current target eqv)) \<longleftrightarrow>
   loses_data (phys_of_schema current) (phys_of_schema target)"
proof -
  let ?steps = "diff_schema_views_with lr b current target eqv"
  have "list_ex (\<lambda>s. ps_risk s = Destructive) (classify_migration_steps ?steps) \<longleftrightarrow>
      (\<exists>s \<in> set ?steps. (\<exists>n. s = DropTable n) \<or> (\<exists>n k. s = DropColumn n k))"
    by (simp add: list_ex_iff classify_migration_steps_def classify_migration_step_def case_prod_beta
        Let_def destructive_iff)
  also have "\<dots> \<longleftrightarrow> loses_data (phys_of_schema current) (phys_of_schema target)"
    unfolding loses_data_schemas
  proof
    assume "\<exists>s \<in> set ?steps. (\<exists>n. s = DropTable n) \<or> (\<exists>n k. s = DropColumn n k)"
    then obtain s where "s \<in> set ?steps" and s: "(\<exists>n. s = DropTable n) \<or> (\<exists>n k. s = DropColumn n k)" by blast
    from this(1) show "\<exists>n t. live_table current n = Some t \<and>
        (case live_table target n of None \<Rightarrow> True
         | Some u \<Rightarrow> \<exists>k. btree_get (columns_by_name t) k \<noteq> None \<and> btree_get (columns_by_name u) k = None)"
    proof (cases rule: diff_step_cases)
      case (existing t u)
      with s obtain n k where "s = DropColumn n k" by (auto dest: existing_local simp: local_step_def)
      with existing show ?thesis by (force simp: drop_column_step)
    qed (use s in force)+
  next
    assume "\<exists>n t. live_table current n = Some t \<and>
        (case live_table target n of None \<Rightarrow> True
         | Some u \<Rightarrow> \<exists>k. btree_get (columns_by_name t) k \<noteq> None \<and> btree_get (columns_by_name u) k = None)"
    then show "\<exists>s \<in> set ?steps. (\<exists>n. s = DropTable n) \<or> (\<exists>n k. s = DropColumn n k)"
      by (blast intro: lost_table_step)
  qed
  finally show ?thesis .
qed

text \<open>
  C29. SQLite plans rebuild each affected table once: the statements of a plan are the steps in
  order, with the first step of every table that needs a rebuild replaced by one rebuild of that
  table and its other steps dropped, all between switching foreign-key enforcement off and on.
  The rebuilt tables are exactly those with a step SQLite cannot execute, and each exists in the
  live and in the target schema, so the rebuild is never empty.
\<close>

theorem sqlite_plan_rebuilds_once:
  "\<exists>chunks.
    mp_statements (build_migration_plan_views_with lr js Sqlite current target eqv) =
      (if rebuilt_names chunks = [] then [] else [''PRAGMA foreign_keys = OFF'']) @
      concat (map (chunk_statements lr js current target) chunks) @
      (if rebuilt_names chunks = [] then [] else [''PRAGMA foreign_keys = ON'']) \<and>
    distinct (rebuilt_names chunks) \<and>
    set (rebuilt_names chunks) = set (rebuild_tables (sqlite_plan_steps lr current target eqv)) \<and>
    direct_steps chunks =
      filter (\<lambda>s. case migration_step_table_name s of None \<Rightarrow> True
                | Some n \<Rightarrow> n \<notin> set (rebuild_tables (sqlite_plan_steps lr current target eqv)))
        (sqlite_plan_steps lr current target eqv) \<and>
    list_all (\<lambda>n. live_table current n \<noteq> None \<and> live_table target n \<noteq> None) (rebuilt_names chunks)"
proof (intro exI conjI)
  let ?chunks = "sqlite_plan_chunks lr current target eqv"
  show "direct_steps ?chunks = filter (\<lambda>s. case migration_step_table_name s of None \<Rightarrow> True
      | Some n \<Rightarrow> n \<notin> set (rebuild_tables (sqlite_plan_steps lr current target eqv)))
      (sqlite_plan_steps lr current target eqv)"
    by (auto simp: sqlite_plan_chunks_def plan_chunks_direct intro!: filter_cong split: option.split)
  show "list_all (\<lambda>n. live_table current n \<noteq> None \<and> live_table target n \<noteq> None) (rebuilt_names ?chunks)"
    using rebuild_tables_live [of _ lr Sqlite current "target\<lparr>sm_extensions := []\<rparr>" eqv]
      sqlite_chunk_names(2) [of lr current target eqv]
    by (simp add: list_all_iff sqlite_plan_steps_def)
qed (rule sqlite_plan_statements sqlite_chunk_names)+

text \<open>
  C30. Every statement of a plan is executable on the managed backends: for PostgreSQL and SQLite,
  whatever the two schemas, no statement is one of the comment lines that stand for a step the
  renderer cannot express, in particular none of the markers for a table rebuild.
\<close>

theorem plan_statements_executable:
  assumes "b = Postgres \<or> b = Sqlite"
  shows "list_all (\<lambda>s. \<not> comment_statement s)
    (mp_statements (build_migration_plan_views_with lr js b current target eqv))"
proof (cases "b = Postgres")
  case True
  then show ?thesis
    using step_executable [of Postgres _ lr js]
    by (auto simp: build_migration_plan_views_with_def render_owned_plan_steps_def Let_def list_all_iff)
next
  case False
  then have b: "b = Sqlite" using assms by simp
  let ?chunks = "sqlite_plan_chunks lr current target eqv"
  have "list_all (\<lambda>s. \<not> comment_statement s) (chunk_statements lr js current target c)" if "c \<in> set ?chunks" for c
  proof (cases c)
    case (Direct s)
    then have "s \<in> set (direct_steps ?chunks)" using that by (force simp: direct_steps_def)
    then show ?thesis using Direct step_executable [of Sqlite s lr js] sqlite_direct_steps by simp
  qed (simp add: rebuild_executable split: option.split)
  then have "list_all (\<lambda>s. \<not> comment_statement s) (concat (map (chunk_statements lr js current target) ?chunks))"
    by (auto simp: list_all_iff)
  then show ?thesis
    unfolding b sqlite_plan_statements by (simp add: comment_statement_def starts_with_def)
qed

theorem plan_statements_executable_witness:
  "list_all (\<lambda>s. \<not> comment_statement s)
     (mp_statements (build_migration_plan_views_with demo_readers id Sqlite demo_schema demo_schema_restrict Pinned8e1))"
  by (rule plan_statements_executable) simp

section \<open>Observed gaps\<close>

text \<open>
  The rebuild does not touch search structures, and the steps of a rebuilt table are skipped: a
  plan that alters a column and adds a search index on one table contains the search step but no
  statement that creates the full-text table.
\<close>

definition demo_search :: SearchIndexModel where
  "demo_search = \<lparr>si_name = ''s'', si_table_name = ''users'', si_entity_name = ''users'', si_primary_key = ''id'',
     si_strategy = SqliteFts5, si_language = ''english'', si_tokenizer = ''unicode61'', si_min_token_len = 2,
     si_fallback_enabled = True, si_fields = [], si_json_paths = [], si_relations = [], si_readiness_tracked = False\<rparr>"

definition demo_users :: "bool \<Rightarrow> SchemaModel" where
  "demo_users new = \<lparr>sm_extensions = [],
     sm_tables = [(demo_table ''users'' [''id''] [])
       \<lparr>tm_columns := [(demo_column ''id'')\<lparr>cm_nullable := new\<rparr>],
        tm_search_indexes := (if new then [demo_search] else [])\<rparr>]\<rparr>"

lemma rebuild_skips_search_index:
  "(let plan = build_migration_plan_views demo_readers id Sqlite (demo_users False) (demo_users True)
    in list_ex (\<lambda>s. s = CreateSearchIndex ''users'' demo_search) (mp_steps plan) \<and>
       list_all (\<lambda>s. \<not> starts_with ''CREATE VIRTUAL TABLE'' s \<and> \<not> starts_with ''INSERT OR REPLACE'' s)
         (mp_statements plan))"
  by code_simp

text \<open>
  The managed search names overlap: the search table of an entity table called \<open>metadata\<close> is the
  shared metadata table, and the token table of \<open>x\<close> is the search table of \<open>token_x\<close>.
\<close>

lemma search_names_overlap:
  "search_table_name ''metadata'' = search_metadata_table_name"
  "search_token_table_name ''x'' = search_table_name ''token_x''"
  by code_simp+

text \<open>
  The clause of an expression that starts with a string literal is not put in parentheses, and
  the constant test accepts any alphanumeric word.
\<close>

lemma default_clause_edge_cases:
  "render_default_clause Sqlite ([sq] @ ''a'' @ [sq] @ '' || '' @ [sq] @ ''b'' @ [sq]) =
     [sq] @ ''a'' @ [sq] @ '' || '' @ [sq] @ ''b'' @ [sq]"
  "sqlite_constant_default ''somecolumn''"
  by code_simp+

end
