(* ===== verification/Query.thy ===== *)
theory Query
  imports SqlText
begin

text \<open>
  Queries of \<open>src/crates/graphql-orm/src/graphql/orm/query.rs\<close>: bind values, filter expressions
  and their rendering, select and aggregate statements, the query builder and its in-memory
  filtering, page limits, and the patterns bound to \<open>LIKE\<close>.
\<close>

section \<open>Public errors\<close>

datatype OrmErrorCode =
    InvalidInput | Unauthenticated | Forbidden | NotFound | Conflict | ConstraintViolation
  | CursorInvalid | PageLimitExceeded | ServiceUnavailable | InternalError
  | AuthorizationMisconfigured

fun error_code_as_str :: "OrmErrorCode \<Rightarrow> str" where
  "error_code_as_str InvalidInput = ''INVALID_INPUT''"
| "error_code_as_str Unauthenticated = ''UNAUTHENTICATED''"
| "error_code_as_str Forbidden = ''FORBIDDEN''"
| "error_code_as_str NotFound = ''NOT_FOUND''"
| "error_code_as_str Conflict = ''CONFLICT''"
| "error_code_as_str ConstraintViolation = ''CONSTRAINT_VIOLATION''"
| "error_code_as_str CursorInvalid = ''CURSOR_INVALID''"
| "error_code_as_str PageLimitExceeded = ''PAGE_LIMIT_EXCEEDED''"
| "error_code_as_str ServiceUnavailable = ''SERVICE_UNAVAILABLE''"
| "error_code_as_str InternalError = ''INTERNAL_ERROR''"
| "error_code_as_str AuthorizationMisconfigured = ''AUTHORIZATION_MISCONFIGURED''"

section \<open>Bind values\<close>

text \<open>
  A \<open>rust_decimal::Decimal\<close> is its mantissa and scale, an \<open>f64\<close> its bit pattern, a JSON value
  its serialized text.
\<close>

record DecimalDef =
  dd_precision :: nat
  dd_scale :: nat
  dd_mssql_money :: bool

record DecimalValue =
  dcv_value :: "int \<times> nat"
  dcv_definition :: DecimalDef

datatype SqlValue =
    SvString str | SvStringNull | SvBytes str | SvBytesNull | SvJson str | SvJsonNull
  | SvUuid uuid | SvUuidNull | SvInt int | SvIntNull | SvFloat "64 word" | SvFloatNull
  | SvDecimal DecimalValue | SvDecimalNull DecimalDef | SvBool bool | SvBoolNull | SvNull

section \<open>Filters\<close>

datatype FilterExpression =
    Raw str "SqlValue list"
  | TrustedFragment str "SqlValue list"
  | FAnd "FilterExpression list"
  | FOr "FilterExpression list"

record SortExpression =
  se_clause :: str
  se_values :: "SqlValue list"

definition unbound :: "str \<Rightarrow> SortExpression" where
  "unbound clause = \<lparr>se_clause = clause, se_values = []\<rparr>"

text \<open>The loop of \<open>count_placeholders\<close>; brackets are quotes on every backend.\<close>

function count_loop :: "scan_mode \<Rightarrow> str \<Rightarrow> nat" where
  "count_loop md [] = 0"
| "count_loop (Quoted q) (c # cs) =
     (if c = q then
        (case cs of
           [] \<Rightarrow> count_loop Plain cs
         | c2 # cs2 \<Rightarrow> if c2 = q then count_loop (Quoted q) cs2 else count_loop Plain cs)
      else count_loop (Quoted q) cs)"
| "count_loop Plain (c # cs) =
     (if c = sq \<or> c = dq then count_loop (Quoted c) cs
      else if c = CHR ''['' then count_loop (Quoted (CHR '']'')) cs
      else if c = CHR ''?'' then 1 + count_loop Plain cs
      else if c = CHR ''$'' then
        (if takeWhile is_ascii_digit cs \<noteq> []
         then 1 + count_loop Plain (dropWhile is_ascii_digit cs) else count_loop Plain cs)
      else if c = CHR 0x40 \<and> cs \<noteq> [] \<and> ascii_lower (hd cs) = CHR ''p'' then
        (if takeWhile is_ascii_digit (tl cs) \<noteq> []
         then 1 + count_loop Plain (dropWhile is_ascii_digit (tl cs)) else count_loop Plain cs)
      else count_loop Plain cs)"
  by pat_completeness auto
termination
proof (relation "measure (\<lambda>(md, s). length s)", goal_cases)
  case (9 c cs)
  show ?case using length_dropWhile_le [of is_ascii_digit cs] by simp
next
  case (11 c cs)
  show ?case using length_dropWhile_le [of is_ascii_digit "tl cs"] by simp
qed auto

definition count_placeholders :: "str \<Rightarrow> nat" where
  "count_placeholders clause = count_loop Plain clause"

text \<open>Each clause takes as many of the collected values as it has placeholders.\<close>

fun raw_filters :: "str list \<Rightarrow> SqlValue list \<Rightarrow> FilterExpression list" where
  "raw_filters [] values = []"
| "raw_filters (clause # clauses) values =
     Raw clause (take (count_placeholders clause) values)
       # raw_filters clauses (drop (count_placeholders clause) values)"

definition filter_expression_from_raw_parts ::
  "str list \<Rightarrow> SqlValue list \<Rightarrow> FilterExpression option" where
  "filter_expression_from_raw_parts conditions values =
     (if conditions = [] then None
      else let filters = raw_filters conditions values in
        if length filters = 1 then Some (hd filters) else Some (FAnd filters))"

text \<open>
  \<open>render_filter_expression\<close> threads the next placeholder index and the bind values; it returns
  the text with both updated.
\<close>

fun render_filter_expression ::
    "DatabaseBackend \<Rightarrow> FilterExpression \<Rightarrow> nat \<Rightarrow> SqlValue list \<Rightarrow> str \<times> nat \<times> SqlValue list"
  and render_filters ::
    "DatabaseBackend \<Rightarrow> FilterExpression list \<Rightarrow> nat \<Rightarrow> SqlValue list
      \<Rightarrow> str list \<times> nat \<times> SqlValue list" where
  "render_filter_expression b (Raw clause values) n binds =
     (normalize_sql_placeholders b clause n, n + length values, binds @ values)"
| "render_filter_expression b (TrustedFragment clause values) n binds =
     (normalize_sql_placeholders b clause n, n + length values, binds @ values)"
| "render_filter_expression b (FAnd filters) n binds =
     (let (sqls, st) = render_filters b filters n binds in
      (join '' AND '' (map (\<lambda>sql. ''('' @ sql @ '')'') (filter (\<lambda>sql. sql \<noteq> []) sqls)), st))"
| "render_filter_expression b (FOr filters) n binds =
     (if filters = [] then (''1 = 0'', n, binds)
      else let (sqls, st) = render_filters b filters n binds in
        (join '' OR '' (map (\<lambda>sql. if sql = [] then ''(1 = 1)'' else ''('' @ sql @ '')'') sqls), st))"
| "render_filters b [] n binds = ([], n, binds)"
| "render_filters b (f # fs) n binds =
     (let (sql, n', binds') = render_filter_expression b f n binds;
          (sqls, st) = render_filters b fs n' binds' in (sql # sqls, st))"

section \<open>Pages\<close>

record PageInput =
  pi_limit :: "int option"
  pi_offset :: "int option"

definition page_offset :: "PageInput \<Rightarrow> int" where
  "page_offset page = max (case pi_offset page of None \<Rightarrow> 0 | Some x \<Rightarrow> x) 0"

record PaginationConfig =
  pc_default_limit :: "int option"
  pc_max_limit :: "int option"

record PaginationRequest =
  pr_limit :: "int option"
  pr_offset :: int

definition SECURE_DEFAULT_LIMIT :: int where "SECURE_DEFAULT_LIMIT = 50"
definition SECURE_MAX_LIMIT :: int where "SECURE_MAX_LIMIT = 100"
definition LEGACY_DEFAULT_LIMIT :: int where "LEGACY_DEFAULT_LIMIT = 1000"
definition LEGACY_MAX_LIMIT :: int where "LEGACY_MAX_LIMIT = 1000"
definition DEFAULT_LIMIT :: int where "DEFAULT_LIMIT = SECURE_DEFAULT_LIMIT"
definition DEFAULT_MAX_LIMIT :: int where "DEFAULT_MAX_LIMIT = SECURE_MAX_LIMIT"

definition default_pagination :: PaginationConfig where
  "default_pagination = \<lparr>pc_default_limit = Some DEFAULT_LIMIT, pc_max_limit = Some DEFAULT_MAX_LIMIT\<rparr>"

definition unbounded_pagination :: PaginationConfig where
  "unbounded_pagination = \<lparr>pc_default_limit = None, pc_max_limit = None\<rparr>"

definition legacy_pagination :: PaginationConfig where
  "legacy_pagination =
     \<lparr>pc_default_limit = Some LEGACY_DEFAULT_LIMIT, pc_max_limit = Some LEGACY_MAX_LIMIT\<rparr>"

definition secure_pagination :: PaginationConfig where
  "secure_pagination =
     \<lparr>pc_default_limit = Some SECURE_DEFAULT_LIMIT, pc_max_limit = Some SECURE_MAX_LIMIT\<rparr>"

definition explicit_only :: "int \<Rightarrow> PaginationConfig" where
  "explicit_only max_limit = \<lparr>pc_default_limit = None, pc_max_limit = Some max_limit\<rparr>"

definition clamp_limit_value :: "PaginationConfig \<Rightarrow> int \<Rightarrow> int" where
  "clamp_limit_value cfg limit =
     (let normalized = max limit 0 in
      case pc_max_limit cfg of
        Some max_limit \<Rightarrow> min normalized (max max_limit 0)
      | None \<Rightarrow> normalized)"

definition clamp_explicit_limit :: "PaginationConfig \<Rightarrow> int option \<Rightarrow> int option" where
  "clamp_explicit_limit cfg limit = map_option (clamp_limit_value cfg) limit"

definition resolve_page :: "PaginationConfig \<Rightarrow> PageInput option \<Rightarrow> bool \<Rightarrow> PaginationRequest" where
  "resolve_page cfg page apply_default_limit =
     (let offset = (case page of None \<Rightarrow> 0 | Some p \<Rightarrow> page_offset p);
          requested_limit = Option.bind page pi_limit in
      \<lparr>pr_limit =
         (if requested_limit \<noteq> None then clamp_explicit_limit cfg requested_limit
          else if apply_default_limit then clamp_explicit_limit cfg (pc_default_limit cfg)
          else None),
       pr_offset = offset\<rparr>)"

section \<open>Statements\<close>

record RenderedQuery =
  rq_sql :: str
  rq_values :: "SqlValue list"

record SelectQuery =
  sq_table :: str
  sq_columns :: "str list"
  sq_filter :: "FilterExpression option"
  sq_sorts :: "SortExpression list"
  sq_pagination :: "PaginationRequest option"
  sq_count_only :: bool

text \<open>The \<open>WHERE\<close> part shared by the statements: index 1, no values yet.\<close>

definition where_part ::
  "DatabaseBackend \<Rightarrow> FilterExpression option \<Rightarrow> str \<times> nat \<times> SqlValue list" where
  "where_part b flt =
     (case flt of
        None \<Rightarrow> ([], 1, [])
      | Some f \<Rightarrow>
          (let (where_sql, n, values) = render_filter_expression b f 1 [] in
           (if where_sql \<noteq> [] then '' WHERE '' @ where_sql else [], n, values)))"

fun sort_parts ::
  "DatabaseBackend \<Rightarrow> SortExpression list \<Rightarrow> nat \<Rightarrow> SqlValue list \<Rightarrow> str list \<times> SqlValue list" where
  "sort_parts b [] n values = ([], values)"
| "sort_parts b (s # ss) n values =
     (let rendered = normalize_sql_placeholders b (se_clause s) n;
          (rest, values') = sort_parts b ss (n + length (se_values s)) (values @ se_values s) in
      (rendered # rest, values'))"

definition render_select_query_inner ::
  "DatabaseBackend \<Rightarrow> SelectQuery \<Rightarrow> bool \<Rightarrow> RenderedQuery" where
  "render_select_query_inner b q write_decision =
     (let projection = (if sq_count_only q then count_projection b else join '', '' (sq_columns q));
          table = render_identifier_path b (sq_table q) @
            (if write_decision \<and> b = Mssql then '' WITH (UPDLOCK, HOLDLOCK)'' else []);
          (where_sql, n, values) = where_part b (sq_filter q);
          (order_sql, values') =
            (if \<not> sq_count_only q \<and> sq_sorts q \<noteq> [] then
               (let (clauses, vs) = sort_parts b (sq_sorts q) n values in
                ('' ORDER BY '' @ join '', '' clauses, vs))
             else ([], values));
          page_sql =
            (if sq_count_only q then []
             else case sq_pagination q of
               None \<Rightarrow> []
             | Some page \<Rightarrow>
                 (if b = Mssql \<and> sq_sorts q = [] then '' ORDER BY (SELECT 1)'' else [])
                   @ render_pagination b (pr_limit page) (pr_offset page));
          lock_sql = (if write_decision \<and> b = Postgres then '' FOR UPDATE'' else []) in
      \<lparr>rq_sql = ''SELECT '' @ projection @ '' FROM '' @ table @ where_sql @ order_sql @ page_sql @ lock_sql,
       rq_values = values'\<rparr>)"

definition render_select_query :: "DatabaseBackend \<Rightarrow> SelectQuery \<Rightarrow> RenderedQuery" where
  "render_select_query b q = render_select_query_inner b q False"

definition render_write_decision_select_query :: "DatabaseBackend \<Rightarrow> SelectQuery \<Rightarrow> RenderedQuery" where
  "render_write_decision_select_query b q = render_select_query_inner b q True"

datatype AggregateFunction = AggCount | AggMax | AggMin

fun aggregate_as_sql :: "AggregateFunction \<Rightarrow> str" where
  "aggregate_as_sql AggCount = ''COUNT''"
| "aggregate_as_sql AggMax = ''MAX''"
| "aggregate_as_sql AggMin = ''MIN''"

record AggregateQuery =
  aq_table :: str
  aq_function :: AggregateFunction
  aq_column :: "str option"
  aq_filter :: "FilterExpression option"

definition render_aggregate_query :: "DatabaseBackend \<Rightarrow> AggregateQuery \<Rightarrow> RenderedQuery" where
  "render_aggregate_query b q =
     (let argument = (case aq_column q of Some c \<Rightarrow> c | None \<Rightarrow> ''*'');
          projection = aggregate_as_sql (aq_function q) @ ''('' @ argument @ '') AS __gom_aggregate'';
          (where_sql, n, values) = where_part b (aq_filter q) in
      \<lparr>rq_sql = ''SELECT '' @ projection @ '' FROM '' @ render_identifier_path b (aq_table q) @ where_sql,
       rq_values = values\<rparr>)"

section \<open>The query builder\<close>

text \<open>
  \<open>sort_clause_mentions_column\<close> splits at whitespace and commas and compares the last dotted
  part without its quotes.
\<close>

definition quote_mark :: "char \<Rightarrow> bool" where
  "quote_mark c \<longleftrightarrow> c \<in> {dq, CHR ''['', CHR '']''}"

definition trim_marks :: "str \<Rightarrow> str" where
  "trim_marks s = rev (dropWhile quote_mark (rev (dropWhile quote_mark s)))"

function sort_tokens :: "str \<Rightarrow> str \<Rightarrow> str list" where
  "sort_tokens part [] = [part]"
| "sort_tokens part (c # cs) =
     (case ws_prefix ws_seqs (c # cs) of
        Some w \<Rightarrow> part # sort_tokens [] (drop (length w) (c # cs))
      | None \<Rightarrow> if c = CHR '','' then part # sort_tokens [] cs else sort_tokens (part @ [c]) cs)"
  by pat_completeness auto
termination
  by (relation "measure (\<lambda>(part, s). length s)") (auto dest!: ws_prefix_shorter)

definition last_dotted :: "str \<Rightarrow> str" where
  "last_dotted token = rev (takeWhile (\<lambda>c. c \<noteq> CHR ''.'') (rev token))"

definition sort_clause_mentions_column :: "str \<Rightarrow> str \<Rightarrow> bool" where
  "sort_clause_mentions_column clause column \<longleftrightarrow>
     (\<exists>token \<in> set (sort_tokens [] clause). trim_marks (last_dotted token) = trim_marks column)"

text \<open>
  The filter inputs are generated code: their validity, cursor identity, conditions, need for
  in-memory matching and prefilter on a backend, and the match itself.
\<close>

record ('e, 'd) FilterInput =
  fi_valid :: bool
  fi_identity :: "str option"
  fi_conditions :: "str list \<times> SqlValue list"
  fi_in_memory :: "DatabaseBackend \<Rightarrow> bool"
  fi_prefilter :: "DatabaseBackend \<Rightarrow> str list \<times> SqlValue list"
  fi_matches :: "'e \<Rightarrow> 'd \<Rightarrow> OrmErrorCode + bool"

record ('e, 'd) EntityQuery =
  eq_where_clauses :: "str list"
  eq_values :: "SqlValue list"
  eq_order_clauses :: "str list"
  eq_order_values :: "SqlValue list list"
  eq_page :: "PageInput option"
  eq_entity_matchers :: "('e \<Rightarrow> 'd \<Rightarrow> OrmErrorCode + bool) list"
  eq_filter_is_valid :: bool
  eq_keyset_filter_identities :: "str list"

text \<open>What the builder uses of an entity: table, columns, primary keys and default order.\<close>

record EntityInfo =
  ei_table :: str
  ei_columns :: "str list"
  ei_primary_keys :: "str list"
  ei_default_sort :: str

definition entity_query_new :: "('e, 'd) EntityQuery" where
  "entity_query_new =
     \<lparr>eq_where_clauses = [], eq_values = [], eq_order_clauses = [], eq_order_values = [],
      eq_page = None, eq_entity_matchers = [], eq_filter_is_valid = True,
      eq_keyset_filter_identities = []\<rparr>"

definition where_clause :: "str \<Rightarrow> SqlValue \<Rightarrow> ('e, 'd) EntityQuery \<Rightarrow> ('e, 'd) EntityQuery" where
  "where_clause clause v q =
     q\<lparr>eq_where_clauses := eq_where_clauses q @ [clause], eq_values := eq_values q @ [v]\<rparr>"

definition where_values :: "str \<Rightarrow> SqlValue list \<Rightarrow> ('e, 'd) EntityQuery \<Rightarrow> ('e, 'd) EntityQuery" where
  "where_values clause vs q =
     q\<lparr>eq_where_clauses := eq_where_clauses q @ [clause], eq_values := eq_values q @ vs\<rparr>"

definition add_conditions ::
  "str list \<times> SqlValue list \<Rightarrow> ('e, 'd) EntityQuery \<Rightarrow> ('e, 'd) EntityQuery" where
  "add_conditions cv q =
     q\<lparr>eq_where_clauses := eq_where_clauses q @ fst cv, eq_values := eq_values q @ snd cv\<rparr>"

definition note_filter :: "('e, 'd) FilterInput \<Rightarrow> ('e, 'd) EntityQuery \<Rightarrow> ('e, 'd) EntityQuery" where
  "note_filter f q =
     q\<lparr>eq_filter_is_valid := eq_filter_is_valid q \<and> fi_valid f,
       eq_keyset_filter_identities := eq_keyset_filter_identities q @
         (case fi_identity f of Some identity \<Rightarrow> [identity] | None \<Rightarrow> [])\<rparr>"

definition filter_query :: "('e, 'd) FilterInput \<Rightarrow> ('e, 'd) EntityQuery \<Rightarrow> ('e, 'd) EntityQuery" where
  "filter_query f q = add_conditions (fi_conditions f) (note_filter f q)"

definition filter_with_entity_matching ::
  "DatabaseBackend \<Rightarrow> ('e, 'd) FilterInput \<Rightarrow> ('e, 'd) EntityQuery \<Rightarrow> ('e, 'd) EntityQuery" where
  "filter_with_entity_matching b f q =
     (let q = note_filter f q in
      if fi_in_memory f b then
        (let q = add_conditions (fi_prefilter f b) q in
         q\<lparr>eq_entity_matchers := eq_entity_matchers q @ [fi_matches f]\<rparr>)
      else add_conditions (fi_conditions f) q)"

definition order_by :: "SortExpression option \<Rightarrow> ('e, 'd) EntityQuery \<Rightarrow> ('e, 'd) EntityQuery" where
  "order_by order q =
     (case order of
        None \<Rightarrow> q
      | Some srt \<Rightarrow>
          q\<lparr>eq_order_clauses := eq_order_clauses q @ [se_clause srt],
            eq_order_values := eq_order_values q @ [se_values srt]\<rparr>)"

definition default_order :: "EntityInfo \<Rightarrow> ('e, 'd) EntityQuery \<Rightarrow> ('e, 'd) EntityQuery" where
  "default_order ei q =
     q\<lparr>eq_order_clauses := eq_order_clauses q @ [ei_default_sort ei],
       eq_order_values := eq_order_values q @ [[]]\<rparr>"

definition paginate :: "PageInput \<Rightarrow> ('e, 'd) EntityQuery \<Rightarrow> ('e, 'd) EntityQuery" where
  "paginate page q = q\<lparr>eq_page := Some page\<rparr>"

definition requires_in_memory_filtering :: "('e, 'd) EntityQuery \<Rightarrow> bool" where
  "requires_in_memory_filtering q \<longleftrightarrow> eq_entity_matchers q \<noteq> []"

definition declared_sorts :: "('e, 'd) EntityQuery \<Rightarrow> SortExpression list" where
  "declared_sorts q =
     map (\<lambda>(index, clause).
        \<lparr>se_clause = clause,
         se_values = (if index < length (eq_order_values q) then eq_order_values q ! index else [])\<rparr>)
       (enumerate 0 (eq_order_clauses q))"

definition add_key_sort :: "DatabaseBackend \<Rightarrow> SortExpression list \<Rightarrow> str \<Rightarrow> SortExpression list" where
  "add_key_sort b sorts primary_key =
     (if \<not> list_ex (\<lambda>srt. sort_clause_mentions_column (se_clause srt) primary_key) sorts
      then sorts @ [unbound (render_identifier_path b primary_key @ '' ASC'')] else sorts)"

definition build_select_query_with_config ::
  "DatabaseBackend \<Rightarrow> EntityInfo \<Rightarrow> ('e, 'd) EntityQuery \<Rightarrow> PaginationConfig \<Rightarrow> bool
    \<Rightarrow> OrmErrorCode + SelectQuery" where
  "build_select_query_with_config b ei q cfg apply_default_limit =
     (if \<not> eq_filter_is_valid q then Inl InvalidInput
      else let page = resolve_page cfg (eq_page q) apply_default_limit;
               sorts = foldl (add_key_sort b) (declared_sorts q) (ei_primary_keys ei) in
        Inr \<lparr>sq_table = ei_table ei, sq_columns = ei_columns ei,
             sq_filter = filter_expression_from_raw_parts (eq_where_clauses q) (eq_values q),
             sq_sorts = sorts,
             sq_pagination =
               (if requires_in_memory_filtering q then None
                else if pr_limit page \<noteq> None \<or> pr_offset page > 0 then Some page
                else None),
             sq_count_only = False\<rparr>)"

definition build_select_query ::
  "DatabaseBackend \<Rightarrow> EntityInfo \<Rightarrow> ('e, 'd) EntityQuery \<Rightarrow> OrmErrorCode + SelectQuery" where
  "build_select_query b ei q = build_select_query_with_config b ei q default_pagination False"

text \<open>The matchers in order; the first that fails to match ends the conjunction.\<close>

fun matches_entity :: "('e \<Rightarrow> 'd \<Rightarrow> OrmErrorCode + bool) list \<Rightarrow> 'e \<Rightarrow> 'd \<Rightarrow> OrmErrorCode + bool" where
  "matches_entity [] e d = Inr True"
| "matches_entity (m # ms) e d =
     (case m e d of Inl err \<Rightarrow> Inl err | Inr True \<Rightarrow> matches_entity ms e d | Inr False \<Rightarrow> Inr False)"

fun keep_matching :: "('e \<Rightarrow> OrmErrorCode + bool) \<Rightarrow> 'e list \<Rightarrow> OrmErrorCode + 'e list" where
  "keep_matching p [] = Inr []"
| "keep_matching p (e # es) =
     (case p e of
        Inl err \<Rightarrow> Inl err
      | Inr keep \<Rightarrow>
          (case keep_matching p es of
             Inl err \<Rightarrow> Inl err
           | Inr rest \<Rightarrow> Inr (if keep then e # rest else rest)))"

definition apply_in_memory_filtering ::
  "('e, 'd) EntityQuery \<Rightarrow> 'd \<Rightarrow> 'e list \<Rightarrow> PaginationConfig \<Rightarrow> bool \<Rightarrow> OrmErrorCode + 'e list" where
  "apply_in_memory_filtering q today entities cfg apply_default_limit =
     (if \<not> requires_in_memory_filtering q then Inr entities
      else case keep_matching (\<lambda>e. matches_entity (eq_entity_matchers q) e today) entities of
        Inl err \<Rightarrow> Inl err
      | Inr kept \<Rightarrow>
          (let page = resolve_page cfg (eq_page q) apply_default_limit in
           if pr_limit page \<noteq> None \<or> pr_offset page > 0 then
             (let rest = drop (nat (max (pr_offset page) 0)) kept in
              case pr_limit page of
                Some limit \<Rightarrow> Inr (take (nat (max limit 0)) rest)
              | None \<Rightarrow> Inr rest)
           else Inr kept))"

section \<open>Patterns\<close>

fun escape_like_pattern :: "str \<Rightarrow> str" where
  "escape_like_pattern [] = []"
| "escape_like_pattern (c # cs) =
     (if c \<in> {bsl, CHR ''%'', CHR ''_''} then [bsl, c] else [c]) @ escape_like_pattern cs"

definition contains_like_pattern :: "str \<Rightarrow> str" where
  "contains_like_pattern v = ''%'' @ escape_like_pattern v @ ''%''"

definition starts_with_like_pattern :: "str \<Rightarrow> str" where
  "starts_with_like_pattern v = escape_like_pattern v @ ''%''"

definition ends_with_like_pattern :: "str \<Rightarrow> str" where
  "ends_with_like_pattern v = ''%'' @ escape_like_pattern v"

definition generate_candidate_pattern :: "str \<Rightarrow> str" where
  "generate_candidate_pattern v = contains_like_pattern v"

section \<open>Placeholders of composed text\<close>

text \<open>
  The quote state after a scanned text, read off its tokens, and the digits of its slots in
  order. \<open>numbered b n k s\<close> says that \<open>s\<close> leaves no quote open and has \<open>k\<close> slots, numbered from
  \<open>n\<close> on the backends that number their placeholders.
\<close>

fun tok_end :: "DatabaseBackend \<Rightarrow> scan_mode \<Rightarrow> sql_token list \<Rightarrow> scan_mode" where
  "tok_end b md [] = md"
| "tok_end b md (Slot ds # ts) = tok_end b md ts"
| "tok_end b (Quoted q) (Ch c # ts) =
     (if c = q then
        (case ts of
           Ch c2 # ts2 \<Rightarrow> if c2 = q then tok_end b (Quoted q) ts2 else tok_end b Plain ts
         | _ \<Rightarrow> tok_end b Plain ts)
      else tok_end b (Quoted q) ts)"
| "tok_end b Plain (Ch c # ts) =
     (if c = sq \<or> c = dq then tok_end b (Quoted c) ts
      else if b = Mssql \<and> c = CHR ''['' then tok_end b (Quoted (CHR '']'')) ts
      else tok_end b Plain ts)"

fun slot_digits :: "sql_token list \<Rightarrow> str list" where
  "slot_digits [] = []"
| "slot_digits (Ch c # ts) = slot_digits ts"
| "slot_digits (Slot ds # ts) = ds # slot_digits ts"

definition sql_closed :: "DatabaseBackend \<Rightarrow> str \<Rightarrow> bool" where
  "sql_closed b s \<longleftrightarrow> tok_end b Plain (slot_tokens b Plain s) = Plain"

definition sql_slots :: "DatabaseBackend \<Rightarrow> str \<Rightarrow> str list" where
  "sql_slots b s = slot_digits (slot_tokens b Plain s)"

definition numbers_slots :: "DatabaseBackend \<Rightarrow> bool" where
  "numbers_slots b \<longleftrightarrow> b = Postgres \<or> b = Mssql"

definition numbered :: "DatabaseBackend \<Rightarrow> nat \<Rightarrow> nat \<Rightarrow> str \<Rightarrow> bool" where
  "numbered b n k s \<longleftrightarrow>
     sql_closed b s \<and>
     (if numbers_slots b then sql_slots b s = map show_nat [n ..< n + k] else length (sql_slots b s) = k)"

definition separator :: "char \<Rightarrow> bool" where
  "separator c \<longleftrightarrow> c \<in> {CHR ''('', CHR '')'', CHR '' '', CHR '',''}"

lemma separator_simps:
  assumes "separator c"
  shows "c \<noteq> sq" "c \<noteq> dq" "c \<noteq> CHR ''[''" "c \<noteq> CHR '']''" "c \<noteq> CHR ''?''" "c \<noteq> CHR ''$''" "c \<noteq> CHR 0x40"
    "\<not> is_ascii_digit c" "ascii_lower c \<noteq> CHR ''p''"
  using assms by (auto simp: separator_def) (auto simp: is_ascii_digit_def ascii_lower_def is_ascii_uppercase_def)

lemma tok_end_Quoted:
  "tok_end b (Quoted q) (Ch c # ts) =
     (if c \<noteq> q then tok_end b (Quoted q) ts
      else if ts \<noteq> [] \<and> hd ts = Ch q then tok_end b (Quoted q) (tl ts)
      else tok_end b Plain ts)"
  by (cases ts) (auto split: sql_token.splits)

lemma tok_end_separator:
  assumes "tok_end b md ts = Plain" "separator c" "mode_ok md"
  shows "tok_end b md (ts @ Ch c # us) = tok_end b Plain us"
  using assms(1,3)
proof (induction b md ts rule: tok_end.induct)
  case (1 b md)
  then show ?case using separator_simps [OF assms(2)] by simp
next
  case (3 b q c' ts)
  have q: "c \<noteq> q" using 3(7) separator_simps [OF assms(2)] by (auto simp: mode_ok_def)
  consider (a) "c' \<noteq> q" | (b) "c' = q" "ts = []" | (c) ts2 where "c' = q" "ts = Ch q # ts2"
    | (d) t ts2 where "c' = q" "ts = t # ts2" "t \<noteq> Ch q"
    by (cases ts) auto
  then show ?case
  proof cases
    case a
    with 3 show ?thesis by simp
  next
    case b
    with q separator_simps [OF assms(2)] show ?thesis by (simp add: tok_end_Quoted del: tok_end.simps(3))
  next
    case c
    with 3 show ?thesis by simp
  next
    case d
    then have "tok_end b (Quoted q) (Ch c' # rs) = tok_end b Plain rs" if "rs \<noteq> []" "hd rs = t" for rs
      using that by (simp add: tok_end_Quoted del: tok_end.simps)
    with d 3 show ?thesis by (cases t) (auto simp: mode_ok_def)
  qed
next
  case (4 b c ts)
  then show ?case by (auto simp: mode_ok_def)
qed simp

lemma tok_end_close:
  assumes "cs = [] \<or> hd cs \<noteq> q"
  shows "tok_end b (Quoted q) (Ch q # slot_tokens b Plain cs) = tok_end b Plain (slot_tokens b Plain cs)"
  using assms by (cases cs) auto

lemma slot_tokens_Quoted:
  "slot_tokens b (Quoted q) (c # cs) =
     (if c \<noteq> q then Ch c # slot_tokens b (Quoted q) cs
      else if cs \<noteq> [] \<and> hd cs = q then Ch q # Ch q # slot_tokens b (Quoted q) (tl cs)
      else Ch q # slot_tokens b Plain cs)"
  by (cases cs) auto

lemma slot_tokens_separator:
  assumes "tok_end b md (slot_tokens b md s) = Plain" "separator c" "mode_ok md"
  shows "slot_tokens b md (s @ c # t) = slot_tokens b md s @ Ch c # slot_tokens b Plain t"
  using assms(1,3)
proof (induction b md s rule: slot_tokens.induct)
  case (1 b md)
  then show ?case using separator_simps [OF assms(2)] by simp
next
  case (2 b q c' cs)
  have q: "c \<noteq> q" using 2(6) separator_simps [OF assms(2)] by (auto simp: mode_ok_def)
  consider (a) "c' \<noteq> q" | (b) "c' = q" "cs = []" | (c) cs2 where "c' = q" "cs = q # cs2"
    | (d) c2 cs2 where "c' = q" "cs = c2 # cs2" "c2 \<noteq> q"
    by (cases cs) auto
  then show ?case
  proof cases
    case a
    with 2 show ?thesis by simp
  next
    case b
    with q separator_simps [OF assms(2)] show ?thesis by simp
  next
    case c
    with 2 show ?thesis by simp
  next
    case d
    have "tok_end b Plain (slot_tokens b Plain cs) = Plain"
      using 2(5) d tok_end_close [of cs q b] by (simp add: slot_tokens_Quoted del: slot_tokens.simps tok_end.simps)
    then have "slot_tokens b Plain (cs @ c # t) = slot_tokens b Plain cs @ Ch c # slot_tokens b Plain t"
      using 2(3) d by (simp add: mode_ok_def)
    with d show ?thesis by (simp add: slot_tokens_Quoted del: slot_tokens.simps)
  qed
next
  case (3 b c' cs)
  note sp = separator_simps [OF assms(2)]
  have hd_cs: "cs \<noteq> [] \<and> ascii_lower (hd cs) = CHR ''p'' \<longleftrightarrow>
      cs @ c # t \<noteq> [] \<and> ascii_lower (hd (cs @ c # t)) = CHR ''p''"
    using sp by (cases cs) auto
  consider (a) "c' = sq \<or> c' = dq" | (b) "c' \<noteq> sq" "c' \<noteq> dq" "b = Mssql \<and> c' = CHR ''[''"
    | (c) "c' \<noteq> sq" "c' \<noteq> dq" "\<not> (b = Mssql \<and> c' = CHR ''['')" "c' = CHR ''?'' \<or> c' = CHR ''$''"
    | (d) "c' \<noteq> sq" "c' \<noteq> dq" "\<not> (b = Mssql \<and> c' = CHR ''['')" "\<not> (c' = CHR ''?'' \<or> c' = CHR ''$'')"
    by blast
  then show ?case
  proof cases
    case a
    with 3(1) 3(6) show ?thesis by (auto simp: mode_ok_def)
  next
    case b
    with 3(2) 3(6) show ?thesis by (simp add: mode_ok_def)
  next
    case c
    with 3(3) 3(6) sp show ?thesis by (auto simp: mode_ok_def takeWhile_tail dropWhile_append3)
  next
    case d
    show ?thesis
    proof (cases "c' = CHR 0x40 \<and> cs \<noteq> [] \<and> ascii_lower (hd cs) = CHR ''p''")
      case True
      with d 3(4) 3(6) sp show ?thesis by (simp add: mode_ok_def takeWhile_tail dropWhile_append3)
    next
      case False
      then have ord: "slot_tokens b Plain (c' # cs) = Ch c' # slot_tokens b Plain cs"
        "slot_tokens b Plain (c' # cs @ c # t) = Ch c' # slot_tokens b Plain (cs @ c # t)"
        using d hd_cs by auto
      have "tok_end b Plain (slot_tokens b Plain cs) = Plain"
        using 3(6) d unfolding ord by auto
      then show ?thesis using 3(5) d False by (simp add: ord mode_ok_def del: slot_tokens.simps)
    qed
  qed
qed

lemma slot_digits_append [simp]: "slot_digits (ts @ us) = slot_digits ts @ slot_digits us"
  by (induction ts rule: slot_digits.induct) auto

lemma tok_end_number [simp]: "tok_end b md (number n ts) = tok_end b md ts"
proof (induction b md ts arbitrary: n rule: tok_end.induct)
  case (3 b q c ts)
  show ?case
  proof (cases ts)
    case (Cons t ts2)
    with 3 show ?thesis by (cases t) auto
  qed simp
qed auto

lemma slot_digits_number: "slot_digits (number n ts) = map show_nat [n ..< n + length (slot_digits ts)]"
  by (induction n ts rule: number.induct) (simp_all add: upt_conv_Cons del: upt_Suc)

lemma numbered_normalize:
  assumes "sql_closed b s"
  shows "numbered b n (length (sql_slots b s)) (normalize_sql_placeholders b s n)"
proof (cases "numbers_slots b")
  case True
  then have b: "b = Postgres \<or> b = Mssql" by (simp add: numbers_slots_def)
  have "slot_tokens b Plain (normalize_sql_placeholders b s n) = number n (slot_tokens b Plain s)"
    using b normalize_loop_renumbered [OF b] slot_tokens_renumbered [OF b, of Plain n s]
    by (auto simp: normalize_sql_placeholders_def mode_ok_def)
  with assms True show ?thesis
    by (simp add: numbered_def sql_closed_def sql_slots_def slot_digits_number)
next
  case False
  with assms show ?thesis by (simp add: numbered_def normalize_sql_placeholders_def numbers_slots_def)
qed

lemma numbered_separator:
  assumes "numbered b n k s" "numbered b (n + k) m t" "separator c"
  shows "numbered b n (k + m) (s @ c # t)"
proof -
  have s: "tok_end b Plain (slot_tokens b Plain s) = Plain" and m: "mode_ok Plain"
    using assms(1) by (auto simp: numbered_def sql_closed_def mode_ok_def)
  have T: "slot_tokens b Plain (s @ c # t) = slot_tokens b Plain s @ Ch c # slot_tokens b Plain t"
    by (rule slot_tokens_separator [OF s assms(3) m])
  have "sql_closed b (s @ c # t)"
    using assms(2) tok_end_separator [OF s assms(3) m] by (simp add: sql_closed_def T numbered_def)
  moreover have "[n ..< n + (k + m)] = [n ..< n + k] @ [n + k ..< n + k + m]"
    using upt_add_eq_append [of n "n + k" m] by (simp add: add.assoc)
  ultimately show ?thesis
    using assms(1,2) by (auto simp: numbered_def sql_slots_def T split: if_splits)
qed

lemma numbered_facts:
  "numbered b n k s \<Longrightarrow> sql_closed b s \<and> length (sql_slots b s) = k \<and>
     (b = Postgres \<or> b = Mssql \<longrightarrow> sql_slots b s = map show_nat [n ..< n + k])"
  by (auto simp: numbered_def numbers_slots_def split: if_splits)

text \<open>Text without quotes and placeholder markers has no slots.\<close>

definition plain_char :: "char \<Rightarrow> bool" where
  "plain_char c \<longleftrightarrow> c \<notin> {sq, dq, CHR ''['', CHR ''?'', CHR ''$'', CHR 0x40}"

lemma slot_tokens_plain: "list_all plain_char s \<Longrightarrow> slot_tokens b Plain s = map Ch s"
  by (induction s) (auto simp: plain_char_def)

lemma tok_end_plain: "list_all plain_char s \<Longrightarrow> tok_end b Plain (map Ch s) = Plain"
  by (induction s) (auto simp: plain_char_def)

lemma slot_digits_Ch [simp]: "slot_digits (map Ch s) = []"
  by (induction s) auto

lemma numbered_plain: "list_all plain_char s \<Longrightarrow> numbered b n 0 s"
  by (simp add: numbered_def sql_closed_def sql_slots_def slot_tokens_plain tok_end_plain)

lemma numbered_zero: "numbered b n 0 s \<Longrightarrow> numbered b m 0 s"
  by (simp add: numbered_def split: if_splits)

lemma numbered_Nil: "numbered b n k [] \<longleftrightarrow> k = 0"
  by (auto simp: numbered_def sql_closed_def sql_slots_def)

lemma numbered_paren:
  assumes "numbered b n k s" shows "numbered b n k (''('' @ s @ '')'')"
proof -
  have "numbered b n (k + 0) (s @ CHR '')'' # [])"
    by (rule numbered_separator [OF assms]) (simp_all add: numbered_Nil separator_def)
  then have "numbered b n (0 + k) ([] @ CHR ''('' # (s @ CHR '')'' # []))"
    by (intro numbered_separator) (simp_all add: numbered_Nil separator_def)
  then show ?thesis by simp
qed

lemma numbered_word:
  assumes "numbered b n k s" "numbered b (n + k) m t" "list_all plain_char w" "separator c" "separator d"
  shows "numbered b n (k + m) (s @ c # w @ d # t)"
proof -
  have "numbered b (n + k) (0 + m) (w @ d # t)"
    using assms by (intro numbered_separator) (simp_all add: numbered_plain)
  with assms show ?thesis using numbered_separator [of b n k s m "w @ d # t" c] by simp
qed

fun numbered_all :: "DatabaseBackend \<Rightarrow> nat \<Rightarrow> nat list \<Rightarrow> str list \<Rightarrow> bool" where
  "numbered_all b n [] [] \<longleftrightarrow> True"
| "numbered_all b n (k # ks) (s # ss) \<longleftrightarrow> numbered b n k s \<and> numbered_all b (n + k) ks ss"
| "numbered_all b n _ _ \<longleftrightarrow> False"

lemma numbered_join:
  assumes "numbered_all b n ks ss" "separator c" "separator d" "list_all plain_char w"
  shows "numbered b n (sum_list ks) (join (c # w @ [d]) ss)"
  using assms(1)
proof (induction b n ks ss rule: numbered_all.induct)
  case (2 b n k ks s ss)
  then have IH: "numbered b n k s" "numbered b (n + k) (sum_list ks) (join (c # w @ [d]) ss)" by auto
  show ?case
  proof (cases "ss = []")
    case True
    with 2 show ?thesis by (cases ks) auto
  next
    case False
    then show ?thesis
      using numbered_word [OF IH assms(4) assms(2,3)] by (simp add: join_Cons)
  qed
qed (auto simp: numbered_Nil)

lemma numbered_all_map:
  assumes "numbered_all b n ks ss" "\<And>n k s. numbered b n k s \<Longrightarrow> numbered b n k (f s)"
  shows "numbered_all b n ks (map f ss)"
  using assms(1) by (induction ks ss arbitrary: n rule: list_induct2') (simp_all add: assms(2))

lemma numbered_all_nonempty:
  assumes "numbered_all b n ks ss"
  shows "\<exists>ks'. numbered_all b n ks' (filter (\<lambda>s. s \<noteq> []) ss) \<and> sum_list ks' = sum_list ks"
  using assms
proof (induction b n ks ss rule: numbered_all.induct)
  case (2 b n k ks s ss)
  then obtain ks' where ks': "numbered_all b (n + k) ks' (filter (\<lambda>s. s \<noteq> []) ss)" "sum_list ks' = sum_list ks"
    by auto
  show ?case
  proof (cases "s = []")
    case True
    with 2(2) ks' show ?thesis by (auto simp: numbered_Nil)
  next
    case False
    with 2(2) ks' show ?thesis by (intro exI [of _ "k # ks'"]) simp
  qed
qed (auto intro: exI [of _ "[]"])

section \<open>Filters bind what they render\<close>

fun well_bound :: "DatabaseBackend \<Rightarrow> FilterExpression \<Rightarrow> bool" where
  "well_bound b (Raw c vs) \<longleftrightarrow> sql_closed b c \<and> length (sql_slots b c) = length vs"
| "well_bound b (TrustedFragment c vs) \<longleftrightarrow> sql_closed b c \<and> length (sql_slots b c) = length vs"
| "well_bound b (FAnd fs) \<longleftrightarrow> list_all (well_bound b) fs"
| "well_bound b (FOr fs) \<longleftrightarrow> list_all (well_bound b) fs"

fun filter_values :: "FilterExpression \<Rightarrow> SqlValue list" where
  "filter_values (Raw c vs) = vs"
| "filter_values (TrustedFragment c vs) = vs"
| "filter_values (FAnd fs) = concat (map filter_values fs)"
| "filter_values (FOr fs) = concat (map filter_values fs)"

lemma render_state:
  "snd (render_filter_expression b f n binds) = (n + length (filter_values f), binds @ filter_values f)"
  "snd (render_filters b fs n binds)
     = (n + length (concat (map filter_values fs)), binds @ concat (map filter_values fs))"
proof (induction b f n binds and b fs n binds rule: render_filter_expression_render_filters.induct)
  case (6 b f fs n binds)
  obtain sql where "render_filter_expression b f n binds = (sql, n + length (filter_values f), binds @ filter_values f)"
    using 6(1) by (metis prod.collapse)
  with 6(2) show ?case by (simp add: split_beta)
qed (simp_all add: split_beta)

lemma render_numbered:
  "well_bound b f \<Longrightarrow> numbered b n (length (filter_values f)) (fst (render_filter_expression b f n binds))"
  "list_all (well_bound b) fs \<Longrightarrow>
     numbered_all b n (map (\<lambda>f. length (filter_values f)) fs) (fst (render_filters b fs n binds))"
proof (induction b f n binds and b fs n binds rule: render_filter_expression_render_filters.induct)
  case (1 b clause vs n binds)
  then show ?case using numbered_normalize [of b clause n] by simp
next
  case (2 b clause vs n binds)
  then show ?case using numbered_normalize [of b clause n] by simp
next
  case (3 b filters n binds)
  then obtain ks where ks: "numbered_all b n ks (filter (\<lambda>s. s \<noteq> []) (fst (render_filters b filters n binds)))"
      "sum_list ks = sum_list (map (\<lambda>f. length (filter_values f)) filters)"
    using numbered_all_nonempty by fastforce
  have "numbered_all b n ks
      (map (\<lambda>sql. ''('' @ sql @ '')'') (filter (\<lambda>s. s \<noteq> []) (fst (render_filters b filters n binds))))"
    by (rule numbered_all_map [OF ks(1) numbered_paren])
  from numbered_join [OF this, of "CHR '' ''" "CHR '' ''" "''AND''"] ks(2)
  show ?case by (simp add: split_beta length_concat separator_def plain_char_def comp_def)
next
  case (4 b filters n binds)
  have P: "numbered b n k (if s = [] then ''(1 = 1)'' else ''('' @ s @ '')'')" if "numbered b n k s" for n k s
    using that numbered_paren [OF that] by (auto simp: numbered_Nil numbered_plain plain_char_def)
  show ?case
  proof (cases "filters = []")
    case True
    then show ?thesis by (simp add: numbered_plain plain_char_def)
  next
    case False
    with 4 have "numbered_all b n (map (\<lambda>f. length (filter_values f)) filters)
        (map (\<lambda>s. if s = [] then ''(1 = 1)'' else ''('' @ s @ '')'') (fst (render_filters b filters n binds)))"
      by (intro numbered_all_map [OF _ P]) simp_all
    from numbered_join [OF this, of "CHR '' ''" "CHR '' ''" "''OR''"] False
    show ?thesis by (simp add: split_beta length_concat separator_def plain_char_def comp_def)
  qed
next
  case (6 b f fs n binds)
  obtain sql where "render_filter_expression b f n binds = (sql, n + length (filter_values f), binds @ filter_values f)"
    using render_state(1) [of b f n binds] by (metis prod.collapse)
  with 6 show ?case by (simp add: split_beta)
qed simp

lemma where_part_numbered:
  assumes "\<And>f. flt = Some f \<Longrightarrow> well_bound b f"
  shows "\<exists>sql vs. where_part b flt = (sql, 1 + length vs, vs) \<and>
    (sql = [] \<or> hd sql = CHR '' '') \<and> numbered b 1 (length vs) sql \<and>
    vs = (case flt of None \<Rightarrow> [] | Some f \<Rightarrow> filter_values f)"
proof (cases flt)
  case None
  then show ?thesis by (simp add: where_part_def numbered_Nil)
next
  case (Some f)
  obtain sql where R: "render_filter_expression b f 1 [] = (sql, 1 + length (filter_values f), filter_values f)"
    using render_state(1) [of b f 1 "[]"] by (metis append_Nil prod.collapse)
  have "numbered b 1 (length (filter_values f)) sql"
    using render_numbered(1) [of b f 1 "[]"] assms [OF Some] R by simp
  moreover from this have "numbered b 1 (0 + length (filter_values f)) ([] @ CHR '' '' # ''WHERE'' @ CHR '' '' # sql)"
    by (intro numbered_word) (simp_all add: numbered_Nil separator_def plain_char_def)
  ultimately show ?thesis
    using R Some by (cases "sql = []") (simp_all add: where_part_def)
qed

lemma sort_parts_numbered:
  assumes "list_all (\<lambda>s. sql_closed b (se_clause s) \<and> length (sql_slots b (se_clause s)) = length (se_values s)) ss"
  shows "snd (sort_parts b ss n vs) = vs @ concat (map se_values ss) \<and>
    numbered_all b n (map (\<lambda>s. length (se_values s)) ss) (fst (sort_parts b ss n vs))"
  using assms
proof (induction b ss n vs rule: sort_parts.induct)
  case (2 b s ss n vs)
  then show ?case
    using numbered_normalize [of b "se_clause s" n] by (simp add: split_beta)
qed simp

lemma numbered_append:
  assumes "numbered b n k s" "numbered b (n + k) m t" "t = [] \<or> separator (hd t)"
  shows "numbered b n (k + m) (s @ t)"
proof (cases t)
  case Nil
  with assms show ?thesis by (simp add: numbered_Nil)
next
  case (Cons c t')
  from assms(2,3) Cons have c: "separator c" by simp
  have T: "slot_tokens b Plain t = Ch c # slot_tokens b Plain t'"
    using separator_simps [OF c] Cons by simp
  have "tok_end b Plain (slot_tokens b Plain t) = tok_end b Plain (slot_tokens b Plain t')"
    using separator_simps [OF c] by (simp add: T)
  with assms(2) T have "numbered b (n + k) m t'"
    by (simp add: numbered_def sql_closed_def sql_slots_def split: if_splits)
  from numbered_separator [OF assms(1) this c] Cons show ?thesis by simp
qed

lemma show_nat_plain: "list_all plain_char (show_nat n)"
  using show_nat_digits [of n] by (auto simp: list_all_iff plain_char_def is_ascii_digit_def)

lemma show_int_plain: "list_all plain_char (show_int n)"
  by (simp add: show_int_def show_nat_plain) (simp add: plain_char_def)

lemma render_pagination_plain:
  "list_all plain_char (render_pagination b l n) \<and>
   (render_pagination b l n = [] \<or> separator (hd (render_pagination b l n)))"
  by (cases b; cases l) (simp_all add: render_pagination_def show_int_plain plain_char_def separator_def)

text \<open>A select statement whose projection and table carry no placeholder and whose filter and
  sorts are well bound.\<close>

definition select_bound :: "DatabaseBackend \<Rightarrow> SelectQuery \<Rightarrow> bool" where
  "select_bound b q \<longleftrightarrow>
     numbered b 1 0 (join '', '' (sq_columns q)) \<and> numbered b 1 0 (render_identifier_path b (sq_table q)) \<and>
     (case sq_filter q of None \<Rightarrow> True | Some f \<Rightarrow> well_bound b f) \<and>
     list_all (\<lambda>s. sql_closed b (se_clause s) \<and> length (sql_slots b (se_clause s)) = length (se_values s))
       (sq_sorts q)"

lemma count_projection_numbered: "numbered b n 0 (count_projection b)"
  by (cases b) (simp_all add: count_projection_def numbered_plain plain_char_def,
      simp add: numbered_def sql_closed_def sql_slots_def)

definition order_part ::
  "DatabaseBackend \<Rightarrow> SelectQuery \<Rightarrow> nat \<Rightarrow> SqlValue list \<Rightarrow> str \<times> SqlValue list" where
  "order_part b q n values =
     (if \<not> sq_count_only q \<and> sq_sorts q \<noteq> [] then
        (let (clauses, vs) = sort_parts b (sq_sorts q) n values in
         ('' ORDER BY '' @ join '', '' clauses, vs))
      else ([], values))"

lemma order_part_numbered:
  assumes "select_bound b q"
  shows "\<exists>sql vs. order_part b q n values = (sql, values @ vs) \<and>
    (sql = [] \<or> separator (hd sql)) \<and> numbered b n (length vs) sql \<and>
    vs = (if sq_count_only q then [] else concat (map se_values (sq_sorts q)))"
proof (cases "\<not> sq_count_only q \<and> sq_sorts q \<noteq> []")
  case True
  let ?ks = "map (\<lambda>s. length (se_values s)) (sq_sorts q)"
  obtain clauses where S: "sort_parts b (sq_sorts q) n values = (clauses, values @ concat (map se_values (sq_sorts q)))"
    and N: "numbered_all b n ?ks clauses"
    using sort_parts_numbered [of b "sq_sorts q" n "values"] assms
    by (metis (no_types, lifting) prod.collapse select_bound_def)
  have "numbered b n (sum_list ?ks) (join '', '' clauses)"
    using numbered_join [OF N, of "CHR '',''" "CHR '' ''" "[]"] by (simp add: separator_def)
  then have "numbered b n (0 + sum_list ?ks) ([] @ CHR '' '' # ''ORDER BY'' @ CHR '' '' # join '', '' clauses)"
    by (intro numbered_word) (simp_all add: numbered_Nil separator_def plain_char_def)
  with S True show ?thesis
    by (simp add: order_part_def length_concat comp_def separator_def)
next
  case False
  then show ?thesis by (auto simp: order_part_def numbered_Nil)
qed

lemma table_part_numbered:
  assumes "numbered b 1 0 p" "numbered b 1 0 t" "list_all plain_char w" "w = [] \<or> separator (hd w)"
  shows "numbered b 1 0 (''SELECT '' @ p @ '' FROM '' @ t @ w)"
proof -
  have "numbered b 1 (0 + 0) (t @ w)" using assms by (intro numbered_append) (simp_all add: numbered_plain)
  then have "numbered b 1 (0 + 0) (p @ CHR '' '' # ''FROM'' @ CHR '' '' # t @ w)"
    using assms by (intro numbered_word) (simp_all add: separator_def plain_char_def)
  then have "numbered b 1 (0 + 0) (''SELECT'' @ CHR '' '' # p @ CHR '' '' # ''FROM'' @ CHR '' '' # t @ w)"
    by (intro numbered_separator) (simp_all add: separator_def plain_char_def numbered_plain)
  then show ?thesis by simp
qed

definition page_part :: "DatabaseBackend \<Rightarrow> SelectQuery \<Rightarrow> bool \<Rightarrow> str" where
  "page_part b q wd =
     (if sq_count_only q then []
      else case sq_pagination q of
        None \<Rightarrow> []
      | Some page \<Rightarrow>
          (if b = Mssql \<and> sq_sorts q = [] then '' ORDER BY (SELECT 1)'' else [])
            @ render_pagination b (pr_limit page) (pr_offset page)) @
     (if wd \<and> b = Postgres then '' FOR UPDATE'' else [])"

definition head_part :: "DatabaseBackend \<Rightarrow> SelectQuery \<Rightarrow> bool \<Rightarrow> str" where
  "head_part b q wd =
     ''SELECT '' @ (if sq_count_only q then count_projection b else join '', '' (sq_columns q)) @
     '' FROM '' @ render_identifier_path b (sq_table q) @
     (if wd \<and> b = Mssql then '' WITH (UPDLOCK, HOLDLOCK)'' else [])"

definition starts_apart :: "str \<Rightarrow> bool" where
  "starts_apart s \<longleftrightarrow> s = [] \<or> separator (hd s)"

lemma starts_apart_append: "starts_apart s \<Longrightarrow> starts_apart t \<Longrightarrow> starts_apart (s @ t)"
  by (cases s) (auto simp: starts_apart_def)

lemma page_part_numbered: "numbered b n 0 (page_part b q wd) \<and> starts_apart (page_part b q wd)"
proof -
  have "list_all plain_char (page_part b q wd)"
    using render_pagination_plain by (simp add: page_part_def plain_char_def split: option.splits)
  moreover have "starts_apart (render_pagination b l k)" for l k
    using render_pagination_plain by (simp add: starts_apart_def)
  then have "starts_apart (page_part b q wd)"
    unfolding page_part_def
    by (intro starts_apart_append) (simp_all add: starts_apart_append starts_apart_def separator_def split: option.splits)
  ultimately show ?thesis by (simp add: numbered_plain)
qed

lemma select_parts:
  "render_select_query_inner b q wd =
     (let (w, n, vs) = where_part b (sq_filter q); (os, vs') = order_part b q n vs in
      \<lparr>rq_sql = head_part b q wd @ w @ os @ page_part b q wd, rq_values = vs'\<rparr>)"
  by (simp add: render_select_query_inner_def order_part_def page_part_def head_part_def split_beta Let_def)

lemma select_numbered:
  assumes "select_bound b q"
  shows "numbered b 1 (length (rq_values (render_select_query_inner b q wd))) (rq_sql (render_select_query_inner b q wd)) \<and>
    rq_values (render_select_query_inner b q wd) =
      (case sq_filter q of None \<Rightarrow> [] | Some f \<Rightarrow> filter_values f) @
      (if sq_count_only q then [] else concat (map se_values (sq_sorts q)))"
proof -
  obtain w vs where W: "where_part b (sq_filter q) = (w, 1 + length vs, vs)" "starts_apart w"
      "numbered b 1 (length vs) w" "vs = (case sq_filter q of None \<Rightarrow> [] | Some f \<Rightarrow> filter_values f)"
    using where_part_numbered [of "sq_filter q" b] assms
    by (auto simp: select_bound_def starts_apart_def separator_def simp del: One_nat_def split: option.splits)
  obtain os ovs where O: "order_part b q (1 + length vs) vs = (os, vs @ ovs)" "starts_apart os"
      "numbered b (1 + length vs) (length ovs) os"
      "ovs = (if sq_count_only q then [] else concat (map se_values (sq_sorts q)))"
    using order_part_numbered [OF assms, of "1 + length vs" vs] unfolding starts_apart_def by metis
  have head: "numbered b 1 0 (head_part b q wd)"
    unfolding head_part_def using assms
    by (intro table_part_numbered)
      (simp_all add: select_bound_def count_projection_numbered plain_char_def separator_def)
  have "numbered b (1 + length vs) (length ovs + 0) (os @ page_part b q wd)"
    using O(3) page_part_numbered unfolding starts_apart_def by (intro numbered_append) blast+
  moreover have tail: "starts_apart (os @ page_part b q wd)"
    using O(2) page_part_numbered by (intro starts_apart_append) blast+
  ultimately have "numbered b 1 (length vs + (length ovs + 0)) (w @ os @ page_part b q wd)"
    using numbered_append [OF W(3)] unfolding starts_apart_def by blast
  moreover have "starts_apart (w @ os @ page_part b q wd)"
    using W(2) tail by (rule starts_apart_append)
  ultimately have "numbered b 1 (0 + (length vs + (length ovs + 0))) (head_part b q wd @ w @ os @ page_part b q wd)"
    using numbered_append [OF head] unfolding starts_apart_def by simp
  then show ?thesis using W(1,4) O(1,4) by (simp add: select_parts)
qed

section \<open>Clauses keep their own values\<close>

text \<open>
  The texts on which \<open>count_placeholders\<close> and the normalization read the same placeholders: every
  \<open>$\<close> or \<open>@p\<close> marker has digits, and a bracket stands only where brackets quote.
\<close>

function plain_markers :: "DatabaseBackend \<Rightarrow> scan_mode \<Rightarrow> str \<Rightarrow> bool" where
  "plain_markers b md [] \<longleftrightarrow> True"
| "plain_markers b (Quoted q) (c # cs) \<longleftrightarrow>
     (if c = q then
        (case cs of
           [] \<Rightarrow> True
         | c2 # cs2 \<Rightarrow> if c2 = q then plain_markers b (Quoted q) cs2 else plain_markers b Plain cs)
      else plain_markers b (Quoted q) cs)"
| "plain_markers b Plain (c # cs) \<longleftrightarrow>
     (if c = sq \<or> c = dq then plain_markers b (Quoted c) cs
      else if c = CHR ''['' then b = Mssql \<and> plain_markers b (Quoted (CHR '']'')) cs
      else if c = CHR ''?'' then plain_markers b Plain (dropWhile is_ascii_digit cs)
      else if c = CHR ''$'' then
        takeWhile is_ascii_digit cs \<noteq> [] \<and> plain_markers b Plain (dropWhile is_ascii_digit cs)
      else if c = CHR 0x40 \<and> cs \<noteq> [] \<and> ascii_lower (hd cs) = CHR ''p'' then
        takeWhile is_ascii_digit (tl cs) \<noteq> [] \<and> plain_markers b Plain (dropWhile is_ascii_digit (tl cs))
      else plain_markers b Plain cs)"
  by pat_completeness auto
termination
proof (relation "measure (\<lambda>(b, md, s). length s)", goal_cases)
  case (7 b c cs)
  show ?case using length_dropWhile_le [of is_ascii_digit cs] by simp
next
  case (8 b c cs)
  show ?case using length_dropWhile_le [of is_ascii_digit cs] by simp
next
  case (9 b c cs)
  show ?case using length_dropWhile_le [of is_ascii_digit "tl cs"] by simp
qed auto

lemma count_loop_digits: "count_loop Plain (dropWhile is_ascii_digit cs) = count_loop Plain cs"
proof (induction cs)
  case (Cons c cs)
  have "c \<noteq> sq \<and> c \<noteq> dq \<and> c \<noteq> CHR ''['' \<and> c \<noteq> CHR ''?'' \<and> c \<noteq> CHR ''$'' \<and> c \<noteq> CHR 0x40"
    if "is_ascii_digit c" using that by (auto simp: is_ascii_digit_def)
  with Cons show ?case by auto
qed simp

lemma count_loop_slots:
  "plain_markers b md s \<Longrightarrow> count_loop md s = length (slot_digits (slot_tokens b md s))"
proof (induction b md s rule: plain_markers.induct)
  case (2 b q c cs)
  then show ?case by (cases cs) (auto split: if_splits)
next
  case (3 b c cs)
  then show ?case by (auto simp: count_loop_digits [of cs, symmetric] split: if_splits)
qed simp

lemma count_placeholders_slots:
  "plain_markers b Plain s \<Longrightarrow> count_placeholders s = length (sql_slots b s)"
  by (simp add: count_placeholders_def sql_slots_def count_loop_slots)

lemma raw_filters_parts:
  assumes "list_all (\<lambda>(c, vs). count_placeholders c = length vs) ps"
  shows "raw_filters (map fst ps) (concat (map snd ps) @ rest) = map (\<lambda>(c, vs). Raw c vs) ps"
  using assms by (induction ps) auto

text \<open>
  A query whose clauses \<open>ps\<close> each came with the values of their placeholders and whose columns,
  table, orders and keys are quoted text. A clause has as many values as the builder counts in it
  and as many as the dialect reads in it; where these two counts differ, as for a bracketed
  PostgreSQL array, no list of values is right.
\<close>

definition bound_sort :: "DatabaseBackend \<Rightarrow> SortExpression \<Rightarrow> bool" where
  "bound_sort b s \<longleftrightarrow> sql_closed b (se_clause s) \<and> length (sql_slots b (se_clause s)) = length (se_values s)"

definition bound_part :: "DatabaseBackend \<Rightarrow> str \<times> SqlValue list \<Rightarrow> bool" where
  "bound_part b p \<longleftrightarrow>
     sql_closed b (fst p) \<and> count_placeholders (fst p) = length (snd p) \<and> length (sql_slots b (fst p)) = length (snd p)"

lemma plain_markers_bound:
  "plain_markers b Plain c \<Longrightarrow> sql_closed b c \<Longrightarrow> length (sql_slots b c) = length vs \<Longrightarrow> bound_part b (c, vs)"
  by (simp add: bound_part_def count_placeholders_slots)

definition entity_bound :: "DatabaseBackend \<Rightarrow> EntityInfo \<Rightarrow> bool" where
  "entity_bound b ei \<longleftrightarrow>
     numbered b 1 0 (join '', '' (ei_columns ei)) \<and> numbered b 1 0 (render_identifier_path b (ei_table ei)) \<and>
     list_all (\<lambda>k. numbered b 1 0 (render_identifier_path b k)) (ei_primary_keys ei)"

definition query_bound ::
  "DatabaseBackend \<Rightarrow> (str \<times> SqlValue list) list \<Rightarrow> ('e, 'd) EntityQuery \<Rightarrow> bool" where
  "query_bound b ps q \<longleftrightarrow>
     eq_filter_is_valid q \<and> eq_where_clauses q = map fst ps \<and> eq_values q = concat (map snd ps) \<and>
     list_all (bound_part b) ps \<and> list_all (bound_sort b) (declared_sorts q)"

lemma unbound_bound:
  assumes "numbered b 1 0 k" shows "bound_sort b (unbound (k @ '' ASC''))"
proof -
  have "numbered b 1 (0 + 0) (k @ CHR '' '' # ''ASC'')"
    by (rule numbered_separator [OF assms]) (simp_all add: numbered_plain plain_char_def separator_def)
  then show ?thesis by (simp add: bound_sort_def unbound_def numbered_def split: if_splits)
qed

lemma key_sorts_bound:
  assumes "list_all (bound_sort b) ss" "list_all (\<lambda>k. numbered b 1 0 (render_identifier_path b k)) ks"
  shows "list_all (bound_sort b) (foldl (add_key_sort b) ss ks) \<and>
    concat (map se_values (foldl (add_key_sort b) ss ks)) = concat (map se_values ss)"
  using assms
proof (induction ks arbitrary: ss)
  case (Cons k ks)
  have "list_all (bound_sort b) (add_key_sort b ss k)"
    using Cons unbound_bound by (simp add: add_key_sort_def)
  moreover have "concat (map se_values (add_key_sort b ss k)) = concat (map se_values ss)"
    by (simp add: add_key_sort_def unbound_def)
  ultimately show ?case using Cons by simp
qed simp

lemma raw_parts_bound:
  assumes "list_all (bound_part b) ps"
  shows "(case filter_expression_from_raw_parts (map fst ps) (concat (map snd ps)) of
      None \<Rightarrow> ps = [] | Some f \<Rightarrow> well_bound b f \<and> filter_values f = concat (map snd ps))"
proof -
  have "list_all (\<lambda>(c, vs). count_placeholders c = length vs) ps"
    using assms by (auto simp: list_all_iff bound_part_def)
  from raw_filters_parts [OF this, of "[]"]
  have R: "raw_filters (map fst ps) (concat (map snd ps)) = map (\<lambda>(c, vs). Raw c vs) ps" by simp
  have W: "list_all (well_bound b) (map (\<lambda>(c, vs). Raw c vs) ps)"
    using assms by (auto simp: list_all_iff bound_part_def)
  have V: "concat (map filter_values (map (\<lambda>(c, vs). Raw c vs) ps)) = concat (map snd ps)"
    by (induction ps) auto
  show ?thesis
    using R W V by (cases ps) (auto simp: filter_expression_from_raw_parts_def Let_def)
qed

text \<open>
  C7. Placeholders and bind values stay aligned from the builder to the statement. The clauses of the
  query are closed text, each added with as many values as \<open>count_placeholders\<close> counts in it and as
  the dialect reads in it; the two counts agree on text without digitless markers and without
  brackets that do not quote. Then the statement that is built and rendered leaves no quote open,
  binds the clause values in order followed by the order values, and has exactly one placeholder per
  value, on PostgreSQL and SQL Server numbered consecutively from one, whatever keys, page and lock
  clause are added.
\<close>

theorem entity_query_binds:
  fixes q :: "('e, 'd) EntityQuery"
  assumes "query_bound b ps q" "entity_bound b ei"
  shows "\<exists>sel. build_select_query_with_config b ei q cfg apply_default_limit = Inr sel \<and>
    (\<forall>wd. rq_values (render_select_query_inner b sel wd) =
        concat (map snd ps) @ concat (map se_values (declared_sorts q)) \<and>
      sql_closed b (rq_sql (render_select_query_inner b sel wd)) \<and>
      length (sql_slots b (rq_sql (render_select_query_inner b sel wd))) =
        length (rq_values (render_select_query_inner b sel wd)) \<and>
      (b = Postgres \<or> b = Mssql \<longrightarrow>
        sql_slots b (rq_sql (render_select_query_inner b sel wd)) =
          map show_nat [1 ..< 1 + length (rq_values (render_select_query_inner b sel wd))]))"
proof -
  obtain sel where sel: "build_select_query_with_config b ei q cfg apply_default_limit = Inr sel"
    using assms(1) by (simp add: build_select_query_with_config_def query_bound_def Let_def)
  note sorts = key_sorts_bound [of b "declared_sorts q" "ei_primary_keys ei"]
  have f: "sq_filter sel = filter_expression_from_raw_parts (map fst ps) (concat (map snd ps))"
    and s: "sq_sorts sel = foldl (add_key_sort b) (declared_sorts q) (ei_primary_keys ei)"
    and c: "sq_columns sel = ei_columns ei" "sq_table sel = ei_table ei" "\<not> sq_count_only sel"
    using sel assms(1)
    by (auto simp: build_select_query_with_config_def query_bound_def Let_def split: if_splits)
  have parts: "case sq_filter sel of None \<Rightarrow> ps = []
      | Some f \<Rightarrow> well_bound b f \<and> filter_values f = concat (map snd ps)"
    using raw_parts_bound [of b ps] assms(1) by (simp add: f query_bound_def)
  have B: "select_bound b sel"
    using parts assms sorts by (auto simp: select_bound_def c s entity_bound_def query_bound_def
        bound_sort_def [abs_def] split: option.splits)
  have "rq_values (render_select_query_inner b sel wd) =
      concat (map snd ps) @ concat (map se_values (declared_sorts q))" for wd
    using select_numbered [OF B, of wd] parts sorts assms
    by (auto simp: c s query_bound_def entity_bound_def split: option.splits)
  moreover have "numbered b 1 (length (rq_values (render_select_query_inner b sel wd)))
      (rq_sql (render_select_query_inner b sel wd))" for wd
    by (rule conjunct1 [OF select_numbered [OF B]])
  from numbered_facts [OF this] have "sql_closed b (rq_sql (render_select_query_inner b sel wd)) \<and>
      length (sql_slots b (rq_sql (render_select_query_inner b sel wd))) =
        length (rq_values (render_select_query_inner b sel wd)) \<and>
      (b = Postgres \<or> b = Mssql \<longrightarrow>
        sql_slots b (rq_sql (render_select_query_inner b sel wd)) =
          map show_nat [1 ..< 1 + length (rq_values (render_select_query_inner b sel wd))])" for wd
    by blast
  ultimately show ?thesis using sel by blast
qed

definition users_entity :: EntityInfo where
  "users_entity = \<lparr>ei_table = ''users'', ei_columns = [''id'', ''name''], ei_primary_keys = [''id''],
     ei_default_sort = ''id''\<rparr>"

definition users_query :: "(nat, nat) EntityQuery" where
  "users_query = paginate \<lparr>pi_limit = Some 5, pi_offset = None\<rparr>
     (where_values ''name = ? OR age > $1'' [SvString ''x'', SvInt 3]
       (where_clause ''id <> ?'' (SvInt 7) entity_query_new))"

lemma users_bound: "entity_bound Postgres users_entity"
  by code_simp

lemma users_query_bound:
  "query_bound Postgres [(''id <> ?'', [SvInt 7]), (''name = ? OR age > $1'', [SvString ''x'', SvInt 3])] users_query"
  by code_simp

lemma users_query_sorts: "declared_sorts users_query = []"
  by code_simp

theorem entity_query_binds_witness:
  "\<exists>sel. build_select_query_with_config Postgres users_entity users_query default_pagination True = Inr sel \<and>
    sql_slots Postgres (rq_sql (render_select_query_inner Postgres sel False)) = map show_nat [1, 2, 3]"
  using entity_query_binds [OF users_query_bound users_bound, of default_pagination True]
  by (auto simp: users_query_sorts numeral_2_eq_2 numeral_3_eq_3)

section \<open>Patterns match literally\<close>

text \<open>The meaning of \<open>LIKE\<close> with \<open>ESCAPE '\'\<close>.\<close>

function like_match :: "str \<Rightarrow> str \<Rightarrow> bool" where
  "like_match [] s \<longleftrightarrow> s = []"
| "like_match (p # ps) s \<longleftrightarrow>
     (if p = bsl then ps \<noteq> [] \<and> s \<noteq> [] \<and> hd s = hd ps \<and> like_match (tl ps) (tl s)
      else if p = CHR ''%'' then list_ex (\<lambda>k. like_match ps (drop k s)) [0 ..< Suc (length s)]
      else if p = CHR ''_'' then s \<noteq> [] \<and> like_match ps (tl s)
      else s \<noteq> [] \<and> hd s = p \<and> like_match ps (tl s))"
  by pat_completeness auto
termination by (relation "measure (\<lambda>(p, s). length p)") auto

declare like_match.simps(2) [simp del]

lemma like_match_percent: "like_match (CHR ''%'' # ps) s \<longleftrightarrow> (\<exists>t u. s = t @ u \<and> like_match ps u)"
proof -
  have "list_ex (\<lambda>k. like_match ps (drop k s)) [0 ..< Suc (length s)] \<longleftrightarrow> (\<exists>k \<le> length s. like_match ps (drop k s))"
    by (auto simp: list_ex_iff less_Suc_eq_le simp del: upt_Suc)
  also have "\<dots> \<longleftrightarrow> (\<exists>t u. s = t @ u \<and> like_match ps u)"
    by (metis append_take_drop_id append_eq_conv_conj le_add1 length_append)
  finally show ?thesis by (simp add: like_match.simps(2))
qed

lemma like_match_escape:
  "like_match (escape_like_pattern v @ ps) s \<longleftrightarrow> (\<exists>t. s = v @ t \<and> like_match ps t)"
proof (induction v arbitrary: s)
  case (Cons c v)
  have "like_match (escape_like_pattern (c # v) @ ps) s \<longleftrightarrow>
      s \<noteq> [] \<and> hd s = c \<and> like_match (escape_like_pattern v @ ps) (tl s)"
    by (auto simp: like_match.simps(2))
  with Cons show ?case by (cases s) auto
qed simp

lemma like_match_end: "like_match ''%'' s"
  by (auto simp: like_match_percent)

text \<open>
  A user string bound to \<open>LIKE\<close> matches only literally: the contains, starts-with and
  ends-with patterns match exactly the strings that contain, start with or end with the given
  string, whatever wildcards and escape characters it has.
\<close>

theorem like_patterns_literal:
  "(like_match (contains_like_pattern v) s \<longleftrightarrow> sublist v s) \<and>
   (like_match (starts_with_like_pattern v) s \<longleftrightarrow> prefix v s) \<and>
   (like_match (ends_with_like_pattern v) s \<longleftrightarrow> suffix v s)"
proof -
  have P: "like_match (escape_like_pattern v @ ''%'') t \<longleftrightarrow> prefix v t" for t
    by (auto simp: like_match_escape like_match_end prefix_def)
  have E: "like_match (escape_like_pattern v) t \<longleftrightarrow> t = v" for t
    using like_match_escape [of v "[]" t] by simp
  show ?thesis
    by (auto simp: contains_like_pattern_def starts_with_like_pattern_def ends_with_like_pattern_def
        like_match_percent P E sublist_def prefix_def suffix_def)
qed

text \<open>
  Where counting and numbering differ: on PostgreSQL a bracket opens an array, but
  \<open>count_placeholders\<close> skips to the closing bracket, so a clause added with its value loses it and
  the statement has a placeholder without a value.
\<close>

lemma bracketed_placeholder_unbound:
  "sql_slots Postgres ''tags @> ARRAY[$1]'' = [''1''] \<and>
   filter_expression_from_raw_parts [''tags @> ARRAY[$1]''] [SvString ''x''] = Some (Raw ''tags @> ARRAY[$1]'' []) \<and>
   rq_values (render_aggregate_query Postgres \<lparr>aq_table = ''t'', aq_function = AggCount, aq_column = None,
     aq_filter = filter_expression_from_raw_parts [''tags @> ARRAY[$1]''] [SvString ''x'']\<rparr>) = []"
  by code_simp

end
