(* ===== verification/Visibility.thy ===== *)
theory Visibility
  imports Query
begin

text \<open>
  Read policies of \<open>src/crates/graphql-orm/src/graphql/orm/authorized_pagination.rs\<close>: predicates
  built from columns, filters, negation, conjunction and relations, the visibility of a request,
  and its conjunction with a query. The meaning of rendered conditions in three-valued logic is
  specified first; a row is admitted when its condition is true, not when it is unknown.
\<close>

section \<open>Conditions in three-valued logic\<close>

type_synonym tv = "bool option"

definition tv_and :: "tv list \<Rightarrow> tv" where
  "tv_and vs = (if Some False \<in> set vs then Some False else if None \<in> set vs then None else Some True)"

definition tv_or :: "tv list \<Rightarrow> tv" where
  "tv_or vs = (if Some True \<in> set vs then Some True else if None \<in> set vs then None else Some False)"

definition tv_not :: "tv \<Rightarrow> tv" where
  "tv_not v = map_option Not v"

lemma tv_and_true [simp]: "tv_and vs = Some True \<longleftrightarrow> (\<forall>v \<in> set vs. v = Some True)"
  unfolding tv_and_def by (auto split: if_splits) (metis (full_types) not_None_eq)

lemma tv_or_true [simp]: "tv_or vs = Some True \<longleftrightarrow> (\<exists>v \<in> set vs. v = Some True)"
  unfolding tv_or_def by (auto split: if_splits)

lemma tv_not_true [simp]: "tv_not v = Some True \<longleftrightarrow> v = Some False"
  by (cases v) (auto simp: tv_not_def)

text \<open>Conditions with atoms of SQL text, their text and their value.\<close>

datatype sql_cond = CAtom str | CTrue | CFalse | CAnd "sql_cond list" | COr "sql_cond list" | CNot sql_cond

fun cond_text :: "sql_cond \<Rightarrow> str" where
  "cond_text (CAtom s) = s"
| "cond_text CTrue = ''1 = 1''"
| "cond_text CFalse = ''1 = 0''"
| "cond_text (CAnd cs) = join '' AND '' (map (\<lambda>c. ''('' @ cond_text c @ '')'') cs)"
| "cond_text (COr cs) = join '' OR '' (map (\<lambda>c. ''('' @ cond_text c @ '')'') cs)"
| "cond_text (CNot c) = ''NOT ('' @ cond_text c @ '')''"

fun cond_eval :: "(str \<Rightarrow> tv) \<Rightarrow> sql_cond \<Rightarrow> tv" where
  "cond_eval L (CAtom s) = L s"
| "cond_eval L CTrue = Some True"
| "cond_eval L CFalse = Some False"
| "cond_eval L (CAnd cs) = tv_and (map (cond_eval L) cs)"
| "cond_eval L (COr cs) = tv_or (map (cond_eval L) cs)"
| "cond_eval L (CNot c) = tv_not (cond_eval L c)"

text \<open>
  The meaning of a filter tree: an empty fragment restricts nothing, the leaves are evaluated as
  they are written at their position.
\<close>

fun filter_eval :: "(str \<Rightarrow> tv) \<Rightarrow> DatabaseBackend \<Rightarrow> FilterExpression \<Rightarrow> nat \<Rightarrow> tv"
  and filters_eval :: "(str \<Rightarrow> tv) \<Rightarrow> DatabaseBackend \<Rightarrow> FilterExpression list \<Rightarrow> nat \<Rightarrow> tv list" where
  "filter_eval L b (Raw c vs) n =
     (if c = [] then Some True else L (normalize_sql_placeholders b c n))"
| "filter_eval L b (TrustedFragment c vs) n =
     (if c = [] then Some True else L (normalize_sql_placeholders b c n))"
| "filter_eval L b (FAnd fs) n = tv_and (filters_eval L b fs n)"
| "filter_eval L b (FOr fs) n = tv_or (filters_eval L b fs n)"
| "filters_eval L b [] n = []"
| "filters_eval L b (f # fs) n = filter_eval L b f n # filters_eval L b fs (n + length (filter_values f))"

text \<open>The condition a filter renders to; \<open>None\<close> is the empty text.\<close>

fun filter_cond :: "DatabaseBackend \<Rightarrow> FilterExpression \<Rightarrow> nat \<Rightarrow> sql_cond option"
  and filter_conds :: "DatabaseBackend \<Rightarrow> FilterExpression list \<Rightarrow> nat \<Rightarrow> sql_cond option list" where
  "filter_cond b (Raw c vs) n = (if c = [] then None else Some (CAtom (normalize_sql_placeholders b c n)))"
| "filter_cond b (TrustedFragment c vs) n =
     (if c = [] then None else Some (CAtom (normalize_sql_placeholders b c n)))"
| "filter_cond b (FAnd fs) n =
     (let cs = map the (filter (\<lambda>c. c \<noteq> None) (filter_conds b fs n)) in
      if cs = [] then None else Some (CAnd cs))"
| "filter_cond b (FOr fs) n =
     (if fs = [] then Some CFalse
      else Some (COr (map (\<lambda>c. case c of None \<Rightarrow> CTrue | Some c \<Rightarrow> c) (filter_conds b fs n))))"
| "filter_conds b [] n = []"
| "filter_conds b (f # fs) n = filter_cond b f n # filter_conds b fs (n + length (filter_values f))"

definition opt_text :: "sql_cond option \<Rightarrow> str" where
  "opt_text c = (case c of None \<Rightarrow> [] | Some c \<Rightarrow> cond_text c)"

definition opt_eval :: "(str \<Rightarrow> tv) \<Rightarrow> sql_cond option \<Rightarrow> tv" where
  "opt_eval L c = (case c of None \<Rightarrow> Some True | Some c \<Rightarrow> cond_eval L c)"

lemma opt_simps [simp]:
  "opt_text None = []" "opt_text (Some c) = cond_text c"
  "opt_eval L None = Some True" "opt_eval L (Some c) = cond_eval L c"
  by (simp_all add: opt_text_def opt_eval_def)

lemma placeholder_nonempty [simp]: "placeholder b n \<noteq> []"
  by (cases b) auto

lemma normalize_nonempty [simp]: "normalize_sql_placeholders b c n = [] \<longleftrightarrow> c = []"
proof (cases c)
  case (Cons x xs)
  then show ?thesis by (cases xs) (simp_all add: normalize_sql_placeholders_def)
qed (simp add: normalize_sql_placeholders_def)

lemma join_paren_Nil: "join sep (map (\<lambda>c. CHR ''('' # f c) cs) = [] \<longleftrightarrow> cs = []"
  by (cases cs; cases "tl cs") auto

lemma join_Cons_nonempty [simp]: "join sep ((c # x) # ss) \<noteq> []"
  by (cases ss) auto

lemma opt_text_filter:
  "list_all (\<lambda>c. opt_text c = [] \<longleftrightarrow> c = None) cs \<Longrightarrow>
     filter (\<lambda>s. s \<noteq> []) (map opt_text cs) = map cond_text (map the (filter (\<lambda>c. c \<noteq> None) cs))"
  by (induction cs) (auto split: option.splits)

lemma filter_cond_nonempty:
  "filter_cond b f n = Some c \<Longrightarrow> cond_text c \<noteq> []"
  "list_all (\<lambda>c. case c of None \<Rightarrow> True | Some c \<Rightarrow> cond_text c \<noteq> []) (filter_conds b fs n)"
proof (induction b f n and b fs n arbitrary: c rule: filter_cond_filter_conds.induct)
  case (4 b fs n)
  then show ?case by (cases fs) (auto simp: join_paren_Nil split: if_splits)
next
  case (3 b fs n)
  then show ?case by (auto simp: Let_def join_paren_Nil simp del: map_map split: if_splits)
next
  case (6 b f fs n)
  then show ?case by (cases "filter_cond b f n") auto
qed (auto split: if_splits)

lemma render_cond:
  "fst (render_filter_expression b f n binds) = opt_text (filter_cond b f n)"
  "fst (render_filters b fs n binds) = map opt_text (filter_conds b fs n)"
proof (induction b f n binds and b fs n binds rule: render_filter_expression_render_filters.induct)
  case (3 b fs n binds)
  have "list_all (\<lambda>c. opt_text c = [] \<longleftrightarrow> c = None) (filter_conds b fs n)"
    using filter_cond_nonempty(2) [of b fs n] by (auto simp: list_all_iff opt_text_def split: option.splits)
  from opt_text_filter [OF this] 3 show ?case by (auto simp: split_beta Let_def comp_def)
next
  case (4 b fs n binds)
  have E: "(if opt_text c = [] then ''(1 = 1)'' else ''('' @ opt_text c @ '')'')
      = ''('' @ cond_text (case c of None \<Rightarrow> CTrue | Some c \<Rightarrow> c) @ '')''" if "c \<in> set (filter_conds b fs n)" for c
    using filter_cond_nonempty(2) [of b fs n] that by (cases c) (auto simp: list_all_iff)
  show ?case
  proof (cases "fs = []")
    case False
    with 4 E show ?thesis by (simp add: split_beta comp_def cong: map_cong)
  qed simp
next
  case (6 b f fs n binds)
  obtain sql where "render_filter_expression b f n binds = (sql, n + length (filter_values f), binds @ filter_values f)"
    using render_state(1) [of b f n binds] by (metis prod.collapse)
  with 6 show ?case by (simp add: split_beta)
qed simp_all

lemma tv_and_restrict:
  "tv_and (map (cond_eval L) (map the (filter (\<lambda>c. c \<noteq> None) cs))) = tv_and (map (opt_eval L) cs)"
proof -
  have "Some False \<in> set (map (cond_eval L) (map the (filter (\<lambda>c. c \<noteq> None) cs)))
      \<longleftrightarrow> Some False \<in> set (map (opt_eval L) cs)"
    by (induction cs) (auto split: option.splits)
  moreover have "None \<in> set (map (cond_eval L) (map the (filter (\<lambda>c. c \<noteq> None) cs)))
      \<longleftrightarrow> None \<in> set (map (opt_eval L) cs)"
    by (induction cs) (auto split: option.splits)
  ultimately show ?thesis by (simp add: tv_and_def)
qed

lemma cond_value:
  "opt_eval L (filter_cond b f n) = filter_eval L b f n"
  "map (opt_eval L) (filter_conds b fs n) = filters_eval L b fs n"
proof (induction L b f n and L b fs n rule: filter_eval_filters_eval.induct)
  case (3 L b fs n)
  show ?case
  proof (cases "map the (filter (\<lambda>c. c \<noteq> None) (filter_conds b fs n)) = []")
    case True
    then have "tv_and (filters_eval L b fs n) = Some True"
      using tv_and_restrict [of L "filter_conds b fs n"] 3 by (simp add: tv_and_def)
    with True show ?thesis by (simp add: Let_def del: tv_and_true)
  next
    case False
    with 3 tv_and_restrict [of L "filter_conds b fs n"] show ?thesis by (simp add: Let_def)
  qed
next
  case (4 L b fs n)
  have "cond_eval L (case c of None \<Rightarrow> CTrue | Some c \<Rightarrow> c) = opt_eval L c" for c
    by (cases c) auto
  with 4 show ?case by (cases "fs = []") (simp_all add: comp_def tv_or_def)
qed auto

section \<open>Read predicates\<close>

datatype ReadPredicateOp = OpEq | OpNe | OpLt | OpLte | OpGt | OpGte

fun predicate_op_sql :: "ReadPredicateOp \<Rightarrow> str" where
  "predicate_op_sql OpEq = ''=''"
| "predicate_op_sql OpNe = ''<>''"
| "predicate_op_sql OpLt = ''<''"
| "predicate_op_sql OpLte = ''<=''"
| "predicate_op_sql OpGt = ''>''"
| "predicate_op_sql OpGte = ''>=''"

text \<open>An entity is identified by its \<open>TypeId\<close>, a number here.\<close>

record ReadPredicate =
  rp_entity :: nat
  rp_backend :: DatabaseBackend
  rp_expression :: FilterExpression

text \<open>What a predicate uses of an entity: its identity, table and physical columns.\<close>

record EntityShape =
  es_type_id :: nat
  es_table :: str
  es_columns :: "str list"

definition column_predicate ::
  "DatabaseBackend \<Rightarrow> EntityShape \<Rightarrow> str \<Rightarrow> ReadPredicateOp \<Rightarrow> SqlValue \<Rightarrow> OrmErrorCode + ReadPredicate" where
  "column_predicate b T col op v =
     (if col \<notin> set (es_columns T) then Inl AuthorizationMisconfigured
      else Inr \<lparr>rp_entity = es_type_id T, rp_backend = b,
        rp_expression =
          TrustedFragment (quote_identifier b col @ '' '' @ predicate_op_sql op @ '' ?'') [v]\<rparr>)"

fun supported :: "FilterExpression \<Rightarrow> bool" where
  "supported (Raw clause vs) \<longleftrightarrow> trim clause \<noteq> []"
| "supported (TrustedFragment clause vs) \<longleftrightarrow> trim clause \<noteq> []"
| "supported (FAnd children) \<longleftrightarrow> children \<noteq> [] \<and> list_all supported children"
| "supported (FOr children) \<longleftrightarrow> list_all supported children"

definition predicate_not :: "ReadPredicate \<Rightarrow> OrmErrorCode + ReadPredicate" where
  "predicate_not p =
     (if \<not> supported (rp_expression p) then Inl AuthorizationMisconfigured
      else let (clause, _, values) = render_filter_expression Sqlite (rp_expression p) 1 [] in
        Inr (p\<lparr>rp_expression := TrustedFragment (''NOT ('' @ clause @ '')'') values\<rparr>))"

text \<open>
  \<open>from_filter\<close> on the generated filter: its backend, entity, need for in-memory matching and
  expression.
\<close>

definition predicate_from_filter ::
  "DatabaseBackend \<Rightarrow> DatabaseBackend \<Rightarrow> nat \<Rightarrow> bool \<Rightarrow> FilterExpression option \<Rightarrow> OrmErrorCode + ReadPredicate" where
  "predicate_from_filter b filter_backend entity in_memory expression =
     (if filter_backend \<noteq> b \<or> in_memory then Inl AuthorizationMisconfigured
      else case expression of
        None \<Rightarrow> Inl AuthorizationMisconfigured
      | Some e \<Rightarrow> Inr \<lparr>rp_entity = entity, rp_backend = b, rp_expression = e\<rparr>)"

fun related_joins ::
  "DatabaseBackend \<Rightarrow> EntityShape \<Rightarrow> EntityShape \<Rightarrow> (str \<times> str) list \<Rightarrow> OrmErrorCode + str list" where
  "related_joins b S T [] = Inr []"
| "related_joins b S T ((source, destination) # keys) =
     (if source \<notin> set (es_columns S) \<or> destination \<notin> set (es_columns T)
      then Inl AuthorizationMisconfigured
      else case related_joins b S T keys of
        Inl e \<Rightarrow> Inl e
      | Inr joins \<Rightarrow>
          Inr ((''__gom_visibility.'' @ quote_identifier b destination @ '' = '' @
                quote_identifier_path b (es_table S) @ ''.'' @ quote_identifier b source) # joins))"

definition predicate_related ::
  "DatabaseBackend \<Rightarrow> EntityShape \<Rightarrow> EntityShape \<Rightarrow> (str \<times> str) list \<Rightarrow> ReadPredicate
    \<Rightarrow> OrmErrorCode + ReadPredicate" where
  "predicate_related b S T keys target =
     (if keys = [] \<or> rp_entity target \<noteq> es_type_id T \<or> rp_backend target \<noteq> b
      then Inl AuthorizationMisconfigured
      else case related_joins b S T keys of
        Inl e \<Rightarrow> Inl e
      | Inr joins \<Rightarrow>
          (let (predicate, _, values) = render_filter_expression Sqlite (rp_expression target) 1 [];
               clause = ''EXISTS (SELECT 1 FROM (SELECT * FROM '' @ quote_identifier_path b (es_table T) @
                 '' WHERE '' @ predicate @ '') AS __gom_visibility WHERE '' @ join '' AND '' joins @ '')'' in
           Inr \<lparr>rp_entity = es_type_id S, rp_backend = b, rp_expression = TrustedFragment clause values\<rparr>))"

definition predicate_combine :: "ReadPredicate \<Rightarrow> ReadPredicate \<Rightarrow> bool \<Rightarrow> OrmErrorCode + ReadPredicate" where
  "predicate_combine p other both =
     (if rp_entity p \<noteq> rp_entity other \<or> rp_backend p \<noteq> rp_backend other
      then Inl AuthorizationMisconfigured
      else let expressions = [rp_expression p, rp_expression other] in
        Inr \<lparr>rp_entity = rp_entity p, rp_backend = rp_backend p,
             rp_expression = (if both then FAnd expressions else FOr expressions)\<rparr>)"

definition predicate_and :: "ReadPredicate \<Rightarrow> ReadPredicate \<Rightarrow> OrmErrorCode + ReadPredicate" where
  "predicate_and p other = predicate_combine p other True"

definition predicate_or :: "ReadPredicate \<Rightarrow> ReadPredicate \<Rightarrow> OrmErrorCode + ReadPredicate" where
  "predicate_or p other = predicate_combine p other False"

section \<open>Visibility of a request\<close>

datatype ReadVisibility =
  CallbackOnly | Prefilter ReadPredicate | Complete ReadPredicate | Unrestricted

fun predicate_expression :: "ReadVisibility \<Rightarrow> FilterExpression option" where
  "predicate_expression (Prefilter p) = Some (rp_expression p)"
| "predicate_expression (Complete p) = Some (rp_expression p)"
| "predicate_expression _ = None"

fun requires_residual_checks :: "ReadVisibility \<Rightarrow> bool" where
  "requires_residual_checks CallbackOnly \<longleftrightarrow> True"
| "requires_residual_checks (Prefilter p) \<longleftrightarrow> True"
| "requires_residual_checks _ \<longleftrightarrow> False"

fun validate_identity :: "ReadVisibility \<Rightarrow> nat option \<Rightarrow> DatabaseBackend \<Rightarrow> OrmErrorCode + unit" where
  "validate_identity (Prefilter p) entity b =
     (if Some (rp_entity p) \<noteq> entity \<or> rp_backend p \<noteq> b then Inl AuthorizationMisconfigured else Inr ())"
| "validate_identity (Complete p) entity b =
     (if Some (rp_entity p) \<noteq> entity \<or> rp_backend p \<noteq> b then Inl AuthorizationMisconfigured else Inr ())"
| "validate_identity _ entity b = Inr ()"

definition with_read_visibility ::
  "DatabaseBackend \<Rightarrow> nat \<Rightarrow> ReadVisibility \<Rightarrow> ('e, 'd) EntityQuery \<Rightarrow> OrmErrorCode + ('e, 'd) EntityQuery" where
  "with_read_visibility b entity vis q =
     (case validate_identity vis (Some entity) b of
        Inl e \<Rightarrow> Inl e
      | Inr _ \<Rightarrow>
          (case predicate_expression vis of
             None \<Rightarrow> Inr q
           | Some expression \<Rightarrow>
               (let (clause, _, values) = render_filter_expression Sqlite expression 1 [] in
                Inr (where_values (''('' @ clause @ '')'') values q))))"

text \<open>
  \<open>prepare_static_relation_filter\<close>. The entity check, the request's visibility and the field
  check (unknown fields are refused by it) are those of the database handle.
\<close>

record RelationAlternative =
  ra_validate :: "OrmErrorCode + unit"
  ra_in_memory :: bool
  ra_fields :: "str list"
  ra_expression :: "FilterExpression option"

fun alternative_expressions ::
  "(str \<Rightarrow> OrmErrorCode + unit) \<Rightarrow> RelationAlternative list \<Rightarrow> OrmErrorCode + FilterExpression list" where
  "alternative_expressions field_access [] = Inr []"
| "alternative_expressions field_access (a # rest) =
     and_then (ra_validate a)
       (if ra_in_memory a then Inl InvalidInput
        else and_then (check_all field_access (ra_fields a))
          (case alternative_expressions field_access rest of
             Inl e \<Rightarrow> Inl e
           | Inr es \<Rightarrow>
               Inr ((case ra_expression a of Some e \<Rightarrow> e | None \<Rightarrow> TrustedFragment ''1 = 1'' []) # es)))"

definition prepare_static_relation_filter ::
  "DatabaseBackend \<Rightarrow> EntityShape \<Rightarrow> EntityShape \<Rightarrow> nat \<Rightarrow> DatabaseBackend \<Rightarrow> (OrmErrorCode + unit)
    \<Rightarrow> (OrmErrorCode + ReadVisibility) \<Rightarrow> (str \<Rightarrow> OrmErrorCode + unit) \<Rightarrow> (str \<times> str) list
    \<Rightarrow> RelationAlternative list \<Rightarrow> OrmErrorCode + (str list \<times> SqlValue list)" where
  "prepare_static_relation_filter b S T filter_entity filter_backend entity_access vis field_access keys alternatives =
     (if filter_entity \<noteq> es_type_id T \<or> filter_backend \<noteq> b then Inl AuthorizationMisconfigured
      else and_then entity_access
        (case vis of
           Inl e \<Rightarrow> Inl e
         | Inr visibility \<Rightarrow>
             if requires_residual_checks visibility then Inl AuthorizationMisconfigured
             else case alternative_expressions field_access alternatives of
               Inl e \<Rightarrow> Inl e
             | Inr expressions \<Rightarrow>
                 (let expression =
                        (if expressions = [] then TrustedFragment ''1 = 0'' [] else FOr expressions);
                      expression =
                        (case predicate_expression visibility of
                           Some policy \<Rightarrow> FAnd [expression, policy]
                         | None \<Rightarrow> expression) in
                  case predicate_related b S T keys
                      \<lparr>rp_entity = es_type_id T, rp_backend = b, rp_expression = expression\<rparr> of
                    Inl e \<Rightarrow> Inl e
                  | Inr predicate \<Rightarrow>
                      (let (clause, _, values) = render_filter_expression Sqlite (rp_expression predicate) 1 [] in
                       if length values > 512 then Inl InvalidInput else Inr ([clause], values)))))"

section \<open>Laws of read predicates\<close>

lemma trim_Nil [simp]: "trim [] = []"
  using trim_length [of "[]"] by simp

lemma normalize_sqlite [simp]: "normalize_sql_placeholders Sqlite s n = s"
  by (simp add: normalize_sql_placeholders_def)

lemma supported_cond: "supported f \<Longrightarrow> filter_cond b f n \<noteq> None"
proof (induction f arbitrary: n)
  case (FAnd fs)
  then obtain f fs' where "fs = f # fs'" by (cases fs) auto
  with FAnd show ?case by (auto simp: Let_def)
next
  case (FOr fs)
  then show ?case by (simp add: Let_def)
qed auto

lemma predicate_not_text:
  assumes "predicate_not p = Inr p'"
  shows "\<exists>c. filter_cond Sqlite (rp_expression p) 1 = Some c \<and>
    rp_expression p' = TrustedFragment (cond_text (CNot c)) (filter_values (rp_expression p)) \<and>
    rp_entity p' = rp_entity p \<and> rp_backend p' = rp_backend p"
proof -
  from assms have s: "supported (rp_expression p)"
    by (auto simp: predicate_not_def split: if_splits)
  then obtain c where c: "filter_cond Sqlite (rp_expression p) 1 = Some c"
    using supported_cond by blast
  have "render_filter_expression Sqlite (rp_expression p) 1 [] =
      (cond_text c, 1 + length (filter_values (rp_expression p)), filter_values (rp_expression p))"
    using render_cond(1) [of Sqlite "rp_expression p" 1 "[]"] render_state(1) [of Sqlite "rp_expression p" 1 "[]"] c
    by (metis append_Nil opt_simps(2) prod.collapse)
  with assms s c show ?thesis by (auto simp: predicate_not_def)
qed

text \<open>
  C9. The negation of a read predicate is a real negation: when it is accepted its text is
  \<open>NOT (...)\<close> around the non-empty condition the predicate renders to, bound to the same values
  and the same entity and backend, and in three-valued logic it admits a row exactly when the
  predicate is false for it. A row for which the predicate is unknown is admitted by neither.
\<close>

theorem negation_admits_only_false:
  assumes "predicate_not p = Inr p'"
  shows "\<exists>c. cond_text c \<noteq> [] \<and> rp_expression p' = TrustedFragment (cond_text (CNot c)) (filter_values (rp_expression p)) \<and>
    fst (render_filter_expression Sqlite (rp_expression p) 1 []) = cond_text c \<and>
    rp_entity p' = rp_entity p \<and> rp_backend p' = rp_backend p \<and>
    (\<forall>L. cond_eval L c = filter_eval L Sqlite (rp_expression p) 1 \<and>
      (cond_eval L (CNot c) = Some True \<longleftrightarrow> filter_eval L Sqlite (rp_expression p) 1 = Some False))"
proof -
  obtain c where c: "filter_cond Sqlite (rp_expression p) 1 = Some c"
    and r: "rp_expression p' = TrustedFragment (cond_text (CNot c)) (filter_values (rp_expression p))"
      "rp_entity p' = rp_entity p" "rp_backend p' = rp_backend p"
    using predicate_not_text [OF assms] by blast
  have v: "cond_eval L c = filter_eval L Sqlite (rp_expression p) 1" for L
    using cond_value(1) [of L Sqlite "rp_expression p" 1] c by simp
  have "fst (render_filter_expression Sqlite (rp_expression p) 1 []) = cond_text c"
    using c by (simp add: render_cond(1))
  then show ?thesis
    using r v filter_cond_nonempty(1) [OF c] by (intro exI [of _ c]) simp
qed

theorem negation_admits_only_false_witness:
  "\<exists>c. cond_text c \<noteq> [] \<and>
    (\<forall>L. cond_eval L (CNot c) = Some True \<longleftrightarrow> filter_eval L Sqlite (FOr [Raw ''a = ?'' [SvInt 1], Raw ''b IS NULL'' []]) 1 = Some False)"
proof -
  let ?p = "\<lparr>rp_entity = 1, rp_backend = Postgres, rp_expression = FOr [Raw ''a = ?'' [SvInt 1], Raw ''b IS NULL'' []]\<rparr>"
  have "\<exists>p'. predicate_not ?p = Inr p'"
  proof -
    have "trim ''a = ?'' \<noteq> []" "trim ''b IS NULL'' \<noteq> []" by code_simp+
    then show ?thesis by (simp add: predicate_not_def split_beta)
  qed
  then obtain p' where "predicate_not ?p = Inr p'" by blast
  from negation_admits_only_false [OF this] show ?thesis by auto
qed

end
