(* ===== verification/Keyset.thy ===== *)
theory Keyset
  imports Visibility
begin

text \<open>
  Keyset pagination: the cursors of \<open>src/crates/graphql-orm/src/graphql/pagination.rs\<close>, and the
  order columns and bound predicates of \<open>orm/query.rs\<close>. The JSON reader and writer of the cursor
  envelope and the UUID reader belong to other crates and are arguments.
\<close>

section \<open>Cursors\<close>

datatype KeysetValue =
    KvNull | KvString str | KvInt int | KvFloat "64 word" | KvBool bool | KvUuid str | KvBytes str

record KeysetCursorEnvelope =
  ce_version :: nat
  ce_order :: str
  ce_values :: "KeysetValue list"
  ce_checksum :: str

text \<open>
  \<open>payload\<close> is \<open>serde_json::to_vec\<close> of the tuple that is hashed, \<open>write\<close> and \<open>read\<close> are
  \<open>to_vec\<close> and \<open>from_slice\<close> of the envelope.
\<close>

record CursorCodec =
  cc_payload :: "nat \<times> str \<times> KeysetValue list \<Rightarrow> str"
  cc_write :: "KeysetCursorEnvelope \<Rightarrow> str"
  cc_read :: "str \<Rightarrow> KeysetCursorEnvelope option"

definition encode_cursor :: "int \<Rightarrow> str" where
  "encode_cursor offset = show_int offset"

definition cursor_checksum :: "CursorCodec \<Rightarrow> nat \<Rightarrow> str \<Rightarrow> KeysetValue list \<Rightarrow> str" where
  "cursor_checksum cc version order vs = hex16 (fnv1a64 (cc_payload cc (version, order, vs)))"

definition encode_keyset_cursor :: "CursorCodec \<Rightarrow> str \<Rightarrow> KeysetValue list \<Rightarrow> str" where
  "encode_keyset_cursor cc order vs =
     ''gomk1.'' @ hex_encode (cc_write cc
       \<lparr>ce_version = 1, ce_order = order, ce_values = vs, ce_checksum = cursor_checksum cc 1 order vs\<rparr>)"

definition decode_keyset_cursor ::
  "CursorCodec \<Rightarrow> str \<Rightarrow> str \<Rightarrow> nat \<Rightarrow> OrmErrorCode + KeysetValue list" where
  "decode_keyset_cursor cc cursor expected_order expected_values =
     (case Option.bind (strip_prefix ''gomk1.'' cursor) hex_decode of
        None \<Rightarrow> Inl CursorInvalid
      | Some payload \<Rightarrow>
          (case cc_read cc payload of
             None \<Rightarrow> Inl CursorInvalid
           | Some envelope \<Rightarrow>
               if ce_version envelope \<noteq> 1 \<or> ce_order envelope \<noteq> expected_order
                 \<or> length (ce_values envelope) \<noteq> expected_values
                 \<or> ce_checksum envelope \<noteq>
                     cursor_checksum cc (ce_version envelope) (ce_order envelope) (ce_values envelope)
               then Inl CursorInvalid
               else Inr (ce_values envelope)))"

section \<open>Page requests\<close>

record KeysetPageInput =
  kp_after :: "str option"
  kp_limit :: "int option"
  kp_include_total_count :: bool

record KeysetConnectionInput =
  kc_after :: "str option"
  kc_before :: "str option"
  kc_first :: "int option"
  kc_last :: "int option"
  kc_include_total_count :: bool

datatype KeysetWindowDirection = Forward | Backward

record ValidatedKeysetConnection =
  vk_direction :: KeysetWindowDirection
  vk_cursor :: "str option"
  vk_limit :: int
  vk_include_total_count :: bool

definition validate_connection ::
  "KeysetConnectionInput \<Rightarrow> int \<Rightarrow> int \<Rightarrow> OrmErrorCode + ValidatedKeysetConnection" where
  "validate_connection i default_limit maximum_limit =
     (if default_limit \<le> 0 \<or> maximum_limit \<le> 0 then Inl AuthorizationMisconfigured
      else if kc_first i \<noteq> None \<and> kc_last i \<noteq> None
        \<or> kc_after i \<noteq> None \<and> kc_before i \<noteq> None
        \<or> kc_last i \<noteq> None \<and> kc_after i \<noteq> None
        \<or> kc_first i \<noteq> None \<and> kc_before i \<noteq> None
        \<or> kc_before i \<noteq> None \<and> kc_last i = None
      then Inl InvalidInput
      else
        (let (direction, cursor, requested) =
               (case kc_last i of
                  Some n \<Rightarrow> (Backward, kc_before i, n)
                | None \<Rightarrow>
                    (Forward, kc_after i, case kc_first i of Some n \<Rightarrow> n | None \<Rightarrow> default_limit)) in
         if requested \<le> 0 then Inl InvalidInput
         else Inr \<lparr>vk_direction = direction, vk_cursor = cursor, vk_limit = min requested maximum_limit,
                   vk_include_total_count = kc_include_total_count i\<rparr>))"

section \<open>Order columns\<close>

datatype KeysetDirection = KAsc | KDesc

datatype KeysetNulls = NullsFirst | NullsLast

record KeysetOrderColumn =
  ko_column :: str
  ko_direction :: KeysetDirection
  ko_nulls :: KeysetNulls

definition order_asc :: "str \<Rightarrow> KeysetOrderColumn" where
  "order_asc column = \<lparr>ko_column = column, ko_direction = KAsc, ko_nulls = NullsLast\<rparr>"

definition order_desc :: "str \<Rightarrow> KeysetOrderColumn" where
  "order_desc column = \<lparr>ko_column = column, ko_direction = KDesc, ko_nulls = NullsLast\<rparr>"

definition nulls_first :: "KeysetOrderColumn \<Rightarrow> KeysetOrderColumn" where
  "nulls_first c = c\<lparr>ko_nulls := NullsFirst\<rparr>"

definition reversed :: "KeysetOrderColumn \<Rightarrow> KeysetOrderColumn" where
  "reversed c =
     c\<lparr>ko_direction := (case ko_direction c of KAsc \<Rightarrow> KDesc | KDesc \<Rightarrow> KAsc),
       ko_nulls := (case ko_nulls c of NullsFirst \<Rightarrow> NullsLast | NullsLast \<Rightarrow> NullsFirst)\<rparr>"

definition null_rank :: "KeysetOrderColumn \<Rightarrow> nat" where
  "null_rank c = (case ko_nulls c of NullsFirst \<Rightarrow> 0 | NullsLast \<Rightarrow> 1)"

definition order_sql :: "KeysetOrderColumn \<Rightarrow> str" where
  "order_sql c =
     (let direction = (case ko_direction c of KAsc \<Rightarrow> ''ASC'' | KDesc \<Rightarrow> ''DESC'') in
      ''CASE WHEN '' @ ko_column c @ '' IS NULL THEN '' @ show_nat (null_rank c) @ '' ELSE '' @
      show_nat (1 - null_rank c) @ '' END ASC, '' @ ko_column c @ '' '' @ direction)"

section \<open>Bound predicates\<close>

fun keyset_sql_value :: "(str \<Rightarrow> uuid option) \<Rightarrow> KeysetValue \<Rightarrow> SqlValue option" where
  "keyset_sql_value pu KvNull = None"
| "keyset_sql_value pu (KvString v) = Some (SvString v)"
| "keyset_sql_value pu (KvInt v) = Some (SvInt v)"
| "keyset_sql_value pu (KvFloat v) = Some (SvFloat v)"
| "keyset_sql_value pu (KvBool v) = Some (SvBool v)"
| "keyset_sql_value pu (KvUuid v) = map_option SvUuid (pu v)"
| "keyset_sql_value pu (KvBytes v) = Some (SvBytes v)"

text \<open>The equality terms of the columns before the compared one.\<close>

fun prior_terms ::
  "(str \<Rightarrow> uuid option) \<Rightarrow> DatabaseBackend \<Rightarrow> nat \<Rightarrow> (KeysetOrderColumn \<times> KeysetValue) list
    \<Rightarrow> str list \<Rightarrow> SqlValue list \<Rightarrow> OrmErrorCode + (str list \<times> SqlValue list)" where
  "prior_terms pu b start [] terms values = Inr (terms, values)"
| "prior_terms pu b start ((column, value) # rest) terms values =
     (if value = KvNull then prior_terms pu b start rest (terms @ [ko_column column @ '' IS NULL'']) values
      else case keyset_sql_value pu value of
        None \<Rightarrow> Inl CursorInvalid
      | Some v \<Rightarrow>
          prior_terms pu b start rest
            (terms @ [ko_column column @ '' = '' @ placeholder b (start + length values)]) (values @ [v]))"

definition scalar_term :: "DatabaseBackend \<Rightarrow> KeysetOrderColumn \<Rightarrow> str \<Rightarrow> nat \<Rightarrow> str" where
  "scalar_term b column operator index =
     ko_column column @ '' '' @ operator @ '' '' @ placeholder b index"

definition after_comparison ::
  "(str \<Rightarrow> uuid option) \<Rightarrow> DatabaseBackend \<Rightarrow> nat \<Rightarrow> KeysetOrderColumn \<Rightarrow> KeysetValue \<Rightarrow> SqlValue list
    \<Rightarrow> OrmErrorCode + (str \<times> SqlValue list)" where
  "after_comparison pu b start column value values =
     (if value = KvNull then
        Inr (case ko_nulls column of
               NullsFirst \<Rightarrow> ko_column column @ '' IS NOT NULL''
             | NullsLast \<Rightarrow> ''1 = 0'', values)
      else case keyset_sql_value pu value of
        None \<Rightarrow> Inl CursorInvalid
      | Some v \<Rightarrow>
          (let operator = (case ko_direction column of KAsc \<Rightarrow> ''>'' | KDesc \<Rightarrow> ''<'');
               scalar = scalar_term b column operator (start + length values) in
           Inr (case ko_nulls column of
                  NullsFirst \<Rightarrow> ''('' @ ko_column column @ '' IS NOT NULL AND '' @ scalar @ '')''
                | NullsLast \<Rightarrow> ''('' @ ko_column column @ '' IS NULL OR '' @ scalar @ '')'', values @ [v])))"

definition before_comparison ::
  "(str \<Rightarrow> uuid option) \<Rightarrow> DatabaseBackend \<Rightarrow> nat \<Rightarrow> KeysetOrderColumn \<Rightarrow> KeysetValue \<Rightarrow> SqlValue list
    \<Rightarrow> OrmErrorCode + (str \<times> SqlValue list)" where
  "before_comparison pu b start column value values =
     (if value = KvNull then
        Inr (case ko_nulls column of
               NullsFirst \<Rightarrow> ''1 = 0''
             | NullsLast \<Rightarrow> ko_column column @ '' IS NOT NULL'', values)
      else case keyset_sql_value pu value of
        None \<Rightarrow> Inl CursorInvalid
      | Some v \<Rightarrow>
          (let operator = (case ko_direction column of KAsc \<Rightarrow> ''<'' | KDesc \<Rightarrow> ''>'');
               scalar = scalar_term b column operator (start + length values) in
           Inr (case ko_nulls column of
                  NullsFirst \<Rightarrow> ''('' @ ko_column column @ '' IS NULL OR '' @ scalar @ '')''
                | NullsLast \<Rightarrow> ''('' @ ko_column column @ '' IS NOT NULL AND '' @ scalar @ '')'', values @ [v])))"

text \<open>
  The loop over the compared column, \<open>for index in 0..columns.len()\<close>; both predicates share it
  and differ in the comparison.
\<close>

fun keyset_branches ::
  "(KeysetOrderColumn \<Rightarrow> KeysetValue \<Rightarrow> SqlValue list \<Rightarrow> OrmErrorCode + (str \<times> SqlValue list))
    \<Rightarrow> (str \<Rightarrow> uuid option) \<Rightarrow> DatabaseBackend \<Rightarrow> nat \<Rightarrow> (KeysetOrderColumn \<times> KeysetValue) list
    \<Rightarrow> nat list \<Rightarrow> str list \<Rightarrow> SqlValue list \<Rightarrow> OrmErrorCode + (str list \<times> SqlValue list)" where
  "keyset_branches comparison pu b start key [] branches values = Inr (branches, values)"
| "keyset_branches comparison pu b start key (index # rest) branches values =
     (case prior_terms pu b start (take index key) [] values of
        Inl e \<Rightarrow> Inl e
      | Inr (terms, values) \<Rightarrow>
          (case comparison (fst (key ! index)) (snd (key ! index)) values of
             Inl e \<Rightarrow> Inl e
           | Inr (term, values) \<Rightarrow>
               keyset_branches comparison pu b start key rest
                 (branches @ [''('' @ join '' AND '' (terms @ [term]) @ '')'']) values))"

definition render_keyset_after ::
  "(str \<Rightarrow> uuid option) \<Rightarrow> DatabaseBackend \<Rightarrow> KeysetOrderColumn list \<Rightarrow> KeysetValue list \<Rightarrow> nat
    \<Rightarrow> OrmErrorCode + (str \<times> SqlValue list)" where
  "render_keyset_after pu b columns cursor start_index =
     (if length columns \<noteq> length cursor \<or> columns = [] then Inl CursorInvalid
      else case keyset_branches (after_comparison pu b start_index) pu b start_index
          (zip columns cursor) [0 ..< length columns] [] [] of
        Inl e \<Rightarrow> Inl e
      | Inr (branches, values) \<Rightarrow> Inr (join '' OR '' branches, values))"

definition render_keyset_before ::
  "(str \<Rightarrow> uuid option) \<Rightarrow> DatabaseBackend \<Rightarrow> KeysetOrderColumn list \<Rightarrow> KeysetValue list \<Rightarrow> nat
    \<Rightarrow> OrmErrorCode + (str \<times> SqlValue list)" where
  "render_keyset_before pu b columns cursor start_index =
     (if length columns \<noteq> length cursor \<or> columns = [] then Inl CursorInvalid
      else case keyset_branches (before_comparison pu b start_index) pu b start_index
          (zip columns cursor) [0 ..< length columns] [] [] of
        Inl e \<Rightarrow> Inl e
      | Inr (branches, values) \<Rightarrow> Inr (''('' @ join '' OR '' branches @ '')'', values))"

section \<open>The order of keys\<close>

text \<open>
  A key is the list of a row's values in the order columns, \<open>None\<close> for NULL. \<open>key_less\<close> is the
  lexicographic order the columns describe. The order of the values themselves is the database's.
\<close>

fun col_less :: "KeysetOrderColumn \<Rightarrow> 'v::linorder option \<Rightarrow> 'v option \<Rightarrow> bool" where
  "col_less c None None \<longleftrightarrow> False"
| "col_less c None (Some y) \<longleftrightarrow> ko_nulls c = NullsFirst"
| "col_less c (Some x) None \<longleftrightarrow> ko_nulls c = NullsLast"
| "col_less c (Some x) (Some y) \<longleftrightarrow> (case ko_direction c of KAsc \<Rightarrow> x < y | KDesc \<Rightarrow> y < x)"

fun key_less :: "KeysetOrderColumn list \<Rightarrow> 'v::linorder option list \<Rightarrow> 'v option list \<Rightarrow> bool" where
  "key_less (c # cs) (x # xs) (y # ys) \<longleftrightarrow> col_less c x y \<or> x = y \<and> key_less cs xs ys"
| "key_less _ _ _ \<longleftrightarrow> False"

lemma col_less_irrefl [simp]: "\<not> col_less c x x"
  by (cases x) (auto split: KeysetDirection.splits)

lemma col_less_trans: "col_less c x y \<Longrightarrow> col_less c y z \<Longrightarrow> col_less c x z"
  by (cases x; cases y; cases z; cases "ko_nulls c"; cases "ko_direction c") auto

lemma col_less_total: "x \<noteq> y \<Longrightarrow> col_less c x y \<or> col_less c y x"
  by (cases x; cases y; cases "ko_nulls c"; cases "ko_direction c") auto

lemma key_less_neq: "key_less cs xs ys \<Longrightarrow> xs \<noteq> ys"
  by (induction cs xs ys rule: key_less.induct) auto

lemma key_less_irrefl: "\<not> key_less cs xs xs"
  using key_less_neq by blast

lemma key_less_trans: "key_less cs xs ys \<Longrightarrow> key_less cs ys zs \<Longrightarrow> key_less cs xs zs"
proof (induction cs xs ys arbitrary: zs rule: key_less.induct)
  case (1 c cs x xs y ys)
  then show ?case by (cases zs) (auto dest: col_less_trans)
qed auto

lemma key_less_total:
  "length xs = length cs \<Longrightarrow> length ys = length cs \<Longrightarrow> xs \<noteq> ys \<Longrightarrow> key_less cs xs ys \<or> key_less cs ys xs"
proof (induction cs xs ys rule: key_less.induct)
  case (1 c cs x xs y ys)
  then show ?case using col_less_total [of x y c] by auto
qed auto

lemma reversed_column [simp]: "ko_column (reversed c) = ko_column c"
  by (simp add: reversed_def)

lemma col_less_reversed: "col_less (reversed c) x y \<longleftrightarrow> col_less c y x"
  by (cases x; cases y; cases "ko_nulls c"; cases "ko_direction c") (auto simp: reversed_def)

lemma key_less_reversed: "key_less (map reversed cs) xs ys \<longleftrightarrow> key_less cs ys xs"
proof (induction cs xs ys rule: key_less.induct)
  case (1 c cs x xs y ys)
  then show ?case by (auto simp: col_less_reversed)
qed auto

lemma key_less_iff:
  assumes "length xs = length cs" "length ys = length cs"
  shows "key_less cs xs ys \<longleftrightarrow> (\<exists>i < length cs. take i xs = take i ys \<and> col_less (cs ! i) (xs ! i) (ys ! i))"
  using assms
proof (induction cs xs ys rule: key_less.induct)
  case (1 c cs x xs y ys)
  have "(\<exists>i < length (c # cs). take i (x # xs) = take i (y # ys) \<and> col_less ((c # cs) ! i) ((x # xs) ! i) ((y # ys) ! i))
      \<longleftrightarrow> col_less c x y \<or> x = y \<and> (\<exists>i < length cs. take i xs = take i ys \<and> col_less (cs ! i) (xs ! i) (ys ! i))"
    by (auto simp: less_Suc_eq_0_disj)
  with 1 show ?case by simp
qed auto

text \<open>
  The same order through the terms of \<open>order_sql\<close>: ascending by the rank of the null test, then
  by the column in its direction.
\<close>

definition sort_terms_less :: "KeysetOrderColumn \<Rightarrow> 'v::linorder option \<Rightarrow> 'v option \<Rightarrow> bool" where
  "sort_terms_less c x y \<longleftrightarrow>
     (let rank = (\<lambda>v. if v = None then null_rank c else 1 - null_rank c) in
      rank x < rank y \<or>
      rank x = rank y \<and> x \<noteq> None \<and> y \<noteq> None \<and>
        (case ko_direction c of KAsc \<Rightarrow> the x < the y | KDesc \<Rightarrow> the y < the x))"

lemma sort_terms_order: "sort_terms_less c x y \<longleftrightarrow> col_less c x y"
  by (cases x; cases y; cases "ko_nulls c"; cases "ko_direction c")
    (auto simp: sort_terms_less_def null_rank_def)

section \<open>Meaning of the bound predicates\<close>

datatype key_pred =
    PNull str | PNotNull str | PEq str nat | PLess str nat | PGreater str nat | PNever
  | PAll "key_pred list" | PAny "key_pred list"

fun pred_text :: "DatabaseBackend \<Rightarrow> key_pred \<Rightarrow> str" where
  "pred_text b (PNull c) = c @ '' IS NULL''"
| "pred_text b (PNotNull c) = c @ '' IS NOT NULL''"
| "pred_text b (PEq c k) = c @ '' = '' @ placeholder b k"
| "pred_text b (PLess c k) = c @ '' < '' @ placeholder b k"
| "pred_text b (PGreater c k) = c @ '' > '' @ placeholder b k"
| "pred_text b PNever = ''1 = 0''"
| "pred_text b (PAll ps) = ''('' @ join '' AND '' (map (pred_text b) ps) @ '')''"
| "pred_text b (PAny ps) = ''('' @ join '' OR '' (map (pred_text b) ps) @ '')''"

definition compare_value :: "(str \<Rightarrow> 'v option) \<Rightarrow> str \<Rightarrow> ('v \<Rightarrow> bool) \<Rightarrow> tv" where
  "compare_value row c P = map_option P (row c)"

fun pred_eval :: "(str \<Rightarrow> 'v::linorder option) \<Rightarrow> (nat \<Rightarrow> 'v) \<Rightarrow> key_pred \<Rightarrow> tv" where
  "pred_eval row env (PNull c) = Some (row c = None)"
| "pred_eval row env (PNotNull c) = Some (row c \<noteq> None)"
| "pred_eval row env (PEq c k) = compare_value row c (\<lambda>x. x = env k)"
| "pred_eval row env (PLess c k) = compare_value row c (\<lambda>x. x < env k)"
| "pred_eval row env (PGreater c k) = compare_value row c (\<lambda>x. env k < x)"
| "pred_eval row env PNever = Some False"
| "pred_eval row env (PAll ps) = tv_and (map (pred_eval row env) ps)"
| "pred_eval row env (PAny ps) = tv_or (map (pred_eval row env) ps)"

text \<open>The placeholders of a predicate in the order they are written.\<close>

fun pred_slots :: "key_pred \<Rightarrow> nat list" where
  "pred_slots (PEq c k) = [k]"
| "pred_slots (PLess c k) = [k]"
| "pred_slots (PGreater c k) = [k]"
| "pred_slots (PAll ps) = concat (map pred_slots ps)"
| "pred_slots (PAny ps) = concat (map pred_slots ps)"
| "pred_slots _ = []"

fun prior_preds :: "nat \<Rightarrow> (KeysetOrderColumn \<times> KeysetValue) list \<Rightarrow> key_pred list" where
  "prior_preds n [] = []"
| "prior_preds n ((c, v) # rest) =
     (if v = KvNull then PNull (ko_column c) # prior_preds n rest
      else PEq (ko_column c) n # prior_preds (n + 1) rest)"

definition after_pred :: "nat \<Rightarrow> KeysetOrderColumn \<Rightarrow> KeysetValue \<Rightarrow> key_pred" where
  "after_pred n c v =
     (if v = KvNull then
        (case ko_nulls c of NullsFirst \<Rightarrow> PNotNull (ko_column c) | NullsLast \<Rightarrow> PNever)
      else let scalar = (case ko_direction c of KAsc \<Rightarrow> PGreater (ko_column c) n | KDesc \<Rightarrow> PLess (ko_column c) n) in
        case ko_nulls c of
          NullsFirst \<Rightarrow> PAll [PNotNull (ko_column c), scalar]
        | NullsLast \<Rightarrow> PAny [PNull (ko_column c), scalar])"

definition before_pred :: "nat \<Rightarrow> KeysetOrderColumn \<Rightarrow> KeysetValue \<Rightarrow> key_pred" where
  "before_pred n c v =
     (if v = KvNull then
        (case ko_nulls c of NullsFirst \<Rightarrow> PNever | NullsLast \<Rightarrow> PNotNull (ko_column c))
      else let scalar = (case ko_direction c of KAsc \<Rightarrow> PLess (ko_column c) n | KDesc \<Rightarrow> PGreater (ko_column c) n) in
        case ko_nulls c of
          NullsFirst \<Rightarrow> PAny [PNull (ko_column c), scalar]
        | NullsLast \<Rightarrow> PAll [PNotNull (ko_column c), scalar])"

definition key_binds :: "(str \<Rightarrow> uuid option) \<Rightarrow> KeysetValue list \<Rightarrow> SqlValue list" where
  "key_binds pu vs = map (\<lambda>v. the (keyset_sql_value pu v)) (filter (\<lambda>v. v \<noteq> KvNull) vs)"

definition readable_key :: "(str \<Rightarrow> uuid option) \<Rightarrow> KeysetValue list \<Rightarrow> bool" where
  "readable_key pu vs \<longleftrightarrow> list_all (\<lambda>v. v = KvNull \<or> keyset_sql_value pu v \<noteq> None) vs"

definition bind_count :: "(KeysetOrderColumn \<times> KeysetValue) list \<Rightarrow> nat" where
  "bind_count key = length (filter (\<lambda>v. v \<noteq> KvNull) (map snd key))"

fun branch_preds ::
  "(nat \<Rightarrow> KeysetOrderColumn \<Rightarrow> KeysetValue \<Rightarrow> key_pred) \<Rightarrow> nat \<Rightarrow> (KeysetOrderColumn \<times> KeysetValue) list
    \<Rightarrow> nat list \<Rightarrow> key_pred list" where
  "branch_preds cmp n key [] = []"
| "branch_preds cmp n key (i # rest) =
     PAll (prior_preds n (take i key) @ [cmp (n + bind_count (take i key)) (fst (key ! i)) (snd (key ! i))])
       # branch_preds cmp (n + bind_count (take (Suc i) key)) key rest"

text \<open>The bind values of the branches, in order.\<close>

definition branch_binds ::
  "(str \<Rightarrow> uuid option) \<Rightarrow> (KeysetOrderColumn \<times> KeysetValue) list \<Rightarrow> nat list \<Rightarrow> SqlValue list" where
  "branch_binds pu key is = concat (map (\<lambda>i. key_binds pu (map snd (take (Suc i) key))) is)"

section \<open>Both predicates against the order\<close>

definition agrees :: "(SqlValue \<Rightarrow> 'v) \<Rightarrow> (nat \<Rightarrow> 'v) \<Rightarrow> nat \<Rightarrow> SqlValue list \<Rightarrow> bool" where
  "agrees val env n vs \<longleftrightarrow> (\<forall>i < length vs. env (n + i) = val (vs ! i))"

definition cursor_key :: "(str \<Rightarrow> uuid option) \<Rightarrow> (SqlValue \<Rightarrow> 'v) \<Rightarrow> KeysetValue list \<Rightarrow> 'v option list" where
  "cursor_key pu val vs = map (\<lambda>v. map_option val (keyset_sql_value pu v)) vs"

definition row_key :: "KeysetOrderColumn list \<Rightarrow> (str \<Rightarrow> 'v option) \<Rightarrow> 'v option list" where
  "row_key cols row = map (\<lambda>c. row (ko_column c)) cols"

lemma agrees_append:
  "agrees val env n (xs @ ys) \<longleftrightarrow> agrees val env n xs \<and> agrees val env (n + length xs) ys"
proof -
  have "agrees val env (n + length xs) ys" if "agrees val env n (xs @ ys)"
    unfolding agrees_def
  proof (intro allI impI)
    fix i assume "i < length ys"
    with that [unfolded agrees_def, rule_format, of "length xs + i"]
    show "env (n + length xs + i) = val (ys ! i)" by (simp add: add.assoc)
  qed
  moreover have "agrees val env n (xs @ ys)" if "agrees val env n xs" "agrees val env (n + length xs) ys"
    unfolding agrees_def
  proof (intro allI impI)
    fix i assume "i < length (xs @ ys)"
    with that(1) [unfolded agrees_def, rule_format, of i] that(2) [unfolded agrees_def, rule_format, of "i - length xs"]
    show "env (n + i) = val ((xs @ ys) ! i)" by (cases "i < length xs") (auto simp: nth_append)
  qed
  moreover have "agrees val env n xs" if "agrees val env n (xs @ ys)"
    using that unfolding agrees_def by (metis length_append nth_append trans_less_add1)
  ultimately show ?thesis by blast
qed

lemma agrees_Cons: "agrees val env n (x # xs) \<longleftrightarrow> env n = val x \<and> agrees val env (Suc n) xs"
  using agrees_append [of val env n "[x]" xs] by (simp add: agrees_def)

lemma keyset_value_None: "keyset_sql_value pu v = None \<Longrightarrow> v \<noteq> KvNull \<Longrightarrow> \<exists>u. v = KvUuid u"
  by (cases v) auto

lemma key_binds_simps [simp]:
  "key_binds pu [] = []"
  "key_binds pu (v # vs) = (if v = KvNull then [] else [the (keyset_sql_value pu v)]) @ key_binds pu vs"
  "key_binds pu (vs @ ws) = key_binds pu vs @ key_binds pu ws"
  by (auto simp: key_binds_def)

lemma key_binds_length [simp]: "length (key_binds pu (map snd key)) = bind_count key"
  by (simp add: key_binds_def bind_count_def)

lemma bind_count_simps [simp]:
  "bind_count [] = 0" "bind_count ((c, v) # key) = (if v = KvNull then bind_count key else Suc (bind_count key))"
  by (simp_all add: bind_count_def)

lemma bind_count_Suc:
  "i < length key \<Longrightarrow> bind_count (take (Suc i) key) = bind_count (take i key) + (if snd (key ! i) = KvNull then 0 else 1)"
  by (simp add: bind_count_def take_Suc_conv_app_nth)

lemma readable_key_simps [simp]:
  "readable_key pu []"
  "readable_key pu (v # vs) \<longleftrightarrow> (v = KvNull \<or> keyset_sql_value pu v \<noteq> None) \<and> readable_key pu vs"
  by (simp_all add: readable_key_def)

lemma prior_terms_ok:
  assumes "readable_key pu (map snd key)"
  shows "prior_terms pu b start key terms binds =
    Inr (terms @ map (pred_text b) (prior_preds (start + length binds) key), binds @ key_binds pu (map snd key))"
  using assms
proof (induction key arbitrary: terms binds)
  case (Cons p key)
  obtain c v where p: "p = (c, v)" by (cases p)
  show ?case
  proof (cases "v = KvNull")
    case True
    with Cons p show ?thesis by simp
  next
    case False
    with Cons(2) p obtain x where "keyset_sql_value pu v = Some x" by auto
    with Cons p False show ?thesis by simp
  qed
qed simp

lemma prior_terms_error:
  "\<not> readable_key pu (map snd key) \<Longrightarrow> prior_terms pu b start key terms binds = Inl CursorInvalid"
  by (induction pu b start key terms binds rule: prior_terms.induct) (auto split: option.splits if_splits)

lemma prior_preds_slots:
  "concat (map pred_slots (prior_preds n key)) = [n ..< n + bind_count key]"
  by (induction n key rule: prior_preds.induct) (auto simp: upt_conv_Cons simp del: upt_Suc)

lemma prior_preds_true:
  assumes "readable_key pu (map snd key)" "agrees val env n (key_binds pu (map snd key))"
  shows "(\<forall>p \<in> set (prior_preds n key). pred_eval row env p = Some True) \<longleftrightarrow>
    row_key (map fst key) row = cursor_key pu val (map snd key)"
  using assms
proof (induction n key rule: prior_preds.induct)
  case (2 n c v key)
  show ?case
  proof (cases "v = KvNull")
    case True
    with 2 show ?thesis by (simp add: row_key_def cursor_key_def)
  next
    case False
    with 2(3) obtain x where "keyset_sql_value pu v = Some x" by auto
    with 2 False show ?thesis
      by (auto simp: row_key_def cursor_key_def agrees_Cons compare_value_def)
  qed
qed (simp add: row_key_def cursor_key_def)

lemma pred_any_true:
  "pred_eval row env (PAny ps) = Some True \<longleftrightarrow> (\<exists>p \<in> set ps. pred_eval row env p = Some True)"
  by simp (metis imageE image_eqI)

lemma pred_all_true:
  "pred_eval row env (PAll (ps @ [q])) = Some True \<longleftrightarrow>
     (\<forall>p \<in> set ps. pred_eval row env p = Some True) \<and> pred_eval row env q = Some True"
  by auto

lemma after_pred_true:
  assumes "readable_key pu [v]" "agrees val env n (key_binds pu [v])"
  shows "pred_eval row env (after_pred n c v) = Some True \<longleftrightarrow>
    col_less c (map_option val (keyset_sql_value pu v)) (row (ko_column c))"
  using assms by (cases "row (ko_column c)"; cases "ko_nulls c"; cases "ko_direction c")
    (auto simp: after_pred_def agrees_def compare_value_def)

lemma before_pred_true:
  assumes "readable_key pu [v]" "agrees val env n (key_binds pu [v])"
  shows "pred_eval row env (before_pred n c v) = Some True \<longleftrightarrow>
    col_less c (row (ko_column c)) (map_option val (keyset_sql_value pu v))"
  using assms by (cases "row (ko_column c)"; cases "ko_nulls c"; cases "ko_direction c")
    (auto simp: before_pred_def agrees_def compare_value_def)

text \<open>
  What a comparison of one column promises: its text and binds, its error, its truth as a
  relation between the cursor's value and the row's, and its placeholder.
\<close>

locale key_comparison =
  fixes pu :: "str \<Rightarrow> uuid option" and b :: DatabaseBackend and start :: nat
    and comparison :: "KeysetOrderColumn \<Rightarrow> KeysetValue \<Rightarrow> SqlValue list \<Rightarrow> OrmErrorCode + (str \<times> SqlValue list)"
    and cmp :: "nat \<Rightarrow> KeysetOrderColumn \<Rightarrow> KeysetValue \<Rightarrow> key_pred"
    and rel :: "KeysetOrderColumn \<Rightarrow> 'v::linorder option \<Rightarrow> 'v option \<Rightarrow> bool"
  assumes comparison_ok: "readable_key pu [v] \<Longrightarrow>
      comparison c v binds = Inr (pred_text b (cmp (start + length binds) c v), binds @ key_binds pu [v])"
    and comparison_error: "\<not> readable_key pu [v] \<Longrightarrow> comparison c v binds = Inl CursorInvalid"
    and cmp_true: "readable_key pu [v] \<Longrightarrow> agrees val env n (key_binds pu [v]) \<Longrightarrow>
      pred_eval row env (cmp n c v) = Some True \<longleftrightarrow>
        rel c (map_option val (keyset_sql_value pu v)) (row (ko_column c))"
    and cmp_slots: "pred_slots (cmp n c v) = (if v = KvNull then [] else [n])"
begin

lemma readable_take: "readable_key pu (map snd key) \<Longrightarrow> readable_key pu (map snd (take i key))"
  by (auto simp: readable_key_def list_all_iff dest: in_set_takeD)

lemma branches_ok:
  assumes "readable_key pu (map snd key)" "\<forall>i \<in> set is. i < length key"
  shows "keyset_branches comparison pu b start key is branches binds =
    Inr (branches @ map (pred_text b) (branch_preds cmp (start + length binds) key is), binds @ branch_binds pu key is)"
  using assms
proof (induction "is" arbitrary: branches binds)
  case (Cons i rest)
  let ?prior = "binds @ key_binds pu (map snd (take i key))"
  have r: "readable_key pu [snd (key ! i)]"
    using Cons(2,3) by (auto simp: readable_key_def list_all_iff)
  have t: "key_binds pu (map snd (take (Suc i) key)) = key_binds pu (map snd (take i key)) @ key_binds pu [snd (key ! i)]"
    using Cons(3) by (simp add: take_Suc_conv_app_nth del: key_binds_simps(2))
  have l: "length (key_binds pu [snd (key ! i)]) = (if snd (key ! i) = KvNull then 0 else 1)" by simp
  show ?case
    using Cons(1) [OF Cons(2), of "branches @ [pred_text b (PAll (prior_preds (start + length binds) (take i key) @
        [cmp (start + length ?prior) (fst (key ! i)) (snd (key ! i))]))]" "?prior @ key_binds pu [snd (key ! i)]"] Cons(3)
    by (simp add: prior_terms_ok [OF readable_take [OF Cons(2)]] comparison_ok [OF r] branch_binds_def t
        bind_count_Suc l add.assoc del: key_binds_simps(2))
qed (simp add: branch_binds_def)

lemma branches_slots:
  assumes "\<forall>i \<in> set is. i < length key"
  shows "concat (map pred_slots (branch_preds cmp n key is)) = [n ..< n + length (branch_binds pu key is)]"
  using assms
proof (induction "is" arbitrary: n)
  case (Cons i rest)
  let ?k = "bind_count (take i key)" and ?m = "bind_count (take (Suc i) key)"
  have "[n ..< n + ?m] = [n ..< n + ?k] @ (if snd (key ! i) = KvNull then [] else [n + ?k])"
    using Cons(2) by (simp add: bind_count_Suc)
  moreover have "[n ..< n + (?m + length (branch_binds pu key rest))] = [n ..< n + ?m] @ [n + ?m ..< n + ?m + length (branch_binds pu key rest)]"
    using upt_add_eq_append [of n "n + ?m"] by (simp add: add.assoc)
  ultimately show ?case
    using Cons(1) [of "n + ?m"] Cons(2)
    by (simp add: prior_preds_slots cmp_slots branch_binds_def)
qed (simp add: branch_binds_def)

lemma branches_error:
  assumes "\<not> readable_key pu (map snd key)" "i < length key" "\<not> readable_key pu [snd (key ! i)]" "i \<in> set is"
  shows "keyset_branches comparison pu b start key is branches binds = Inl CursorInvalid"
  using assms(4)
proof (induction "is" arbitrary: branches binds)
  case (Cons j rest)
  show ?case
  proof (cases "readable_key pu (map snd (take j key)) \<and> readable_key pu [snd (key ! j)]")
    case False
    then show ?thesis
      by (cases "readable_key pu (map snd (take j key))")
        (simp_all add: prior_terms_error prior_terms_ok comparison_error)
  next
    case True
    with assms(3) Cons(2) have "i \<in> set rest" by auto
    with Cons(1) True show ?thesis by (simp add: prior_terms_ok comparison_ok)
  qed
qed simp

lemma branches_true:
  assumes "readable_key pu (map snd key)" "\<forall>i \<in> set is. i < length key"
    and "agrees val env n (branch_binds pu key is)"
  shows "(\<exists>p \<in> set (branch_preds cmp n key is). pred_eval row env p = Some True) \<longleftrightarrow>
    (\<exists>i \<in> set is. take i (row_key (map fst key) row) = take i (cursor_key pu val (map snd key)) \<and>
      rel (fst (key ! i)) (cursor_key pu val (map snd key) ! i) (row_key (map fst key) row ! i))"
  using assms
proof (induction "is" arbitrary: n)
  case (Cons i rest)
  have i: "i < length key" and r: "readable_key pu [snd (key ! i)]"
    using Cons(2,3) by (auto simp: readable_key_def list_all_iff)
  have t: "key_binds pu (map snd (take (Suc i) key)) = key_binds pu (map snd (take i key)) @ key_binds pu [snd (key ! i)]"
    using i by (simp add: take_Suc_conv_app_nth del: key_binds_simps(2))
  have a: "agrees val env n (key_binds pu (map snd (take i key)))"
      "agrees val env (n + bind_count (take i key)) (key_binds pu [snd (key ! i)])"
      "agrees val env (n + bind_count (take (Suc i) key)) (branch_binds pu key rest)"
    using Cons(4) agrees_append [of val env n "key_binds pu (map snd (take (Suc i) key))"]
    by (auto simp: branch_binds_def t agrees_append bind_count_Suc i add.assoc split: if_splits)
  have "row_key (map fst (take i key)) row = take i (row_key (map fst key) row)"
      "cursor_key pu val (map snd (take i key)) = take i (cursor_key pu val (map snd key))"
    by (simp_all add: row_key_def cursor_key_def take_map)
  moreover have "cursor_key pu val (map snd key) ! i = map_option val (keyset_sql_value pu (snd (key ! i)))"
      "row_key (map fst key) row ! i = row (ko_column (fst (key ! i)))"
    using i by (simp_all add: row_key_def cursor_key_def)
  ultimately have "pred_eval row env (PAll (prior_preds n (take i key) @
        [cmp (n + bind_count (take i key)) (fst (key ! i)) (snd (key ! i))])) = Some True \<longleftrightarrow>
      take i (row_key (map fst key) row) = take i (cursor_key pu val (map snd key)) \<and>
      rel (fst (key ! i)) (cursor_key pu val (map snd key) ! i) (row_key (map fst key) row ! i)"
    using prior_preds_true [OF readable_take [OF Cons(2)] a(1), of row] cmp_true [OF r a(2), of row "fst (key ! i)"]
    by (simp only: pred_all_true)
  with Cons(1) [OF Cons(2) _ a(3)] Cons(3) show ?case by (simp del: pred_eval.simps)
qed simp

lemma predicate_text:
  assumes "length cols = length cursor" "readable_key pu cursor"
  shows "keyset_branches comparison pu b start (zip cols cursor) [0 ..< length cols] [] [] =
    Inr (map (pred_text b) (branch_preds cmp start (zip cols cursor) [0 ..< length cols]),
      branch_binds pu (zip cols cursor) [0 ..< length cols])"
  using branches_ok [of "zip cols cursor" "[0 ..< length cols]" "[]" "[]"] assms by simp

lemma predicate_slots:
  assumes "length cols = length cursor"
  shows "concat (map pred_slots (branch_preds cmp n (zip cols cursor) [0 ..< length cols])) =
    [n ..< n + length (branch_binds pu (zip cols cursor) [0 ..< length cols])]"
  using branches_slots [of "[0 ..< length cols]" "zip cols cursor" n] assms by simp

lemma predicate_true:
  assumes "length cols = length cursor" "readable_key pu cursor"
    and "agrees val env n (branch_binds pu (zip cols cursor) [0 ..< length cols])"
  shows "pred_eval row env (PAny (branch_preds cmp n (zip cols cursor) [0 ..< length cols])) = Some True \<longleftrightarrow>
    (\<exists>i < length cols. take i (row_key cols row) = take i (cursor_key pu val cursor) \<and>
      rel (cols ! i) (cursor_key pu val cursor ! i) (row_key cols row ! i))"
proof -
  let ?key = "zip cols cursor" and ?is = "[0 ..< length cols]"
  have "map fst ?key = cols" "map snd ?key = cursor" "\<forall>i \<in> set ?is. i < length ?key"
    using assms(1) by simp_all
  then show ?thesis
    using branches_true [of ?key ?is val env n row] assms
    by (simp add: pred_any_true atLeast0LessThan lessThan_iff Bex_def del: upt_Suc pred_eval.simps)
qed

lemma predicate_error:
  assumes "length cols = length cursor" "\<not> readable_key pu cursor"
  shows "keyset_branches comparison pu b start (zip cols cursor) [0 ..< length cols] [] [] = Inl CursorInvalid"
proof -
  obtain i where "i < length cursor" "\<not> readable_key pu [cursor ! i]"
    using assms(2) by (auto simp: readable_key_def list_all_length)
  with branches_error [of "zip cols cursor" i "[0 ..< length cols]"] assms show ?thesis by simp
qed

end

interpretation after: key_comparison pu b start "after_comparison pu b start" after_pred col_less for pu b start
  by unfold_locales
    (simp_all only: after_pred_true, auto simp: after_comparison_def after_pred_def scalar_term_def Let_def
      split: option.splits KeysetNulls.splits KeysetDirection.splits)

interpretation before: key_comparison pu b start "before_comparison pu b start" before_pred "\<lambda>c x y. col_less c y x"
  for pu b start
  by unfold_locales
    (simp_all only: before_pred_true, auto simp: before_comparison_def before_pred_def scalar_term_def Let_def
      split: option.splits KeysetNulls.splits KeysetDirection.splits)

section \<open>Properties of cursors and predicates\<close>

lemma row_key_length [simp]: "length (row_key cols row) = length cols"
  by (simp add: row_key_def)

lemma cursor_key_length [simp]: "length (cursor_key pu val vs) = length vs"
  by (simp add: cursor_key_def)

lemma after_true:
  assumes "length cols = length cursor" "readable_key pu cursor"
    and "agrees val env n (branch_binds pu (zip cols cursor) [0 ..< length cols])"
  shows "pred_eval row env (PAny (branch_preds after_pred n (zip cols cursor) [0 ..< length cols])) = Some True \<longleftrightarrow>
    key_less cols (cursor_key pu val cursor) (row_key cols row)"
  using after.predicate_true [OF assms, of row] key_less_iff [of "cursor_key pu val cursor" cols "row_key cols row"] assms(1)
  by (auto simp: eq_commute [of "take _ (row_key _ _)"] simp del: pred_eval.simps)

lemma before_true:
  assumes "length cols = length cursor" "readable_key pu cursor"
    and "agrees val env n (branch_binds pu (zip cols cursor) [0 ..< length cols])"
  shows "pred_eval row env (PAny (branch_preds before_pred n (zip cols cursor) [0 ..< length cols])) = Some True \<longleftrightarrow>
    key_less cols (row_key cols row) (cursor_key pu val cursor)"
  using before.predicate_true [OF assms, of row] key_less_iff [of "row_key cols row" cols "cursor_key pu val cursor"] assms(1)
  by (simp del: pred_eval.simps)

lemma keyset_text:
  assumes "length cols = length cursor" "cols \<noteq> []" "readable_key pu cursor"
  shows "render_keyset_after pu b cols cursor start =
      Inr (join '' OR '' (map (pred_text b) (branch_preds after_pred start (zip cols cursor) [0 ..< length cols])),
        branch_binds pu (zip cols cursor) [0 ..< length cols])"
    and "render_keyset_before pu b cols cursor start =
      Inr (pred_text b (PAny (branch_preds before_pred start (zip cols cursor) [0 ..< length cols])),
        branch_binds pu (zip cols cursor) [0 ..< length cols])"
  using after.predicate_text [OF assms(1,3), of b start] before.predicate_text [OF assms(1,3), of b start] assms
  by (simp_all add: render_keyset_after_def render_keyset_before_def)

text \<open>
  C2. The rendered keyset predicates mean the order they page through. For order columns and a
  readable cursor the \<open>after\<close> predicate is the text of a disjunction whose placeholders are
  numbered consecutively, one per bind value, and which in three-valued logic is true exactly for
  the rows whose key follows the cursor in the lexicographic order with the directions and null
  placements of the columns; the \<open>before\<close> predicate is true exactly for the rows that precede it.
\<close>

theorem keyset_predicates_exact:
  assumes "length cols = length cursor" "cols \<noteq> []" "readable_key pu cursor"
  shows "(\<exists>ps binds. render_keyset_after pu b cols cursor start = Inr (join '' OR '' (map (pred_text b) ps), binds) \<and>
      concat (map pred_slots ps) = [start ..< start + length binds] \<and>
      (\<forall>val env row. agrees val env start binds \<longrightarrow>
        (pred_eval row env (PAny ps) = Some True \<longleftrightarrow>
          key_less cols (cursor_key pu val cursor) (row_key cols (row :: str \<Rightarrow> 'v::linorder option))))) \<and>
    (\<exists>ps binds. render_keyset_before pu b cols cursor start = Inr (pred_text b (PAny ps), binds) \<and>
      concat (map pred_slots ps) = [start ..< start + length binds] \<and>
      (\<forall>val env row. agrees val env start binds \<longrightarrow>
        (pred_eval row env (PAny ps) = Some True \<longleftrightarrow>
          key_less cols (row_key cols (row :: str \<Rightarrow> 'v::linorder option)) (cursor_key pu val cursor))))"
  using keyset_text [OF assms, of b start]
    after_true [OF assms(1,3), where 'a = 'v] before_true [OF assms(1,3), where 'a = 'v]
    after.predicate_slots [OF assms(1)] before.predicate_slots [OF assms(1)]
  by (intro conjI exI) (auto simp del: pred_eval.simps pred_text.simps)

theorem keyset_predicates_exact_witness:
  "\<exists>ps binds. render_keyset_after (\<lambda>_. None) Postgres [order_desc ''rank'', order_asc ''id''] [KvNull, KvInt 3] 2 =
      Inr (join '' OR '' (map (pred_text Postgres) ps), binds) \<and>
    (\<forall>val env row. agrees val env 2 binds \<longrightarrow>
      (pred_eval row env (PAny ps) = Some True \<longleftrightarrow>
        key_less [order_desc ''rank'', order_asc ''id'']
          (cursor_key (\<lambda>_. None) val [KvNull, KvInt 3])
          (row_key [order_desc ''rank'', order_asc ''id''] (row :: str \<Rightarrow> int option))))"
  using keyset_predicates_exact [where cols = "[order_desc ''rank'', order_asc ''id'']" and cursor = "[KvNull, KvInt 3]"
      and pu = "\<lambda>_. None" and b = Postgres and start = 2 and 'v = int]
  by (simp del: pred_eval.simps) blast

lemma keyset_predicate_errors:
  assumes "length cols \<noteq> length cursor \<or> cols = [] \<or> \<not> readable_key pu cursor"
  shows "render_keyset_after pu b cols cursor start = Inl CursorInvalid \<and>
    render_keyset_before pu b cols cursor start = Inl CursorInvalid"
  using assms after.predicate_error [of cols cursor pu b start] before.predicate_error [of cols cursor pu b start]
  by (auto simp: render_keyset_after_def render_keyset_before_def)

text \<open>
  C10. A cursor opens only the listing it was issued for: decoding an encoded cursor gives back
  its values when the order fingerprint and the number of values match, and is an invalid-cursor
  error for every other fingerprint or length. The one assumption is that the JSON reader
  returns the envelope that was written.
\<close>

theorem cursor_bound_to_order:
  assumes "cc_read cc (cc_write cc \<lparr>ce_version = 1, ce_order = order, ce_values = vs,
      ce_checksum = cursor_checksum cc 1 order vs\<rparr>) =
    Some \<lparr>ce_version = 1, ce_order = order, ce_values = vs, ce_checksum = cursor_checksum cc 1 order vs\<rparr>"
  shows "decode_keyset_cursor cc (encode_keyset_cursor cc order vs) expected n =
    (if expected = order \<and> n = length vs then Inr vs else Inl CursorInvalid)"
proof -
  have "strip_prefix ''gomk1.'' (''gomk1.'' @ t) = Some t" for t
    by (simp add: strip_prefix_Some)
  then show ?thesis
    using assms by (auto simp: decode_keyset_cursor_def encode_keyset_cursor_def simp del: append.simps)
qed

definition sample_codec :: CursorCodec where
  "sample_codec =
     \<lparr>cc_payload = (\<lambda>_. ''p''), cc_write = ce_order,
      cc_read = (\<lambda>s. Some \<lparr>ce_version = 1, ce_order = s, ce_values = [KvInt 7], ce_checksum = hex16 (fnv1a64 ''p'')\<rparr>)\<rparr>"

theorem cursor_bound_to_order_witness:
  "decode_keyset_cursor sample_codec (encode_keyset_cursor sample_codec ''id'' [KvInt 7]) ''id'' 1 = Inr [KvInt 7] \<and>
   decode_keyset_cursor sample_codec (encode_keyset_cursor sample_codec ''id'' [KvInt 7]) ''name'' 1 = Inl CursorInvalid"
proof -
  have "cc_read sample_codec (cc_write sample_codec \<lparr>ce_version = 1, ce_order = ''id'', ce_values = [KvInt 7],
      ce_checksum = cursor_checksum sample_codec 1 ''id'' [KvInt 7]\<rparr>) =
    Some \<lparr>ce_version = 1, ce_order = ''id'', ce_values = [KvInt 7], ce_checksum = cursor_checksum sample_codec 1 ''id'' [KvInt 7]\<rparr>"
    by (simp add: sample_codec_def cursor_checksum_def)
  from cursor_bound_to_order [OF this] show ?thesis by simp
qed

text \<open>
  Accepted page requests: one direction, a positive limit within the maximum, and the cursor of
  that direction; every other request is refused.
\<close>

lemma validate_connection_cases:
  "validate_connection i default_limit maximum_limit = Inr v \<Longrightarrow>
     1 \<le> vk_limit v \<and> vk_limit v \<le> maximum_limit \<and>
     vk_include_total_count v = kc_include_total_count i \<and>
     (case vk_direction v of
        Forward \<Rightarrow> kc_last i = None \<and> kc_before i = None \<and> vk_cursor v = kc_after i \<and>
          vk_limit v = min (case kc_first i of Some n \<Rightarrow> n | None \<Rightarrow> default_limit) maximum_limit
      | Backward \<Rightarrow> kc_first i = None \<and> kc_after i = None \<and> vk_cursor v = kc_before i \<and>
          vk_limit v = min (the (kc_last i)) maximum_limit)"
  by (auto simp: validate_connection_def Let_def split: if_splits option.splits)

end
