(* ===== verification/Paging.thy ===== *)
theory Paging
  imports Keyset
begin

text \<open>
  Authorized pages of \<open>src/crates/graphql-orm/src/graphql/orm/authorized_pagination.rs\<close>: order
  fingerprints, keyset bounds on a query, the bidirectional connection and the bounded scan.
  The database handle, hashing, encryption and the JSON text of an order are arguments.
\<close>

text \<open>The \<open>?\<close> operator.\<close>

fun attempt :: "'e + 'a \<Rightarrow> ('a \<Rightarrow> 'e + 'b) \<Rightarrow> 'e + 'b" where
  "attempt (Inl e) k = Inl e"
| "attempt (Inr x) k = k x"

lemma attempt_Inr: "attempt r k = Inr y \<longleftrightarrow> (\<exists>x. r = Inr x \<and> k x = Inr y)"
  by (cases r) auto

section \<open>Entities and orders\<close>

record KeysetField =
  kf_column :: str
  kf_api_name :: str
  kf_read_policy :: "str option"

record KeysetCursorField =
  kcf_column :: str
  kcf_api_name :: str
  kcf_read_policy :: "str option"
  kcf_graphql_readable :: bool

record 'e KeysetEntity =
  ke_type_id :: nat
  ke_entity_name :: str
  ke_order :: "KeysetOrderColumn list"
  ke_fingerprint :: str
  ke_cursor_fields :: "KeysetCursorField list"
  ke_fields :: "KeysetField list"
  ke_primary_columns :: "str list"
  ke_values :: "'e \<Rightarrow> KeysetValue list"

definition keyset_value_for_column :: "'e KeysetEntity \<Rightarrow> 'e \<Rightarrow> str \<Rightarrow> KeysetValue option" where
  "keyset_value_for_column T node column =
     (case find (\<lambda>i. ko_column (ke_order T ! i) = column) [0 ..< length (ke_order T)] of
        None \<Rightarrow> None
      | Some i \<Rightarrow> if i < length (ke_values T node) then Some (ke_values T node ! i) else None)"

text \<open>
  \<open>digest\<close> is the hexadecimal SHA-256 of the debug text of the filter identities.
\<close>

definition bind_keyset_fingerprint ::
  "(str list \<Rightarrow> str) \<Rightarrow> str option \<Rightarrow> str \<Rightarrow> str list \<Rightarrow> str" where
  "bind_keyset_fingerprint digest entity fingerprint filter_identities =
     (let bound = (case entity of
            Some e \<Rightarrow> ''entity-v1:'' @ e @ '':'' @ fingerprint
          | None \<Rightarrow> fingerprint) in
      if filter_identities \<noteq> [] then bound @ '':filter-v1:'' @ digest filter_identities else bound)"

text \<open>The requested columns must be known and distinct; \<open>seen\<close> collects them.\<close>

fun check_order :: "'e KeysetEntity \<Rightarrow> KeysetOrderColumn list \<Rightarrow> str list \<Rightarrow> OrmErrorCode + str list" where
  "check_order T [] seen = Inr seen"
| "check_order T (part # rest) seen =
     (if ko_column part \<notin> kf_column ` set (ke_fields T) \<or> ko_column part \<in> set seen
      then Inl InvalidInput
      else check_order T rest (ko_column part # seen))"

fun append_keys ::
  "'e KeysetEntity \<Rightarrow> str list \<Rightarrow> KeysetOrderColumn list \<Rightarrow> str list \<Rightarrow> OrmErrorCode + KeysetOrderColumn list" where
  "append_keys T [] order seen = Inr order"
| "append_keys T (column # rest) order seen =
     (if column \<notin> kf_column ` set (ke_fields T) then Inl InvalidInput
      else if column \<notin> set seen then append_keys T rest (order @ [order_asc column]) (column # seen)
      else append_keys T rest order seen)"

text \<open>\<open>order_json\<close> is the JSON text of the column, ascending and nulls-first triples.\<close>

definition runtime_keyset_order ::
  "((str \<times> bool \<times> bool) list \<Rightarrow> str) \<Rightarrow> 'e KeysetEntity \<Rightarrow> KeysetOrderColumn list
    \<Rightarrow> OrmErrorCode + (KeysetOrderColumn list \<times> str)" where
  "runtime_keyset_order order_json T order =
     (if order = [] \<or> length order > length (ke_fields T) then Inl InvalidInput
      else attempt (check_order T order []) (\<lambda>seen.
        if ke_primary_columns T = [] then Inl InvalidInput
        else attempt (append_keys T (ke_primary_columns T) order seen) (\<lambda>order.
          let fingerprint = order_json
                (map (\<lambda>part. (ko_column part, ko_direction part = KAsc, ko_nulls part = NullsFirst)) order) in
          Inr (order, ''runtime-keyset-v1:'' @ ke_entity_name T @ '':'' @ fingerprint))))"

section \<open>Bounds on a query\<close>

fun equal_terms ::
  "(str \<Rightarrow> uuid option) \<Rightarrow> DatabaseBackend \<Rightarrow> nat \<Rightarrow> (KeysetOrderColumn \<times> KeysetValue) list
    \<Rightarrow> str list \<Rightarrow> SqlValue list \<Rightarrow> OrmErrorCode + (str list \<times> SqlValue list)" where
  "equal_terms pu b taken [] equal binds = Inr (equal, binds)"
| "equal_terms pu b taken ((column, value) # rest) equal binds =
     (if value = KvNull then equal_terms pu b taken rest (equal @ [ko_column column @ '' IS NULL'']) binds
      else case keyset_sql_value pu value of
        None \<Rightarrow> Inl InvalidInput
      | Some v \<Rightarrow>
          equal_terms pu b taken rest
            (equal @ [ko_column column @ '' = '' @ placeholder b (taken + length binds + 1)]) (binds @ [v]))"

definition keyset_bound_with_order ::
  "(str \<Rightarrow> uuid option) \<Rightarrow> DatabaseBackend \<Rightarrow> KeysetOrderColumn list \<Rightarrow> KeysetValue list \<Rightarrow> bool \<Rightarrow> bool
    \<Rightarrow> ('e, 'd) EntityQuery \<Rightarrow> OrmErrorCode + ('e, 'd) EntityQuery" where
  "keyset_bound_with_order pu b order vs before inclusive q =
     attempt (if before then render_keyset_before pu b order vs (length (eq_values q) + 1)
          else render_keyset_after pu b order vs (length (eq_values q) + 1)) (\<lambda>(clause, binds).
       if inclusive then
         attempt (equal_terms pu b (length (eq_values q)) (zip order vs) [] binds) (\<lambda>(equal, binds).
           Inr (where_values (''('' @ clause @ '') OR ('' @ join '' AND '' equal @ '')'') binds q))
       else Inr (where_values clause binds q))"

section \<open>The database handle\<close>

text \<open>
  What a page uses of the request and the database: whether there is a GraphQL context, the
  entity, row and field policies, the pagination configuration, and reading and counting.
\<close>

record ('e, 'd) Host =
  h_has_ctx :: bool
  h_entity_access :: "OrmErrorCode + unit"
  h_visibility :: "OrmErrorCode + ReadVisibility"
  h_field_access :: "str \<Rightarrow> str option \<Rightarrow> 'e option \<Rightarrow> OrmErrorCode + unit"
  h_repository_fields :: "(str \<times> str option) list"
  h_can_read_row :: "'e \<Rightarrow> OrmErrorCode + bool"
  h_pagination_config :: PaginationConfig
  h_fetch_all :: "('e, 'd) EntityQuery \<Rightarrow> OrmErrorCode + 'e list"
  h_count :: "('e, 'd) EntityQuery \<Rightarrow> OrmErrorCode + int"

text \<open>
  \<open>fetch_all_with_auth_and_pagination\<close> over a database that runs rendered statements; the host's
  \<open>h_fetch_all\<close> is this function with the unbounded configuration.
\<close>

definition entity_fetch_all ::
  "DatabaseBackend \<Rightarrow> EntityInfo \<Rightarrow> (RenderedQuery \<Rightarrow> OrmErrorCode + 'e list) \<Rightarrow> 'd \<Rightarrow> PaginationConfig
    \<Rightarrow> ('e, 'd) EntityQuery \<Rightarrow> OrmErrorCode + 'e list" where
  "entity_fetch_all b ei run today cfg q =
     attempt (build_select_query_with_config b ei q cfg False) (\<lambda>sel.
       attempt (run (render_select_query b sel)) (\<lambda>rows.
         apply_in_memory_filtering q today rows cfg False))"

definition authorize_pagination :: "('e, 'd) Host \<Rightarrow> OrmErrorCode + ReadVisibility" where
  "authorize_pagination h = attempt (h_entity_access h) (\<lambda>_. h_visibility h)"

definition authorize_page_fields :: "('e, 'd) Host \<Rightarrow> 'e list \<Rightarrow> OrmErrorCode + unit" where
  "authorize_page_fields h rows =
     (if \<not> h_has_ctx h then
        check_all (\<lambda>row. check_all (\<lambda>(api, policy). h_field_access h api policy (Some row))
          (h_repository_fields h)) rows
      else Inr ())"

definition order_field_access ::
  "('e, 'd) Host \<Rightarrow> 'e KeysetEntity \<Rightarrow> bool \<Rightarrow> 'e option \<Rightarrow> KeysetOrderColumn \<Rightarrow> OrmErrorCode + unit" where
  "order_field_access h T runtime row part =
     attempt (if runtime then
            (case find (\<lambda>f. kf_column f = ko_column part) (ke_fields T) of
               None \<Rightarrow> Inl AuthorizationMisconfigured
             | Some f \<Rightarrow> Inr (kf_api_name f, kf_read_policy f, True))
          else
            (case find (\<lambda>f. kcf_column f = ko_column part) (ke_cursor_fields T) of
               None \<Rightarrow> Inl AuthorizationMisconfigured
             | Some f \<Rightarrow> Inr (kcf_api_name f, kcf_read_policy f, kcf_graphql_readable f)))
       (\<lambda>(api, policy, graphql_readable).
          if h_has_ctx h \<and> \<not> graphql_readable then Inl Forbidden
          else h_field_access h api policy row)"

definition authorize_keyset_order_fields ::
  "('e, 'd) Host \<Rightarrow> 'e KeysetEntity \<Rightarrow> KeysetOrderColumn list \<Rightarrow> bool \<Rightarrow> 'e option \<Rightarrow> OrmErrorCode + unit" where
  "authorize_keyset_order_fields h T order runtime row = check_all (order_field_access h T runtime row) order"

definition bounded_rows :: "('e, 'd) Host \<Rightarrow> ('e, 'd) EntityQuery \<Rightarrow> int \<Rightarrow> OrmErrorCode + 'e list" where
  "bounded_rows h q limit = h_fetch_all h (paginate \<lparr>pi_limit = Some limit, pi_offset = Some 0\<rparr> q)"

definition check_repository_candidates ::
  "('e, 'd) Host \<Rightarrow> ReadVisibility \<Rightarrow> 'e list \<Rightarrow> OrmErrorCode + unit" where
  "check_repository_candidates h vis rows =
     (if requires_residual_checks vis then
        check_all (\<lambda>row. attempt (h_can_read_row h row) (\<lambda>ok. if ok then Inr () else Inl Forbidden)) rows
      else Inr ())"

section \<open>Connections\<close>

record PageInfo =
  pg_has_next_page :: bool
  pg_has_previous_page :: bool
  pg_start_cursor :: "str option"
  pg_end_cursor :: "str option"
  pg_total_count :: "int option"

record 'e Edge =
  edge_node :: 'e
  edge_cursor :: str

record 'e Connection =
  cn_edges :: "'e Edge list"
  cn_page_info :: PageInfo

text \<open>The cryptographic and JSON functions of other crates.\<close>

record Codecs =
  cx_cursor :: CursorCodec
  cx_parse_uuid :: "str \<Rightarrow> uuid option"
  cx_digest :: "str list \<Rightarrow> str"
  cx_order_json :: "(str \<times> bool \<times> bool) list \<Rightarrow> str"

fun collect_values :: "'e KeysetEntity \<Rightarrow> 'e \<Rightarrow> KeysetOrderColumn list \<Rightarrow> OrmErrorCode + KeysetValue list" where
  "collect_values T node [] = Inr []"
| "collect_values T node (part # rest) =
     (case keyset_value_for_column T node (ko_column part) of
        None \<Rightarrow> Inl InvalidInput
      | Some v \<Rightarrow> attempt (collect_values T node rest) (\<lambda>vs. Inr (v # vs)))"

definition values_for ::
  "'e KeysetEntity \<Rightarrow> KeysetOrderColumn list \<Rightarrow> bool \<Rightarrow> 'e \<Rightarrow> OrmErrorCode + KeysetValue list" where
  "values_for T order runtime node =
     (if \<not> runtime then Inr (ke_values T node) else collect_values T node order)"

fun encode_edges ::
  "CursorCodec \<Rightarrow> str \<Rightarrow> ('e \<Rightarrow> OrmErrorCode + KeysetValue list) \<Rightarrow> 'e list \<Rightarrow> OrmErrorCode + 'e Edge list" where
  "encode_edges cc fingerprint vf [] = Inr []"
| "encode_edges cc fingerprint vf (node # nodes) =
     attempt (vf node) (\<lambda>vs.
       attempt (encode_edges cc fingerprint vf nodes) (\<lambda>edges.
         Inr (\<lparr>edge_node = node, edge_cursor = encode_keyset_cursor cc fingerprint vs\<rparr> # edges)))"

definition page_limit :: "('e, 'd) Host \<Rightarrow> int option \<Rightarrow> int" where
  "page_limit h requested =
     max (case pr_limit (resolve_page (h_pagination_config h)
              (Some \<lparr>pi_limit = requested, pi_offset = Some 0\<rparr>) True) of
            Some l \<Rightarrow> l
          | None \<Rightarrow> DEFAULT_LIMIT) 1"

definition i64_saturating_succ :: "int \<Rightarrow> int" where
  "i64_saturating_succ x = min (x + 1) i64_max"

definition transpose_option :: "('e + 'a) option \<Rightarrow> 'e + 'a option" where
  "transpose_option r = (case r of None \<Rightarrow> Inr None | Some x \<Rightarrow> attempt x (\<lambda>v. Inr (Some v)))"

text \<open>
  The two reads of a connection on the authorized base query: the page itself in the requested
  direction, one row longer than the page, and the probe in the opposite direction.
\<close>

definition read_page ::
  "Codecs \<Rightarrow> DatabaseBackend \<Rightarrow> ('e, 'd) Host \<Rightarrow> ReadVisibility \<Rightarrow> KeysetOrderColumn list \<Rightarrow> bool
    \<Rightarrow> KeysetValue list option \<Rightarrow> int \<Rightarrow> ('e, 'd) EntityQuery \<Rightarrow> OrmErrorCode + ('e list \<times> bool)" where
  "read_page cx b h vis order backward after limit base =
     attempt (case after of
            Some vs \<Rightarrow> keyset_bound_with_order (cx_parse_uuid cx) b order vs backward False base
          | None \<Rightarrow> Inr base) (\<lambda>query.
       let query = (if backward
             then query\<lparr>eq_order_clauses := map (\<lambda>c. order_sql (reversed c)) order\<rparr> else query) in
       attempt (bounded_rows h query (i64_saturating_succ limit)) (\<lambda>nodes.
         attempt (check_repository_candidates h vis nodes) (\<lambda>_.
           Inr (take (nat limit) nodes, length nodes > nat limit))))"

definition probe_opposite ::
  "Codecs \<Rightarrow> DatabaseBackend \<Rightarrow> ('e, 'd) Host \<Rightarrow> ReadVisibility \<Rightarrow> KeysetOrderColumn list
    \<Rightarrow> ('e \<Rightarrow> OrmErrorCode + KeysetValue list) \<Rightarrow> bool \<Rightarrow> KeysetValue list option \<Rightarrow> 'e list
    \<Rightarrow> ('e, 'd) EntityQuery \<Rightarrow> OrmErrorCode + bool" where
  "probe_opposite cx b h vis order vf backward after nodes base =
     attempt (transpose_option (case nodes of [] \<Rightarrow> None | node # _ \<Rightarrow> Some (vf node))) (\<lambda>first.
       case (case first of Some vs \<Rightarrow> Some vs | None \<Rightarrow> after) of
         None \<Rightarrow> Inr False
       | Some vs \<Rightarrow>
           attempt (keyset_bound_with_order (cx_parse_uuid cx) b order vs (\<not> backward) (nodes = []) base) (\<lambda>q.
             attempt (bounded_rows h q 1) (\<lambda>probe.
               attempt (check_repository_candidates h vis probe) (\<lambda>_. Inr (probe \<noteq> [])))))"

definition fetch_authorized_keyset_connection_with_order ::
  "Codecs \<Rightarrow> DatabaseBackend \<Rightarrow> 'e KeysetEntity \<Rightarrow> ('e, 'd) Host \<Rightarrow> KeysetConnectionInput
    \<Rightarrow> KeysetOrderColumn list option \<Rightarrow> ('e, 'd) EntityQuery \<Rightarrow> OrmErrorCode + 'e Connection" where
  "fetch_authorized_keyset_connection_with_order cx b T h page order self =
     attempt (transpose_option (map_option (runtime_keyset_order (cx_order_json cx) T) order)) (\<lambda>runtime.
     let (order, fingerprint) =
           (case runtime of Some r \<Rightarrow> r | None \<Rightarrow> (ke_order T, ke_fingerprint T));
         is_runtime = (runtime \<noteq> None);
         vf = values_for T order is_runtime in
     attempt (validate_connection page DEFAULT_LIMIT i64_max) (\<lambda>page.
     let backward = (vk_direction page = Backward) in
     attempt (authorize_pagination h) (\<lambda>vis.
     attempt (authorize_keyset_order_fields h T order is_runtime None) (\<lambda>_.
     if requires_residual_checks vis \<and> (h_has_ctx h \<or> vk_include_total_count page)
     then Inl AuthorizationMisconfigured
     else if requires_in_memory_filtering self then Inl InvalidInput
     else attempt (with_read_visibility b (ke_type_id T) vis self) (\<lambda>base.
     let base = base\<lparr>eq_page := None, eq_order_clauses := map order_sql order, eq_order_values := []\<rparr>;
         limit = page_limit h (Some (vk_limit page));
         fingerprint = bind_keyset_fingerprint (cx_digest cx)
           (if is_runtime then None else Some (ke_entity_name T)) fingerprint
           (eq_keyset_filter_identities base) in
     attempt (transpose_option (map_option
            (\<lambda>c. decode_keyset_cursor (cx_cursor cx) c fingerprint (length order)) (vk_cursor page))) (\<lambda>after.
     attempt (if vk_include_total_count page then attempt (h_count h base) (\<lambda>n. Inr (Some n)) else Inr None) (\<lambda>total_count.
     attempt (read_page cx b h vis order backward after limit base) (\<lambda>(nodes, has_more).
     attempt (probe_opposite cx b h vis order vf backward after nodes base) (\<lambda>opposite.
     let nodes = (if backward then rev nodes else nodes);
         (has_next_page, has_previous_page) =
           (if backward then (opposite, has_more) else (has_more, opposite)) in
     attempt (authorize_page_fields h nodes) (\<lambda>_.
     attempt (check_all (\<lambda>node. authorize_keyset_order_fields h T order is_runtime (Some node)) nodes) (\<lambda>_.
     attempt (authorize_keyset_order_fields h T order is_runtime None) (\<lambda>_.
     attempt (encode_edges (cx_cursor cx) fingerprint vf nodes) (\<lambda>edges.
     Inr \<lparr>cn_edges = edges,
          cn_page_info =
            \<lparr>pg_has_next_page = has_next_page, pg_has_previous_page = has_previous_page,
             pg_start_cursor = (case edges of [] \<Rightarrow> None | e # _ \<Rightarrow> Some (edge_cursor e)),
             pg_end_cursor = (if edges = [] then None else Some (edge_cursor (last edges))),
             pg_total_count = total_count\<rparr>\<rparr>)))))))))))))"

definition fetch_authorized_keyset_connection ::
  "Codecs \<Rightarrow> DatabaseBackend \<Rightarrow> 'e KeysetEntity \<Rightarrow> ('e, 'd) Host \<Rightarrow> KeysetConnectionInput
    \<Rightarrow> ('e, 'd) EntityQuery \<Rightarrow> OrmErrorCode + 'e Connection" where
  "fetch_authorized_keyset_connection cx b T h page self =
     fetch_authorized_keyset_connection_with_order cx b T h page None self"

definition page_input :: "KeysetPageInput \<Rightarrow> KeysetConnectionInput" where
  "page_input page =
     \<lparr>kc_after = kp_after page, kc_before = None, kc_first = kp_limit page, kc_last = None,
      kc_include_total_count = kp_include_total_count page\<rparr>"

definition fetch_authorized_keyset ::
  "Codecs \<Rightarrow> DatabaseBackend \<Rightarrow> 'e KeysetEntity \<Rightarrow> ('e, 'd) Host \<Rightarrow> KeysetPageInput
    \<Rightarrow> ('e, 'd) EntityQuery \<Rightarrow> OrmErrorCode + 'e Connection" where
  "fetch_authorized_keyset cx b T h page self =
     fetch_authorized_keyset_connection cx b T h (page_input page) self"

definition fetch_authorized_keyset_ordered ::
  "Codecs \<Rightarrow> DatabaseBackend \<Rightarrow> 'e KeysetEntity \<Rightarrow> ('e, 'd) Host \<Rightarrow> KeysetPageInput
    \<Rightarrow> KeysetOrderColumn list option \<Rightarrow> ('e, 'd) EntityQuery \<Rightarrow> OrmErrorCode + 'e Connection" where
  "fetch_authorized_keyset_ordered cx b T h page order self =
     fetch_authorized_keyset_connection_with_order cx b T h (page_input page) order self"

section \<open>Windows of an ordered listing\<close>

text \<open>
  The contract of a key order: a strict total order on the well-formed keys. The lemmas are about
  a listing whose rows are strictly ascending by their keys.
\<close>

locale key_order =
  fixes lt :: "'k \<Rightarrow> 'k \<Rightarrow> bool" and wf :: "'k \<Rightarrow> bool"
  assumes irrefl: "\<not> lt k k"
    and trans: "lt k l \<Longrightarrow> lt l m \<Longrightarrow> lt k m"
    and total: "wf k \<Longrightarrow> wf l \<Longrightarrow> k \<noteq> l \<Longrightarrow> lt k l \<or> lt l k"
begin

abbreviation ascending_rows :: "('e \<Rightarrow> 'k) \<Rightarrow> 'e list \<Rightarrow> bool" where
  "ascending_rows f rows \<equiv> sorted_wrt (\<lambda>r s. lt (f r) (f s)) rows \<and> list_all (\<lambda>r. wf (f r)) rows"

lemma split_after:
  assumes "ascending_rows f rows"
  shows "rows = filter (\<lambda>r. \<not> lt c (f r)) rows @ filter (\<lambda>r. lt c (f r)) rows"
  using assms
proof (induction rows)
  case (Cons r rows)
  show ?case
  proof (cases "lt c (f r)")
    case True
    with Cons(2) have "\<forall>s \<in> set rows. lt c (f s)" using trans by auto
    with True show ?thesis by (simp add: filter_empty_conv filter_id_conv)
  next
    case False
    with Cons show ?thesis by simp
  qed
qed simp

lemma split_before:
  assumes "ascending_rows f rows"
  shows "rows = filter (\<lambda>r. lt (f r) c) rows @ filter (\<lambda>r. \<not> lt (f r) c) rows"
  using assms
proof (induction rows)
  case (Cons r rows)
  show ?case
  proof (cases "lt (f r) c")
    case False
    with Cons(2) have "\<forall>s \<in> set rows. \<not> lt (f s) c" using trans by auto
    with False show ?thesis by (simp add: filter_empty_conv filter_id_conv)
  next
    case True
    with Cons show ?thesis by simp
  qed
qed simp

lemma around:
  assumes "ascending_rows f (xs @ r # ys)"
  shows "filter (\<lambda>s. lt (f s) (f r)) (xs @ r # ys) = xs" "filter (\<lambda>s. lt (f r) (f s)) (xs @ r # ys) = ys"
proof -
  have "\<forall>s \<in> set xs. lt (f s) (f r)" "\<forall>s \<in> set ys. lt (f r) (f s)"
    using assms by (auto simp: sorted_wrt_append)
  moreover from this have "\<forall>s \<in> set xs. \<not> lt (f r) (f s)" "\<forall>s \<in> set ys. \<not> lt (f s) (f r)"
    using trans irrefl by blast+
  ultimately show "filter (\<lambda>s. lt (f s) (f r)) (xs @ r # ys) = xs" "filter (\<lambda>s. lt (f r) (f s)) (xs @ r # ys) = ys"
    using irrefl by (simp_all add: filter_id_conv filter_empty_conv)
qed

lemma not_after: "wf c \<Longrightarrow> wf (f r) \<Longrightarrow> \<not> lt c (f r) \<longleftrightarrow> lt (f r) c \<or> f r = c"
  using total [of "f r" c] irrefl trans by metis

lemma not_before: "wf c \<Longrightarrow> wf (f r) \<Longrightarrow> \<not> lt (f r) c \<longleftrightarrow> lt c (f r) \<or> f r = c"
  using total [of "f r" c] irrefl trans by metis

lemma at_or_before:
  "wf c \<Longrightarrow> ascending_rows f rows \<Longrightarrow>
     filter (\<lambda>r. lt (f r) c \<or> f r = c) rows = filter (\<lambda>r. \<not> lt c (f r)) rows"
  by (rule filter_cong) (auto simp: list_all_iff not_after)

lemma at_or_after:
  "wf c \<Longrightarrow> ascending_rows f rows \<Longrightarrow>
     filter (\<lambda>r. lt c (f r) \<or> f r = c) rows = filter (\<lambda>r. \<not> lt (f r) c) rows"
  by (rule filter_cong) (auto simp: list_all_iff not_before)

end

interpretation keys: key_order "key_less cols" "\<lambda>k. length k = length cols" for cols
  by unfold_locales (auto simp: key_less_irrefl key_less_total intro: key_less_trans)

text \<open>
  The page a request asks for: the rows before it, its rows and the rows after it. Forward pages
  start behind the cursor, backward pages end in front of it.
\<close>

definition window ::
  "KeysetOrderColumn list \<Rightarrow> ('e \<Rightarrow> 'v::linorder option list) \<Rightarrow> 'e list \<Rightarrow> bool \<Rightarrow> 'v option list option \<Rightarrow> nat
    \<Rightarrow> 'e list \<times> 'e list \<times> 'e list" where
  "window cols f rows backward cur l =
     (if \<not> backward then
        (let (earlier, rest) =
               (case cur of
                  None \<Rightarrow> ([], rows)
                | Some c \<Rightarrow> (filter (\<lambda>r. \<not> key_less cols c (f r)) rows, filter (\<lambda>r. key_less cols c (f r)) rows)) in
         (earlier, take l rest, drop l rest))
      else
        (let (rest, later) =
               (case cur of
                  None \<Rightarrow> (rows, [])
                | Some c \<Rightarrow> (filter (\<lambda>r. key_less cols (f r) c) rows, filter (\<lambda>r. \<not> key_less cols (f r) c) rows)) in
         (take (length rest - l) rest, drop (length rest - l) rest, later)))"

lemma window_partition:
  assumes "keys.ascending_rows cols f rows" "window cols f rows backward cur l = (earlier, nodes, later)"
  shows "rows = earlier @ nodes @ later"
proof (cases cur)
  case None
  with assms(2) show ?thesis by (auto simp: window_def Let_def split: if_splits)
next
  case (Some c)
  show ?thesis
  proof (cases backward)
    case True
    with Some assms(2) have "earlier @ nodes = filter (\<lambda>r. key_less cols (f r) c) rows"
        "later = filter (\<lambda>r. \<not> key_less cols (f r) c) rows"
      by (auto simp: window_def Let_def)
    then show ?thesis using keys.split_before [OF assms(1), of c] by (metis append_assoc)
  next
    case False
    with Some assms(2) show ?thesis
      using keys.split_after [OF assms(1), of c] by (auto simp: window_def Let_def)
  qed
qed

section \<open>What a bound selects\<close>

text \<open>The disjuncts of a bound and the environment of its placeholders.\<close>

definition bound_disjuncts ::
  "KeysetOrderColumn list \<Rightarrow> KeysetValue list \<Rightarrow> bool \<Rightarrow> bool \<Rightarrow> nat \<Rightarrow> key_pred list" where
  "bound_disjuncts order vs before inclusive n =
     (let key = zip order vs; is = [0 ..< length order] in
      branch_preds (if before then before_pred else after_pred) n key is @
      (if inclusive then [PAll (prior_preds (n + sum_list (map (\<lambda>i. bind_count (take (Suc i) key)) is)) key)] else []))"

definition bind_env :: "(SqlValue \<Rightarrow> 'v) \<Rightarrow> SqlValue list \<Rightarrow> nat \<Rightarrow> 'v" where
  "bind_env val vs k = val (vs ! (k - 1))"

definition bound_text :: "DatabaseBackend \<Rightarrow> KeysetOrderColumn list \<Rightarrow> KeysetValue list \<Rightarrow> bool \<Rightarrow> bool \<Rightarrow> nat \<Rightarrow> str" where
  "bound_text b order vs before inclusive n =
     (let ps = bound_disjuncts order vs before False n;
          text = (if before then pred_text b (PAny ps) else join '' OR '' (map (pred_text b) ps)) in
      if inclusive then ''('' @ text @ '') OR '' @ pred_text b (last (bound_disjuncts order vs before True n))
      else text)"

lemma branch_binds_length:
  "length (branch_binds pu key is) = sum_list (map (\<lambda>i. bind_count (take (Suc i) key)) is)"
  by (simp add: branch_binds_def length_concat comp_def)

lemma equal_terms_ok:
  assumes "readable_key pu (map snd key)"
  shows "equal_terms pu b taken key equal binds =
    Inr (equal @ map (pred_text b) (prior_preds (taken + length binds + 1) key), binds @ key_binds pu (map snd key))"
  using assms
proof (induction key arbitrary: equal binds)
  case (Cons p key)
  obtain c v where p: "p = (c, v)" by (cases p)
  show ?case
  proof (cases "v = KvNull")
    case True
    with Cons p show ?thesis by simp
  next
    case False
    with Cons(2) p obtain x where "keyset_sql_value pu v = Some x" by auto
    with Cons p False show ?thesis by simp
  qed
qed simp

definition bound_binds :: "(str \<Rightarrow> uuid option) \<Rightarrow> KeysetOrderColumn list \<Rightarrow> KeysetValue list \<Rightarrow> bool \<Rightarrow> SqlValue list" where
  "bound_binds pu order vs inclusive =
     branch_binds pu (zip order vs) [0 ..< length order] @ (if inclusive then key_binds pu vs else [])"

lemma bound_query:
  assumes "length order = length vs" "order \<noteq> []" "readable_key pu vs"
  shows "keyset_bound_with_order pu b order vs before inclusive q =
    Inr (where_values (bound_text b order vs before inclusive (length (eq_values q) + 1))
      (bound_binds pu order vs inclusive) q)"
proof -
  let ?key = "zip order vs" and ?n = "length (eq_values q) + 1"
  have m: "map snd ?key = vs" using assms(1) by simp
  have e: "equal_terms pu b (length (eq_values q)) ?key [] (branch_binds pu ?key [0 ..< length order]) =
      Inr (map (pred_text b) (prior_preds (?n + length (branch_binds pu ?key [0 ..< length order])) ?key),
        branch_binds pu ?key [0 ..< length order] @ key_binds pu vs)"
    using equal_terms_ok [of pu ?key b "length (eq_values q)" "[]"] assms(3) m by simp
  show ?thesis
    by (simp add: keyset_bound_with_order_def keyset_text [OF assms] e bound_text_def bound_binds_def
        bound_disjuncts_def Let_def branch_binds_length)
qed

lemma bound_selects:
  fixes row :: "str \<Rightarrow> 'v::linorder option"
  assumes "length order = length vs" "readable_key pu vs"
  shows "pred_eval row (bind_env val (taken @ bound_binds pu order vs inclusive))
      (PAny (bound_disjuncts order vs before inclusive (length taken + 1))) = Some True \<longleftrightarrow>
    (if before then key_less order (row_key order row) (cursor_key pu val vs)
     else key_less order (cursor_key pu val vs) (row_key order row)) \<or>
    inclusive \<and> row_key order row = cursor_key pu val vs"
proof -
  let ?key = "zip order vs" and ?is = "[0 ..< length order]" and ?n = "length taken + 1"
  let ?env = "bind_env val (taken @ bound_binds pu order vs inclusive)"
  have "agrees val ?env ?n (bound_binds pu order vs inclusive)"
    by (simp add: agrees_def bind_env_def nth_append)
  then have a: "agrees val ?env ?n (branch_binds pu ?key ?is)"
      "inclusive \<Longrightarrow> agrees val ?env (?n + length (branch_binds pu ?key ?is)) (key_binds pu vs)"
    by (simp_all add: bound_binds_def agrees_append split: if_splits)
  have m: "map snd ?key = vs" "map fst ?key = order" using assms(1) by simp_all
  have eq: "pred_eval row ?env (PAll (prior_preds (?n + length (branch_binds pu ?key ?is)) ?key)) = Some True \<longleftrightarrow>
      row_key order row = cursor_key pu val vs" if inclusive
    using prior_preds_true [of pu ?key val ?env] a(2) [OF that] assms(2) m by simp
  show ?thesis
    using after_true [OF assms a(1), of row] before_true [OF assms a(1), of row] eq
    by (auto simp: bound_disjuncts_def Let_def branch_binds_length pred_any_true simp del: pred_eval.simps)
qed

section \<open>Pages are windows\<close>

text \<open>
  The database behind a query: \<open>rows\<close> are the rows of the base query in ascending key order,
  \<open>row\<close> gives their columns. It returns the first rows, in the direction of the order clauses, for
  which the bound evaluates to true with the values bound to its placeholders.
\<close>

definition in_direction :: "KeysetOrderColumn list \<Rightarrow> bool \<Rightarrow> ('e, 'd) EntityQuery \<Rightarrow> ('e, 'd) EntityQuery" where
  "in_direction order rv q =
     q\<lparr>eq_order_clauses := map (\<lambda>c. order_sql (if rv then reversed c else c)) order\<rparr>"

definition db_serves ::
  "('e, 'd) Host \<Rightarrow> (str \<Rightarrow> uuid option) \<Rightarrow> DatabaseBackend \<Rightarrow> KeysetOrderColumn list \<Rightarrow> ('e, 'd) EntityQuery
    \<Rightarrow> 'e list \<Rightarrow> ('e \<Rightarrow> str \<Rightarrow> 'v::linorder option) \<Rightarrow> (SqlValue \<Rightarrow> 'v) \<Rightarrow> bool" where
  "db_serves h pu b order base rows row val \<longleftrightarrow>
     (\<forall>rv n. bounded_rows h (in_direction order rv base) n =
        Inr (take (nat n) (if rv then rev rows else rows))) \<and>
     (\<forall>rv n vs before inclusive. length vs = length order \<and> readable_key pu vs \<longrightarrow>
        bounded_rows h (in_direction order rv
            (where_values (bound_text b order vs before inclusive (length (eq_values base) + 1))
              (bound_binds pu order vs inclusive) base)) n =
        Inr (take (nat n) (filter (\<lambda>r.
            pred_eval (row r) (bind_env val (eq_values base @ bound_binds pu order vs inclusive))
              (PAny (bound_disjuncts order vs before inclusive (length (eq_values base) + 1))) = Some True)
          (if rv then rev rows else rows))))"

text \<open>The keys that cursors carry are the keys of the rows, and they ascend.\<close>

definition keyed_rows ::
  "(str \<Rightarrow> uuid option) \<Rightarrow> KeysetOrderColumn list \<Rightarrow> ('e \<Rightarrow> KeysetValue list) \<Rightarrow> 'e list
    \<Rightarrow> ('e \<Rightarrow> str \<Rightarrow> 'v::linorder option) \<Rightarrow> (SqlValue \<Rightarrow> 'v) \<Rightarrow> bool" where
  "keyed_rows pu order vals rows row val \<longleftrightarrow>
     sorted_wrt (\<lambda>r s. key_less order (row_key order (row r)) (row_key order (row s))) rows \<and>
     list_all (\<lambda>r. length (vals r) = length order \<and> readable_key pu (vals r) \<and>
       cursor_key pu val (vals r) = row_key order (row r)) rows"

definition candidates_ok :: "('e, 'd) Host \<Rightarrow> ReadVisibility \<Rightarrow> 'e list \<Rightarrow> bool" where
  "candidates_ok h vis rows \<longleftrightarrow>
     \<not> requires_residual_checks vis \<or> list_all (\<lambda>r. h_can_read_row h r = Inr True) rows"

lemma candidates_checked:
  "candidates_ok h vis rows \<Longrightarrow> set rs \<subseteq> set rows \<Longrightarrow> check_repository_candidates h vis rs = Inr ()"
  by (auto simp: candidates_ok_def check_repository_candidates_def check_all_Inr list_all_iff)

lemma in_direction_False:
  "eq_order_clauses q = map order_sql order \<Longrightarrow> in_direction order False q = q"
  by (simp add: in_direction_def)

lemma where_values_order [simp]: "eq_order_clauses (where_values c vs q) = eq_order_clauses q"
  by (simp add: where_values_def)

lemma keyed_ascending:
  "keyed_rows pu order vals rows row val \<Longrightarrow> keys.ascending_rows order (\<lambda>r. row_key order (row r)) rows"
  by (simp add: keyed_rows_def list_all_iff)

lemma filter_rev_if: "filter P (if rv then rev xs else xs) = (if rv then rev (filter P xs) else filter P xs)"
  by (simp add: rev_filter)

lemma served_bound:
  assumes "db_serves h pu b order base rows row val" "order \<noteq> []"
    and "eq_order_clauses base = map order_sql order" "length vs = length order" "readable_key pu vs"
  shows "\<exists>q. keyset_bound_with_order pu b order vs before inclusive base = Inr q \<and>
    eq_order_clauses q = map order_sql order \<and>
    (\<forall>rv n. bounded_rows h (in_direction order rv q) n =
      Inr (take (nat n) (let sel = filter (\<lambda>r.
          (if before then key_less order (row_key order (row r)) (cursor_key pu val vs)
           else key_less order (cursor_key pu val vs) (row_key order (row r))) \<or>
          inclusive \<and> row_key order (row r) = cursor_key pu val vs) rows in if rv then rev sel else sel)))"
proof -
  have "keyset_bound_with_order pu b order vs before inclusive base =
      Inr (where_values (bound_text b order vs before inclusive (length (eq_values base) + 1)) (bound_binds pu order vs inclusive) base)"
    by (rule bound_query [OF assms(4) [symmetric] assms(2,5)])
  with assms(1,3,4,5) show ?thesis
    using bound_selects [OF assms(4) [symmetric] assms(5), of _ val "eq_values base" inclusive before]
    by (auto simp: db_serves_def filter_rev_if Let_def simp del: pred_eval.simps)
qed

lemma saturating_take:
  assumes "1 \<le> limit" "int (length xs) < i64_max"
  shows "take (nat limit) (take (nat (i64_saturating_succ limit)) xs) = take (nat limit) xs"
    and "length (take (nat (i64_saturating_succ limit)) xs) > nat limit \<longleftrightarrow> length xs > nat limit"
proof -
  have "nat (i64_saturating_succ limit) = min (nat limit + 1) (nat i64_max)"
    using assms(1) by (simp add: i64_saturating_succ_def i64_max_def)
  moreover have "length xs < nat i64_max" using assms(2) by (simp add: i64_max_def)
  ultimately show "take (nat limit) (take (nat (i64_saturating_succ limit)) xs) = take (nat limit) xs"
    and "length (take (nat (i64_saturating_succ limit)) xs) > nat limit \<longleftrightarrow> length xs > nat limit"
    by (auto simp: min_def)
qed

lemma read_page_window:
  assumes serves: "db_serves h (cx_parse_uuid cx) b order base rows row val" "order \<noteq> []"
    and base: "eq_order_clauses base = map order_sql order"
    and after: "\<And>vs. after = Some vs \<Longrightarrow> length vs = length order \<and> readable_key (cx_parse_uuid cx) vs"
    and ok: "candidates_ok h vis rows" "1 \<le> limit" "int (length rows) < i64_max"
    and w: "window order (\<lambda>r. row_key order (row r)) rows backward
      (map_option (cursor_key (cx_parse_uuid cx) val) after) (nat limit) = (earlier, nodes, later)"
  shows "read_page cx b h vis order backward after limit base =
    Inr (if backward then rev nodes else nodes, if backward then earlier \<noteq> [] else later \<noteq> [])"
proof -
  let ?pu = "cx_parse_uuid cx"
  define sel where "sel = (case after of None \<Rightarrow> rows | Some vs \<Rightarrow>
      filter (\<lambda>r. if backward then key_less order (row_key order (row r)) (cursor_key ?pu val vs)
        else key_less order (cursor_key ?pu val vs) (row_key order (row r))) rows)"
  obtain q where q: "(case after of Some vs \<Rightarrow> keyset_bound_with_order ?pu b order vs backward False base | None \<Rightarrow> Inr base) = Inr q"
      "eq_order_clauses q = map order_sql order"
      "\<And>rv n. bounded_rows h (in_direction order rv q) n = Inr (take (nat n) (if rv then rev sel else sel))"
  proof (cases after)
    case None
    with that [of base] base serves(1) show ?thesis by (simp add: db_serves_def sel_def)
  next
    case (Some vs)
    from served_bound [OF serves base, of vs backward False] after [OF Some] obtain q where
      "keyset_bound_with_order ?pu b order vs backward False base = Inr q" "eq_order_clauses q = map order_sql order"
      "\<forall>rv n. bounded_rows h (in_direction order rv q) n = Inr (take (nat n) (if rv then rev sel else sel))"
      by (auto simp: Some sel_def Let_def)
    with that [of q] Some show ?thesis by simp
  qed
  have dir: "(if backward then q\<lparr>eq_order_clauses := map (\<lambda>c. order_sql (reversed c)) order\<rparr> else q) = in_direction order backward q"
    using q(2) by (simp add: in_direction_def)
  let ?got = "take (nat (i64_saturating_succ limit)) (if backward then rev sel else sel)"
  have sub: "set ?got \<subseteq> set rows" "int (length sel) < i64_max"
    using ok(3) by (auto simp: sel_def le_less_trans [OF length_filter_le] split: option.splits dest!: in_set_takeD)
      (meson le_less_trans length_filter_le of_nat_le_iff)+
  have l: "int (length (if backward then rev sel else sel)) < i64_max" using sub(2) by simp
  have "read_page cx b h vis order backward after limit base =
      Inr (take (nat limit) (if backward then rev sel else sel), length sel > nat limit)"
    using saturating_take [OF ok(2) l] candidates_checked [OF ok(1) sub(1)]
    by (simp add: read_page_def q(1,3) dir)
  moreover have "nodes = (if backward then drop (length sel - nat limit) sel else take (nat limit) sel) \<and>
      (if backward then earlier = take (length sel - nat limit) sel else later = drop (nat limit) sel)"
    using w by (auto simp: window_def sel_def Let_def split: if_splits option.splits)
  ultimately show ?thesis by (auto simp: take_rev)
qed

text \<open>One probe: whether a row lies on the given side of a key, or at it.\<close>

definition beyond ::
  "KeysetOrderColumn list \<Rightarrow> bool \<Rightarrow> bool \<Rightarrow> 'v::linorder option list \<Rightarrow> 'v option list \<Rightarrow> bool" where
  "beyond order before inclusive c k \<longleftrightarrow>
     (if before then key_less order k c else key_less order c k) \<or> inclusive \<and> k = c"

lemma probe_reads:
  assumes serves: "db_serves h (cx_parse_uuid cx) b order base rows row val" "order \<noteq> []"
    and base: "eq_order_clauses base = map order_sql order"
    and ok: "candidates_ok h vis rows"
    and vs: "length vs = length order" "readable_key (cx_parse_uuid cx) vs"
  shows "attempt (keyset_bound_with_order (cx_parse_uuid cx) b order vs before inclusive base) (\<lambda>q.
      attempt (bounded_rows h q 1) (\<lambda>probe.
        attempt (check_repository_candidates h vis probe) (\<lambda>_. Inr (probe \<noteq> [])))) =
    Inr (filter (\<lambda>r. beyond order before inclusive (cursor_key (cx_parse_uuid cx) val vs) (row_key order (row r))) rows \<noteq> [])"
proof -
  let ?sel = "filter (\<lambda>r. beyond order before inclusive (cursor_key (cx_parse_uuid cx) val vs) (row_key order (row r))) rows"
  obtain q where q: "keyset_bound_with_order (cx_parse_uuid cx) b order vs before inclusive base = Inr q"
      "eq_order_clauses q = map order_sql order" "bounded_rows h (in_direction order False q) 1 = Inr (take 1 ?sel)"
    using served_bound [OF serves base vs, of before inclusive] unfolding beyond_def by (auto simp: Let_def)
  have "check_repository_candidates h vis (take 1 ?sel) = Inr ()"
    by (rule candidates_checked [OF ok]) (auto dest!: in_set_takeD)
  with q in_direction_False [OF q(2)] show ?thesis by simp
qed

lemma beyond_first:
  assumes asc: "keys.ascending_rows order key rows" and parts: "rows = earlier @ nodes @ later"
    and first: "(if backward then rev nodes else nodes) = first # rest"
  shows "filter (\<lambda>r. beyond order (\<not> backward) False (key first) (key r)) rows = (if backward then later else earlier)"
proof (cases backward)
  case True
  then have "rows = (earlier @ rev rest) @ first # later"
    using first parts by (metis append_assoc append_Cons append_Nil rev.simps(2) rev_rev_ident)
  with True asc keys.around(2) [of order key "earlier @ rev rest" first later] show ?thesis
    by (simp add: beyond_def)
next
  case False
  with first parts have "rows = earlier @ first # rest @ later" by simp
  with False asc keys.around(1) [of order key earlier first "rest @ later"] show ?thesis
    by (simp add: beyond_def)
qed

lemma beyond_cursor:
  assumes asc: "keys.ascending_rows order key rows" and c: "length c = length order"
    and w: "window order key rows backward (Some c) l = (earlier, nodes, later)" and empty: "nodes = []"
  shows "filter (\<lambda>r. beyond order (\<not> backward) True c (key r)) rows = (if backward then later else earlier)"
proof (cases backward)
  case True
  with w show ?thesis using keys.at_or_after [OF c asc] by (simp add: beyond_def window_def Let_def)
next
  case False
  with w show ?thesis using keys.at_or_before [OF c asc] by (simp add: beyond_def window_def Let_def)
qed

lemma probe_window:
  assumes serves: "db_serves h (cx_parse_uuid cx) b order base rows row val" "order \<noteq> []"
    and base: "eq_order_clauses base = map order_sql order"
    and after: "\<And>vs. after = Some vs \<Longrightarrow> length vs = length order \<and> readable_key (cx_parse_uuid cx) vs"
    and ok: "candidates_ok h vis rows" "0 < l"
    and keyed: "keyed_rows (cx_parse_uuid cx) order vals rows row val" "\<And>r. r \<in> set rows \<Longrightarrow> vf r = Inr (vals r)"
    and w: "window order (\<lambda>r. row_key order (row r)) rows backward
      (map_option (cursor_key (cx_parse_uuid cx) val) after) l = (earlier, nodes, later)"
  shows "probe_opposite cx b h vis order vf backward after (if backward then rev nodes else nodes) base =
    Inr (if backward then later \<noteq> [] else earlier \<noteq> [])"
proof -
  note asc = keyed_ascending [OF keyed(1)]
  note parts = window_partition [OF asc w]
  note probe = probe_reads [OF serves base ok(1)]
  show ?thesis
  proof (cases "if backward then rev nodes else nodes")
    case (Cons first rest)
    have "first \<in> set (if backward then rev nodes else nodes)" using Cons by simp
    with parts have mem: "first \<in> set rows" by (auto split: if_splits)
    then have vals: "length (vals first) = length order" "readable_key (cx_parse_uuid cx) (vals first)"
        "cursor_key (cx_parse_uuid cx) val (vals first) = row_key order (row first)"
      using keyed(1) by (auto simp: keyed_rows_def list_all_iff)
    show ?thesis
      using probe [OF vals(1,2), of "\<not> backward" False] beyond_first [OF asc parts Cons] vals(3) keyed(2) [OF mem] Cons
      by (simp add: probe_opposite_def transpose_option_def)
  next
    case Nil
    then have empty: "nodes = []" by (simp split: if_splits)
    show ?thesis
    proof (cases after)
      case None
      have "rows = []" using w empty None ok(2) by (cases rows) (auto simp: window_def Let_def split: if_splits)
      with empty None parts show ?thesis by (simp add: probe_opposite_def transpose_option_def)
    next
      case (Some vs)
      with after have vs: "length vs = length order" "readable_key (cx_parse_uuid cx) vs" by auto
      with beyond_cursor [OF asc _ _ empty, of "cursor_key (cx_parse_uuid cx) val vs" backward l] w Some
        probe [OF vs, of "\<not> backward" True] empty
      show ?thesis by (cases backward) (simp_all add: probe_opposite_def transpose_option_def)
    qed
  qed
qed

text \<open>The steps of a successful connection over the configured order.\<close>

definition authorized_base :: "'e KeysetEntity \<Rightarrow> ('e, 'd) EntityQuery \<Rightarrow> ('e, 'd) EntityQuery" where
  "authorized_base T q = q\<lparr>eq_page := None, eq_order_clauses := map order_sql (ke_order T), eq_order_values := []\<rparr>"

definition connection_fingerprint :: "Codecs \<Rightarrow> 'e KeysetEntity \<Rightarrow> ('e, 'd) EntityQuery \<Rightarrow> str" where
  "connection_fingerprint cx T q =
     bind_keyset_fingerprint (cx_digest cx) (Some (ke_entity_name T)) (ke_fingerprint T) (eq_keyset_filter_identities q)"

lemma attempt_case: "attempt r k = Inr y \<Longrightarrow> (\<And>x. r = Inr x \<Longrightarrow> k x = Inr y \<Longrightarrow> P) \<Longrightarrow> P"
  by (cases r) auto

lemma connection_steps:
  assumes "fetch_authorized_keyset_connection cx b T h page q = Inr conn"
  obtains v vis base after total nodes has_more opposite edges where
    "validate_connection page DEFAULT_LIMIT i64_max = Inr v" "authorize_pagination h = Inr vis"
    "authorize_keyset_order_fields h T (ke_order T) False None = Inr ()"
    "\<not> (requires_residual_checks vis \<and> (h_has_ctx h \<or> vk_include_total_count v))"
    "with_read_visibility b (ke_type_id T) vis q = Inr base"
    "transpose_option (map_option (\<lambda>c. decode_keyset_cursor (cx_cursor cx) c
        (connection_fingerprint cx T base) (length (ke_order T))) (vk_cursor v)) = Inr after"
    "read_page cx b h vis (ke_order T) (vk_direction v = Backward) after (page_limit h (Some (vk_limit v)))
        (authorized_base T base) = Inr (nodes, has_more)"
    "probe_opposite cx b h vis (ke_order T) (\<lambda>r. Inr (ke_values T r)) (vk_direction v = Backward) after nodes
        (authorized_base T base) = Inr opposite"
    "authorize_page_fields h (if vk_direction v = Backward then rev nodes else nodes) = Inr ()"
    "check_all (\<lambda>node. authorize_keyset_order_fields h T (ke_order T) False (Some node))
        (if vk_direction v = Backward then rev nodes else nodes) = Inr ()"
    "encode_edges (cx_cursor cx) (connection_fingerprint cx T base) (\<lambda>r. Inr (ke_values T r))
        (if vk_direction v = Backward then rev nodes else nodes) = Inr edges"
    "conn = \<lparr>cn_edges = edges, cn_page_info =
        \<lparr>pg_has_next_page = (if vk_direction v = Backward then opposite else has_more),
         pg_has_previous_page = (if vk_direction v = Backward then has_more else opposite),
         pg_start_cursor = (case edges of [] \<Rightarrow> None | e # _ \<Rightarrow> Some (edge_cursor e)),
         pg_end_cursor = (if edges = [] then None else Some (edge_cursor (last edges))),
         pg_total_count = total\<rparr>\<rparr>"
proof -
  have vf: "values_for T order False = (\<lambda>r. Inr (ke_values T r))" for order by (auto simp: values_for_def)
  show ?thesis
    using assms
    unfolding fetch_authorized_keyset_connection_def fetch_authorized_keyset_connection_with_order_def
      option.map transpose_option_def [of None] option.case attempt.simps Let_def prod.case vf simp_thms if_False
    apply (elim attempt_case)
    apply (simp split: if_split_asm)
    apply (elim attempt_case)
    apply (simp only: split_paired_all prod.case)
    apply (elim attempt_case)
    apply (simp only: case_prod_beta)
    apply (elim attempt_case)
    subgoal for v vis base after total nodes has_more opposite u w edges
      by (rule that [of v vis base after nodes has_more opposite edges total])
        (auto simp: authorized_base_def connection_fingerprint_def split: if_splits)
    done
qed

lemma encode_edges_values:
  "encode_edges cc fp (\<lambda>r. Inr (vals r)) nodes =
     Inr (map (\<lambda>r. \<lparr>edge_node = r, edge_cursor = encode_keyset_cursor cc fp (vals r)\<rparr>) nodes)"
  by (induction nodes) auto

lemma page_limit_pos: "1 \<le> page_limit h requested"
  by (simp add: page_limit_def)

lemma bound_readable:
  assumes "keyset_bound_with_order pu b order vs before inclusive q = Inr q'"
  shows "length vs = length order \<and> readable_key pu vs"
proof (rule ccontr)
  assume "\<not> (length vs = length order \<and> readable_key pu vs)"
  then have "render_keyset_after pu b order vs n = Inl CursorInvalid" "render_keyset_before pu b order vs n = Inl CursorInvalid" for n
    using keyset_predicate_errors [of order vs pu b n] by auto
  with assms show False by (simp add: keyset_bound_with_order_def split: if_splits)
qed

text \<open>
  C3. A keyset connection returns exactly the requested page. When the database serves the
  authorized query, a successful forward or backward request splits the visible rows, in
  canonical order, into those before the page, the page and those after it; the page starts right
  behind the \<open>after\<close> cursor or ends right in front of the \<open>before\<close> cursor and has the resolved page
  size unless rows run out; \<open>has_next_page\<close> and \<open>has_previous_page\<close> say exactly whether rows
  remain on each side, and each edge carries the cursor of its own row.
\<close>

theorem connection_page_exact:
  assumes conn: "fetch_authorized_keyset_connection cx b T h page q = Inr conn"
    and vis: "authorize_pagination h = Inr vis" "with_read_visibility b (ke_type_id T) vis q = Inr base"
    and serves: "db_serves h (cx_parse_uuid cx) b (ke_order T) (authorized_base T base) rows row val"
    and keyed: "keyed_rows (cx_parse_uuid cx) (ke_order T) (ke_values T) rows row val"
    and ok: "candidates_ok h vis rows" "ke_order T \<noteq> []" "int (length rows) < i64_max"
  shows "\<exists>v after earlier later. validate_connection page DEFAULT_LIMIT i64_max = Inr v \<and>
    transpose_option (map_option (\<lambda>c. decode_keyset_cursor (cx_cursor cx) c
      (connection_fingerprint cx T base) (length (ke_order T))) (vk_cursor v)) = Inr after \<and>
    window (ke_order T) (\<lambda>r. row_key (ke_order T) (row r)) rows (vk_direction v = Backward)
      (map_option (cursor_key (cx_parse_uuid cx) val) after) (nat (page_limit h (Some (vk_limit v)))) =
      (earlier, map edge_node (cn_edges conn), later) \<and>
    rows = earlier @ map edge_node (cn_edges conn) @ later \<and>
    (pg_has_next_page (cn_page_info conn) \<longleftrightarrow> later \<noteq> []) \<and>
    (pg_has_previous_page (cn_page_info conn) \<longleftrightarrow> earlier \<noteq> []) \<and>
    list_all (\<lambda>e. edge_cursor e = encode_keyset_cursor (cx_cursor cx) (connection_fingerprint cx T base)
      (ke_values T (edge_node e))) (cn_edges conn)"
proof -
  obtain v vis' base' after total nodes has_more opposite edges where
    s: "validate_connection page DEFAULT_LIMIT i64_max = Inr v" "authorize_pagination h = Inr vis'"
      "with_read_visibility b (ke_type_id T) vis' q = Inr base'"
      "transpose_option (map_option (\<lambda>c. decode_keyset_cursor (cx_cursor cx) c
        (connection_fingerprint cx T base') (length (ke_order T))) (vk_cursor v)) = Inr after"
    and r: "read_page cx b h vis' (ke_order T) (vk_direction v = Backward) after (page_limit h (Some (vk_limit v)))
        (authorized_base T base') = Inr (nodes, has_more)"
    and p: "probe_opposite cx b h vis' (ke_order T) (\<lambda>r. Inr (ke_values T r)) (vk_direction v = Backward) after nodes
        (authorized_base T base') = Inr opposite"
    and e: "encode_edges (cx_cursor cx) (connection_fingerprint cx T base') (\<lambda>r. Inr (ke_values T r))
        (if vk_direction v = Backward then rev nodes else nodes) = Inr edges"
    and c: "cn_edges conn = edges"
      "pg_has_next_page (cn_page_info conn) = (if vk_direction v = Backward then opposite else has_more)"
      "pg_has_previous_page (cn_page_info conn) = (if vk_direction v = Backward then has_more else opposite)"
    by (rule connection_steps [OF conn]) simp
  from vis s have eqs: "vis' = vis" "base' = base" by simp_all
  let ?l = "page_limit h (Some (vk_limit v))" and ?key = "\<lambda>r. row_key (ke_order T) (row r)"
  have bo: "eq_order_clauses (authorized_base T base) = map order_sql (ke_order T)" by (simp add: authorized_base_def)
  have after: "length vs = length (ke_order T) \<and> readable_key (cx_parse_uuid cx) vs" if "after = Some vs" for vs
    using r that unfolding eqs by (auto simp: read_page_def attempt_Inr dest: bound_readable)
  obtain earlier page_rows later where w: "window (ke_order T) ?key rows (vk_direction v = Backward)
      (map_option (cursor_key (cx_parse_uuid cx) val) after) (nat ?l) = (earlier, page_rows, later)"
    by (metis prod_cases3)
  have l: "1 \<le> ?l" "0 < nat ?l" using page_limit_pos [of h "Some (vk_limit v)"] by simp_all
  have R: "nodes = (if vk_direction v = Backward then rev page_rows else page_rows)"
      "has_more = (if vk_direction v = Backward then earlier \<noteq> [] else later \<noteq> [])"
    using r read_page_window [OF serves ok(2) bo after ok(1) l(1) ok(3) w] unfolding eqs by simp_all
  have P: "opposite = (if vk_direction v = Backward then later \<noteq> [] else earlier \<noteq> [])"
    using p probe_window [OF serves ok(2) bo after ok(1) l(2) keyed refl w] unfolding eqs R(1) by simp
  have E: "edges = map (\<lambda>r. \<lparr>edge_node = r, edge_cursor = encode_keyset_cursor (cx_cursor cx)
      (connection_fingerprint cx T base) (ke_values T r)\<rparr>) page_rows"
    using e unfolding eqs R(1) by (simp add: encode_edges_values split: if_splits)
  then have N: "map edge_node (cn_edges conn) = page_rows" by (simp add: c comp_def)
  have "rows = earlier @ page_rows @ later" by (rule window_partition [OF keyed_ascending [OF keyed] w])
  then show ?thesis
    using s(1,4) w unfolding N eqs
    by (intro exI [of _ v] exI [of _ after] exI [of _ earlier] exI [of _ later])
      (simp add: c R(2) P E list_all_iff)
qed

section \<open>What reaches a page\<close>

text \<open>
  What a database does with the statement of a query: \<open>sat\<close> is the value of a condition with given
  bind values in a row, and a row is returned only when the \<open>WHERE\<close> condition of the statement is true.
\<close>

definition statement_admits :: "(SqlValue list \<Rightarrow> str \<Rightarrow> tv) \<Rightarrow> DatabaseBackend \<Rightarrow> ('e, 'd) EntityQuery \<Rightarrow> bool" where
  "statement_admits sat b q \<longleftrightarrow>
     (case filter_expression_from_raw_parts (eq_where_clauses q) (eq_values q) of
        None \<Rightarrow> True
      | Some f \<Rightarrow> filter_eval (sat (filter_values f)) b f 1 = Some True)"

definition db_filters :: "DatabaseBackend \<Rightarrow> ('e, 'd) Host \<Rightarrow> ('e \<Rightarrow> SqlValue list \<Rightarrow> str \<Rightarrow> tv) \<Rightarrow> bool" where
  "db_filters b h sat \<longleftrightarrow>
     (\<forall>q rows. h_fetch_all h q = Inr rows \<longrightarrow> (\<forall>r \<in> set rows. statement_admits (sat r) b q))"

text \<open>Clauses whose values are as many as the builder counts placeholders in them.\<close>

definition counted :: "str \<times> SqlValue list \<Rightarrow> bool" where
  "counted p \<longleftrightarrow> count_placeholders (fst p) = length (snd p)"

definition counted_query :: "('e, 'd) EntityQuery \<Rightarrow> bool" where
  "counted_query q \<longleftrightarrow>
     (\<exists>ps. eq_where_clauses q = map fst ps \<and> eq_values q = concat (map snd ps) \<and> list_all counted ps)"

text \<open>The condition of a visibility: its text in parentheses and its values.\<close>

definition visibility_part :: "FilterExpression \<Rightarrow> str \<times> SqlValue list" where
  "visibility_part f = (''('' @ fst (render_filter_expression Sqlite f 1 []) @ '')'', filter_values f)"

definition counted_visibility :: "('e, 'd) Host \<Rightarrow> bool" where
  "counted_visibility h \<longleftrightarrow>
     (\<forall>vis f. h_visibility h = Inr vis \<longrightarrow> predicate_expression vis = Some f \<longrightarrow> counted (visibility_part f))"

lemma with_visibility_part:
  assumes "with_read_visibility b entity vis q = Inr base" "predicate_expression vis = Some f"
  shows "eq_where_clauses base = eq_where_clauses q @ [fst (visibility_part f)]" "eq_values base = eq_values q @ snd (visibility_part f)"
    and "validate_identity vis (Some entity) b = Inr ()"
proof -
  have "snd (snd (render_filter_expression Sqlite f 1 [])) = filter_values f"
    using render_state(1) [of Sqlite f 1 "[]"] by simp
  with assms show "eq_where_clauses base = eq_where_clauses q @ [fst (visibility_part f)]" "eq_values base = eq_values q @ snd (visibility_part f)"
      "validate_identity vis (Some entity) b = Inr ()"
    by (auto simp: with_read_visibility_def where_values_def visibility_part_def split_beta split: sum.splits)
qed

lemma bound_extends:
  assumes "keyset_bound_with_order pu b order vs before inclusive base = Inr q"
  shows "\<exists>c binds. q = where_values c binds base"
  using assms by (auto simp: keyset_bound_with_order_def attempt_Inr split: if_splits)

text \<open>The statement behind a page has the clauses of its base query and possibly more.\<close>

lemma read_page_statement:
  assumes "read_page cx b h vis order backward after limit base = Inr (nodes, has_more)"
  shows "\<exists>q rows cs vs. h_fetch_all h q = Inr rows \<and> set nodes \<subseteq> set rows \<and>
    eq_where_clauses q = eq_where_clauses base @ cs \<and> eq_values q = eq_values base @ vs"
proof -
  obtain query rows where query: "(case after of Some vs \<Rightarrow> keyset_bound_with_order (cx_parse_uuid cx) b order vs backward False base
        | None \<Rightarrow> Inr base) = Inr query"
    and rows: "bounded_rows h (if backward then query\<lparr>eq_order_clauses := map (\<lambda>c. order_sql (reversed c)) order\<rparr> else query)
        (i64_saturating_succ limit) = Inr rows" "nodes = take (nat limit) rows"
    using assms by (auto simp: read_page_def attempt_Inr Let_def)
  have "\<exists>cs vs. eq_where_clauses query = eq_where_clauses base @ cs \<and> eq_values query = eq_values base @ vs"
    using query by (cases after) (auto simp: where_values_def dest!: bound_extends)
  with rows show ?thesis
    unfolding bounded_rows_def by (fastforce simp: paginate_def dest: in_set_takeD split: if_splits)
qed

lemma filters_eval_append:
  "filters_eval L b (fs @ gs) n = filters_eval L b fs n @ filters_eval L b gs (n + length (concat (map filter_values fs)))"
  by (induction fs arbitrary: n) (auto simp: add.assoc)

lemma raw_filters_append:
  "list_all counted ps \<Longrightarrow>
     raw_filters (map fst ps @ cs) (concat (map snd ps) @ vs) = map (\<lambda>(c, vs). Raw c vs) ps @ raw_filters cs vs"
  by (induction ps) (auto simp: counted_def)

lemma raw_values: "concat (map filter_values (map (\<lambda>(c, vs). Raw c vs) ps @ fs)) = concat (map snd ps) @ concat (map filter_values fs)"
  by (induction ps) auto

lemma raw_count: "length (concat (map filter_values (map (\<lambda>(c, vs). Raw c vs) ps))) = length (concat (map snd ps))"
  using raw_values [of ps "[]"] by simp

lemma raw_parts_filters:
  assumes "cs \<noteq> []"
  shows "\<exists>f. filter_expression_from_raw_parts cs vs = Some f \<and> (f = FAnd (raw_filters cs vs) \<or> raw_filters cs vs = [f])"
proof (cases "length (raw_filters cs vs) = 1")
  case True
  then obtain f where "raw_filters cs vs = [f]" by (auto simp: length_Suc_conv)
  with assms show ?thesis by (simp add: filter_expression_from_raw_parts_def)
qed (use assms in \<open>simp add: filter_expression_from_raw_parts_def Let_def\<close>)

lemma clause_holds:
  assumes q: "eq_where_clauses q = map fst ps @ c # cs" "eq_values q = concat (map snd ps) @ vs @ ws"
    and counts: "list_all counted ps" "counted (c, vs)" "c \<noteq> []" and admits: "statement_admits sat b q"
  shows "\<exists>binds. take (length vs) (drop (length (concat (map snd ps))) binds) = vs \<and>
    sat binds (normalize_sql_placeholders b c (length (concat (map snd ps)) + 1)) = Some True"
proof -
  let ?fs = "map (\<lambda>(c, vs). Raw c vs) ps @ Raw c vs # raw_filters cs ws"
  have fs: "raw_filters (eq_where_clauses q) (eq_values q) = ?fs"
    using raw_filters_append [OF counts(1), of "c # cs" "vs @ ws"] counts(2) unfolding q by (simp add: counted_def)
  obtain f where f: "filter_expression_from_raw_parts (eq_where_clauses q) (eq_values q) = Some f" "f = FAnd ?fs \<or> ?fs = [f]"
    using raw_parts_filters [of "eq_where_clauses q" "eq_values q"] unfolding fs by (auto simp: q(1))
  have vals: "filter_values f = concat (map filter_values ?fs)"
    using f(2) by (elim disjE) simp_all
  then have binds: "take (length vs) (drop (length (concat (map snd ps))) (filter_values f)) = vs"
    unfolding raw_values by simp
  have "filter_eval (sat (filter_values f)) b f 1 = Some True" using admits f(1) by (simp add: statement_admits_def)
  then have "\<forall>v \<in> set (filters_eval (sat (filter_values f)) b ?fs 1). v = Some True"
    using f(2) by (elim disjE) simp_all
  then have "sat (filter_values f) (normalize_sql_placeholders b c (length (concat (map snd ps)) + 1)) = Some True"
    using counts(3) unfolding filters_eval_append raw_count by (simp add: add.commute)
  with binds show ?thesis by blast
qed

text \<open>
  C8. Nothing is returned that was not authorized. The entity check of every successful connection
  passed. When the visibility of the request is a predicate, it is one of this entity and backend, and
  the database found it true of every returned row, as a condition of its own with the predicate's
  values bound to its placeholders. When the visibility leaves residual checks there is no GraphQL
  context and every returned row passed the row callback. The key fields were granted for every
  returned row, and outside GraphQL every repository field was; field resolvers check the other fields
  of a GraphQL response. The clauses of the query and of the visibility carry as many values as the
  builder counts placeholders in them.
\<close>

theorem connection_rows_authorized:
  assumes conn: "fetch_authorized_keyset_connection cx b T h page q = Inr conn" "e \<in> set (cn_edges conn)"
    and db: "db_filters b h sat" "counted_query q" "counted_visibility h"
  shows "h_entity_access h = Inr () \<and>
    (\<exists>vis. h_visibility h = Inr vis \<and> validate_identity vis (Some (ke_type_id T)) b = Inr () \<and>
      (\<forall>f. predicate_expression vis = Some f \<longrightarrow> (\<exists>binds.
        take (length (filter_values f)) (drop (length (eq_values q)) binds) = filter_values f \<and>
        sat (edge_node e) binds (normalize_sql_placeholders b (fst (visibility_part f)) (length (eq_values q) + 1)) = Some True)) \<and>
      (requires_residual_checks vis \<longrightarrow> \<not> h_has_ctx h \<and> h_can_read_row h (edge_node e) = Inr True)) \<and>
    (\<forall>part \<in> set (ke_order T). order_field_access h T False (Some (edge_node e)) part = Inr ()) \<and>
    (\<not> h_has_ctx h \<longrightarrow> (\<forall>(api, policy) \<in> set (h_repository_fields h).
      h_field_access h api policy (Some (edge_node e)) = Inr ()))"
proof (rule connection_steps [OF conn(1)], goal_cases)
  case (1 v vis base after total nodes has_more opposite edges)
  have mem: "edge_node e \<in> set nodes"
    using 1(11,12) conn(2) by (auto simp: encode_edges_values split: if_splits)
  have "h_can_read_row h (edge_node e) = Inr True" if "requires_residual_checks vis"
    using 1(7) mem that
    by (auto simp: read_page_def attempt_Inr Let_def check_repository_candidates_def check_all_Inr
        split: if_splits dest!: in_set_takeD)
  moreover have vis: "h_visibility h = Inr vis" "h_entity_access h = Inr ()"
    using 1(2) by (simp_all add: authorize_pagination_def attempt_Inr)
  moreover have "validate_identity vis (Some (ke_type_id T)) b = Inr ()"
    using 1(5) by (auto simp: with_read_visibility_def split: sum.splits)
  moreover have "\<exists>binds. take (length (filter_values f)) (drop (length (eq_values q)) binds) = filter_values f \<and>
      sat (edge_node e) binds (normalize_sql_placeholders b (fst (visibility_part f)) (length (eq_values q) + 1)) = Some True"
    if f: "predicate_expression vis = Some f" for f
  proof -
    obtain ps where ps: "eq_where_clauses q = map fst ps" "eq_values q = concat (map snd ps)" "list_all counted ps"
      using db(2) unfolding counted_query_def by blast
    obtain q' rows cs vs where q': "h_fetch_all h q' = Inr rows" "edge_node e \<in> set rows"
      "eq_where_clauses q' = map fst ps @ fst (visibility_part f) # cs" "eq_values q' = concat (map snd ps) @ snd (visibility_part f) @ vs"
      using read_page_statement [OF 1(7)] with_visibility_part(1,2) [OF 1(5) f] mem ps by (auto simp: authorized_base_def)
    have "counted (visibility_part f)" using db(3) vis(1) f by (simp add: counted_visibility_def)
    moreover have "statement_admits (sat (edge_node e)) b q'" using db(1) q'(1,2) by (auto simp: db_filters_def)
    ultimately show ?thesis
      using clause_holds [OF q'(3,4) ps(3)] ps(2) by (simp add: visibility_part_def)
  qed
  moreover have "authorize_keyset_order_fields h T (ke_order T) False (Some (edge_node e)) = Inr ()"
    using 1(10) mem by (auto simp: check_all_Inr split: if_splits)
  moreover have "\<forall>(api, policy) \<in> set (h_repository_fields h). h_field_access h api policy (Some (edge_node e)) = Inr ()"
    if "\<not> h_has_ctx h"
    using 1(9) mem that by (auto simp: authorize_page_fields_def check_all_Inr split: if_splits)
  ultimately show ?case
    using 1(4) by (auto simp: authorize_keyset_order_fields_def check_all_Inr)
qed

section \<open>Following the cursors\<close>

text \<open>A client that reads pages of size \<open>l\<close> and continues after the end cursor while there is more.\<close>

definition forward_page :: "int \<Rightarrow> str option \<Rightarrow> KeysetConnectionInput" where
  "forward_page l cur =
     \<lparr>kc_after = cur, kc_before = None, kc_first = Some l, kc_last = None, kc_include_total_count = False\<rparr>"

fun walk :: "(KeysetConnectionInput \<Rightarrow> OrmErrorCode + 'e Connection) \<Rightarrow> int \<Rightarrow> nat \<Rightarrow> str option \<Rightarrow> 'e list option" where
  "walk fetch l 0 cur = None"
| "walk fetch l (Suc n) cur =
     (case fetch (forward_page l cur) of
        Inl _ \<Rightarrow> None
      | Inr conn \<Rightarrow>
          (let nodes = map edge_node (cn_edges conn); info = cn_page_info conn in
           if pg_has_next_page info then map_option (\<lambda>rest. nodes @ rest) (walk fetch l n (pg_end_cursor info))
           else Some nodes))"

text \<open>The request is allowed: policies grant the rows and their key fields.\<close>

definition connection_allowed ::
  "DatabaseBackend \<Rightarrow> 'e KeysetEntity \<Rightarrow> ('e, 'd) Host \<Rightarrow> ('e, 'd) EntityQuery \<Rightarrow> ReadVisibility
    \<Rightarrow> ('e, 'd) EntityQuery \<Rightarrow> 'e list \<Rightarrow> bool" where
  "connection_allowed b T h q vis base rows \<longleftrightarrow>
     authorize_pagination h = Inr vis \<and> with_read_visibility b (ke_type_id T) vis q = Inr base \<and>
     \<not> (requires_residual_checks vis \<and> h_has_ctx h) \<and> \<not> requires_in_memory_filtering q \<and>
     candidates_ok h vis rows \<and> authorize_page_fields h rows = Inr () \<and>
     authorize_keyset_order_fields h T (ke_order T) False None = Inr () \<and>
     list_all (\<lambda>r. authorize_keyset_order_fields h T (ke_order T) False (Some r) = Inr ()) rows"

definition codec_reads :: "CursorCodec \<Rightarrow> str \<Rightarrow> KeysetValue list \<Rightarrow> bool" where
  "codec_reads cc order vs \<longleftrightarrow>
     (let env = \<lparr>ce_version = 1, ce_order = order, ce_values = vs, ce_checksum = cursor_checksum cc 1 order vs\<rparr> in
      cc_read cc (cc_write cc env) = Some env)"

lemma decode_encode:
  assumes "codec_reads cc order vs"
  shows "decode_keyset_cursor cc (encode_keyset_cursor cc order vs) order (length vs) = Inr vs"
proof -
  have "strip_prefix ''gomk1.'' (''gomk1.'' @ t) = Some t" for t
    by (simp add: strip_prefix_Some)
  then show ?thesis
    using assms by (auto simp: codec_reads_def Let_def decode_keyset_cursor_def encode_keyset_cursor_def simp del: append.simps)
qed

lemma check_all_subset: "check_all f xs = Inr () \<Longrightarrow> set ys \<subseteq> set xs \<Longrightarrow> check_all f ys = Inr ()"
  by (auto simp: check_all_Inr)

lemma page_fields_subset:
  "authorize_page_fields h rows = Inr () \<Longrightarrow> set nodes \<subseteq> set rows \<Longrightarrow> authorize_page_fields h nodes = Inr ()"
  by (auto simp: authorize_page_fields_def intro: check_all_subset split: if_splits)

lemma forward_page_valid:
  assumes "1 \<le> l" "l \<le> i64_max"
  shows "validate_connection (forward_page l cur) DEFAULT_LIMIT i64_max =
    Inr \<lparr>vk_direction = Forward, vk_cursor = cur, vk_limit = l, vk_include_total_count = False\<rparr>"
  using assms by (simp add: validate_connection_def forward_page_def DEFAULT_LIMIT_def SECURE_DEFAULT_LIMIT_def i64_max_def)

lemma forward_connection:
  assumes allowed: "connection_allowed b T h q vis base rows"
    and serves: "db_serves h (cx_parse_uuid cx) b (ke_order T) (authorized_base T base) rows row val"
    and keyed: "keyed_rows (cx_parse_uuid cx) (ke_order T) (ke_values T) rows row val"
    and ok: "ke_order T \<noteq> []" "int (length rows) < i64_max" "1 \<le> l" "l \<le> i64_max"
    and rows: "rows = xs @ ys"
    and cur: "transpose_option (map_option (\<lambda>c. decode_keyset_cursor (cx_cursor cx) c
      (connection_fingerprint cx T base) (length (ke_order T))) cur) =
      Inr (if xs = [] then None else Some (ke_values T (last xs)))"
    and k: "k = nat (page_limit h (Some l))"
  shows "\<exists>conn. fetch_authorized_keyset_connection cx b T h (forward_page l cur) q = Inr conn \<and>
    map edge_node (cn_edges conn) = take k ys \<and> (pg_has_next_page (cn_page_info conn) \<longleftrightarrow> drop k ys \<noteq> []) \<and>
    (take k ys \<noteq> [] \<longrightarrow> pg_end_cursor (cn_page_info conn) = Some (encode_keyset_cursor (cx_cursor cx)
      (connection_fingerprint cx T base) (ke_values T (last (take k ys)))))"
proof -
  let ?after = "if xs = [] then None else Some (ke_values T (last xs))" and ?key = "\<lambda>r. row_key (ke_order T) (row r)"
  note asc = keyed_ascending [OF keyed]
  have bo: "eq_order_clauses (authorized_base T base) = map order_sql (ke_order T)" by (simp add: authorized_base_def)
  have vals: "length (ke_values T r) = length (ke_order T)" "readable_key (cx_parse_uuid cx) (ke_values T r)"
      "cursor_key (cx_parse_uuid cx) val (ke_values T r) = ?key r" if "r \<in> set rows" for r
    using keyed that by (auto simp: keyed_rows_def list_all_iff)
  have after: "length vs = length (ke_order T) \<and> readable_key (cx_parse_uuid cx) vs" if "?after = Some vs" for vs
    using that vals [of "last xs"] rows by (auto split: if_splits)
  have w: "window (ke_order T) ?key rows False (map_option (cursor_key (cx_parse_uuid cx) val) ?after) k = (xs, take k ys, drop k ys)"
  proof (cases "xs = []")
    case False
    then have r: "rows = butlast xs @ last xs # ys" using rows by simp
    have "filter (\<lambda>r. key_less (ke_order T) (?key (last xs)) (?key r)) rows = ys"
      using keys.around(2) [of "ke_order T" ?key "butlast xs" "last xs" ys] asc r by simp
    moreover from this have "filter (\<lambda>r. \<not> key_less (ke_order T) (?key (last xs)) (?key r)) rows = xs"
      using keys.split_after [OF asc, of "?key (last xs)"] rows by (metis append_same_eq)
    ultimately show ?thesis using False vals(3) [of "last xs"] rows by (simp add: window_def)
  qed (simp add: window_def rows)
  have lim: "1 \<le> page_limit h (Some l)" by (rule page_limit_pos)
  have a: "authorize_pagination h = Inr vis" "with_read_visibility b (ke_type_id T) vis q = Inr base"
      "\<not> (requires_residual_checks vis \<and> h_has_ctx h)" "\<not> requires_in_memory_filtering q" "candidates_ok h vis rows"
      "authorize_keyset_order_fields h T (ke_order T) False None = Inr ()"
    using allowed by (simp_all add: connection_allowed_def)
  have r: "read_page cx b h vis (ke_order T) False ?after (page_limit h (Some l)) (authorized_base T base) =
      Inr (take k ys, drop k ys \<noteq> [])"
    using read_page_window [OF serves ok(1) bo after a(5) lim ok(2) w [unfolded k]] by (simp add: k)
  have p: "probe_opposite cx b h vis (ke_order T) (\<lambda>r. Inr (ke_values T r)) False ?after (take k ys) (authorized_base T base) =
      Inr (xs \<noteq> [])"
    using probe_window [OF serves ok(1) bo after a(5) _ keyed refl w] lim k by simp
  have sub: "set (take k ys) \<subseteq> set rows" using rows by (auto dest: in_set_takeD)
  have f: "authorize_page_fields h (take k ys) = Inr ()"
      "check_all (\<lambda>node. authorize_keyset_order_fields h T (ke_order T) False (Some node)) (take k ys) = Inr ()"
    using allowed sub page_fields_subset [of h rows] by (auto simp: connection_allowed_def check_all_Inr list_all_iff)
  have vf: "values_for T order False = (\<lambda>r. Inr (ke_values T r))" for order by (auto simp: values_for_def)
  show ?thesis
    unfolding fetch_authorized_keyset_connection_def fetch_authorized_keyset_connection_with_order_def
    using a r p f cur
    by (auto simp: transpose_option_def [of None] forward_page_valid [OF ok(3,4)] Let_def vf authorized_base_def
        connection_fingerprint_def encode_edges_values comp_def last_map)
qed

lemma walk_from:
  assumes allowed: "connection_allowed b T h q vis base rows"
    and serves: "db_serves h (cx_parse_uuid cx) b (ke_order T) (authorized_base T base) rows row val"
    and keyed: "keyed_rows (cx_parse_uuid cx) (ke_order T) (ke_values T) rows row val"
    and ok: "ke_order T \<noteq> []" "int (length rows) < i64_max" "1 \<le> l" "l \<le> i64_max"
    and codec: "list_all (\<lambda>r. codec_reads (cx_cursor cx) (connection_fingerprint cx T base) (ke_values T r)) rows"
    and rows: "rows = xs @ ys" and n: "length ys < n"
  shows "walk (\<lambda>page. fetch_authorized_keyset_connection cx b T h page q) l n
      (if xs = [] then None else Some (encode_keyset_cursor (cx_cursor cx) (connection_fingerprint cx T base)
        (ke_values T (last xs)))) = Some ys"
  using rows n
proof (induction n arbitrary: xs ys)
  case (Suc n)
  let ?fp = "connection_fingerprint cx T base" and ?cc = "cx_cursor cx"
  let ?cur = "if xs = [] then None else Some (encode_keyset_cursor ?cc ?fp (ke_values T (last xs)))"
  define k where "k = nat (page_limit h (Some l))"
  have k: "0 < k" using page_limit_pos [of h "Some l"] by (simp add: k_def)
  have "codec_reads ?cc ?fp (ke_values T (last xs)) \<and> length (ke_values T (last xs)) = length (ke_order T)" if "xs \<noteq> []"
    using codec keyed Suc(2) that by (auto simp: list_all_iff keyed_rows_def)
  then have "transpose_option (map_option (\<lambda>c. decode_keyset_cursor ?cc c ?fp (length (ke_order T))) ?cur) =
      Inr (if xs = [] then None else Some (ke_values T (last xs)))"
    using decode_encode [of ?cc ?fp "ke_values T (last xs)"] by (auto simp: transpose_option_def)
  from forward_connection [OF allowed serves keyed ok Suc(2) this k_def] obtain conn where
    c: "fetch_authorized_keyset_connection cx b T h (forward_page l ?cur) q = Inr conn"
      "map edge_node (cn_edges conn) = take k ys" "pg_has_next_page (cn_page_info conn) \<longleftrightarrow> drop k ys \<noteq> []"
      "take k ys \<noteq> [] \<longrightarrow> pg_end_cursor (cn_page_info conn) =
        Some (encode_keyset_cursor ?cc ?fp (ke_values T (last (take k ys))))"
    by blast
  show ?case
  proof (cases "drop k ys = []")
    case True
    with c show ?thesis by simp
  next
    case False
    then have t: "take k ys \<noteq> []" using k by auto
    have "walk (\<lambda>page. fetch_authorized_keyset_connection cx b T h page q) l n
        (if xs @ take k ys = [] then None else Some (encode_keyset_cursor ?cc ?fp (ke_values T (last (xs @ take k ys))))) =
        Some (drop k ys)"
      using Suc(2,3) k False by (intro Suc(1)) auto
    with c t False show ?thesis by (simp add: last_append)
  qed
qed simp

text \<open>
  C4. Following the end cursors of forward pages visits every visible row exactly once, in order,
  and stops: with any positive page size the walk that continues while \<open>has_next_page\<close> holds ends
  after at most one page per row and has collected the whole listing.
\<close>

theorem walk_visits_every_row:
  assumes "connection_allowed b T h q vis base rows"
    and "db_serves h (cx_parse_uuid cx) b (ke_order T) (authorized_base T base) rows row val"
    and "keyed_rows (cx_parse_uuid cx) (ke_order T) (ke_values T) rows row val"
    and "ke_order T \<noteq> []" "int (length rows) < i64_max" "1 \<le> l" "l \<le> i64_max"
    and "list_all (\<lambda>r. codec_reads (cx_cursor cx) (connection_fingerprint cx T base) (ke_values T r)) rows"
  shows "walk (\<lambda>page. fetch_authorized_keyset_connection cx b T h page q) l (Suc (length rows)) None = Some rows"
  using walk_from [OF assms, of "[]" rows "Suc (length rows)"] by simp

section \<open>A database of three rows\<close>

text \<open>
  A concrete host for the properties above: integers ordered by their own column. It finds the
  bound a clause is the text of and evaluates it with the query's values.
\<close>

definition three_entity :: "int KeysetEntity" where
  "three_entity = \<lparr>ke_type_id = 1, ke_entity_name = ''N'', ke_order = [order_asc ''id''], ke_fingerprint = ''id'',
     ke_cursor_fields = [\<lparr>kcf_column = ''id'', kcf_api_name = ''id'', kcf_read_policy = None, kcf_graphql_readable = True\<rparr>],
     ke_fields = [], ke_primary_columns = [''id''], ke_values = (\<lambda>r. [KvInt r])\<rparr>"

definition three_val :: "SqlValue \<Rightarrow> int" where
  "three_val v = (case v of SvInt i \<Rightarrow> i | _ \<Rightarrow> 0)"

definition three_row :: "int \<Rightarrow> str \<Rightarrow> int option" where
  "three_row r c = Some r"

definition three_rows :: "int list" where
  "three_rows = [1, 2, 3]"

definition three_bounds :: "(KeysetValue \<times> bool \<times> bool) list" where
  "three_bounds = [(v, before, inclusive). v \<leftarrow> [KvNull, KvInt 0], before \<leftarrow> [False, True], inclusive \<leftarrow> [False, True]]"

definition three_bound :: "str \<Rightarrow> key_pred list" where
  "three_bound c =
     (case find (\<lambda>(v, before, inclusive). bound_text Sqlite [order_asc ''id''] [v] before inclusive 1 = c) three_bounds of
        None \<Rightarrow> []
      | Some (v, before, inclusive) \<Rightarrow> bound_disjuncts [order_asc ''id''] [v] before inclusive 1)"

definition three_fetch :: "(int, unit) EntityQuery \<Rightarrow> OrmErrorCode + int list" where
  "three_fetch q =
     (let listed = (if eq_order_clauses q = [order_sql (order_asc ''id'')] then three_rows else rev three_rows);
          selected = (case eq_where_clauses q of
              [] \<Rightarrow> listed
            | c # _ \<Rightarrow> filter (\<lambda>r. pred_eval (three_row r) (bind_env three_val (eq_values q)) (PAny (three_bound c)) = Some True) listed) in
      Inr (case Option.bind (eq_page q) pi_limit of None \<Rightarrow> selected | Some n \<Rightarrow> take (nat n) selected))"

definition three_host :: "(int, unit) Host" where
  "three_host = \<lparr>h_has_ctx = False, h_entity_access = Inr (), h_visibility = Inr Unrestricted,
     h_field_access = (\<lambda>_ _ _. Inr ()), h_repository_fields = [], h_can_read_row = (\<lambda>_. Inr True),
     h_pagination_config = default_pagination, h_fetch_all = three_fetch, h_count = (\<lambda>_. Inr 3)\<rparr>"

definition three_codecs :: Codecs where
  "three_codecs = \<lparr>cx_cursor =
       \<lparr>cc_payload = (\<lambda>_. []),
        cc_write = (\<lambda>e. map (\<lambda>v. case v of KvInt i \<Rightarrow> char_of (nat i) | _ \<Rightarrow> CHR 0x00) (ce_values e)),
        cc_read = (\<lambda>s. Some \<lparr>ce_version = 1, ce_order = ''entity-v1:N:id'',
          ce_values = map (\<lambda>c. KvInt (int (of_char c))) s, ce_checksum = hex16 (fnv1a64 [])\<rparr>)\<rparr>,
     cx_parse_uuid = (\<lambda>_. None), cx_digest = (\<lambda>_. []), cx_order_json = (\<lambda>_. [])\<rparr>"

abbreviation three_query :: "(int, unit) EntityQuery" where
  "three_query \<equiv> entity_query_new"

definition rep_value :: "KeysetValue \<Rightarrow> KeysetValue" where
  "rep_value v = (if v = KvNull then KvNull else KvInt 0)"

lemma disjuncts_rep:
  "bound_disjuncts [c] [v] before inclusive n = bound_disjuncts [c] [rep_value v] before inclusive n"
  by (simp add: bound_disjuncts_def rep_value_def after_pred_def before_pred_def Let_def)

lemma text_rep: "bound_text b [c] [v] before inclusive n = bound_text b [c] [rep_value v] before inclusive n"
  unfolding bound_text_def using disjuncts_rep by metis

lemma three_bound_reps:
  "list_all (\<lambda>(v, before, inclusive).
     three_bound (bound_text Sqlite [order_asc ''id''] [v] before inclusive 1) =
       bound_disjuncts [order_asc ''id''] [v] before inclusive 1) three_bounds"
  by code_simp

lemma three_bound_text:
  "three_bound (bound_text Sqlite [order_asc ''id''] [v] before inclusive 1) =
     bound_disjuncts [order_asc ''id''] [v] before inclusive 1"
  using three_bound_reps
  by (simp add: text_rep [of _ _ v] disjuncts_rep [of _ v] three_bounds_def)
    (cases before; cases inclusive; simp add: rep_value_def)

lemma three_serves:
  "db_serves three_host (\<lambda>_. None) Sqlite [order_asc ''id''] (authorized_base three_entity three_query)
     three_rows three_row three_val"
proof -
  have o: "order_sql (reversed (order_asc ''id'')) \<noteq> order_sql (order_asc ''id'')" by code_simp
  have one: "\<exists>v. vs = [v]" if "length vs = Suc 0" for vs :: "KeysetValue list"
    using that by (cases vs) auto
  show ?thesis
    using o
    by (auto simp: db_serves_def bounded_rows_def three_host_def three_fetch_def in_direction_def authorized_base_def
        paginate_def where_values_def entity_query_new_def three_entity_def three_bound_text [unfolded One_nat_def] dest!: one simp del: pred_eval.simps)
qed

lemma three_keyed: "keyed_rows (\<lambda>_. None) [order_asc ''id''] (ke_values three_entity) three_rows three_row three_val"
  by (simp add: keyed_rows_def three_rows_def row_key_def cursor_key_def three_row_def three_val_def three_entity_def order_asc_def)

lemma three_allowed:
  "connection_allowed Sqlite three_entity three_host three_query Unrestricted three_query three_rows"
  by (simp add: connection_allowed_def authorize_pagination_def three_host_def with_read_visibility_def candidates_ok_def
      authorize_page_fields_def authorize_keyset_order_fields_def order_field_access_def three_entity_def
      requires_in_memory_filtering_def entity_query_new_def list_all_iff check_all_Inr order_asc_def)

lemma three_codec:
  "list_all (\<lambda>r. codec_reads (cx_cursor three_codecs) (connection_fingerprint three_codecs three_entity three_query)
     (ke_values three_entity r)) three_rows"
  by (simp add: codec_reads_def three_codecs_def three_entity_def three_rows_def connection_fingerprint_def
      bind_keyset_fingerprint_def cursor_checksum_def entity_query_new_def)

lemma three_simps: "cx_parse_uuid three_codecs = (\<lambda>_. None)" "ke_order three_entity = [order_asc ''id'']"
  "int (length three_rows) < i64_max"
  by (simp_all add: three_codecs_def three_entity_def three_rows_def i64_max_def)

theorem walk_visits_every_row_witness:
  "walk (\<lambda>page. fetch_authorized_keyset_connection three_codecs Sqlite three_entity three_host page three_query) 2
     (Suc (length three_rows)) None = Some [1, 2, 3]"
  using walk_visits_every_row [OF three_allowed, of three_codecs three_row three_val 2] three_serves three_keyed three_codec
  by (simp add: three_simps i64_max_def del: walk.simps) (simp add: three_rows_def del: walk.simps)

lemma three_page:
  "\<exists>conn. fetch_authorized_keyset_connection three_codecs Sqlite three_entity three_host (forward_page 2 None) three_query = Inr conn \<and>
     map edge_node (cn_edges conn) = [1, 2]"
proof -
  have "transpose_option (map_option (\<lambda>c. decode_keyset_cursor (cx_cursor three_codecs) c
      (connection_fingerprint three_codecs three_entity three_query) (length (ke_order three_entity))) None) = Inr None"
    by (simp add: transpose_option_def)
  with forward_connection [OF three_allowed, of three_codecs three_row three_val 2 "[]" three_rows None 2] three_serves three_keyed
  show ?thesis
    by (simp add: three_simps) (auto simp: three_rows_def i64_max_def page_limit_def three_host_def resolve_page_def default_pagination_def
        clamp_explicit_limit_def clamp_limit_value_def DEFAULT_MAX_LIMIT_def SECURE_MAX_LIMIT_def)
qed

theorem connection_page_exact_witness:
  "\<exists>conn earlier later.
     fetch_authorized_keyset_connection three_codecs Sqlite three_entity three_host (forward_page 2 None) three_query = Inr conn \<and>
     [1, 2, 3] = earlier @ map edge_node (cn_edges conn) @ later \<and>
     (pg_has_next_page (cn_page_info conn) \<longleftrightarrow> later \<noteq> [])"
proof -
  obtain conn where c: "fetch_authorized_keyset_connection three_codecs Sqlite three_entity three_host (forward_page 2 None) three_query = Inr conn"
    using three_page by (elim exE conjE) (rule that)
  have a: "authorize_pagination three_host = Inr Unrestricted"
      "with_read_visibility Sqlite (ke_type_id three_entity) Unrestricted three_query = Inr three_query"
      "candidates_ok three_host Unrestricted three_rows"
    using three_allowed by (simp_all add: connection_allowed_def)
  from connection_page_exact [OF c a(1,2), of three_rows three_row three_val] a(3) three_serves three_keyed c
  show ?thesis by (auto simp: three_simps three_rows_def i64_max_def)
qed

text \<open>
  A host with a complete read policy: the rows whose column is the bound value, in a database that
  evaluates the statements it is given.
\<close>

definition own_policy :: FilterExpression where
  "own_policy = TrustedFragment (quote_identifier Sqlite ''id'' @ '' = ?'') [SvInt 2]"

definition own_sat :: "int \<Rightarrow> SqlValue list \<Rightarrow> str \<Rightarrow> tv" where
  "own_sat r binds c = Some (c = fst (visibility_part own_policy) \<longrightarrow> hd binds = SvInt r)"

definition own_host :: "(int, unit) Host" where
  "own_host = three_host\<lparr>
     h_visibility := Inr (Complete \<lparr>rp_entity = 1, rp_backend = Sqlite, rp_expression = own_policy\<rparr>),
     h_fetch_all := (\<lambda>q. Inr (filter (\<lambda>r. statement_admits (own_sat r) Sqlite q) three_rows))\<rparr>"

lemma own_part: "visibility_part own_policy = (''(\"id\" = ?)'', [SvInt 2])"
proof -
  have "quote_identifier Sqlite ''id'' = ''\"id\"''" by code_simp
  then show ?thesis by (simp add: visibility_part_def own_policy_def)
qed

lemma own_fetch: "bounded_rows own_host q n = Inr (filter (\<lambda>r. statement_admits (own_sat r) Sqlite q) three_rows)"
  by (simp add: bounded_rows_def own_host_def statement_admits_def paginate_def)

lemma own_database: "db_filters Sqlite own_host own_sat" "counted_query three_query" "counted_visibility own_host"
proof -
  show "db_filters Sqlite own_host own_sat" by (auto simp: db_filters_def own_host_def)
  show "counted_query three_query" unfolding counted_query_def
    by (rule exI [of _ "[]"]) (simp add: entity_query_new_def)
  have "count_placeholders ''(\"id\" = ?)'' = 1" by code_simp
  then have "counted (visibility_part own_policy)" by (simp add: counted_def own_part)
  then show "counted_visibility own_host" by (simp add: counted_visibility_def own_host_def)
qed

lemma own_rows:
  assumes "eq_where_clauses q = [fst (visibility_part own_policy)]" "eq_values q = [SvInt 2]"
  shows "filter (\<lambda>r. statement_admits (own_sat r) Sqlite q) three_rows = [2]"
proof -
  have "count_placeholders ''(\"id\" = ?)'' = 1" by code_simp
  then have "statement_admits (own_sat r) Sqlite q \<longleftrightarrow> r = 2" for r
    using assms by (auto simp: statement_admits_def filter_expression_from_raw_parts_def own_sat_def own_part)
  then show ?thesis by (simp add: three_rows_def)
qed

lemma own_page:
  "\<exists>conn. fetch_authorized_keyset_connection three_codecs Sqlite three_entity own_host (forward_page 2 None) three_query = Inr conn \<and>
     map edge_node (cn_edges conn) = [2]"
proof -
  let ?vis = "Complete \<lparr>rp_entity = 1, rp_backend = Sqlite, rp_expression = own_policy\<rparr>"
  define base where "base = where_values (fst (visibility_part own_policy)) [SvInt 2] three_query"
  have a: "authorize_pagination own_host = Inr ?vis" "with_read_visibility Sqlite (ke_type_id three_entity) ?vis three_query = Inr base"
      "authorize_page_fields own_host rs = Inr ()" "authorize_keyset_order_fields own_host three_entity (ke_order three_entity) False r = Inr ()"
      "\<not> requires_in_memory_filtering three_query" for rs r
    using own_part by (simp_all add: base_def authorize_pagination_def own_host_def three_host_def with_read_visibility_def
        visibility_part_def own_policy_def authorize_page_fields_def check_all_Inr authorize_keyset_order_fields_def
        order_field_access_def three_entity_def order_asc_def requires_in_memory_filtering_def entity_query_new_def)
  have l: "page_limit own_host (Some 2) = 2"
    by (simp add: page_limit_def own_host_def three_host_def resolve_page_def default_pagination_def
        clamp_explicit_limit_def clamp_limit_value_def DEFAULT_MAX_LIMIT_def SECURE_MAX_LIMIT_def)
  have r: "read_page three_codecs Sqlite own_host ?vis (ke_order three_entity) False None 2 (authorized_base three_entity base) = Inr ([2], False)"
    using own_rows [of "authorized_base three_entity base"]
    by (simp add: read_page_def own_fetch check_repository_candidates_def authorized_base_def base_def where_values_def entity_query_new_def)
  have "readable_key (cx_parse_uuid three_codecs) [KvInt 2]" by simp
  then have "\<exists>q. keyset_bound_with_order (cx_parse_uuid three_codecs) Sqlite (ke_order three_entity) [KvInt 2] True False (authorized_base three_entity base) = Inr q"
    using bound_query [of "ke_order three_entity" "[KvInt 2]" "cx_parse_uuid three_codecs" Sqlite True False "authorized_base three_entity base"]
    by (simp add: three_simps(2))
  then obtain p where p: "probe_opposite three_codecs Sqlite own_host ?vis (ke_order three_entity) (\<lambda>r. Inr (ke_values three_entity r)) False None [2]
      (authorized_base three_entity base) = Inr p"
    by (auto simp: probe_opposite_def transpose_option_def own_fetch check_repository_candidates_def three_entity_def)
  have vf: "values_for T order False = (\<lambda>r. Inr (ke_values T r))" for T :: "int KeysetEntity" and order by (auto simp: values_for_def)
  have v: "validate_connection (forward_page 2 None) DEFAULT_LIMIT i64_max =
      Inr \<lparr>vk_direction = Forward, vk_cursor = None, vk_limit = 2, vk_include_total_count = False\<rparr>"
    using forward_page_valid [of 2 None] by (simp add: i64_max_def)
  show ?thesis
    unfolding fetch_authorized_keyset_connection_def fetch_authorized_keyset_connection_with_order_def
    using a r p
    by (auto simp: transpose_option_def v Let_def vf authorized_base_def l encode_edges_values check_all_Inr)
qed

theorem connection_rows_authorized_witness:
  "\<exists>conn. fetch_authorized_keyset_connection three_codecs Sqlite three_entity own_host (forward_page 2 None) three_query = Inr conn \<and>
     map edge_node (cn_edges conn) = [2] \<and>
     (\<exists>binds. take 1 binds = [SvInt 2] \<and> own_sat 2 binds (fst (visibility_part own_policy)) = Some True)"
proof -
  from own_page obtain conn where
    c: "fetch_authorized_keyset_connection three_codecs Sqlite three_entity own_host (forward_page 2 None) three_query = Inr conn"
      "map edge_node (cn_edges conn) = [2]" by (elim exE conjE) (rule that)
  obtain e where e: "e \<in> set (cn_edges conn)" "edge_node e = 2" using c(2) by (cases "cn_edges conn") auto
  have own: "h_visibility own_host = Inr (Complete \<lparr>rp_entity = 1, rp_backend = Sqlite, rp_expression = own_policy\<rparr>)"
    "eq_values three_query = []" "filter_values own_policy = [SvInt 2]"
    by (simp_all add: own_host_def entity_query_new_def) (simp only: own_policy_def filter_values.simps)
  from connection_rows_authorized [OF c(1) e(1) own_database] obtain vis where
    vis: "h_visibility own_host = Inr vis" "\<forall>f. predicate_expression vis = Some f \<longrightarrow> (\<exists>binds.
        take (length (filter_values f)) (drop (length (eq_values three_query)) binds) = filter_values f \<and>
        own_sat (edge_node e) binds (normalize_sql_placeholders Sqlite (fst (visibility_part f)) (length (eq_values three_query) + 1)) = Some True)"
    by (elim conjE exE) (rule that)
  from vis(1) own(1) have "predicate_expression vis = Some own_policy" by auto
  with vis(2) obtain binds where "take (length (filter_values own_policy)) (drop (length (eq_values three_query)) binds) = filter_values own_policy"
    "own_sat (edge_node e) binds (normalize_sql_placeholders Sqlite (fst (visibility_part own_policy)) (length (eq_values three_query) + 1)) = Some True"
    by (elim allE impE exE conjE) (assumption, rule that)
  then have binds: "take 1 binds = [SvInt 2]" "own_sat 2 binds (fst (visibility_part own_policy)) = Some True"
    by (simp_all only: own(2,3) e(2) normalize_sqlite length_Cons list.size drop_0 One_nat_def add_0)
  show ?thesis by (intro exI [of _ conn] conjI c exI [of _ binds] binds)
qed

end
