(* ===== verification/Scan.thy ===== *)
theory Scan
  imports Paging
begin

text \<open>
  Bounded residual scans of \<open>src/crates/graphql-orm/src/graphql/orm/authorized_pagination.rs\<close>:
  encrypted continuation cursors and the loop that reads batches, asks the row callback for every
  candidate and stops when the page is full, the scan budget is used up or the rows are exhausted.
\<close>

section \<open>Continuations\<close>

record AuthorizedScanConfig =
  sc_batch_size :: nat
  sc_max_scanned_rows :: nat
  sc_key :: str

text \<open>
  XChaCha20-Poly1305 of another crate: encryption and decryption under a key and a nonce, and the
  nonce that the random generator supplies.
\<close>

record Cipher =
  cf_nonce :: str
  cf_encrypt :: "str \<Rightarrow> str \<Rightarrow> str \<Rightarrow> str option"
  cf_decrypt :: "str \<Rightarrow> str \<Rightarrow> str \<Rightarrow> str option"

definition scan_order :: "Codecs \<Rightarrow> 'e KeysetEntity \<Rightarrow> str list \<Rightarrow> str" where
  "scan_order cx T filter_identities =
     bind_keyset_fingerprint (cx_digest cx) None
       (''scan:'' @ ke_entity_name T @ '':'' @ ke_fingerprint T) filter_identities"

definition scan_encode ::
  "Cipher \<Rightarrow> Codecs \<Rightarrow> 'e KeysetEntity \<Rightarrow> AuthorizedScanConfig \<Rightarrow> KeysetValue list \<Rightarrow> str list \<Rightarrow> OrmErrorCode + str" where
  "scan_encode cf cx T cfg vs filter_identities =
     (let plaintext = encode_keyset_cursor (cx_cursor cx) (scan_order cx T filter_identities) vs in
      case cf_encrypt cf (sc_key cfg) (cf_nonce cf) plaintext of
        None \<Rightarrow> Inl AuthorizationMisconfigured
      | Some ciphertext \<Rightarrow> Inr (''goms1.'' @ hex_encode (cf_nonce cf @ ciphertext)))"

definition scan_decode ::
  "Cipher \<Rightarrow> Codecs \<Rightarrow> 'e KeysetEntity \<Rightarrow> AuthorizedScanConfig \<Rightarrow> str \<Rightarrow> str list \<Rightarrow> OrmErrorCode + KeysetValue list" where
  "scan_decode cf cx T cfg cursor filter_identities =
     (case strip_prefix ''goms1.'' cursor of
        None \<Rightarrow> Inl CursorInvalid
      | Some text \<Rightarrow>
          if length text > 32768 then Inl CursorInvalid
          else case hex_decode text of
            None \<Rightarrow> Inl CursorInvalid
          | Some bytes \<Rightarrow>
              if length bytes < 40 then Inl CursorInvalid
              else case cf_decrypt cf (sc_key cfg) (take 24 bytes) (drop 24 bytes) of
                None \<Rightarrow> Inl CursorInvalid
              | Some plaintext \<Rightarrow>
                  if \<not> utf8_valid plaintext then Inl CursorInvalid
                  else decode_keyset_cursor (cx_cursor cx) plaintext
                    (scan_order cx T filter_identities) (length (ke_order T)))"

section \<open>The scan loop\<close>

datatype ScanStatus = Exhausted | PageFull | BudgetExhausted

record AuthorizedScanInput =
  si_after :: "str option"
  si_limit :: "int option"
  si_include_total_count :: bool

record ScanPageInfo =
  sp_status :: ScanStatus
  sp_continuation :: "str option"
  sp_total_count :: "int option"

record 'e AuthorizedScanPage =
  sg_nodes :: "'e list"
  sg_page_info :: ScanPageInfo

text \<open>\<open>for row in rows\<close>: advance over every candidate, keep the readable ones.\<close>

fun scan_rows ::
  "('e, 'd) Host \<Rightarrow> 'e KeysetEntity \<Rightarrow> ReadVisibility \<Rightarrow> 'e list \<Rightarrow> KeysetValue list option \<Rightarrow> 'e list \<Rightarrow> nat
    \<Rightarrow> OrmErrorCode + (KeysetValue list option \<times> 'e list \<times> nat)" where
  "scan_rows h T vis [] position nodes scanned = Inr (position, nodes, scanned)"
| "scan_rows h T vis (row # rows) position nodes scanned =
     attempt (if \<not> requires_residual_checks vis then Inr True else h_can_read_row h row) (\<lambda>keep.
       scan_rows h T vis rows (Some (ke_values T row)) (if keep then nodes @ [row] else nodes) (scanned + 1))"

definition u32_max :: nat where "u32_max = 2 ^ 32 - 1"

definition scan_batch :: "AuthorizedScanConfig \<Rightarrow> nat \<Rightarrow> nat \<Rightarrow> nat \<Rightarrow> nat" where
  "scan_batch cfg limit taken scanned =
     min (min (sc_batch_size cfg) (sc_max_scanned_rows cfg - scanned)) (min (limit - taken) u32_max)"

partial_function (option) scan_loop ::
  "Codecs \<Rightarrow> DatabaseBackend \<Rightarrow> 'e KeysetEntity \<Rightarrow> ('e, 'd) Host \<Rightarrow> ReadVisibility \<Rightarrow> AuthorizedScanConfig \<Rightarrow> nat
    \<Rightarrow> ('e, 'd) EntityQuery \<Rightarrow> KeysetValue list option \<Rightarrow> 'e list \<Rightarrow> nat
    \<Rightarrow> (OrmErrorCode + (ScanStatus \<times> KeysetValue list option \<times> 'e list)) option" where
  "scan_loop cx b T h vis cfg limit base position nodes scanned =
     (let batch_size = scan_batch cfg limit (length nodes) scanned in
      case attempt (case position of
             Some vs \<Rightarrow> keyset_bound_with_order (cx_parse_uuid cx) b (ke_order T) vs False False base
           | None \<Rightarrow> Inr base) (\<lambda>query.
           attempt (bounded_rows h query (int batch_size)) (\<lambda>rows.
             attempt (scan_rows h T vis rows position nodes scanned) (\<lambda>st. Inr (length rows < batch_size, st)))) of
        Inl e \<Rightarrow> Some (Inl e)
      | Inr (short, position, nodes, scanned) \<Rightarrow>
          if short then Some (Inr (Exhausted, position, nodes))
          else if length nodes = limit then Some (Inr (PageFull, position, nodes))
          else if scanned = sc_max_scanned_rows cfg then Some (Inr (BudgetExhausted, position, nodes))
          else scan_loop cx b T h vis cfg limit base position nodes scanned)"

definition fetch_authorized_scan ::
  "Cipher \<Rightarrow> Codecs \<Rightarrow> DatabaseBackend \<Rightarrow> 'e KeysetEntity \<Rightarrow> ('e, 'd) Host \<Rightarrow> AuthorizedScanConfig option
    \<Rightarrow> AuthorizedScanInput \<Rightarrow> ('e, 'd) EntityQuery \<Rightarrow> (OrmErrorCode + 'e AuthorizedScanPage) option" where
  "fetch_authorized_scan cf cx b T h config page self =
     (case attempt (authorize_pagination h) (\<lambda>vis.
         attempt (authorize_keyset_order_fields h T (ke_order T) False None) (\<lambda>_.
         case config of None \<Rightarrow> Inl AuthorizationMisconfigured | Some cfg \<Rightarrow>
         if sc_batch_size cfg = 0 \<or> sc_max_scanned_rows cfg = 0 then Inl AuthorizationMisconfigured
         else if requires_in_memory_filtering self \<or> (case si_limit page of Some n \<Rightarrow> n \<le> 0 | None \<Rightarrow> False)
         then Inl InvalidInput
         else if si_include_total_count page \<and> requires_residual_checks vis then Inl InvalidInput
         else attempt (with_read_visibility b (ke_type_id T) vis self) (\<lambda>base.
         let base = base\<lparr>eq_page := None, eq_order_clauses := map order_sql (ke_order T), eq_order_values := []\<rparr>;
             limit = nat (page_limit h (si_limit page)) in
         attempt (transpose_option (map_option
           (\<lambda>c. scan_decode cf cx T cfg c (eq_keyset_filter_identities base)) (si_after page))) (\<lambda>position.
         attempt (if si_include_total_count page then attempt (h_count h base) (\<lambda>n. Inr (Some n)) else Inr None) (\<lambda>total_count.
         Inr (vis, cfg, base, limit, position, total_count)))))) of
        Inl e \<Rightarrow> Some (Inl e)
      | Inr (vis, cfg, base, limit, position, total_count) \<Rightarrow>
          map_option (\<lambda>r.
            attempt r (\<lambda>(status, position, nodes).
            attempt (authorize_page_fields h nodes) (\<lambda>_.
            attempt (check_all (\<lambda>node. authorize_keyset_order_fields h T (ke_order T) False (Some node)) nodes) (\<lambda>_.
            attempt (authorize_keyset_order_fields h T (ke_order T) False None) (\<lambda>_.
            attempt (if status = Exhausted then Inr None
                     else attempt (case position of None \<Rightarrow> Inl AuthorizationMisconfigured | Some vs \<Rightarrow> Inr vs) (\<lambda>vs.
                       attempt (scan_encode cf cx T cfg vs (eq_keyset_filter_identities base)) (\<lambda>c. Inr (Some c)))) (\<lambda>continuation.
            Inr \<lparr>sg_nodes = nodes,
                 sg_page_info = \<lparr>sp_status = status, sp_continuation = continuation, sp_total_count = total_count\<rparr>\<rparr>))))))
            (scan_loop cx b T h vis cfg limit base position [] 0))"

section \<open>The loop returns a prefix\<close>

definition readable_row :: "('e, 'd) Host \<Rightarrow> ReadVisibility \<Rightarrow> 'e \<Rightarrow> bool" where
  "readable_row h vis r \<longleftrightarrow> \<not> requires_residual_checks vis \<or> h_can_read_row h r = Inr True"

definition callbacks_answer :: "('e, 'd) Host \<Rightarrow> ReadVisibility \<Rightarrow> 'e list \<Rightarrow> bool" where
  "callbacks_answer h vis rows \<longleftrightarrow>
     \<not> requires_residual_checks vis \<or> list_all (\<lambda>r. h_can_read_row h r \<in> {Inr True, Inr False}) rows"

lemma scan_rows_result:
  assumes "callbacks_answer h vis rows"
  shows "scan_rows h T vis rows position nodes scanned =
    Inr (if rows = [] then position else Some (ke_values T (last rows)),
      nodes @ filter (readable_row h vis) rows, scanned + length rows)"
  using assms
proof (induction rows arbitrary: position nodes scanned)
  case (Cons r rows)
  have c: "callbacks_answer h vis rows"
    using Cons(2) by (auto simp: callbacks_answer_def)
  have "(if \<not> requires_residual_checks vis then Inr True else h_can_read_row h r) = Inr (readable_row h vis r)"
    using Cons(2) by (auto simp: callbacks_answer_def readable_row_def)
  then show ?case using Cons(1) [OF c] by simp
qed simp

text \<open>The position after the first rows of a listing.\<close>

definition position_at :: "'e KeysetEntity \<Rightarrow> 'e list \<Rightarrow> KeysetValue list option" where
  "position_at T xs = (if xs = [] then None else Some (ke_values T (last xs)))"

lemma rows_after_position:
  assumes "keyed_rows pu order vals (xs @ ys) row val" "xs \<noteq> []"
  shows "filter (\<lambda>r. key_less order (cursor_key pu val (vals (last xs))) (row_key order (row r))) (xs @ ys) = ys"
proof -
  have e: "xs @ ys = butlast xs @ last xs # ys" using assms(2) by simp
  have c: "cursor_key pu val (vals (last xs)) = row_key order (row (last xs))"
    using assms by (auto simp: keyed_rows_def list_all_iff)
  show ?thesis
    using keys.around(2) [of order "\<lambda>r. row_key order (row r)" "butlast xs" "last xs" ys] keyed_ascending [OF assms(1)]
    unfolding c e by blast
qed

lemma read_from_position:
  assumes serves: "db_serves h (cx_parse_uuid cx) b (ke_order T) base (xs @ ys) row val" "ke_order T \<noteq> []"
    and base: "eq_order_clauses base = map order_sql (ke_order T)"
    and keyed: "keyed_rows (cx_parse_uuid cx) (ke_order T) (ke_values T) (xs @ ys) row val"
  shows "attempt (case position_at T xs of
      Some vs \<Rightarrow> keyset_bound_with_order (cx_parse_uuid cx) b (ke_order T) vs False False base
    | None \<Rightarrow> Inr base) (\<lambda>query. bounded_rows h query (int n)) = Inr (take n ys)"
proof (cases "xs = []")
  case True
  have "bounded_rows h (in_direction (ke_order T) False base) (int n) = Inr (take n ys)"
    using serves(1) True by (simp add: db_serves_def)
  with True in_direction_False [OF base] show ?thesis by (simp add: position_at_def)
next
  case False
  have "last xs \<in> set (xs @ ys)" using False by simp
  then have v: "length (ke_values T (last xs)) = length (ke_order T)" "readable_key (cx_parse_uuid cx) (ke_values T (last xs))"
    using keyed by (auto simp: keyed_rows_def list_all_iff)
  obtain q where "keyset_bound_with_order (cx_parse_uuid cx) b (ke_order T) (ke_values T (last xs)) False False base = Inr q"
      "eq_order_clauses q = map order_sql (ke_order T)"
      "bounded_rows h (in_direction (ke_order T) False q) (int n) =
        Inr (take (nat (int n)) (filter (\<lambda>r. key_less (ke_order T) (cursor_key (cx_parse_uuid cx) val (ke_values T (last xs)))
          (row_key (ke_order T) (row r))) (xs @ ys)))"
    using served_bound [OF serves base v, of False False] by (auto simp: Let_def)
  with False rows_after_position [OF keyed False] in_direction_False show ?thesis
    by (fastforce simp: position_at_def)
qed

definition scan_outcome ::
  "'e KeysetEntity \<Rightarrow> ('e, 'd) Host \<Rightarrow> ReadVisibility \<Rightarrow> AuthorizedScanConfig \<Rightarrow> nat \<Rightarrow> 'e list \<Rightarrow> 'e list \<Rightarrow> 'e list \<Rightarrow> nat
    \<Rightarrow> ScanStatus \<times> KeysetValue list option \<times> 'e list \<Rightarrow> bool" where
  "scan_outcome T h vis cfg limit xs ys nodes scanned r \<longleftrightarrow>
     (case r of (status, position, nodes') \<Rightarrow>
        \<exists>zs ws. ys = zs @ ws \<and> nodes' = nodes @ filter (readable_row h vis) zs \<and> position = position_at T (xs @ zs) \<and>
          length nodes' \<le> limit \<and> scanned + length zs \<le> sc_max_scanned_rows cfg \<and>
          (case status of
             Exhausted \<Rightarrow> ws = []
           | PageFull \<Rightarrow> zs \<noteq> [] \<and> length nodes' = limit
           | BudgetExhausted \<Rightarrow> zs \<noteq> [] \<and> scanned + length zs = sc_max_scanned_rows cfg))"

lemma scan_outcomeI:
  assumes "ys = zs @ ws" "length (nodes @ filter (readable_row h vis) zs) \<le> limit"
    "scanned + length zs \<le> sc_max_scanned_rows cfg"
    "case status of Exhausted \<Rightarrow> ws = [] | PageFull \<Rightarrow> zs \<noteq> [] \<and> length (nodes @ filter (readable_row h vis) zs) = limit
      | BudgetExhausted \<Rightarrow> zs \<noteq> [] \<and> scanned + length zs = sc_max_scanned_rows cfg"
  shows "scan_outcome T h vis cfg limit xs ys nodes scanned
    (status, position_at T (xs @ zs), nodes @ filter (readable_row h vis) zs)"
  unfolding scan_outcome_def prod.case using assms by blast

lemma scan_outcome_extend:
  assumes "scan_outcome T h vis cfg limit (xs @ zs) ws (nodes @ filter (readable_row h vis) zs) (scanned + length zs) r"
  shows "scan_outcome T h vis cfg limit xs (zs @ ws) nodes scanned r"
proof -
  obtain status position nodes' where r: "r = (status, position, nodes')" by (cases r)
  from assms obtain zs' ws' where o: "ws = zs' @ ws'" "nodes' = (nodes @ filter (readable_row h vis) zs) @ filter (readable_row h vis) zs'"
    "position = position_at T ((xs @ zs) @ zs')" "length nodes' \<le> limit" "scanned + length zs + length zs' \<le> sc_max_scanned_rows cfg"
    "case status of Exhausted \<Rightarrow> ws' = [] | PageFull \<Rightarrow> zs' \<noteq> [] \<and> length nodes' = limit
       | BudgetExhausted \<Rightarrow> zs' \<noteq> [] \<and> scanned + length zs + length zs' = sc_max_scanned_rows cfg"
    unfolding scan_outcome_def r prod.case by auto
  have "scan_outcome T h vis cfg limit xs (zs @ ws) nodes scanned
      (status, position_at T (xs @ zs @ zs'), nodes @ filter (readable_row h vis) (zs @ zs'))"
    using o by (intro scan_outcomeI [of _ _ ws']) (auto split: ScanStatus.splits)
  with o r show ?thesis by simp
qed

lemma scan_loop_returns:
  assumes serves: "db_serves h (cx_parse_uuid cx) b (ke_order T) base rows row val" "ke_order T \<noteq> []"
    and base: "eq_order_clauses base = map order_sql (ke_order T)"
    and keyed: "keyed_rows (cx_parse_uuid cx) (ke_order T) (ke_values T) rows row val"
    and calls: "callbacks_answer h vis rows"
    and pos: "0 < sc_batch_size cfg" "scanned < sc_max_scanned_rows cfg" "length nodes < limit" "rows = xs @ ys"
  shows "\<exists>r. scan_loop cx b T h vis cfg limit base (position_at T xs) nodes scanned = Some (Inr r) \<and>
    scan_outcome T h vis cfg limit xs ys nodes scanned r"
  using pos
proof (induction "sc_max_scanned_rows cfg - scanned" arbitrary: scanned nodes xs ys rule: less_induct)
  case less
  let ?n = "scan_batch cfg limit (length nodes) scanned"
  let ?zs = "take ?n ys" and ?ws = "drop ?n ys"
  let ?nodes = "nodes @ filter (readable_row h vis) ?zs" and ?scanned = "scanned + length ?zs"
  have n: "0 < ?n" "?n \<le> sc_max_scanned_rows cfg - scanned" "?n \<le> limit - length nodes"
    using less(2,3,4) by (auto simp: scan_batch_def u32_max_def)
  have c: "callbacks_answer h vis ?zs"
    using calls less(5) by (auto simp: callbacks_answer_def list_all_iff dest: in_set_takeD)
  have read: "attempt (case position_at T xs of
      Some vs \<Rightarrow> keyset_bound_with_order (cx_parse_uuid cx) b (ke_order T) vs False False base
    | None \<Rightarrow> Inr base) (\<lambda>query. attempt (bounded_rows h query (int ?n)) (\<lambda>rows.
        attempt (scan_rows h T vis rows (position_at T xs) nodes scanned) (\<lambda>st. Inr (length rows < ?n, st)))) =
      Inr (length ?zs < ?n, if ?zs = [] then position_at T xs else Some (ke_values T (last ?zs)), ?nodes, ?scanned)"
    using read_from_position [OF serves [unfolded less(5)] base keyed [unfolded less(5)], of ?n] scan_rows_result [OF c, of T]
    by (auto elim!: attempt_case)
  have p: "(if ?zs = [] then position_at T xs else Some (ke_values T (last ?zs))) = position_at T (xs @ ?zs)"
    by (simp add: position_at_def)
  have len: "length ?nodes \<le> limit" "?scanned \<le> sc_max_scanned_rows cfg"
    using n length_filter_le [of "readable_row h vis" ?zs] less(3,4) by auto
  note step = scan_loop.simps [of cx b T h vis cfg limit base "position_at T xs" nodes scanned, unfolded Let_def read, simplified prod.case sum.case p]
  consider (short) "length ?zs < ?n" | (full) "\<not> length ?zs < ?n" "length ?nodes = limit"
    | (budget) "\<not> length ?zs < ?n" "length ?nodes \<noteq> limit" "?scanned = sc_max_scanned_rows cfg"
    | (more) "\<not> length ?zs < ?n" "length ?nodes \<noteq> limit" "?scanned \<noteq> sc_max_scanned_rows cfg"
    by blast
  then show ?case
  proof cases
    case short
    then have "scan_outcome T h vis cfg limit xs ys nodes scanned (Exhausted, position_at T (xs @ ?zs), ?nodes)"
      using len by (intro scan_outcomeI [of _ _ ?ws]) auto
    with short show ?thesis by (auto simp: step)
  next
    case full
    with n have "?zs \<noteq> []" by auto
    with full have "scan_outcome T h vis cfg limit xs ys nodes scanned (PageFull, position_at T (xs @ ?zs), ?nodes)"
      using len by (intro scan_outcomeI [of _ _ ?ws]) auto
    with full show ?thesis by (auto simp: step)
  next
    case budget
    with n have "?zs \<noteq> []" by auto
    with budget have "scan_outcome T h vis cfg limit xs ys nodes scanned (BudgetExhausted, position_at T (xs @ ?zs), ?nodes)"
      using len by (intro scan_outcomeI [of _ _ ?ws]) auto
    with budget show ?thesis by (auto simp: step)
  next
    case more
    with len n have "sc_max_scanned_rows cfg - ?scanned < sc_max_scanned_rows cfg - scanned"
        "?scanned < sc_max_scanned_rows cfg" "length ?nodes < limit"
      by auto
    from less(1) [OF this(1) less(2) this(2,3), of "xs @ ?zs" ?ws] less(5) obtain r where
      "scan_loop cx b T h vis cfg limit base (position_at T (xs @ ?zs)) ?nodes ?scanned = Some (Inr r)"
      "scan_outcome T h vis cfg limit (xs @ ?zs) ?ws ?nodes ?scanned r"
      by auto
    with more scan_outcome_extend [of T h vis cfg limit xs ?zs ?ws nodes scanned r] show ?thesis
      by (auto simp: step)
  qed
qed

section \<open>Continuations resume the scan\<close>

lemma ascii_utf8: "list_all is_ascii s \<Longrightarrow> utf8_valid s"
  by (induction s) (auto simp: is_ascii_def Let_def)

lemma digit_char_ascii: "d < 16 \<Longrightarrow> is_ascii (digit_char d)"
  by (simp add: is_ascii_def digit_char_less)

lemma hex_byte_ascii: "list_all is_ascii (hex_byte c)"
proof -
  have "of_char c div 16 < (16 :: nat)" using of_char_less [of c] by linarith
  then show ?thesis by (simp add: hex_byte_def Let_def digit_char_ascii)
qed

lemma hex_encode_ascii: "list_all is_ascii (hex_encode s)"
  using hex_byte_ascii by (induction s) (auto simp: hex_encode_def)

lemma hex_encode_length: "length (hex_encode s) = 2 * length s"
  by (induction s) (auto simp: hex_encode_def hex_byte_def Let_def)

lemma cursor_ascii: "list_all is_ascii (encode_keyset_cursor cc order vs)"
  using hex_encode_ascii by (simp add: encode_keyset_cursor_def) (simp add: is_ascii_def)

text \<open>Authenticated encryption: a 24-byte nonce, 16 bytes of tag, and decryption inverts encryption.\<close>

definition cipher_sound :: "Cipher \<Rightarrow> str \<Rightarrow> bool" where
  "cipher_sound cf k \<longleftrightarrow> length (cf_nonce cf) = 24 \<and>
     (\<forall>p. \<exists>c. cf_encrypt cf k (cf_nonce cf) p = Some c \<and> length c = length p + 16 \<and>
        cf_decrypt cf k (cf_nonce cf) c = Some p)"

lemma scan_cursor_roundtrip:
  assumes "cipher_sound cf (sc_key cfg)" "codec_reads (cx_cursor cx) (scan_order cx T ids) vs"
    and "length vs = length (ke_order T)"
    and "length (encode_keyset_cursor (cx_cursor cx) (scan_order cx T ids) vs) \<le> 16344"
  shows "\<exists>c. scan_encode cf cx T cfg vs ids = Inr c \<and> scan_decode cf cx T cfg c ids = Inr vs"
proof -
  let ?p = "encode_keyset_cursor (cx_cursor cx) (scan_order cx T ids) vs"
  obtain ct where ct: "cf_encrypt cf (sc_key cfg) (cf_nonce cf) ?p = Some ct" "length ct = length ?p + 16"
      "cf_decrypt cf (sc_key cfg) (cf_nonce cf) ct = Some ?p" and n: "length (cf_nonce cf) = 24"
    using assms(1) unfolding cipher_sound_def by blast
  have "strip_prefix ''goms1.'' (''goms1.'' @ t) = Some t" for t
    by (simp add: strip_prefix_Some)
  moreover have "length (hex_encode (cf_nonce cf @ ct)) \<le> 32768"
    using n ct(2) assms(4) by (simp add: hex_encode_length)
  moreover have "utf8_valid ?p" by (rule ascii_utf8 [OF cursor_ascii])
  ultimately have "scan_decode cf cx T cfg (''goms1.'' @ hex_encode (cf_nonce cf @ ct)) ids = Inr vs"
    using n ct(2,3) decode_encode [OF assms(2)] assms(3) by (simp add: scan_decode_def del: append.simps(2))
  with ct(1) show ?thesis by (simp add: scan_encode_def)
qed

definition scan_allowed ::
  "DatabaseBackend \<Rightarrow> 'e KeysetEntity \<Rightarrow> ('e, 'd) Host \<Rightarrow> ('e, 'd) EntityQuery \<Rightarrow> ReadVisibility
    \<Rightarrow> ('e, 'd) EntityQuery \<Rightarrow> 'e list \<Rightarrow> bool" where
  "scan_allowed b T h q vis base rows \<longleftrightarrow>
     authorize_pagination h = Inr vis \<and> with_read_visibility b (ke_type_id T) vis q = Inr base \<and>
     \<not> requires_in_memory_filtering q \<and> callbacks_answer h vis rows \<and> authorize_page_fields h rows = Inr () \<and>
     authorize_keyset_order_fields h T (ke_order T) False None = Inr () \<and>
     list_all (\<lambda>r. authorize_keyset_order_fields h T (ke_order T) False (Some r) = Inr ()) rows"

definition scan_page :: "int option \<Rightarrow> str option \<Rightarrow> AuthorizedScanInput" where
  "scan_page limit cur = \<lparr>si_after = cur, si_limit = limit, si_include_total_count = False\<rparr>"

lemma scan_page_result:
  assumes allowed: "scan_allowed b T h q vis base rows"
    and serves: "db_serves h (cx_parse_uuid cx) b (ke_order T) (authorized_base T base) rows row val"
    and keyed: "keyed_rows (cx_parse_uuid cx) (ke_order T) (ke_values T) rows row val"
    and ok: "ke_order T \<noteq> []" "0 < sc_batch_size cfg" "0 < sc_max_scanned_rows cfg" "case limit of None \<Rightarrow> True | Some n \<Rightarrow> 0 < n"
    and enc: "\<And>r. r \<in> set rows \<Longrightarrow> \<exists>c. scan_encode cf cx T cfg (ke_values T r) (eq_keyset_filter_identities base) = Inr c"
    and rows: "rows = xs @ ys"
    and cur: "transpose_option (map_option (\<lambda>c. scan_decode cf cx T cfg c (eq_keyset_filter_identities base)) cur) =
      Inr (position_at T xs)"
  shows "\<exists>pg zs ws. fetch_authorized_scan cf cx b T h (Some cfg) (scan_page limit cur) q = Some (Inr pg) \<and>
    ys = zs @ ws \<and> sg_nodes pg = filter (readable_row h vis) zs \<and>
    length (sg_nodes pg) \<le> nat (page_limit h limit) \<and> length zs \<le> sc_max_scanned_rows cfg \<and>
    (case sp_status (sg_page_info pg) of
       Exhausted \<Rightarrow> ws = [] \<and> sp_continuation (sg_page_info pg) = None
     | status \<Rightarrow> zs \<noteq> [] \<and>
         (\<exists>c. sp_continuation (sg_page_info pg) = Some c \<and>
            scan_encode cf cx T cfg (ke_values T (last zs)) (eq_keyset_filter_identities base) = Inr c) \<and>
         (if status = PageFull then length (sg_nodes pg) = nat (page_limit h limit)
          else length zs = sc_max_scanned_rows cfg))"
proof -
  let ?base = "authorized_base T base" and ?l = "nat (page_limit h limit)"
  have a: "authorize_pagination h = Inr vis" "with_read_visibility b (ke_type_id T) vis q = Inr base"
      "\<not> requires_in_memory_filtering q" "callbacks_answer h vis rows"
      "authorize_keyset_order_fields h T (ke_order T) False None = Inr ()"
    using allowed by (simp_all add: scan_allowed_def)
  have bo: "eq_order_clauses ?base = map order_sql (ke_order T)" by (simp add: authorized_base_def)
  have l: "0 < ?l" using page_limit_pos [of h limit] by simp
  from scan_loop_returns [OF serves ok(1) bo keyed a(4) ok(2,3), of "[]" ?l xs ys] l rows obtain status position nodes where
    loop: "scan_loop cx b T h vis cfg ?l ?base (position_at T xs) [] 0 = Some (Inr (status, position, nodes))"
    and out: "scan_outcome T h vis cfg ?l xs ys [] 0 (status, position, nodes)"
    by (auto simp: prod_eq_iff)
  from out obtain zs ws where o: "ys = zs @ ws" "nodes = filter (readable_row h vis) zs" "position = position_at T (xs @ zs)"
      "length nodes \<le> ?l" "length zs \<le> sc_max_scanned_rows cfg"
      "case status of Exhausted \<Rightarrow> ws = [] | PageFull \<Rightarrow> zs \<noteq> [] \<and> length nodes = ?l
         | BudgetExhausted \<Rightarrow> zs \<noteq> [] \<and> length zs = sc_max_scanned_rows cfg"
    unfolding scan_outcome_def prod.case add_0 append_Nil by blast
  have sub: "set nodes \<subseteq> set rows" using o(1,2) rows by auto
  have f: "authorize_page_fields h nodes = Inr ()"
      "check_all (\<lambda>node. authorize_keyset_order_fields h T (ke_order T) False (Some node)) nodes = Inr ()"
    using allowed sub page_fields_subset [of h rows] by (auto simp: scan_allowed_def check_all_Inr list_all_iff)
  obtain c where c: "status \<noteq> Exhausted \<longrightarrow> position = Some (ke_values T (last zs)) \<and> zs \<noteq> [] \<and>
      scan_encode cf cx T cfg (ke_values T (last zs)) (eq_keyset_filter_identities base) = Inr c"
    using o enc [of "last zs"] rows by (cases status) (auto simp: position_at_def)
  have lim: "\<not> (case limit of Some n \<Rightarrow> n \<le> 0 | None \<Rightarrow> False)" using ok(4) by (auto split: option.splits)
  have "fetch_authorized_scan cf cx b T h (Some cfg) (scan_page limit cur) q =
      Some (Inr \<lparr>sg_nodes = nodes, sg_page_info = \<lparr>sp_status = status,
        sp_continuation = (if status = Exhausted then None else Some c), sp_total_count = None\<rparr>\<rparr>)"
    using a ok(2,3) lim cur loop f c
    by (auto simp: fetch_authorized_scan_def scan_page_def authorized_base_def Let_def)
  with o c show ?thesis
    by (intro exI [of _ "\<lparr>sg_nodes = nodes, sg_page_info = \<lparr>sp_status = status,
        sp_continuation = (if status = Exhausted then None else Some c), sp_total_count = None\<rparr>\<rparr>"]
        exI [of _ zs] exI [of _ ws]) (auto split: ScanStatus.splits)
qed

text \<open>A client that resumes at every continuation.\<close>

fun scan_walk ::
  "(AuthorizedScanInput \<Rightarrow> (OrmErrorCode + 'e AuthorizedScanPage) option) \<Rightarrow> int option \<Rightarrow> nat \<Rightarrow> str option \<Rightarrow> 'e list option" where
  "scan_walk fetch limit 0 cur = None"
| "scan_walk fetch limit (Suc n) cur =
     (case fetch (scan_page limit cur) of
        Some (Inr pg) \<Rightarrow>
          (case sp_continuation (sg_page_info pg) of
             None \<Rightarrow> Some (sg_nodes pg)
           | Some c \<Rightarrow> map_option (\<lambda>rest. sg_nodes pg @ rest) (scan_walk fetch limit n (Some c)))
      | _ \<Rightarrow> None)"

text \<open>
  C5. A scan page always comes back and is exact: the loop returns, the page holds exactly the
  readable rows among the next candidates behind its position, never more rows than the page size
  or more candidates than the scan budget; it reports exhaustion only when no candidate is left,
  a full page or a used-up budget only when that is so, and otherwise continues right behind the
  last candidate it examined, readable or not.
\<close>

theorem scan_page_exact:
  assumes "scan_allowed b T h q vis base rows"
    and "db_serves h (cx_parse_uuid cx) b (ke_order T) (authorized_base T base) rows row val"
    and "keyed_rows (cx_parse_uuid cx) (ke_order T) (ke_values T) rows row val"
    and "ke_order T \<noteq> []" "0 < sc_batch_size cfg" "0 < sc_max_scanned_rows cfg" "case limit of None \<Rightarrow> True | Some n \<Rightarrow> 0 < n"
    and "\<And>r. r \<in> set rows \<Longrightarrow> \<exists>c. scan_encode cf cx T cfg (ke_values T r) (eq_keyset_filter_identities base) = Inr c"
    and "rows = xs @ ys"
    and "transpose_option (map_option (\<lambda>c. scan_decode cf cx T cfg c (eq_keyset_filter_identities base)) cur) =
      Inr (position_at T xs)"
  shows "\<exists>pg zs ws. fetch_authorized_scan cf cx b T h (Some cfg) (scan_page limit cur) q = Some (Inr pg) \<and>
    ys = zs @ ws \<and> sg_nodes pg = filter (readable_row h vis) zs \<and>
    length (sg_nodes pg) \<le> nat (page_limit h limit) \<and> length zs \<le> sc_max_scanned_rows cfg \<and>
    (case sp_status (sg_page_info pg) of
       Exhausted \<Rightarrow> ws = [] \<and> sp_continuation (sg_page_info pg) = None
     | status \<Rightarrow> zs \<noteq> [] \<and>
         (\<exists>c. sp_continuation (sg_page_info pg) = Some c \<and>
            scan_encode cf cx T cfg (ke_values T (last zs)) (eq_keyset_filter_identities base) = Inr c) \<and>
         (if status = PageFull then length (sg_nodes pg) = nat (page_limit h limit)
          else length zs = sc_max_scanned_rows cfg))"
  by (rule scan_page_result [OF assms])

lemma scan_walk_from:
  assumes allowed: "scan_allowed b T h q vis base rows"
    and serves: "db_serves h (cx_parse_uuid cx) b (ke_order T) (authorized_base T base) rows row val"
    and keyed: "keyed_rows (cx_parse_uuid cx) (ke_order T) (ke_values T) rows row val"
    and ok: "ke_order T \<noteq> []" "0 < sc_batch_size cfg" "0 < sc_max_scanned_rows cfg" "case limit of None \<Rightarrow> True | Some n \<Rightarrow> 0 < n"
    and trip: "\<And>r. r \<in> set rows \<Longrightarrow> \<exists>c. scan_encode cf cx T cfg (ke_values T r) (eq_keyset_filter_identities base) = Inr c \<and>
      scan_decode cf cx T cfg c (eq_keyset_filter_identities base) = Inr (ke_values T r)"
    and rows: "rows = xs @ ys" and n: "length ys < n"
    and cur: "transpose_option (map_option (\<lambda>c. scan_decode cf cx T cfg c (eq_keyset_filter_identities base)) cur) =
      Inr (position_at T xs)"
  shows "scan_walk (\<lambda>page. fetch_authorized_scan cf cx b T h (Some cfg) page q) limit n cur =
    Some (filter (readable_row h vis) ys)"
  using rows n cur
proof (induction n arbitrary: xs ys cur)
  case (Suc n)
  have enc: "\<exists>c. scan_encode cf cx T cfg (ke_values T r) (eq_keyset_filter_identities base) = Inr c" if "r \<in> set rows" for r
    using trip [OF that] by blast
  obtain pg zs ws where p: "fetch_authorized_scan cf cx b T h (Some cfg) (scan_page limit cur) q = Some (Inr pg)"
      "ys = zs @ ws" "sg_nodes pg = filter (readable_row h vis) zs"
    and st: "case sp_status (sg_page_info pg) of
       Exhausted \<Rightarrow> ws = [] \<and> sp_continuation (sg_page_info pg) = None
     | status \<Rightarrow> zs \<noteq> [] \<and>
         (\<exists>c. sp_continuation (sg_page_info pg) = Some c \<and>
            scan_encode cf cx T cfg (ke_values T (last zs)) (eq_keyset_filter_identities base) = Inr c) \<and>
         (if status = PageFull then length (sg_nodes pg) = nat (page_limit h limit)
          else length zs = sc_max_scanned_rows cfg)"
    using scan_page_result [OF allowed serves keyed ok enc Suc(2) Suc(4)] by blast
  show ?case
  proof (cases "sp_status (sg_page_info pg) = Exhausted")
    case True
    with p st show ?thesis by simp
  next
    case False
    with st obtain c where c: "zs \<noteq> []" "sp_continuation (sg_page_info pg) = Some c"
        "scan_encode cf cx T cfg (ke_values T (last zs)) (eq_keyset_filter_identities base) = Inr c"
      by (cases "sp_status (sg_page_info pg)") auto
    have "last zs \<in> set rows" using c(1) p(2) Suc(2) by simp
    with trip c(3) have "scan_decode cf cx T cfg c (eq_keyset_filter_identities base) = Inr (ke_values T (last zs))"
      by fastforce
    moreover have "length ws < n" using Suc(3) p(2) c(1) by (cases zs) auto
    ultimately have "scan_walk (\<lambda>page. fetch_authorized_scan cf cx b T h (Some cfg) page q) limit n (Some c) =
        Some (filter (readable_row h vis) ws)"
      using Suc(2) p(2) c(1) by (intro Suc(1) [of "xs @ zs"]) (auto simp: transpose_option_def position_at_def)
    with p c(2) show ?thesis by simp
  qed
qed simp

text \<open>
  C6. Resuming at every continuation finds every readable row: a client that follows the
  continuations of a scan terminates and has collected exactly the rows the policy lets it read,
  in order and once each, although pages may be empty and no page exceeds its budget. The
  assumptions on other crates are that decryption inverts encryption and that the JSON reader
  returns the written envelope.
\<close>

theorem scan_walk_finds_readable:
  assumes "scan_allowed b T h q vis base rows"
    and "db_serves h (cx_parse_uuid cx) b (ke_order T) (authorized_base T base) rows row val"
    and "keyed_rows (cx_parse_uuid cx) (ke_order T) (ke_values T) rows row val"
    and "ke_order T \<noteq> []" "0 < sc_batch_size cfg" "0 < sc_max_scanned_rows cfg" "case limit of None \<Rightarrow> True | Some n \<Rightarrow> 0 < n"
    and "cipher_sound cf (sc_key cfg)"
    and "list_all (\<lambda>r. codec_reads (cx_cursor cx) (scan_order cx T (eq_keyset_filter_identities base)) (ke_values T r) \<and>
      length (encode_keyset_cursor (cx_cursor cx) (scan_order cx T (eq_keyset_filter_identities base)) (ke_values T r)) \<le> 16344) rows"
  shows "scan_walk (\<lambda>page. fetch_authorized_scan cf cx b T h (Some cfg) page q) limit (Suc (length rows)) None =
    Some (filter (readable_row h vis) rows)"
proof -
  have "\<exists>c. scan_encode cf cx T cfg (ke_values T r) (eq_keyset_filter_identities base) = Inr c \<and>
      scan_decode cf cx T cfg c (eq_keyset_filter_identities base) = Inr (ke_values T r)" if "r \<in> set rows" for r
    using assms(3,9) that by (intro scan_cursor_roundtrip [OF assms(8)]) (auto simp: list_all_iff keyed_rows_def)
  from scan_walk_from [OF assms(1-7) this, where xs = "[]" and ys = rows and n = "Suc (length rows)" and cur = None] show ?thesis
    by (simp add: transpose_option_def position_at_def)
qed

section \<open>A scan over three rows\<close>

definition three_cipher :: Cipher where
  "three_cipher = \<lparr>cf_nonce = replicate 24 CHR 0x00, cf_encrypt = (\<lambda>_ _ p. Some (p @ replicate 16 CHR 0x00)),
     cf_decrypt = (\<lambda>_ _ c. Some (take (length c - 16) c))\<rparr>"

definition odd_host :: "(int, unit) Host" where
  "odd_host = three_host\<lparr>h_visibility := Inr CallbackOnly, h_can_read_row := (\<lambda>r. Inr (odd r))\<rparr>"

definition scan_codecs :: Codecs where
  "scan_codecs = three_codecs\<lparr>cx_cursor := (cx_cursor three_codecs)\<lparr>cc_read := (\<lambda>s. map_option
     (\<lambda>e. e\<lparr>ce_order := ''scan:N:id''\<rparr>) (cc_read (cx_cursor three_codecs) s))\<rparr>\<rparr>"

definition small_scan :: AuthorizedScanConfig where
  "small_scan = \<lparr>sc_batch_size = 1, sc_max_scanned_rows = 1, sc_key = []\<rparr>"

lemma odd_serves:
  "db_serves odd_host (cx_parse_uuid scan_codecs) Sqlite (ke_order three_entity) (authorized_base three_entity three_query)
     three_rows three_row three_val"
  using three_serves by (simp add: db_serves_def bounded_rows_def odd_host_def scan_codecs_def three_simps)

lemma odd_keyed: "keyed_rows (cx_parse_uuid scan_codecs) (ke_order three_entity) (ke_values three_entity) three_rows three_row three_val"
  using three_keyed by (simp add: scan_codecs_def three_simps)

lemma odd_allowed: "scan_allowed Sqlite three_entity odd_host three_query CallbackOnly three_query three_rows"
  using three_allowed
  by (simp add: scan_allowed_def connection_allowed_def odd_host_def authorize_pagination_def with_read_visibility_def
      callbacks_answer_def list_all_iff authorize_page_fields_def authorize_keyset_order_fields_def order_field_access_def check_all_Inr)
    (auto simp: three_host_def)

lemma three_cipher_sound: "cipher_sound three_cipher k"
  by (simp add: cipher_sound_def three_cipher_def)

lemma odd_codec:
  "list_all (\<lambda>r. codec_reads (cx_cursor scan_codecs) (scan_order scan_codecs three_entity (eq_keyset_filter_identities three_query))
       (ke_values three_entity r) \<and>
     length (encode_keyset_cursor (cx_cursor scan_codecs) (scan_order scan_codecs three_entity (eq_keyset_filter_identities three_query))
       (ke_values three_entity r)) \<le> 16344) three_rows"
  by (simp add: codec_reads_def scan_codecs_def three_codecs_def three_entity_def three_rows_def scan_order_def
      bind_keyset_fingerprint_def cursor_checksum_def entity_query_new_def encode_keyset_cursor_def hex_encode_length)

theorem scan_walk_finds_readable_witness:
  "scan_walk (\<lambda>page. fetch_authorized_scan three_cipher scan_codecs Sqlite three_entity odd_host (Some small_scan) page three_query)
     (Some 2) (Suc (length three_rows)) None = Some [1, 3]"
proof -
  have o: "ke_order three_entity \<noteq> []" "0 < sc_batch_size small_scan" "0 < sc_max_scanned_rows small_scan"
    by (simp_all add: three_entity_def small_scan_def)
  have "filter (readable_row odd_host CallbackOnly) three_rows = [1, 3]"
    by (simp add: three_rows_def readable_row_def odd_host_def)
  moreover have g: "case Some (2 :: int) of None \<Rightarrow> True | Some n \<Rightarrow> 0 < n" by simp
  ultimately show ?thesis
    using scan_walk_finds_readable [OF odd_allowed odd_serves odd_keyed o g three_cipher_sound odd_codec]
    by (simp del: scan_walk.simps)
qed

theorem scan_page_exact_witness:
  "\<exists>pg zs ws. fetch_authorized_scan three_cipher scan_codecs Sqlite three_entity odd_host (Some small_scan) (scan_page (Some 2) None) three_query
      = Some (Inr pg) \<and> [1, 2, 3] = zs @ ws \<and> sg_nodes pg = filter (readable_row odd_host CallbackOnly) zs"
proof -
  have o: "ke_order three_entity \<noteq> []" "0 < sc_batch_size small_scan" "0 < sc_max_scanned_rows small_scan"
    by (simp_all add: three_entity_def small_scan_def)
  have e: "\<exists>c. scan_encode three_cipher scan_codecs three_entity small_scan (ke_values three_entity r)
      (eq_keyset_filter_identities three_query) = Inr c" for r
    by (simp add: scan_encode_def three_cipher_def)
  have t: "transpose_option (map_option (\<lambda>c. scan_decode three_cipher scan_codecs three_entity small_scan c
      (eq_keyset_filter_identities three_query)) None) = Inr (position_at three_entity [])"
    by (simp add: transpose_option_def position_at_def)
  have r: "three_rows = [] @ [1, 2, 3]" by (simp add: three_rows_def)
  have g: "case Some (2 :: int) of None \<Rightarrow> True | Some n \<Rightarrow> 0 < n" by simp
  from scan_page_exact [OF odd_allowed odd_serves odd_keyed o g e r t] show ?thesis
    by (elim exE conjE) (intro exI conjI)
qed

end
