(* ===== verification/Effect.thy ===== *)
theory Effect
  imports Prelude
begin

text \<open>
  Stateful operations that can fail: an asynchronous method of the source is a function of the
  state it runs in, with \<open>None\<close> for a loop that does not end, an error of the source as \<open>Inl\<close>, and
  the state after it. Sequencing stops at the first error, as the \<open>?\<close> operator does. The triple
  \<open>runs P m Q E\<close> is total correctness: from a state in \<open>P\<close> the operation ends, with a result and
  state in \<open>Q\<close> or with an error and state in \<open>E\<close>.
\<close>

named_theorems runs_rules \<open>rules for the triples of stateful operations\<close>

type_synonym ('s, 'e, 'a) action = "'s \<Rightarrow> (('e + 'a) \<times> 's) option"

definition done_with :: "'a \<Rightarrow> ('s, 'e, 'a) action" where
  "done_with x s = Some (Inr x, s)"

definition fail_with :: "'e \<Rightarrow> ('s, 'e, 'a) action" where
  "fail_with e s = Some (Inl e, s)"

definition of_result :: "'e + 'a \<Rightarrow> ('s, 'e, 'a) action" where
  "of_result r s = Some (r, s)"

definition perform :: "('s, 'e, 'a) action \<Rightarrow> ('a \<Rightarrow> ('s, 'e, 'b) action) \<Rightarrow> ('s, 'e, 'b) action" where
  "perform m f s = Option.bind (m s) (\<lambda>(r, s'). case r of Inl e \<Rightarrow> Some (Inl e, s') | Inr x \<Rightarrow> f x s')"

text \<open>The result of an operation as a value, for code that inspects it before it returns.\<close>

definition observe :: "('s, 'e, 'a) action \<Rightarrow> ('s, 'f, 'e + 'a) action" where
  "observe m s = map_option (\<lambda>(r, s'). (Inr r, s')) (m s)"

definition map_failure :: "('e \<Rightarrow> 'f) \<Rightarrow> ('s, 'e, 'a) action \<Rightarrow> ('s, 'f, 'a) action" where
  "map_failure g m s = map_option (\<lambda>(r, s'). (map_sum g id r, s')) (m s)"

text \<open>A \<open>for\<close> loop that updates an accumulator.\<close>

fun for_each :: "'x list \<Rightarrow> ('x \<Rightarrow> 'b \<Rightarrow> ('s, 'e, 'b) action) \<Rightarrow> 'b \<Rightarrow> ('s, 'e, 'b) action" where
  "for_each [] f acc = done_with acc"
| "for_each (x # xs) f acc = perform (f x acc) (for_each xs f)"

lemma perform_mono [partial_function_mono]:
  assumes "mono_option (\<lambda>f. B f s)" and "\<And>x s'. mono_option (\<lambda>f. C f x s')"
  shows "mono_option (\<lambda>f. perform (B f) (C f) s)"
  unfolding perform_def
proof (intro bind_mono assms)
  fix y
  show "mono_option (\<lambda>f. case y of (r, s') \<Rightarrow> (case r of Inl e \<Rightarrow> Some (Inl e, s') | Inr x \<Rightarrow> C f x s'))"
    by (cases y; cases "fst y") (auto intro: assms(2) option.const_mono)
qed

text \<open>The rules of the triple.\<close>

definition runs ::
  "('s \<Rightarrow> bool) \<Rightarrow> ('s, 'e, 'a) action \<Rightarrow> ('a \<Rightarrow> 's \<Rightarrow> bool) \<Rightarrow> ('e \<Rightarrow> 's \<Rightarrow> bool) \<Rightarrow> bool" where
  "runs P m Q E \<longleftrightarrow>
     (\<forall>s. P s \<longrightarrow> (\<exists>r s'. m s = Some (r, s') \<and> (case r of Inl e \<Rightarrow> E e s' | Inr x \<Rightarrow> Q x s')))"

lemma runsI:
  "(\<And>s. P s \<Longrightarrow> \<exists>r s'. m s = Some (r, s') \<and> (case r of Inl e \<Rightarrow> E e s' | Inr x \<Rightarrow> Q x s')) \<Longrightarrow> runs P m Q E"
  by (simp add: runs_def)

lemma runs_Inr: "runs P m Q E \<Longrightarrow> P s \<Longrightarrow> m s = Some (Inr x, s') \<Longrightarrow> Q x s'"
  by (fastforce simp: runs_def)

lemma runs_Inl: "runs P m Q E \<Longrightarrow> P s \<Longrightarrow> m s = Some (Inl e, s') \<Longrightarrow> E e s'"
  by (fastforce simp: runs_def)

lemma runs_returns: "runs P m Q E \<Longrightarrow> P s \<Longrightarrow> \<exists>r s'. m s = Some (r, s')"
  by (fastforce simp: runs_def)

lemma runs_conseq:
  assumes "runs P' m Q' E'"
    and "\<And>s. P s \<Longrightarrow> P' s" and "\<And>x s. Q' x s \<Longrightarrow> Q x s" and "\<And>e s. E' e s \<Longrightarrow> E e s"
  shows "runs P m Q E"
proof (rule runsI)
  fix s
  assume "P s"
  then have "P' s" by (rule assms(2))
  with assms(1) obtain r s' where "m s = Some (r, s')" "case r of Inl e \<Rightarrow> E' e s' | Inr x \<Rightarrow> Q' x s'"
    unfolding runs_def by blast
  then show "\<exists>r s'. m s = Some (r, s') \<and> (case r of Inl e \<Rightarrow> E e s' | Inr x \<Rightarrow> Q x s')"
    using assms(3,4) by (cases r) auto
qed

lemma runs_pre: "runs P' m Q E \<Longrightarrow> (\<And>s. P s \<Longrightarrow> P' s) \<Longrightarrow> runs P m Q E"
  by (rule runs_conseq)

lemma runs_done [runs_rules]: "runs (Q x) (done_with x) Q E"
  by (rule runsI) (simp add: done_with_def)

lemma runs_fail [runs_rules]: "runs (E e) (fail_with e) Q E"
  by (rule runsI) (simp add: fail_with_def)

lemma runs_of_result [runs_rules]:
  "runs (\<lambda>s. case r of Inl e \<Rightarrow> E e s | Inr x \<Rightarrow> Q x s) (of_result r) Q E"
  by (rule runsI) (simp add: of_result_def)

lemma runs_perform [runs_rules]:
  assumes "runs P m Q E" and "\<And>x. runs (Q x) (f x) R E"
  shows "runs P (perform m f) R E"
proof (rule runsI)
  fix s
  assume "P s"
  then obtain r s' where m: "m s = Some (r, s')" and post: "case r of Inl e \<Rightarrow> E e s' | Inr x \<Rightarrow> Q x s'"
    using assms(1) unfolding runs_def by blast
  show "\<exists>r s'. perform m f s = Some (r, s') \<and> (case r of Inl e \<Rightarrow> E e s' | Inr x \<Rightarrow> R x s')"
  proof (cases r)
    case (Inl e)
    with m post show ?thesis by (simp add: perform_def)
  next
    case (Inr x)
    with m post assms(2) [of x] show ?thesis by (simp add: perform_def runs_def)
  qed
qed

lemma runs_if [runs_rules]:
  "(b \<Longrightarrow> runs P m Q E) \<Longrightarrow> (\<not> b \<Longrightarrow> runs P' n Q E) \<Longrightarrow> runs (if b then P else P') (if b then m else n) Q E"
  by simp

lemma runs_observe: "runs P m Q E \<Longrightarrow> runs P (observe m) (\<lambda>r s. case r of Inl e \<Rightarrow> E e s | Inr x \<Rightarrow> Q x s) F"
  unfolding runs_def observe_def by (fastforce split: sum.splits)

lemma runs_map_failure: "runs P m Q (\<lambda>e. E (g e)) \<Longrightarrow> runs P (map_failure g m) Q E"
  unfolding runs_def map_failure_def by (fastforce split: sum.splits)

text \<open>Inspecting the outcome of an operation, and facts that do not depend on the state.\<close>

lemma runs_observe_case:
  assumes "runs P m Q E" and "\<And>e. runs (E e) (f e) R F" and "\<And>x. runs (Q x) (g x) R F"
  shows "runs P (perform (observe m) (\<lambda>r. case r of Inl e \<Rightarrow> f e | Inr x \<Rightarrow> g x)) R F"
proof (rule runs_perform [OF runs_observe [OF assms(1)]])
  fix r
  show "runs (\<lambda>s. case r of Inl e \<Rightarrow> E e s | Inr x \<Rightarrow> Q x s) (case r of Inl e \<Rightarrow> f e | Inr x \<Rightarrow> g x) R F"
    using assms(2,3) by (cases r) auto
qed

lemma runs_pure: "(A \<Longrightarrow> runs P m Q E) \<Longrightarrow> runs (\<lambda>s. P s \<and> A) m Q E"
  by (auto simp: runs_def)

lemma runs_ex: "(\<And>x. runs (P x) m Q E) \<Longrightarrow> runs (\<lambda>s. \<exists>x. P x s) m Q E"
  by (fastforce simp: runs_def)

text \<open>The invariant of a \<open>for\<close> loop speaks of the elements done so far.\<close>

lemma runs_for_each:
  assumes step: "\<And>ys x zs acc. xs = ys @ x # zs \<Longrightarrow> runs (I ys acc) (f x acc) (I (ys @ [x])) E"
  shows "runs (I [] acc) (for_each xs f acc) (I xs) E"
proof -
  have "runs (I ys acc) (for_each zs f acc) (I (ys @ zs)) E" if "xs = ys @ zs" for ys zs acc
    using that
  proof (induction zs arbitrary: ys acc)
    case Nil
    then show ?case using runs_done [of "I ys"] by simp
  next
    case (Cons x zs)
    have "runs (I (ys @ [x]) acc') (for_each zs f acc') (I ((ys @ [x]) @ zs)) E" for acc'
      using Cons.prems by (intro Cons.IH) simp
    then show ?case
      using step [OF Cons.prems] by (auto intro!: runs_perform)
  qed
  from this [of "[]" xs] show ?thesis by simp
qed

lemma runs_conj: "runs P m Q E \<Longrightarrow> runs P m Q' E' \<Longrightarrow> runs P m (\<lambda>x s. Q x s \<and> Q' x s) (\<lambda>e s. E e s \<and> E' e s)"
proof (rule runsI)
  fix s
  assume *: "runs P m Q E" "runs P m Q' E'" "P s"
  then obtain r s' where m: "m s = Some (r, s')" and 1: "case r of Inl e \<Rightarrow> E e s' | Inr x \<Rightarrow> Q x s'"
    unfolding runs_def by blast
  from * m have "case r of Inl e \<Rightarrow> E' e s' | Inr x \<Rightarrow> Q' x s'"
    by (cases r) (auto dest: runs_Inl runs_Inr)
  with m 1 show "\<exists>r s'. m s = Some (r, s') \<and> (case r of Inl e \<Rightarrow> E e s' \<and> E' e s' | Inr x \<Rightarrow> Q x s' \<and> Q' x s')"
    by (cases r) auto
qed

lemma perform_Some:
  "perform m f s = Some (Inr y, s'') \<longleftrightarrow> (\<exists>x s'. m s = Some (Inr x, s') \<and> f x s' = Some (Inr y, s''))"
  by (cases "m s") (auto simp: perform_def split: sum.splits)

lemma perform_step [rust_simps]:
  "m s = Some (Inr x, s') \<Longrightarrow> perform m f s = f x s'"
  "m s = Some (Inl e, s') \<Longrightarrow> perform m f s = Some (Inl e, s')"
  by (simp_all add: perform_def)

lemmas action_defs = done_with_def fail_with_def of_result_def perform_def observe_def map_failure_def

section \<open>Triples over an abstract view\<close>

text \<open>
  \<open>acts rep v m Q E\<close> speaks of the abstract view that \<open>rep\<close> relates to the state: from a state that
  shows \<open>v\<close> the operation ends in one that shows a view in \<open>Q\<close>, or fails in one that shows a view
  in \<open>E\<close>.
\<close>

definition acts ::
  "('v \<Rightarrow> 's \<Rightarrow> bool) \<Rightarrow> 'v \<Rightarrow> ('s, 'e, 'a) action \<Rightarrow> ('a \<Rightarrow> 'v \<Rightarrow> bool) \<Rightarrow> ('e \<Rightarrow> 'v \<Rightarrow> bool) \<Rightarrow> bool" where
  "acts rep v m Q E \<longleftrightarrow> runs (rep v) m (\<lambda>x s. \<exists>v'. rep v' s \<and> Q x v') (\<lambda>e s. \<exists>v'. rep v' s \<and> E e v')"

lemma acts_runs:
  "runs (rep v) m (\<lambda>x s. \<exists>v'. rep v' s \<and> Q x v') (\<lambda>e s. \<exists>v'. rep v' s \<and> E e v') \<Longrightarrow> acts rep v m Q E"
  by (simp add: acts_def)

lemma acts_conseq:
  "acts rep v m Q' E' \<Longrightarrow> (\<And>x v'. Q' x v' \<Longrightarrow> Q x v') \<Longrightarrow> (\<And>e v'. E' e v' \<Longrightarrow> E e v') \<Longrightarrow> acts rep v m Q E"
  unfolding acts_def by (erule runs_conseq) auto

lemma acts_done: "Q x v \<Longrightarrow> acts rep v (done_with x) Q E"
  unfolding acts_def by (rule runs_pre [OF runs_done]) auto

lemma acts_fail: "E e v \<Longrightarrow> acts rep v (fail_with e) Q E"
  unfolding acts_def by (rule runs_pre [OF runs_fail]) auto

lemma acts_of_result:
  "(\<And>x. r = Inr x \<Longrightarrow> Q x v) \<Longrightarrow> (\<And>e. r = Inl e \<Longrightarrow> E e v) \<Longrightarrow> acts rep v (of_result r) Q E"
  unfolding acts_def by (rule runs_pre [OF runs_of_result]) (auto split: sum.splits)

lemma acts_perform:
  assumes "acts rep v m Q E" and "\<And>x v'. Q x v' \<Longrightarrow> acts rep v' (f x) R E"
  shows "acts rep v (perform m f) R E"
  unfolding acts_def
proof (rule runs_perform)
  show "runs (rep v) m (\<lambda>x s. \<exists>v'. rep v' s \<and> Q x v') (\<lambda>e s. \<exists>v'. rep v' s \<and> E e v')"
    using assms(1) by (simp add: acts_def)
  show "runs (\<lambda>s. \<exists>v'. rep v' s \<and> Q x v') (f x) (\<lambda>x s. \<exists>v'. rep v' s \<and> R x v') (\<lambda>e s. \<exists>v'. rep v' s \<and> E e v')" for x
    using assms(2) unfolding acts_def by (intro runs_ex runs_pure) blast
qed

lemma acts_map_failure: "acts rep v m Q (\<lambda>e. E (g e)) \<Longrightarrow> acts rep v (map_failure g m) Q E"
  unfolding acts_def by (rule runs_map_failure)

lemma acts_observe:
  "acts rep v m Q E \<Longrightarrow> acts rep v (observe m) (\<lambda>r v'. case r of Inl e \<Rightarrow> E e v' | Inr x \<Rightarrow> Q x v') F"
  unfolding acts_def
proof (rule runs_conseq [OF runs_observe], assumption, assumption)
  fix r s
  assume "case r of Inl e \<Rightarrow> \<exists>v'. rep v' s \<and> E e v' | Inr x \<Rightarrow> \<exists>v'. rep v' s \<and> Q x v'"
  then show "\<exists>v'. rep v' s \<and> (case r of Inl e \<Rightarrow> E e v' | Inr x \<Rightarrow> Q x v')" by (cases r) auto
qed assumption

text \<open>
  The invariant of a loop speaks of the elements done so far; a loop that only reads keeps the view.
\<close>

lemma acts_for_each:
  assumes "I [] acc v" and "\<And>ys x zs acc v. xs = ys @ x # zs \<Longrightarrow> I ys acc v \<Longrightarrow> acts rep v (f x acc) (I (ys @ [x])) E"
  shows "acts rep v (for_each xs f acc) (I xs) E"
proof -
  have "acts rep v (for_each zs f acc) (I (ys @ zs)) E" if "xs = ys @ zs" "I ys acc v" for ys zs acc v
    using that
  proof (induction zs arbitrary: ys acc v)
    case Nil
    then show ?case by (auto intro: acts_done)
  next
    case (Cons x zs)
    have "acts rep v' (for_each zs f acc') (I ((ys @ [x]) @ zs)) E" if "I (ys @ [x]) acc' v'" for acc' v'
      using Cons.prems that by (intro Cons.IH) simp_all
    then show ?case
      using assms(2) [OF Cons.prems] by (auto intro!: acts_perform)
  qed
  from this [of "[]" xs] assms(1) show ?thesis by simp
qed

lemma acts_ends: "acts rep v m Q E \<Longrightarrow> rep v s \<Longrightarrow> \<exists>r s' v'. m s = Some (r, s') \<and> rep v' s'
    \<and> (case r of Inl e \<Rightarrow> E e v' | Inr x \<Rightarrow> Q x v')"
proof -
  assume "acts rep v m Q E" "rep v s"
  then obtain r s' where "m s = Some (r, s')"
    and "case r of Inl e \<Rightarrow> \<exists>v'. rep v' s' \<and> E e v' | Inr x \<Rightarrow> \<exists>v'. rep v' s' \<and> Q x v'"
    unfolding acts_def runs_def by blast
  then show ?thesis by (cases r) auto
qed

lemmas acts_rules = acts_done acts_fail acts_of_result

text \<open>Steps that keep the view: a pure check, and a read.\<close>

lemma acts_check:
  "(\<And>e. r = Inl e \<Longrightarrow> E e v) \<Longrightarrow> (\<And>x. r = Inr x \<Longrightarrow> acts rep v (f x) Q E) \<Longrightarrow> acts rep v (perform (of_result r) f) Q E"
  by (rule acts_perform [where Q = "\<lambda>x v'. v' = v \<and> r = Inr x"]) (auto intro: acts_of_result)

lemma acts_read:
  assumes "acts rep v m (\<lambda>x v'. v' = v \<and> A x) (\<lambda>_ v'. v' = v)" and "\<And>e. E e v"
    and "\<And>x. A x \<Longrightarrow> acts rep v (f x) Q E"
  shows "acts rep v (perform m f) Q E"
  by (rule acts_perform [OF acts_conseq [OF assms(1)]]) (use assms(2,3) in auto)

end
