(* ===== verification/FileTree.thy ===== *)
theory FileTree
  imports Effect
begin

text \<open>
  The file system the local storage backend works on, as \<open>std::fs\<close> shows it: a tree of named files
  and directories below a root, addressed by lists of names. Every operation can fail on its own;
  the failures to come are part of the state, each with the number of bytes a failing write still
  puts into its file. What clients rely on is the map from paths to file contents, \<open>file_at\<close>.
\<close>

section \<open>Trees\<close>

datatype Node = File str | Dir "(str \<times> Node) list"

datatype IoKind = NotFound | AlreadyExists | OtherIo

type_synonym path = "str list"

fun node_at :: "Node \<Rightarrow> path \<Rightarrow> IoKind + Node" where
  "node_at n [] = Inr n"
| "node_at (File b) (c # cs) = Inl OtherIo"
| "node_at (Dir es) (c # cs) = (case map_of es c of None \<Rightarrow> Inl NotFound | Some n \<Rightarrow> node_at n cs)"

definition is_dir :: "Node \<Rightarrow> path \<Rightarrow> bool" where
  "is_dir t p \<longleftrightarrow> (case node_at t p of Inr (Dir _) \<Rightarrow> True | _ \<Rightarrow> False)"

definition file_at :: "Node \<Rightarrow> path \<Rightarrow> str option" where
  "file_at t p = (case node_at t p of Inr (File b) \<Rightarrow> Some b | _ \<Rightarrow> None)"

definition set_entry :: "str \<Rightarrow> Node option \<Rightarrow> (str \<times> Node) list \<Rightarrow> (str \<times> Node) list" where
  "set_entry c n es = (case n of None \<Rightarrow> filter (\<lambda>e. fst e \<noteq> c) es | Some n \<Rightarrow> btree_insert c n es)"

text \<open>Replacing or removing the entry a path names; its directory has to exist.\<close>

fun set_node :: "Node option \<Rightarrow> Node \<Rightarrow> path \<Rightarrow> Node option" where
  "set_node v (File b) p = None"
| "set_node v (Dir es) [] = None"
| "set_node v (Dir es) [c] = Some (Dir (set_entry c v es))"
| "set_node v (Dir es) (c # d # cs) =
     (case map_of es c of
        None \<Rightarrow> None
      | Some n \<Rightarrow> map_option (\<lambda>n'. Dir (btree_insert c n' es)) (set_node v n (d # cs)))"

fun make_dirs :: "Node \<Rightarrow> path \<Rightarrow> Node option" where
  "make_dirs (File b) p = None"
| "make_dirs (Dir es) [] = Some (Dir es)"
| "make_dirs (Dir es) (c # cs) =
     map_option (\<lambda>n'. Dir (btree_insert c n' es))
       (make_dirs (case map_of es c of None \<Rightarrow> Dir [] | Some n \<Rightarrow> n) cs)"

text \<open>Directory entries are ordered maps with proper file names.\<close>

definition name_ok :: "str \<Rightarrow> bool" where
  "name_ok c \<longleftrightarrow> c \<noteq> [] \<and> c \<noteq> ''.'' \<and> c \<noteq> ''..'' \<and> set c \<inter> {CHR ''/'', bsl, CHR 0x00} = {}"

inductive tree_ok :: "Node \<Rightarrow> bool" where
  file_ok: "tree_ok (File b)"
| dir_ok: "btree es \<Longrightarrow> (\<And>c n. (c, n) \<in> set es \<Longrightarrow> name_ok c \<and> tree_ok n) \<Longrightarrow> tree_ok (Dir es)"

inductive_simps tree_ok_simps [simp]: "tree_ok (File b)" "tree_ok (Dir es)"

lemma btree_filter: "btree es \<Longrightarrow> btree (filter P es)"
  by (simp add: btree_def sorted_wrt_map sorted_wrt_filter)

lemma set_entry_lookup:
  assumes "btree es"
  shows "map_of (set_entry c v es) = (map_of es)(c := v)"
proof (cases v)
  case None
  have "map_of (filter (\<lambda>e. fst e \<noteq> c) es) = (map_of es)(c := None)"
    by (induction es) (auto simp: fun_eq_iff)
  with None show ?thesis by (simp add: set_entry_def)
next
  case (Some n)
  have "map_of m = btree_get m" for m :: "(str, Node) btree" by (simp add: btree_get_def fun_eq_iff)
  with Some btree_insert_get [OF assms] show ?thesis by (simp add: set_entry_def)
qed

lemma set_entry_set:
  assumes "btree es"
  shows "(d, n) \<in> set (set_entry c v es) \<longleftrightarrow> (if d = c then v = Some n else (d, n) \<in> set es)"
proof -
  have es: "distinct (map fst es)" using assms by (simp add: btree_def strict_sorted_iff)
  have "btree (set_entry c v es)"
    using assms by (auto simp: set_entry_def btree_filter btree_insert_inv split: option.split)
  then have "distinct (map fst (set_entry c v es))" by (simp add: btree_def strict_sorted_iff)
  then have "(d, n) \<in> set (set_entry c v es) \<longleftrightarrow> map_of (set_entry c v es) d = Some n"
    by (rule map_of_eq_Some_iff [symmetric])
  also have "\<dots> \<longleftrightarrow> (if d = c then v = Some n else map_of es d = Some n)"
    by (simp add: set_entry_lookup [OF assms])
  also have "map_of es d = Some n \<longleftrightarrow> (d, n) \<in> set es" using es by (rule map_of_eq_Some_iff)
  finally show ?thesis .
qed

lemma set_entry_btree: "btree es \<Longrightarrow> btree (set_entry c v es)"
  by (auto simp: set_entry_def btree_filter btree_insert_inv split: option.split)

lemma set_entry_ok:
  "tree_ok (Dir es) \<Longrightarrow> name_ok c \<Longrightarrow> (\<And>n. v = Some n \<Longrightarrow> tree_ok n) \<Longrightarrow> tree_ok (Dir (set_entry c v es))"
  by (auto simp: set_entry_set set_entry_btree split: if_splits)

lemma btree_insert_entry: "btree_insert c n es = set_entry c (Some n) es"
  by (simp add: set_entry_def)

lemma map_of_ok: "tree_ok (Dir es) \<Longrightarrow> map_of es c = Some n \<Longrightarrow> name_ok c \<and> tree_ok n"
  by (auto dest: map_of_SomeD)

lemma set_node_ok:
  "set_node v t p = Some t' \<Longrightarrow> tree_ok t \<Longrightarrow> (\<And>n. v = Some n \<Longrightarrow> tree_ok n) \<Longrightarrow> \<forall>c \<in> set p. name_ok c
    \<Longrightarrow> tree_ok t'"
proof (induction v t p arbitrary: t' rule: set_node.induct)
  case (3 v es c)
  then show ?case using set_entry_ok [of es c v] by auto
next
  case (4 v es c d cs)
  from 4(2) obtain n n' where n: "map_of es c = Some n" and n': "set_node v n (d # cs) = Some n'"
    and t': "t' = Dir (btree_insert c n' es)" by (auto split: option.splits)
  have "tree_ok n'"
    using 4 n n' map_of_ok [OF 4(3) n] by (intro "4.IH" [OF n n']) auto
  then show ?case
    using 4 t' by (auto simp: btree_insert_entry intro: set_entry_ok simp del: tree_ok_simps)
qed auto

lemma make_dirs_ok:
  "make_dirs t p = Some t' \<Longrightarrow> tree_ok t \<Longrightarrow> \<forall>c \<in> set p. name_ok c \<Longrightarrow> tree_ok t'"
proof (induction t p arbitrary: t' rule: make_dirs.induct)
  case (3 es c cs)
  let ?n = "case map_of es c of None \<Rightarrow> Dir [] | Some n \<Rightarrow> n"
  have n: "tree_ok ?n" using 3 map_of_ok [OF "3.prems"(2)] by (auto simp: btree_def split: option.split)
  from 3 obtain n' where n': "make_dirs ?n cs = Some n'" and t': "t' = Dir (btree_insert c n' es)"
    by auto
  have "tree_ok n'" using 3 n n' by (intro "3.IH" [OF n']) auto
  then show ?case
    using 3 t' by (auto simp: btree_insert_entry intro: set_entry_ok simp del: tree_ok_simps)
qed auto

text \<open>The effect on files: writing a file over no directory, removing a file, making directories.\<close>

lemma file_at_Nil [simp]: "file_at (Dir es) [] = None"
  by (simp add: file_at_def)

lemma file_at_Cons [simp]:
  "file_at (Dir es) (c # cs) = (case map_of es c of None \<Rightarrow> None | Some n \<Rightarrow> file_at n cs)"
  "file_at (File b) (c # cs) = None"
  by (simp_all add: file_at_def split: option.split)

lemma is_dir_Cons [simp]:
  "is_dir (Dir es) (c # cs) \<longleftrightarrow> (case map_of es c of None \<Rightarrow> False | Some n \<Rightarrow> is_dir n cs)"
  by (simp add: is_dir_def split: option.split)

definition content :: "Node option \<Rightarrow> str option" where
  "content v = (case v of Some (File b) \<Rightarrow> Some b | _ \<Rightarrow> None)"

lemma file_at_leaf:
  assumes "\<not> is_dir (Dir es) [c]" and "btree es" and "\<And>es'. v \<noteq> Some (Dir es')"
  shows "file_at (Dir (set_entry c v es)) q = ((file_at (Dir es))([c] := content v)) q"
proof (cases q)
  case Nil
  then show ?thesis by simp
next
  case (Cons d ds)
  show ?thesis
  proof (cases "d = c")
    case True
    have old: "file_at (Dir es) (c # ds) = None" if "ds \<noteq> []"
      using assms(1) that
      by (cases ds; cases "map_of es c"; cases "the (map_of es c)") (auto simp: is_dir_def)
    show ?thesis
      using Cons True old assms(3)
      by (cases ds; cases v; cases "the v")
        (auto simp: set_entry_lookup [OF assms(2)] content_def file_at_def)
  next
    case False
    with Cons show ?thesis by (simp add: set_entry_lookup [OF assms(2)])
  qed
qed

lemma file_at_set_node:
  assumes "set_node v t p = Some t'" and "tree_ok t" and "\<not> is_dir t p" and "\<And>es. v \<noteq> Some (Dir es)"
  shows "file_at t' = (file_at t)(p := content v)"
  using assms
proof (induction v t p arbitrary: t' rule: set_node.induct)
  case (3 v es c)
  then show ?case using file_at_leaf [of es c v] by (auto simp: fun_eq_iff)
next
  case (4 v es c d cs)
  from 4(2) obtain n n' where n: "map_of es c = Some n" and n': "set_node v n (d # cs) = Some n'"
    and t': "t' = Dir (btree_insert c n' es)" by (auto split: option.splits)
  have "file_at n' = (file_at n)(d # cs := content v)"
    using 4 n n' map_of_ok [OF 4(3) n] by (intro "4.IH" [OF n n']) auto
  moreover have "btree es" using 4 by simp
  ultimately have "file_at t' q = ((file_at (Dir es))(c # d # cs := content v)) q" for q
    using n t' by (cases q) (auto simp: btree_insert_entry set_entry_lookup)
  then show ?case by blast
qed auto

lemma set_node_dir: "set_node v t p = Some t' \<Longrightarrow> is_dir t' []"
  by (cases "(v, t, p)" rule: set_node.cases) (auto simp: is_dir_def split: option.splits)

lemma make_dirs_dir: "make_dirs t p = Some t' \<Longrightarrow> is_dir t' []"
  by (cases "(t, p)" rule: make_dirs.cases) (auto simp: is_dir_def)

lemma file_at_empty_dir [simp]: "file_at (Dir []) p = None"
  by (cases p) simp_all

lemma file_at_make_dirs: "make_dirs t p = Some t' \<Longrightarrow> tree_ok t \<Longrightarrow> file_at t' = file_at t"
proof (induction t p arbitrary: t' rule: make_dirs.induct)
  case (3 es c cs)
  let ?n = "case map_of es c of None \<Rightarrow> Dir [] | Some n \<Rightarrow> n"
  have n: "tree_ok ?n" using map_of_ok [OF "3.prems"(2)] by (auto simp: btree_def split: option.split)
  from 3 obtain n' where n': "make_dirs ?n cs = Some n'" and t': "t' = Dir (btree_insert c n' es)"
    by auto
  have eq: "file_at n' = file_at ?n" using n n' by (rule "3.IH" [rotated])
  show ?case
  proof
    fix q
    show "file_at t' q = file_at (Dir es) q"
      using "3.prems" t' eq
      by (cases q) (auto simp: btree_insert_entry set_entry_lookup split: option.splits)
  qed
qed auto

end
