(* ===== verification/LocalStore.thy ===== *)
theory LocalStore
  imports FileTree "HOL-Library.Multiset"
begin

text \<open>
  The blob stores of the storage crate: keys, errors, byte streams, the \<open>BlobStore\<close> interface with
  its default methods, and the local file-system backend (\<open>graphql-orm-storage/src/blob.rs\<close>,
  \<open>key.rs\<close>, \<open>error.rs\<close>, \<open>backend.rs\<close>, \<open>local.rs\<close>). Writes go to a temporary file that is renamed
  or linked into place; listing walks the directory tree page by page. Random UUIDs, SHA-256,
  modification times and the chunk sizes of the reader are parameters.
\<close>

section \<open>Keys and namespaces\<close>

datatype StorageBackend = Local | S3 | AzureBlob | Smb

fun storage_backend_as_str :: "StorageBackend \<Rightarrow> str" where
  "storage_backend_as_str Local = ''local''"
| "storage_backend_as_str S3 = ''s3''"
| "storage_backend_as_str AzureBlob = ''azure_blob''"
| "storage_backend_as_str Smb = ''smb''"

datatype MultipartErrorKind =
    UnknownUpload | BackendMismatch | PartNumberOutOfRange | PartTooSmall | PartTooLarge | ReceiptMismatch

datatype StorageProviderErrorKind =
    Connectivity | Authentication | SecurityNegotiation | ContainerNotFound | PermissionDenied
  | RemotePathNotFound | Capacity | ConditionalCreateConflict | Timeout | ConnectionLost | Protocol

datatype StorageError =
    SeSingleAttemptFailed StorageError
  | SeUnsupportedOperation str
  | SeUnsupportedBackend str
  | SeProvider str str bool
  | SeRemoteProvider str StorageProviderErrorKind str str bool
  | SeInvalidStorageKey str
  | SeMissingBlob str
  | SePreconditionFailed str str
  | SeMultipart str MultipartErrorKind
  | SeMissingParent path
  | SeIo path IoKind

fun is_retryable :: "StorageError \<Rightarrow> bool" where
  "is_retryable (SeProvider _ _ retryable) = retryable"
| "is_retryable (SeRemoteProvider _ _ _ _ retryable) = retryable"
| "is_retryable (SeIo _ _) = True"
| "is_retryable _ = False"

definition storage_backend_from_str :: "str \<Rightarrow> StorageError + StorageBackend" where
  "storage_backend_from_str value =
     (let v = to_ascii_lowercase (trim value) in
      if v = ''local'' then Inr Local
      else if v \<in> set [''s3'', ''s3-compatible'', ''s3_compatible''] then Inr S3
      else if v \<in> set [''azure_blob'', ''azure-blob'', ''azureblob''] then Inr AzureBlob
      else if v \<in> set [''smb'', ''smb2'', ''smb3''] then Inr Smb
      else Inl (SeUnsupportedBackend v))"

datatype StorageNamespace = Originals | RecycleBin | Thumbnails | Derivatives | Exports | Temp

fun namespace_as_str :: "StorageNamespace \<Rightarrow> str" where
  "namespace_as_str Originals = ''originals''"
| "namespace_as_str RecycleBin = ''recycle_bin''"
| "namespace_as_str Thumbnails = ''thumbnails''"
| "namespace_as_str Derivatives = ''derivatives''"
| "namespace_as_str Exports = ''exports''"
| "namespace_as_str Temp = ''temp''"

text \<open>The hyphenated text of a UUID.\<close>

definition uuid_text :: "uuid \<Rightarrow> str" where
  "uuid_text u =
     (let h = hex_digits 32 (unat u) in
      take 8 h @ ''-'' @ take 4 (drop 8 h) @ ''-'' @ take 4 (drop 12 h) @ ''-''
        @ take 4 (drop 16 h) @ ''-'' @ drop 20 h)"

definition build_storage_key :: "StorageNamespace \<Rightarrow> uuid \<Rightarrow> str option \<Rightarrow> str" where
  "build_storage_key namespace object_id extension =
     (let object_text = uuid_text object_id;
          file_name = (case extension of
              Some ext \<Rightarrow> if ext \<noteq> [] then object_text @ ''.'' @ to_ascii_lowercase ext else object_text
            | None \<Rightarrow> object_text) in
      namespace_as_str namespace @ ''/'' @ take 2 object_text @ ''/'' @ take 2 (drop 2 object_text) @ ''/''
        @ file_name)"

definition rsplit_once :: "char \<Rightarrow> str \<Rightarrow> (str \<times> str) option" where
  "rsplit_once c s = map_option (\<lambda>(a, b). (rev b, rev a)) (split_once c (rev s))"

definition file_extension :: "str \<Rightarrow> str option" where
  "file_extension file_name =
     Option.bind (rsplit_once CHR ''.'' file_name) (\<lambda>(_, ext).
       let candidate = trim ext in
       if candidate = [] \<or> CHR ''/'' \<in> set candidate \<or> bsl \<in> set candidate \<or> CHR 0x00 \<in> set candidate
       then None else Some candidate)"

text \<open>
  \<open>Path::components\<close> of a relative path drops empty and single-dot components after the first
  one; only \<open>Component::Normal\<close> is accepted.
\<close>

definition path_components :: "str \<Rightarrow> str list" where
  "path_components key =
     (let cs = split_char CHR ''/'' key in
      take 1 (filter (\<lambda>c. c \<noteq> []) (take 1 cs)) @ filter (\<lambda>c. c \<noteq> [] \<and> c \<noteq> ''.'') (drop 1 cs))"

definition validate_blob_key :: "str \<Rightarrow> StorageError + unit" where
  "validate_blob_key key =
     (if key = [] \<or> bsl \<in> set key \<or> CHR 0x00 \<in> set key
         \<or> list_ex (\<lambda>c. c = [] \<or> c = ''.'' \<or> c = ''..'') (split_char CHR ''/'' key)
      then Inl (SeInvalidStorageKey key)
      else if starts_with ''/'' key then Inl (SeInvalidStorageKey key)
      else if list_ex (\<lambda>c. c = ''.'' \<or> c = ''..'') (path_components key) then Inl (SeInvalidStorageKey key)
      else Inr ())"

definition validate_blob_prefix :: "str \<Rightarrow> StorageError + unit" where
  "validate_blob_prefix p = (if p = [] then Inr () else validate_blob_key p)"

section \<open>Streams and blobs\<close>

record ByteStream =
  st_chunks :: "(StorageError + str) list"
  st_size_hint :: "nat option"

definition stream_from_bytes :: "str \<Rightarrow> ByteStream" where
  "stream_from_bytes b = \<lparr>st_chunks = [Inr b], st_size_hint = Some (length b)\<rparr>"

fun collect_chunks :: "('e + str) list \<Rightarrow> 'e + str" where
  "collect_chunks [] = Inr []"
| "collect_chunks (Inl e # cs) = Inl e"
| "collect_chunks (Inr c # cs) = map_sum id (\<lambda>rest. c @ rest) (collect_chunks cs)"

definition collect_storage_stream :: "ByteStream \<Rightarrow> StorageError + str" where
  "collect_storage_stream st = collect_chunks (st_chunks st)"

record BlobWriteOutcome =
  wo_size_bytes :: nat
  wo_sha256_hex :: str

record BlobMetadata =
  bm_key :: str
  bm_size_bytes :: "nat option"
  bm_sha256_hex :: "str option"
  bm_etag :: "str option"
  bm_last_modified :: "int option"

record BlobBody =
  bb_key :: str
  bb_metadata :: "BlobMetadata option"
  bb_body :: ByteStream

record BlobListPage =
  lp_keys :: "str list"
  lp_next_continuation :: "str option"

definition u64_max :: nat where "u64_max = 2 ^ 64 - 1"

definition u64_saturating_add :: "nat \<Rightarrow> nat \<Rightarrow> nat" where
  "u64_saturating_add a b = min (a + b) u64_max"

text \<open>The stream between two byte positions; the loop over the chunks of the inner stream.\<close>

fun range_chunks :: "('e + str) list \<Rightarrow> nat \<Rightarrow> nat \<Rightarrow> ('e + str) list" where
  "range_chunks [] skip remaining = []"
| "range_chunks (c # cs) skip remaining =
     (if remaining = 0 then []
      else case c of
        Inl e \<Rightarrow> [Inl e]
      | Inr chunk \<Rightarrow>
          if length chunk \<le> skip then range_chunks cs (skip - length chunk) remaining
          else let take_len = min (length chunk - skip) remaining in
            Inr (take take_len (drop skip chunk)) # range_chunks cs 0 (remaining - take_len))"

definition ranged_storage_stream :: "ByteStream \<Rightarrow> nat \<Rightarrow> nat \<Rightarrow> ByteStream" where
  "ranged_storage_stream body skip len =
     \<lparr>st_chunks = range_chunks (st_chunks body) skip len,
      st_size_hint = map_option (\<lambda>hint. min (hint - skip) len) (st_size_hint body)\<rparr>"

section \<open>The blob store interface\<close>

record 's BlobStore =
  bs_backend :: StorageBackend
  bs_put_blob :: "str \<Rightarrow> ByteStream \<Rightarrow> str option \<Rightarrow> ('s, StorageError, BlobWriteOutcome) action"
  bs_put_blob_if_not_exists ::
    "str \<Rightarrow> ByteStream \<Rightarrow> str option \<Rightarrow> ('s, StorageError, BlobWriteOutcome option) action"
  bs_get_blob :: "str \<Rightarrow> ('s, StorageError, BlobBody) action"
  bs_get_blob_range :: "str \<Rightarrow> nat \<Rightarrow> nat \<Rightarrow> ('s, StorageError, BlobBody) action"
  bs_blob_exists :: "str \<Rightarrow> ('s, StorageError, bool) action"
  bs_head_blob :: "str \<Rightarrow> ('s, StorageError, BlobMetadata option) action"
  bs_list_blobs_page :: "str \<Rightarrow> str option \<Rightarrow> nat \<Rightarrow> ('s, StorageError, BlobListPage) action"
  bs_copy_blob :: "str \<Rightarrow> str \<Rightarrow> ('s, StorageError, unit) action"
  bs_delete_blob_once :: "str \<Rightarrow> ('s, StorageError, unit) action"
  bs_delete_blob :: "str \<Rightarrow> ('s, StorageError, unit) action"

text \<open>
  The default methods. A store that has no conditional write or single-attempt deletion of its own
  refuses them; \<open>list_blobs\<close> follows continuations until there is none.
\<close>

definition default_put_blob_if_not_exists ::
  "str \<Rightarrow> ByteStream \<Rightarrow> str option \<Rightarrow> ('s, StorageError, BlobWriteOutcome option) action" where
  "default_put_blob_if_not_exists key body options =
     fail_with (SeUnsupportedOperation ''atomic conditional blob write'')"

definition default_delete_blob_once :: "str \<Rightarrow> ('s, StorageError, unit) action" where
  "default_delete_blob_once key = fail_with (SeUnsupportedOperation ''single-attempt blob deletion'')"

definition default_get_blob_range ::
  "(str \<Rightarrow> ('s, StorageError, BlobBody) action) \<Rightarrow> str \<Rightarrow> nat \<Rightarrow> nat \<Rightarrow> ('s, StorageError, BlobBody) action" where
  "default_get_blob_range get_blob key from to =
     (if to < from then fail_with (SePreconditionFailed key ''range end is before range start'')
      else perform (get_blob key) (\<lambda>blob.
        done_with (blob\<lparr>bb_body := ranged_storage_stream (bb_body blob) from (to - from)\<rparr>)))"

definition default_copy_blob ::
  "(str \<Rightarrow> ('s, StorageError, BlobBody) action)
    \<Rightarrow> (str \<Rightarrow> ByteStream \<Rightarrow> str option \<Rightarrow> ('s, StorageError, BlobWriteOutcome) action)
    \<Rightarrow> str \<Rightarrow> str \<Rightarrow> ('s, StorageError, unit) action" where
  "default_copy_blob get_blob put_blob from to =
     perform (get_blob from) (\<lambda>blob. perform (put_blob to (bb_body blob) None) (\<lambda>_. done_with ()))"

partial_function (option) list_loop ::
  "(str option \<Rightarrow> ('s, StorageError, BlobListPage) action) \<Rightarrow> str option \<Rightarrow> str list
    \<Rightarrow> 's \<Rightarrow> ((StorageError + str list) \<times> 's) option" where
  "list_loop page_after continuation keys s =
     perform (page_after continuation) (\<lambda>page s.
       case lp_next_continuation page of
         None \<Rightarrow> Some (Inr (keys @ lp_keys page), s)
       | Some token \<Rightarrow> list_loop page_after (Some token) (keys @ lp_keys page) s) s"

definition list_blobs :: "'s BlobStore \<Rightarrow> str \<Rightarrow> ('s, StorageError, str list) action" where
  "list_blobs store p = list_loop (\<lambda>c. bs_list_blobs_page store p c 1000) None []"

fun hash_chunks :: "('e + str) list \<Rightarrow> nat \<Rightarrow> str \<Rightarrow> 'e + (nat \<times> str)" where
  "hash_chunks [] bytes hashed = Inr (bytes, hashed)"
| "hash_chunks (Inl e # cs) bytes hashed = Inl e"
| "hash_chunks (Inr c # cs) bytes hashed = hash_chunks cs (u64_saturating_add bytes (length c)) (hashed @ c)"

definition compute_blob_sha256 ::
  "(str \<Rightarrow> str) \<Rightarrow> 's BlobStore \<Rightarrow> str \<Rightarrow> ('s, StorageError, BlobWriteOutcome) action" where
  "compute_blob_sha256 sha256 store key =
     perform (bs_get_blob store key) (\<lambda>blob.
       perform (of_result (hash_chunks (st_chunks (bb_body blob)) 0 [])) (\<lambda>(bytes, hashed).
         done_with \<lparr>wo_size_bytes = bytes, wo_sha256_hex = sha256 hashed\<rparr>))"

section \<open>The local backend\<close>

record LocalStorageBackend =
  lb_uuid :: "nat \<Rightarrow> uuid"
  lb_sha256 :: "str \<Rightarrow> str"
  lb_chunks :: "str \<Rightarrow> str list"
  lb_modified :: "path \<Rightarrow> int option"

record LocalFs =
  lf_tree :: Node
  lf_faults :: "nat option list"
  lf_fresh :: nat

text \<open>
  One call of the file system. The next element of \<open>lf_faults\<close> decides whether it fails on its
  own, and how far a failing write gets; with none left no call fails on its own.
\<close>

definition syscall ::
  "(Node \<Rightarrow> IoKind + (Node \<times> 'a)) \<Rightarrow> (nat \<Rightarrow> Node \<Rightarrow> Node) \<Rightarrow> (LocalFs, IoKind, 'a) action" where
  "syscall effect partly s =
     (let s' = s\<lparr>lf_faults := tl (lf_faults s)\<rparr> in
      case lf_faults s of
        Some n # _ \<Rightarrow> Some (Inl OtherIo, s'\<lparr>lf_tree := partly n (lf_tree s)\<rparr>)
      | _ \<Rightarrow>
          (case effect (lf_tree s) of
             Inl k \<Rightarrow> Some (Inl k, s')
           | Inr (t, x) \<Rightarrow> Some (Inr x, s'\<lparr>lf_tree := t\<rparr>)))"

definition fs_call :: "(Node \<Rightarrow> IoKind + (Node \<times> 'a)) \<Rightarrow> (LocalFs, IoKind, 'a) action" where
  "fs_call effect = syscall effect (\<lambda>_ t. t)"

definition fs_replace :: "path \<Rightarrow> Node option \<Rightarrow> Node \<Rightarrow> IoKind + (Node \<times> unit)" where
  "fs_replace p v t =
     (if is_dir t p then Inl OtherIo
      else case set_node v t p of None \<Rightarrow> Inl OtherIo | Some t' \<Rightarrow> Inr (t', ()))"

definition fs_create_dir_all :: "path \<Rightarrow> (LocalFs, IoKind, unit) action" where
  "fs_create_dir_all p = fs_call (\<lambda>t. case make_dirs t p of None \<Rightarrow> Inl OtherIo | Some t' \<Rightarrow> Inr (t', ()))"

definition fs_create :: "path \<Rightarrow> (LocalFs, IoKind, unit) action" where
  "fs_create p = fs_call (fs_replace p (Some (File [])))"

definition append_to :: "path \<Rightarrow> str \<Rightarrow> Node \<Rightarrow> IoKind + (Node \<times> unit)" where
  "append_to p b t = (case file_at t p of None \<Rightarrow> Inl OtherIo | Some old \<Rightarrow> fs_replace p (Some (File (old @ b))) t)"

definition fs_write_all :: "path \<Rightarrow> str \<Rightarrow> (LocalFs, IoKind, unit) action" where
  "fs_write_all p b =
     syscall (append_to p b) (\<lambda>n t. case append_to p (take n b) t of Inl _ \<Rightarrow> t | Inr (t', _) \<Rightarrow> t')"

definition fs_flush :: "(LocalFs, IoKind, unit) action" where
  "fs_flush = fs_call (\<lambda>t. Inr (t, ()))"

definition fs_seek :: "(LocalFs, IoKind, unit) action" where
  "fs_seek = fs_call (\<lambda>t. Inr (t, ()))"

definition fs_remove_file :: "path \<Rightarrow> (LocalFs, IoKind, unit) action" where
  "fs_remove_file p =
     fs_call (\<lambda>t. case node_at t p of Inl k \<Rightarrow> Inl k | Inr _ \<Rightarrow> fs_replace p None t)"

definition fs_rename :: "path \<Rightarrow> path \<Rightarrow> (LocalFs, IoKind, unit) action" where
  "fs_rename p q =
     fs_call (\<lambda>t. case file_at t p of
        None \<Rightarrow> Inl NotFound
      | Some b \<Rightarrow>
          (case fs_replace q (Some (File b)) t of
             Inl k \<Rightarrow> Inl k
           | Inr (t', _) \<Rightarrow> fs_replace p None t'))"

definition fs_hard_link :: "path \<Rightarrow> path \<Rightarrow> (LocalFs, IoKind, unit) action" where
  "fs_hard_link p q =
     fs_call (\<lambda>t. case file_at t p of
        None \<Rightarrow> Inl NotFound
      | Some b \<Rightarrow>
          (case node_at t q of
             Inr _ \<Rightarrow> Inl AlreadyExists
           | Inl _ \<Rightarrow> fs_replace q (Some (File b)) t))"

definition fs_copy :: "path \<Rightarrow> path \<Rightarrow> (LocalFs, IoKind, unit) action" where
  "fs_copy p q =
     fs_call (\<lambda>t. case node_at t p of
        Inl k \<Rightarrow> Inl k
      | Inr (Dir es) \<Rightarrow> Inl OtherIo
      | Inr (File b) \<Rightarrow> fs_replace q (Some (File b)) t)"

definition fs_node :: "path \<Rightarrow> (LocalFs, IoKind, Node) action" where
  "fs_node p = fs_call (\<lambda>t. map_sum id (\<lambda>n. (t, n)) (node_at t p))"

definition INTERNAL_STORAGE_DIR :: str where "INTERNAL_STORAGE_DIR = ''.graphql-orm-storage''"

definition path_for :: "str \<Rightarrow> StorageError + path" where
  "path_for key = map_sum id (\<lambda>_. split_char CHR ''/'' key) (validate_blob_key key)"

definition create_parent_dir :: "path \<Rightarrow> (LocalFs, StorageError, unit) action" where
  "create_parent_dir p =
     (if p = [] then fail_with (SeMissingParent p)
      else map_failure (SeIo (butlast p)) (fs_create_dir_all (butlast p)))"

definition temp_path_for :: "LocalStorageBackend \<Rightarrow> path \<Rightarrow> str \<Rightarrow> (LocalFs, StorageError, path) action" where
  "temp_path_for lb p key =
     (if p = [] then fail_with (SeInvalidStorageKey key)
      else (\<lambda>s. Some (Inr (butlast p @ [last p @ ''.'' @ uuid_text (lb_uuid lb (lf_fresh s)) @ ''.uploading'']),
                      s\<lparr>lf_fresh := lf_fresh s + 1\<rparr>)))"

fun write_chunks :: "path \<Rightarrow> (StorageError + str) list \<Rightarrow> nat \<Rightarrow> str \<Rightarrow> (LocalFs, StorageError, nat \<times> str) action" where
  "write_chunks temp [] bytes hashed = done_with (bytes, hashed)"
| "write_chunks temp (Inl e # cs) bytes hashed = fail_with e"
| "write_chunks temp (Inr c # cs) bytes hashed =
     perform (map_failure (SeIo temp) (fs_write_all temp c)) (\<lambda>_.
       write_chunks temp cs (u64_saturating_add bytes (length c)) (hashed @ c))"

definition write_stream_to_temp ::
  "LocalStorageBackend \<Rightarrow> path \<Rightarrow> ByteStream \<Rightarrow> (LocalFs, StorageError, BlobWriteOutcome) action" where
  "write_stream_to_temp lb temp body =
     perform (map_failure (SeIo temp) (fs_create temp)) (\<lambda>_.
       perform (write_chunks temp (st_chunks body) 0 []) (\<lambda>(bytes, hashed).
         perform (map_failure (SeIo temp) fs_flush) (\<lambda>_.
           done_with \<lparr>wo_size_bytes = bytes, wo_sha256_hex = lb_sha256 lb hashed\<rparr>)))"

text \<open>Removal of the temporary file, whose outcome the code ignores.\<close>

definition discard :: "path \<Rightarrow> 'a \<Rightarrow> (LocalFs, StorageError, 'a) action" where
  "discard temp x = perform (observe (fs_remove_file temp)) (\<lambda>_. done_with x)"

definition local_put_blob ::
  "LocalStorageBackend \<Rightarrow> str \<Rightarrow> ByteStream \<Rightarrow> str option \<Rightarrow> (LocalFs, StorageError, BlobWriteOutcome) action" where
  "local_put_blob lb key body options =
     perform (of_result (path_for key)) (\<lambda>p.
       perform (create_parent_dir p) (\<lambda>_.
         perform (temp_path_for lb p key) (\<lambda>temp.
           perform (observe (write_stream_to_temp lb temp body)) (\<lambda>written.
             case written of
               Inl e \<Rightarrow> perform (discard temp ()) (\<lambda>_. fail_with e)
             | Inr outcome \<Rightarrow>
                 perform (observe (fs_rename temp p)) (\<lambda>renamed.
                   case renamed of
                     Inl k \<Rightarrow> perform (discard temp ()) (\<lambda>_. fail_with (SeIo p k))
                   | Inr _ \<Rightarrow> done_with outcome)))))"

definition local_put_blob_if_not_exists ::
  "LocalStorageBackend \<Rightarrow> str \<Rightarrow> ByteStream \<Rightarrow> str option \<Rightarrow> (LocalFs, StorageError, BlobWriteOutcome option) action" where
  "local_put_blob_if_not_exists lb key body options =
     perform (of_result (path_for key)) (\<lambda>p.
       perform (create_parent_dir p) (\<lambda>_.
         perform (temp_path_for lb p key) (\<lambda>temp.
           perform (observe (write_stream_to_temp lb temp body)) (\<lambda>written.
             case written of
               Inl e \<Rightarrow> perform (discard temp ()) (\<lambda>_. fail_with e)
             | Inr outcome \<Rightarrow>
                 perform (observe (fs_hard_link temp p)) (\<lambda>linked.
                   case linked of
                     Inr _ \<Rightarrow> discard temp (Some outcome)
                   | Inl AlreadyExists \<Rightarrow> discard temp None
                   | Inl k \<Rightarrow> perform (discard temp ()) (\<lambda>_. fail_with (SeIo p k)))))))"

definition local_head_blob :: "LocalStorageBackend \<Rightarrow> str \<Rightarrow> (LocalFs, StorageError, BlobMetadata option) action" where
  "local_head_blob lb key =
     perform (of_result (path_for key)) (\<lambda>p.
       perform (observe (fs_node p)) (\<lambda>found.
         case found of
           Inr n \<Rightarrow> done_with (Some \<lparr>bm_key = key,
             bm_size_bytes = Some (case n of File b \<Rightarrow> length b | Dir es \<Rightarrow> 0),
             bm_sha256_hex = None, bm_etag = None, bm_last_modified = lb_modified lb p\<rparr>)
         | Inl NotFound \<Rightarrow> done_with None
         | Inl k \<Rightarrow> fail_with (SeIo p k)))"

text \<open>
  What reading an open file yields: its chunks, or the chunks before a failure. A directory opens
  but does not read.
\<close>

definition read_node :: "LocalStorageBackend \<Rightarrow> path \<Rightarrow> Node \<Rightarrow> nat \<Rightarrow> nat option \<Rightarrow> (LocalFs, StorageError, ByteStream) action" where
  "read_node lb p n from len s =
     (let s' = s\<lparr>lf_faults := tl (lf_faults s)\<rparr>;
          chunks = (case n of
              Dir es \<Rightarrow> [Inl (SeIo p OtherIo)]
            | File b \<Rightarrow>
                (let b = (case len of None \<Rightarrow> drop from b | Some l \<Rightarrow> take l (drop from b)) in
                 case lf_faults s of
                   Some k # _ \<Rightarrow> map Inr (take k (lb_chunks lb b)) @ [Inl (SeIo p OtherIo)]
                 | _ \<Rightarrow> map Inr (lb_chunks lb b))) in
      Some (Inr \<lparr>st_chunks = chunks, st_size_hint = len\<rparr>, s'))"

definition open_blob :: "path \<Rightarrow> str \<Rightarrow> (LocalFs, StorageError, Node) action" where
  "open_blob p key =
     perform (observe (fs_node p)) (\<lambda>opened.
       case opened of
         Inr n \<Rightarrow> done_with n
       | Inl NotFound \<Rightarrow> fail_with (SeMissingBlob key)
       | Inl k \<Rightarrow> fail_with (SeIo p k))"

definition local_get_blob :: "LocalStorageBackend \<Rightarrow> str \<Rightarrow> (LocalFs, StorageError, BlobBody) action" where
  "local_get_blob lb key =
     perform (of_result (path_for key)) (\<lambda>p.
       perform (open_blob p key) (\<lambda>n.
         perform (local_head_blob lb key) (\<lambda>metadata.
           perform (read_node lb p n 0 None) (\<lambda>body.
             done_with \<lparr>bb_key = key, bb_metadata = metadata, bb_body = body\<rparr>))))"

definition local_get_blob_range :: "LocalStorageBackend \<Rightarrow> str \<Rightarrow> nat \<Rightarrow> nat \<Rightarrow> (LocalFs, StorageError, BlobBody) action" where
  "local_get_blob_range lb key from to =
     (if to < from then fail_with (SePreconditionFailed key ''range end is before range start'')
      else perform (of_result (path_for key)) (\<lambda>p.
        perform (open_blob p key) (\<lambda>n.
          perform (map_failure (SeIo p) fs_seek) (\<lambda>_.
            perform (local_head_blob lb key) (\<lambda>metadata.
              perform (read_node lb p n from (Some (to - from))) (\<lambda>body.
                done_with \<lparr>bb_key = key, bb_metadata = metadata, bb_body = body\<rparr>))))))"

definition local_blob_exists :: "str \<Rightarrow> (LocalFs, StorageError, bool) action" where
  "local_blob_exists key =
     perform (of_result (path_for key)) (\<lambda>p.
       perform (observe (fs_node p)) (\<lambda>found.
         case found of
           Inr n \<Rightarrow> done_with (case n of File b \<Rightarrow> True | Dir es \<Rightarrow> False)
         | Inl NotFound \<Rightarrow> done_with False
         | Inl k \<Rightarrow> fail_with (SeIo p k)))"

definition local_delete_blob :: "str \<Rightarrow> (LocalFs, StorageError, unit) action" where
  "local_delete_blob key =
     perform (of_result (path_for key)) (\<lambda>p.
       perform (observe (fs_remove_file p)) (\<lambda>removed.
         case removed of
           Inr _ \<Rightarrow> done_with ()
         | Inl NotFound \<Rightarrow> done_with ()
         | Inl k \<Rightarrow> fail_with (SeIo p k)))"

definition local_delete_blob_once :: "str \<Rightarrow> (LocalFs, StorageError, unit) action" where
  "local_delete_blob_once key = map_failure SeSingleAttemptFailed (local_delete_blob key)"

definition local_copy_blob :: "LocalStorageBackend \<Rightarrow> str \<Rightarrow> str \<Rightarrow> (LocalFs, StorageError, unit) action" where
  "local_copy_blob lb from to =
     perform (of_result (path_for from)) (\<lambda>from_path.
       perform (of_result (path_for to)) (\<lambda>to_path.
         perform (create_parent_dir to_path) (\<lambda>_.
           perform (temp_path_for lb to_path to) (\<lambda>temp.
             perform (observe (fs_copy from_path temp)) (\<lambda>copied.
               case copied of
                 Inl NotFound \<Rightarrow> perform (discard temp ()) (\<lambda>_. fail_with (SeMissingBlob from))
               | Inl k \<Rightarrow> perform (discard temp ()) (\<lambda>_. fail_with (SeIo from_path k))
               | Inr _ \<Rightarrow>
                   perform (observe (fs_rename temp to_path)) (\<lambda>renamed.
                     case renamed of
                       Inl k \<Rightarrow> perform (discard temp ()) (\<lambda>_. fail_with (SeIo to_path k))
                     | Inr _ \<Rightarrow> done_with ()))))))"

subsection \<open>Listing\<close>

definition is_uploading_temp_file :: "path \<Rightarrow> bool" where
  "is_uploading_temp_file p \<longleftrightarrow> p \<noteq> [] \<and> ends_with ''.uploading'' (last p)"

definition is_internal_storage_path :: "path \<Rightarrow> bool" where
  "is_internal_storage_path p \<longleftrightarrow> p \<noteq> [] \<and> hd p = INTERNAL_STORAGE_DIR"

definition key_for_path :: "path \<Rightarrow> str" where
  "key_for_path p = map (\<lambda>c. if c = bsl then CHR ''/'' else c) (join ''/'' p)"

definition sorted_child_paths :: "path \<Rightarrow> (str \<times> Node) list \<Rightarrow> path list" where
  "sorted_child_paths p es = map (\<lambda>c. p @ [c]) (sort (map fst es))"

lemma node_at_append:
  "node_at t p = Inr n \<Longrightarrow> node_at t (p @ q) = node_at n q"
  by (induction t p rule: node_at.induct) (auto split: option.splits)

definition size_at :: "Node \<Rightarrow> path \<Rightarrow> nat" where
  "size_at t p = (case node_at t p of Inl _ \<Rightarrow> 0 | Inr n \<Rightarrow> size n)"

lemma entry_smaller: "(c, n) \<in> set es \<Longrightarrow> size n < size (Dir es)"
  by (induction es) auto

lemma children_smaller:
  assumes "node_at t p = Inr (Dir es)" and "q \<in> set (sorted_child_paths p es)"
  shows "size_at t q < size_at t p"
proof -
  from assms(2) obtain c where q: "q = p @ [c]" and "c \<in> fst ` set es"
    by (auto simp: sorted_child_paths_def)
  then obtain n where n: "map_of es c = Some n" by (metis map_of_eq_None_iff not_None_eq)
  then have "size n < size (Dir es)" by (intro entry_smaller map_of_SomeD)
  with assms(1) q n show ?thesis by (simp add: size_at_def node_at_append)
qed

lemma stack_decreases:
  assumes "node_at t p = Inr (Dir es)"
  shows "(mset (map (size_at t) (sorted_child_paths p es @ stack)), mset (map (size_at t) (p # stack)))
           \<in> mult less_than"
proof -
  have "(mset (map (size_at t) stack) + mset (map (size_at t) (sorted_child_paths p es)),
         mset (map (size_at t) stack) + {#size_at t p#}) \<in> mult less_than"
    using children_smaller [OF assms] by (intro one_step_implies_mult) auto
  then show ?thesis by (simp add: ac_simps)
qed

lemma stack_pops: "(mset (map (size_at t) stack), mset (map (size_at t) (p # stack))) \<in> mult less_than"
proof -
  have "(mset (map (size_at t) stack) + {#}, mset (map (size_at t) stack) + {#size_at t p#}) \<in> mult less_than"
    by (intro one_step_implies_mult) auto
  then show ?thesis by simp
qed

text \<open>
  The loop of \<open>collect_blob_page\<close> over its stack of paths, the top of the stack first. Each step
  asks for the metadata of a path, and for its entries when it is a directory. A directory is
  replaced by smaller nodes, so the loop ends.
\<close>

definition fault_pending :: "nat option list \<Rightarrow> bool" where
  "fault_pending faults \<longleftrightarrow> (case faults of Some _ # _ \<Rightarrow> True | _ \<Rightarrow> False)"

function collect_loop ::
  "Node \<Rightarrow> str option \<Rightarrow> nat \<Rightarrow> path list \<Rightarrow> str list \<Rightarrow> nat option list
    \<Rightarrow> (StorageError + str list) \<times> nat option list" where
  "collect_loop t continuation limit [] page faults = (Inr page, faults)"
| "collect_loop t continuation limit (p # stack) page faults =
     (if length page = limit then (Inr page, faults)
      else if is_internal_storage_path p then collect_loop t continuation limit stack page faults
      else if fault_pending faults then (Inl (SeIo p OtherIo), tl faults)
      else case node_at t p of
        Inl NotFound \<Rightarrow> collect_loop t continuation limit stack page (tl faults)
      | Inl k \<Rightarrow> (Inl (SeIo p k), tl faults)
      | Inr (File b) \<Rightarrow>
          if is_uploading_temp_file p then collect_loop t continuation limit stack page (tl faults)
          else if (case continuation of None \<Rightarrow> False | Some token \<Rightarrow> key_for_path p \<le> token)
          then collect_loop t continuation limit stack page (tl faults)
          else collect_loop t continuation limit stack (page @ [key_for_path p]) (tl faults)
      | Inr (Dir es) \<Rightarrow>
          if fault_pending (tl faults) then (Inl (SeIo p OtherIo), tl (tl faults))
          else collect_loop t continuation limit (sorted_child_paths p es @ stack) page (tl (tl faults)))"
  by pat_completeness auto

termination
proof (relation "inv_image (mult less_than) (\<lambda>(t, continuation, limit, stack, page, faults). mset (map (size_at t) stack))",
    goal_cases)
  case 1
  show ?case by (simp add: wf_mult)
qed (use stack_pops stack_decreases in \<open>auto simp del: map_append\<close>)

definition start_path :: "str \<Rightarrow> path" where
  "start_path p = (if p = [] then [] else split_char CHR ''/'' p)"

definition collect_blob_page :: "str \<Rightarrow> str option \<Rightarrow> nat \<Rightarrow> (LocalFs, StorageError, str list) action" where
  "collect_blob_page p continuation limit =
     perform (of_result (validate_blob_prefix p)) (\<lambda>_ s.
       let (r, faults) =
         collect_loop (lf_tree s) continuation limit [start_path p] [] (lf_faults s)
       in Some (r, s\<lparr>lf_faults := faults\<rparr>))"

definition local_list_blobs_page :: "str \<Rightarrow> str option \<Rightarrow> nat \<Rightarrow> (LocalFs, StorageError, BlobListPage) action" where
  "local_list_blobs_page p continuation limit =
     (if limit = 0 then fail_with (SePreconditionFailed p ''list limit must be greater than zero'')
      else perform (collect_blob_page p continuation (limit + 1)) (\<lambda>page_keys.
        if limit < length page_keys
        then done_with \<lparr>lp_keys = take limit page_keys, lp_next_continuation = Some (last (take limit page_keys))\<rparr>
        else done_with \<lparr>lp_keys = page_keys, lp_next_continuation = None\<rparr>))"

definition local_store :: "LocalStorageBackend \<Rightarrow> LocalFs BlobStore" where
  "local_store lb =
     \<lparr>bs_backend = Local,
      bs_put_blob = local_put_blob lb,
      bs_put_blob_if_not_exists = local_put_blob_if_not_exists lb,
      bs_get_blob = local_get_blob lb,
      bs_get_blob_range = local_get_blob_range lb,
      bs_blob_exists = local_blob_exists,
      bs_head_blob = local_head_blob lb,
      bs_list_blobs_page = local_list_blobs_page,
      bs_copy_blob = local_copy_blob lb,
      bs_delete_blob_once = local_delete_blob_once,
      bs_delete_blob = local_delete_blob\<rparr>"

end
