(* ===== verification/LocalLaws.thy ===== *)
theory LocalLaws
  imports LocalStore
begin

text \<open>
  What the local backend guarantees. Temporary files and the internal directory are hidden, so the
  state a client sees is the map \<open>vis_files\<close> of the remaining paths. Every write changes it in one
  step or not at all, whichever calls fail; a listing walks the tree in directory order.
\<close>

section \<open>Keys and paths\<close>

definition valid_key :: "str \<Rightarrow> bool" where
  "valid_key k \<longleftrightarrow> k \<noteq> [] \<and> bsl \<notin> set k \<and> CHR 0x00 \<notin> set k
     \<and> (\<forall>c \<in> set (split_char CHR ''/'' k). c \<noteq> [] \<and> c \<noteq> ''.'' \<and> c \<noteq> ''..'')"

abbreviation path_of :: "str \<Rightarrow> path" where "path_of \<equiv> split_char CHR ''/''"

lemma split_char_set: "x \<in> set p \<Longrightarrow> p \<in> set (split_char c s) \<Longrightarrow> x \<in> set s"
proof (induction s arbitrary: p)
  case (Cons y ys)
  then show ?case
    by (cases "split_char c ys") (auto split: if_splits, blast)
qed simp

lemma join_set: "set (join [s] p) \<subseteq> {s} \<union> (\<Union>c \<in> set p. set c)"
  by (induction "[s]" p rule: join.induct) auto

lemma validate_blob_key_iff: "validate_blob_key k = (if valid_key k then Inr () else Inl (SeInvalidStorageKey k))"
proof (cases "valid_key k")
  case False
  then show ?thesis by (auto simp: validate_blob_key_def valid_key_def list_ex_iff)
next
  case True
  then have comps: "\<forall>c \<in> set (path_of k). c \<noteq> [] \<and> c \<noteq> ''.'' \<and> c \<noteq> ''..''" by (simp add: valid_key_def)
  have "set (path_components k) \<subseteq> set (path_of k)"
    by (auto simp: path_components_def Let_def dest!: in_set_takeD dest: in_set_dropD)
  with comps have "\<not> list_ex (\<lambda>c. c = ''.'' \<or> c = ''..'') (path_components k)"
    by (auto simp: list_ex_iff)
  moreover have "\<not> starts_with ''/'' k"
  proof
    assume "starts_with ''/'' k"
    then have "k = CHR ''/'' # tl k" by (cases k) (simp_all add: starts_with_def)
    then have "[] \<in> set (path_of k)" by (metis list.set_intros(1) split_char.simps(2))
    with comps show False by blast
  qed
  ultimately show ?thesis
    using True comps by (auto simp: validate_blob_key_def valid_key_def list_ex_iff)
qed

lemma path_for_iff: "path_for k = (if valid_key k then Inr (path_of k) else Inl (SeInvalidStorageKey k))"
  by (simp add: path_for_def validate_blob_key_iff)

lemma valid_key_names:
  assumes "valid_key k" "c \<in> set (path_of k)"
  shows "name_ok c"
proof -
  have "CHR ''/'' \<notin> set c" using assms(2) by (rule split_char_pieces)
  moreover have "bsl \<notin> set c" "CHR 0x00 \<notin> set c"
    using assms split_char_set unfolding valid_key_def by blast+
  ultimately show ?thesis using assms unfolding valid_key_def name_ok_def by blast
qed

lemma valid_key_iff: "valid_key k \<longleftrightarrow> (\<forall>c \<in> set (path_of k). name_ok c)"
proof
  assume ok: "\<forall>c \<in> set (path_of k). name_ok c"
  then have "k \<noteq> []" by (cases k) (simp_all add: name_ok_def)
  moreover have "x \<notin> set k" if "x \<in> {bsl, CHR 0x00}" for x
  proof
    assume "x \<in> set k"
    then have "x \<in> set (join ''/'' (path_of k))" by simp
    then have "x \<in> {CHR ''/''} \<union> (\<Union>c \<in> set (path_of k). set c)" using join_set by blast
    moreover have "x \<noteq> CHR ''/''" using that by auto
    ultimately obtain c where "c \<in> set (path_of k)" "x \<in> set c" by blast
    with ok that show False unfolding name_ok_def by blast
  qed
  ultimately show "valid_key k" using ok unfolding valid_key_def name_ok_def by blast
qed (simp add: valid_key_names)

lemma path_of_inj: "path_of k = path_of k' \<Longrightarrow> k = k'"
  by (metis join_split_char)

lemma hex_digits_set: "set (hex_digits k n) \<inter> {CHR ''/'', bsl, CHR 0x00} = {}"
proof (induction k arbitrary: n)
  case (Suc k)
  have "digit_char (n mod 16) \<notin> {CHR ''/'', bsl, CHR 0x00}"
  proof -
    have "(of_char (digit_char (n mod 16)) :: nat) \<notin> {47, 92, 0}"
      using digit_char_less [of "n mod 16"] by auto
    then show ?thesis by (auto simp del: of_char_eq_iff)
  qed
  with Suc.IH [of "n div 16"] show ?case by (auto simp del: char.inject)
qed simp

lemma uuid_text_set: "set (uuid_text u) \<inter> {CHR ''/'', bsl, CHR 0x00} = {}"
  using hex_digits_set [of 32 "unat u"]
  by (auto simp: uuid_text_def Let_def dest!: in_set_takeD in_set_dropD)

section \<open>Visible files\<close>

definition visible :: "path \<Rightarrow> bool" where
  "visible p \<longleftrightarrow> \<not> is_internal_storage_path p \<and> \<not> is_uploading_temp_file p"

definition vis_files :: "Node \<Rightarrow> path \<Rightarrow> str option" where
  "vis_files t p = (if visible p then file_at t p else None)"

definition holds :: "(path \<Rightarrow> str option) \<Rightarrow> LocalFs \<Rightarrow> bool" where
  "holds F s \<longleftrightarrow> tree_ok (lf_tree s) \<and> is_dir (lf_tree s) [] \<and> vis_files (lf_tree s) = F"

definition holds_temp :: "(path \<Rightarrow> str option) \<Rightarrow> path \<Rightarrow> str \<Rightarrow> LocalFs \<Rightarrow> bool" where
  "holds_temp F temp b s \<longleftrightarrow> holds F s \<and> file_at (lf_tree s) temp = Some b"

lemma holds_faults [simp]: "holds F (s\<lparr>lf_faults := fs\<rparr>) \<longleftrightarrow> holds F s"
  and holds_fresh [simp]: "holds F (s\<lparr>lf_fresh := n\<rparr>) \<longleftrightarrow> holds F s"
  and holds_temp_faults [simp]: "holds_temp F temp b (s\<lparr>lf_faults := fs\<rparr>) \<longleftrightarrow> holds_temp F temp b s"
  by (simp_all add: holds_def holds_temp_def)

lemma holds_tempD: "holds_temp F temp b s \<Longrightarrow> holds F s"
  by (simp add: holds_temp_def)

text \<open>One call: either it changes nothing and fails, or it applies its effect.\<close>

lemma runs_syscall:
  assumes "\<And>s k. P s \<Longrightarrow> effect (lf_tree s) = Inl k \<Longrightarrow> E k (s\<lparr>lf_faults := tl (lf_faults s)\<rparr>)"
    and "\<And>s t x. P s \<Longrightarrow> effect (lf_tree s) = Inr (t, x) \<Longrightarrow>
           Q x (s\<lparr>lf_faults := tl (lf_faults s), lf_tree := t\<rparr>)"
    and "\<And>s n. P s \<Longrightarrow> E OtherIo (s\<lparr>lf_faults := tl (lf_faults s), lf_tree := partly n (lf_tree s)\<rparr>)"
  shows "runs P (syscall effect partly) Q E"
proof (rule runsI)
  fix s
  assume P: "P s"
  note post = assms(1) [OF P] assms(2) [OF P] assms(3) [OF P]
  show "\<exists>r s'. syscall effect partly s = Some (r, s') \<and> (case r of Inl e \<Rightarrow> E e s' | Inr x \<Rightarrow> Q x s')"
  proof (cases "\<exists>n fs. lf_faults s = Some n # fs")
    case True
    with post(3) show ?thesis by (auto simp: syscall_def)
  next
    case False
    then have "syscall effect partly s =
        (case effect (lf_tree s) of
           Inl k \<Rightarrow> Some (Inl k, s\<lparr>lf_faults := tl (lf_faults s)\<rparr>)
         | Inr (t, x) \<Rightarrow> Some (Inr x, s\<lparr>lf_faults := tl (lf_faults s), lf_tree := t\<rparr>))"
      by (auto simp: syscall_def Let_def split: list.split option.split)
    with post(1,2) show ?thesis by (auto split: sum.split)
  qed
qed

lemma fs_replace_ok:
  assumes "fs_replace p v t = Inr (t', x)" and "tree_ok t" and "\<forall>c \<in> set p. name_ok c"
    and "\<And>es. v \<noteq> Some (Dir es)"
  shows "tree_ok t' \<and> is_dir t' [] \<and> file_at t' = (file_at t)(p := content v)"
proof -
  from assms(1) have "set_node v t p = Some t'" "\<not> is_dir t p"
    by (auto simp: fs_replace_def split: if_splits option.splits)
  moreover have "tree_ok n" if "v = Some n" for n using assms(4) that by (cases n) auto
  ultimately show ?thesis using set_node_ok file_at_set_node set_node_dir assms by metis
qed

lemma vis_files_hidden: "file_at t' = (file_at t)(p := x) \<Longrightarrow> \<not> visible p \<Longrightarrow> vis_files t' = vis_files t"
  by (auto simp: vis_files_def fun_eq_iff)

lemma vis_files_shown: "file_at t' = (file_at t)(p := x) \<Longrightarrow> visible p \<Longrightarrow> vis_files t' = (vis_files t)(p := x)"
  by (auto simp: vis_files_def fun_eq_iff)

lemma vis_files_cong: "file_at t' = file_at t \<Longrightarrow> vis_files t' = vis_files t"
  by (simp add: vis_files_def fun_eq_iff)

definition names_ok :: "path \<Rightarrow> bool" where
  "names_ok p \<longleftrightarrow> p \<noteq> [] \<and> (\<forall>c \<in> set p. name_ok c)"

lemma runs_create_dir_all:
  "\<forall>c \<in> set p. name_ok c \<Longrightarrow> runs (holds F) (fs_create_dir_all p) (\<lambda>_. holds F) (\<lambda>_. holds F)"
  unfolding fs_create_dir_all_def fs_call_def
  by (rule runs_syscall)
    (auto simp: holds_def split: option.splits dest: make_dirs_ok make_dirs_dir
      intro: vis_files_cong [OF file_at_make_dirs, symmetric] vis_files_cong [OF file_at_make_dirs])

lemma runs_create:
  "names_ok temp \<Longrightarrow> \<not> visible temp \<Longrightarrow>
     runs (holds F) (fs_create temp) (\<lambda>_. holds_temp F temp []) (\<lambda>_. holds F)"
  unfolding fs_create_def fs_call_def
  by (rule runs_syscall)
    (auto simp: holds_def holds_temp_def names_ok_def content_def dest!: fs_replace_ok intro: vis_files_hidden)

lemma append_to_ok:
  assumes "append_to temp b t = Inr (t', x)" "tree_ok t" "names_ok temp" "file_at t temp = Some d"
  shows "tree_ok t' \<and> is_dir t' [] \<and> file_at t' = (file_at t)(temp \<mapsto> d @ b)"
  using assms fs_replace_ok [of temp "Some (File (d @ b))" t t' x]
  by (auto simp: append_to_def names_ok_def content_def)

lemma runs_write_all:
  assumes "names_ok temp" "\<not> visible temp"
  shows "runs (holds_temp F temp d) (fs_write_all temp b) (\<lambda>_. holds_temp F temp (d @ b)) (\<lambda>_. holds F)"
  unfolding fs_write_all_def
proof (rule runs_syscall, goal_cases)
  case (1 s k)
  then show ?case by (simp add: holds_temp_def)
next
  case (2 s t x)
  then show ?case
    using append_to_ok [OF 2(2)] assms by (auto simp: holds_temp_def holds_def intro: vis_files_hidden)
next
  case (3 s n)
  then show ?case
    using append_to_ok [of temp "take n b" "lf_tree s"] assms
    by (auto simp: holds_temp_def holds_def vis_files_hidden split: sum.split)
qed

lemma runs_flush: "runs P fs_flush (\<lambda>_. P) (\<lambda>_. P)" if "\<And>s fs. P s \<Longrightarrow> P (s\<lparr>lf_faults := fs\<rparr>)"
  unfolding fs_flush_def fs_call_def by (rule runs_syscall) (use that in \<open>auto\<close>)

lemma runs_node:
  "runs (holds F) (fs_node p) (\<lambda>n s. holds F s \<and> node_at (lf_tree s) p = Inr n)
     (\<lambda>k. holds F)"
  unfolding fs_node_def fs_call_def
proof (rule runs_syscall, goal_cases)
  case (2 s t x)
  then show ?case by (cases "node_at (lf_tree s) p") (auto simp: holds_def)
qed (auto simp: holds_def)

text \<open>Removing, renaming and linking.\<close>

lemma runs_remove_hidden:
  assumes "names_ok p" "\<not> visible p"
  shows "runs (holds F) (fs_remove_file p) (\<lambda>_. holds F) (\<lambda>_. holds F)"
  unfolding fs_remove_file_def fs_call_def
  by (rule runs_syscall)
    (use assms in \<open>auto simp: holds_def names_ok_def split: sum.splits dest!: fs_replace_ok intro: vis_files_hidden\<close>)

lemma runs_remove_shown:
  assumes "names_ok p" "visible p"
  shows "runs (holds F) (fs_remove_file p) (\<lambda>_. holds (F(p := None)))
           (\<lambda>k s. holds F s \<and> (k = NotFound \<longrightarrow> F p = None))"
  unfolding fs_remove_file_def fs_call_def
proof (rule runs_syscall, goal_cases)
  case (1 s k)
  then show ?case
    by (auto simp: holds_def vis_files_def file_at_def fs_replace_def split: sum.splits if_splits option.splits)
next
  case (2 s t x)
  then show ?case
    using assms fs_replace_ok [of p None "lf_tree s" t x]
    by (auto simp: holds_def names_ok_def content_def vis_files_shown split: sum.splits)
next
  case (3 s n)
  then show ?case by (simp add: holds_def)
qed

lemma runs_rename:
  assumes "names_ok temp" "\<not> visible temp" "names_ok p" "visible p"
  shows "runs (holds_temp F temp b) (fs_rename temp p) (\<lambda>_. holds (F(p \<mapsto> b))) (\<lambda>_. holds F)"
  unfolding fs_rename_def fs_call_def
proof (rule runs_syscall, goal_cases)
  case (2 s t x)
  then have temp: "file_at (lf_tree s) temp = Some b" and inv: "tree_ok (lf_tree s)" "vis_files (lf_tree s) = F"
    by (auto simp: holds_temp_def holds_def)
  from 2 temp obtain t' where t': "fs_replace p (Some (File b)) (lf_tree s) = Inr (t', ())"
    and t: "fs_replace temp None t' = Inr (t, x)" by (auto split: sum.splits)
  have ok': "tree_ok t'" "is_dir t' []" "file_at t' = (file_at (lf_tree s))(p \<mapsto> b)"
    using fs_replace_ok [OF t' inv(1)] assms(3) by (auto simp: names_ok_def content_def)
  have ok: "tree_ok t" "is_dir t []" "file_at t = (file_at t')(temp := None)"
    using fs_replace_ok [OF t ok'(1)] assms(1) by (auto simp: names_ok_def content_def)
  have "vis_files t = F(p \<mapsto> b)"
    using vis_files_hidden [OF ok(3) assms(2)] vis_files_shown [OF ok'(3) assms(4)] inv(2) by simp
  with ok(1,2) show ?case by (simp add: holds_def)
qed (auto simp: holds_temp_def holds_def)

lemma runs_hard_link:
  assumes "names_ok temp" "\<not> visible temp" "names_ok p" "visible p"
  shows "runs (holds_temp F temp b) (fs_hard_link temp p) (\<lambda>_ s. holds (F(p \<mapsto> b)) s \<and> F p = None) (\<lambda>_. holds F)"
  unfolding fs_hard_link_def fs_call_def
proof (rule runs_syscall, goal_cases)
  case (2 s t x)
  then have temp: "file_at (lf_tree s) temp = Some b" and inv: "tree_ok (lf_tree s)" "vis_files (lf_tree s) = F"
    by (auto simp: holds_temp_def holds_def)
  from 2 temp obtain k where k: "node_at (lf_tree s) p = Inl k"
    and t: "fs_replace p (Some (File b)) (lf_tree s) = Inr (t, x)" by (auto split: sum.splits)
  have "F p = None" using k inv(2) by (auto simp: vis_files_def file_at_def)
  moreover have ok: "tree_ok t" "is_dir t []" "file_at t = (file_at (lf_tree s))(p \<mapsto> b)"
    using fs_replace_ok [OF t inv(1)] assms(3) by (auto simp: names_ok_def content_def)
  moreover have "vis_files t = F(p \<mapsto> b)" using vis_files_shown [OF ok(3) assms(4)] inv(2) by simp
  ultimately show ?case by (simp add: holds_def)
qed (auto simp: holds_temp_def holds_def)

lemma runs_discard:
  assumes "names_ok temp" "\<not> visible temp"
  shows "runs (holds F) (discard temp x) (\<lambda>y s. holds F s \<and> y = x) E"
  unfolding discard_def
  by (rule runs_perform [OF runs_observe [OF runs_remove_hidden [OF assms]]])
    (rule runs_pre [OF runs_done], simp split: sum.splits)

lemma runs_discard_fail:
  assumes "names_ok temp" "\<not> visible temp"
  shows "runs (holds F) (perform (discard temp ()) (\<lambda>_. fail_with e)) Q (\<lambda>_. holds F)"
  by (rule runs_perform [OF runs_discard [OF assms]]) (rule runs_pre [OF runs_fail], simp)

lemma runs_temp_path:
  assumes "names_ok p"
  shows "runs (holds F) (temp_path_for lb p key) (\<lambda>temp s. holds F s \<and> names_ok temp \<and> \<not> visible temp) E"
proof -
  let ?name = "\<lambda>u. last p @ ''.'' @ uuid_text u @ ''.uploading''"
  have "name_ok (?name u)" for u
    using assms uuid_text_set [of u] last_in_set [of p] by (auto simp: names_ok_def name_ok_def disjoint_iff)
  moreover have "\<not> visible (butlast p @ [?name u])" for u
    by (simp add: visible_def is_uploading_temp_file_def ends_with_iff_suffix suffix_def)
  moreover have "\<forall>c \<in> set (butlast p). name_ok c"
    using assms by (auto simp: names_ok_def dest: in_set_butlastD)
  ultimately show ?thesis
    using assms by (auto simp: runs_def temp_path_for_def names_ok_def)
qed

lemma hash_chunks_collect:
  "hash_chunks cs n h = Inr (m, h') \<longleftrightarrow>
     (\<exists>b. collect_chunks cs = Inr b \<and> h' = h @ b \<and> m = foldl u64_saturating_add n (map (\<lambda>c. length (projr c)) cs))"
  by (induction cs n h rule: hash_chunks.induct) (auto simp: map_sum_def split: sum.splits)

lemma runs_write_chunks:
  assumes "names_ok temp" "\<not> visible temp"
  shows "runs (holds_temp F temp d) (write_chunks temp cs n d)
           (\<lambda>(m, d') s. holds_temp F temp d' s \<and> (\<exists>b. collect_chunks cs = Inr b \<and> d' = d @ b)) (\<lambda>_. holds F)"
proof (induction cs arbitrary: n d)
  case Nil
  show ?case unfolding write_chunks.simps by (rule runs_pre [OF runs_done]) simp
next
  case (Cons c cs)
  show ?case
  proof (cases c)
    case (Inl e)
    then show ?thesis by (auto intro: runs_pre [OF runs_fail] holds_tempD)
  next
    case (Inr chunk)
    show ?thesis
      unfolding Inr write_chunks.simps
      by (rule runs_perform [OF runs_map_failure [OF runs_write_all [OF assms]]])
        (rule runs_conseq [OF Cons.IH], auto simp: map_sum_def)
  qed
qed

lemma runs_flush_temp:
  "runs (holds_temp F temp b) (map_failure g fs_flush) (\<lambda>_. holds_temp F temp b) (\<lambda>_. holds F)"
  by (rule runs_map_failure, rule runs_conseq [OF runs_flush [of "holds_temp F temp b"]])
    (auto dest: holds_tempD)

lemma runs_write_stream:
  assumes "names_ok temp" "\<not> visible temp"
  shows "runs (holds F) (write_stream_to_temp lb temp body)
           (\<lambda>out s. \<exists>b. holds_temp F temp b s \<and> collect_storage_stream body = Inr b \<and> wo_sha256_hex out = lb_sha256 lb b)
           (\<lambda>_. holds F)"
  unfolding write_stream_to_temp_def
proof (rule runs_perform [OF runs_map_failure [OF runs_create [OF assms]]],
    rule runs_perform [OF runs_write_chunks [OF assms]], goal_cases)
  case (1 u x)
  obtain m h where x: "x = (m, h)" by (cases x)
  have "runs (\<lambda>s. holds_temp F temp h s \<and> collect_storage_stream body = Inr h)
      (perform (map_failure (SeIo temp) fs_flush) (\<lambda>_. done_with \<lparr>wo_size_bytes = m, wo_sha256_hex = lb_sha256 lb h\<rparr>))
      (\<lambda>out s. \<exists>b. holds_temp F temp b s \<and> collect_storage_stream body = Inr b \<and> wo_sha256_hex out = lb_sha256 lb b)
      (\<lambda>_. holds F)"
    by (rule runs_pure, rule runs_perform [OF runs_flush_temp]) (auto intro!: runs_pre [OF runs_done])
  then show ?case unfolding x by (auto simp: collect_storage_stream_def intro: runs_pre)
qed

section \<open>The operations on blobs\<close>

definition shown_key :: "str \<Rightarrow> bool" where
  "shown_key k \<longleftrightarrow> visible (path_of k)"

definition blobs :: "LocalFs \<Rightarrow> str \<Rightarrow> str option" where
  "blobs s k = (if valid_key k then vis_files (lf_tree s) (path_of k) else None)"

definition stores :: "(str \<Rightarrow> str option) \<Rightarrow> LocalFs \<Rightarrow> bool" where
  "stores V s \<longleftrightarrow> tree_ok (lf_tree s) \<and> is_dir (lf_tree s) [] \<and> blobs s = V"

lemma valid_names: "valid_key k \<Longrightarrow> names_ok (path_of k)"
  by (simp add: names_ok_def valid_key_names)

lemma runs_of_path:
  assumes "\<not> valid_key k \<Longrightarrow> \<forall>s. P s \<longrightarrow> E (SeInvalidStorageKey k) s"
    and "valid_key k \<Longrightarrow> runs P (f (path_of k)) Q E"
  shows "runs P (perform (of_result (path_for k)) f) Q E"
proof (cases "valid_key k")
  case True
  with assms(2) show ?thesis by (simp add: path_for_iff perform_def of_result_def runs_def)
next
  case False
  with assms(1) show ?thesis by (simp add: path_for_iff perform_def of_result_def runs_def)
qed

lemma runs_parent_dir:
  assumes "names_ok p"
  shows "runs (holds F) (create_parent_dir p) (\<lambda>_. holds F) (\<lambda>_. holds F)"
  using assms
  by (auto simp: create_parent_dir_def names_ok_def dest: in_set_butlastD
      intro!: runs_map_failure runs_create_dir_all)

definition keyed :: "(path \<Rightarrow> str option) \<Rightarrow> str \<Rightarrow> str option" where
  "keyed F k = (if valid_key k then F (path_of k) else None)"

lemma holds_stores: "stores V s \<longleftrightarrow> (\<exists>F. holds F s \<and> V = keyed F)"
  by (auto simp: stores_def holds_def blobs_def keyed_def fun_eq_iff)

lemma stores_keyed: "holds F s \<Longrightarrow> stores (keyed F) s"
  by (auto simp: holds_stores)

lemma keyed_update: "valid_key k \<Longrightarrow> keyed (F(path_of k := x)) = (keyed F)(k := x)"
  using path_of_inj [of _ k] by (auto simp: keyed_def fun_eq_iff)

lemma holds_update_stores: "holds (F(path_of k := x)) s \<Longrightarrow> valid_key k \<Longrightarrow> stores ((keyed F)(k := x)) s"
  by (metis keyed_update stores_keyed)

text \<open>A triple over visible paths gives the triple over keys.\<close>

lemma runs_stores:
  assumes "\<And>F. runs (holds F) m (\<lambda>x s. Q x (keyed F) s) (\<lambda>_. holds F)"
  shows "runs (stores V) m (\<lambda>x. Q x V) (\<lambda>_. stores V)"
proof (rule runsI)
  fix s
  assume "stores V s"
  then obtain F where F: "holds F s" and V: "V = keyed F"
    by (auto simp: holds_stores)
  from runs_conseq [OF assms [of F], of "holds F" "\<lambda>x. Q x V" "\<lambda>_. stores V"]
  have "runs (holds F) m (\<lambda>x. Q x V) (\<lambda>_. stores V)" by (simp add: V stores_keyed)
  with F show "\<exists>r s'. m s = Some (r, s') \<and> (case r of Inl e \<Rightarrow> stores V s' | Inr x \<Rightarrow> Q x V s')"
    by (simp add: runs_def)
qed

text \<open>Writes are staged in a hidden file and then published.\<close>

lemma runs_staged:
  assumes "names_ok p"
    and "\<And>temp. names_ok temp \<Longrightarrow> \<not> visible temp \<Longrightarrow> runs (holds F) (f temp) Q (\<lambda>_. holds F)"
  shows "runs (holds F) (perform (create_parent_dir p) (\<lambda>_. perform (temp_path_for lb p key) f)) Q (\<lambda>_. holds F)"
  by (rule runs_perform [OF runs_parent_dir [OF assms(1)]], rule runs_perform [OF runs_temp_path [OF assms(1)]],
      rule runs_pure) (auto intro: assms(2))

lemma local_put_blob_runs:
  assumes "shown_key k"
  shows "runs (stores V) (local_put_blob lb k body options)
           (\<lambda>out s. \<exists>b. collect_storage_stream body = Inr b \<and> stores (V(k \<mapsto> b)) s \<and> wo_sha256_hex out = lb_sha256 lb b)
           (\<lambda>_. stores V)"
  unfolding local_put_blob_def
proof (rule runs_stores [where Q = "\<lambda>out V s. \<exists>b. collect_storage_stream body = Inr b \<and> stores (V(k \<mapsto> b)) s
      \<and> wo_sha256_hex out = lb_sha256 lb b"], rule runs_of_path, simp,
    rule runs_staged [OF valid_names], assumption, rule runs_observe_case [OF runs_write_stream],
    goal_cases)
  case (3 F temp e)
  then show ?case by (intro runs_discard_fail)
next
  case (4 F temp outcome)
  show ?case
  proof (rule runs_ex, rule runs_pure, rule runs_observe_case [OF runs_rename], goal_cases)
    case (6 b x)
    with 4 holds_update_stores show ?case by (intro runs_pre [OF runs_done]) blast
  qed (use 4 assms valid_names in \<open>auto simp: shown_key_def intro: runs_discard_fail\<close>)
qed assumption+

lemma local_put_blob_if_not_exists_runs:
  assumes "shown_key k"
  shows "runs (stores V) (local_put_blob_if_not_exists lb k body options)
           (\<lambda>out s. case out of
              None \<Rightarrow> stores V s
            | Some out \<Rightarrow> V k = None \<and> (\<exists>b. collect_storage_stream body = Inr b \<and> stores (V(k \<mapsto> b)) s
                 \<and> wo_sha256_hex out = lb_sha256 lb b))
           (\<lambda>_. stores V)"
  unfolding local_put_blob_if_not_exists_def
proof (rule runs_stores [where Q = "\<lambda>out V s. case out of
              None \<Rightarrow> stores V s
            | Some out \<Rightarrow> V k = None \<and> (\<exists>b. collect_storage_stream body = Inr b \<and> stores (V(k \<mapsto> b)) s
                 \<and> wo_sha256_hex out = lb_sha256 lb b)"], rule runs_of_path, simp,
    rule runs_staged [OF valid_names], assumption, rule runs_observe_case [OF runs_write_stream],
    goal_cases)
  case (3 F temp e)
  then show ?case by (intro runs_discard_fail)
next
  case (4 F temp outcome)
  note hidden = 4(2,3)
  show ?case
  proof (rule runs_ex, rule runs_pure, rule runs_observe_case [OF runs_hard_link], goal_cases)
    case (5 b kind)
    show ?case
    proof (cases "kind = AlreadyExists")
      case True
      then show ?thesis by (auto intro!: runs_conseq [OF runs_discard [OF hidden, where E = "\<lambda>_. holds F"]] stores_keyed)
    next
      case False
      then show ?thesis by (cases kind) (auto intro: runs_discard_fail [OF hidden])
    qed
  next
    case (6 b x)
    show ?case
      by (rule runs_pure, rule runs_conseq [OF runs_discard [OF hidden, where E = "\<lambda>_. holds F"]])
        (use 4 6 holds_update_stores in \<open>auto simp: keyed_def\<close>)
  qed (use 4 assms valid_names in \<open>auto simp: shown_key_def\<close>)
qed assumption+

lemma local_delete_blob_runs:
  assumes "shown_key k"
  shows "runs (stores V) (local_delete_blob k) (\<lambda>_. stores (V(k := None))) (\<lambda>_. stores V)"
  unfolding local_delete_blob_def
proof (rule runs_stores [where Q = "\<lambda>_ V. stores (V(k := None))"], rule runs_of_path, simp,
    rule runs_observe_case [OF runs_remove_shown [OF valid_names]], goal_cases)
  case (2 F)
  with assms show ?case by (simp add: shown_key_def)
next
  case (3 F kind)
  have "stores ((keyed F)(k := None)) s" if "holds F s" "F (path_of k) = None" for s
  proof -
    have "(keyed F)(k := None) = keyed F" using that(2) by (auto simp: keyed_def)
    with that(1) show ?thesis by (simp add: stores_keyed)
  qed
  then show ?case
    by (cases kind) (auto intro: runs_pre [OF runs_done] runs_pre [OF runs_fail])
next
  case (4 F x)
  then show ?case by (auto intro: runs_pre [OF runs_done] holds_update_stores)
qed assumption

lemma local_delete_blob_once_runs:
  "shown_key k \<Longrightarrow> runs (stores V) (local_delete_blob_once k) (\<lambda>_. stores (V(k := None))) (\<lambda>_. stores V)"
  unfolding local_delete_blob_once_def by (rule runs_map_failure) (rule local_delete_blob_runs)

lemma holds_file: "holds F s \<Longrightarrow> node_at (lf_tree s) p = Inr (File b) \<Longrightarrow> visible p \<Longrightarrow> F p = Some b"
  by (auto simp: holds_def vis_files_def file_at_def)

lemma runs_open_blob:
  "runs (holds F) (open_blob p k) (\<lambda>n s. holds F s \<and> node_at (lf_tree s) p = Inr n) (\<lambda>_. holds F)"
  unfolding open_blob_def
proof (rule runs_observe_case [OF runs_node], goal_cases)
  case (1 kind)
  then show ?case by (cases kind) (auto intro: runs_pre [OF runs_fail])
qed (rule runs_done)

lemma runs_head_blob: "runs (holds F) (local_head_blob lb k) (\<lambda>_. holds F) (\<lambda>_. holds F)"
  unfolding local_head_blob_def
proof (rule runs_of_path, simp, rule runs_observe_case [OF runs_node], goal_cases)
  case (1 kind)
  then show ?case by (cases kind) (auto intro: runs_pre [OF runs_fail] runs_pre [OF runs_done])
qed (auto intro: runs_pre [OF runs_done])

lemma collect_chunks_ok: "collect_chunks (map Inr cs) = Inr (concat cs)"
  by (induction cs) simp_all

lemma collect_chunks_broken: "collect_chunks (map Inr cs @ [Inl e]) = Inl e"
  by (induction cs) simp_all

lemma runs_read_node:
  assumes "\<And>b. concat (lb_chunks lb b) = b"
  shows "runs (holds F) (read_node lb p n 0 None)
           (\<lambda>body s. holds F s \<and> (\<forall>b. collect_storage_stream body = Inr b \<longrightarrow> n = File b)) E"
  unfolding runs_def read_node_def
  by (auto simp: Let_def collect_storage_stream_def collect_chunks_ok collect_chunks_broken assms
      split: Node.splits list.splits option.splits)

lemma local_get_blob_runs:
  assumes "shown_key k" and "\<And>b. concat (lb_chunks lb b) = b"
  shows "runs (stores V) (local_get_blob lb k)
           (\<lambda>body s. stores V s \<and> (\<forall>b. collect_storage_stream (bb_body body) = Inr b \<longrightarrow> V k = Some b)) (\<lambda>_. stores V)"
  unfolding local_get_blob_def
proof (rule runs_stores [where Q = "\<lambda>body V s. stores V s \<and> (\<forall>b. collect_storage_stream (bb_body body) = Inr b \<longrightarrow> V k = Some b)"],
    rule runs_of_path, simp, goal_cases)
  case (1 F)
  let ?n = "\<lambda>n. \<forall>b. n = File b \<longrightarrow> F (path_of k) = Some b"
  have "runs (holds F) (open_blob (path_of k) k) (\<lambda>n s. holds F s \<and> ?n n) (\<lambda>_. holds F)"
    by (rule runs_conseq [OF runs_open_blob]) (use assms in \<open>auto simp: shown_key_def dest: holds_file\<close>)
  then show ?case
  proof (rule runs_perform, intro runs_pure, intro runs_perform [OF runs_head_blob], goal_cases)
    case (1 n metadata)
    then have n: "?n n" by simp
    show ?case
      by (rule runs_perform [OF runs_read_node [OF assms(2)]], rule runs_pre [OF runs_done])
        (use n \<open>valid_key k\<close> in \<open>auto simp: keyed_def stores_keyed\<close>)
  qed
qed

text \<open>Whatever the key, a read changes no blob.\<close>

lemma local_get_blob_keeps:
  assumes "\<And>b. concat (lb_chunks lb b) = b"
  shows "runs (stores V) (local_get_blob lb k) (\<lambda>_. stores V) (\<lambda>_. stores V)"
  unfolding local_get_blob_def
proof (rule runs_stores [where Q = "\<lambda>_ V. stores V"], rule runs_of_path, simp, goal_cases)
  case (1 F)
  show ?case
  proof (rule runs_perform [OF runs_conseq [OF runs_open_blob]], assumption, elim conjE, assumption, assumption,
      rule runs_perform [OF runs_head_blob], goal_cases)
    case (1 n metadata)
    show ?case
      by (rule runs_perform [OF runs_read_node [OF assms]], rule runs_pre [OF runs_done]) (simp add: stores_keyed)
  qed
qed

text \<open>With no failure pending, a stored blob is read in full and the state does not change.\<close>

lemma calm_faults: "lf_faults s = [] \<Longrightarrow> s\<lparr>lf_faults := []\<rparr> = s"
  by (cases s) simp

lemma fs_node_calm: "lf_faults s = [] \<Longrightarrow> node_at (lf_tree s) p = Inr n \<Longrightarrow> fs_node p s = Some (Inr n, s)"
  by (simp add: fs_node_def fs_call_def syscall_def calm_faults)

lemma local_get_blob_calm:
  assumes "stores V s" "lf_faults s = []" "V k = Some b"
  shows "\<exists>metadata. local_get_blob lb k s =
    Some (Inr \<lparr>bb_key = k, bb_metadata = metadata,
      bb_body = \<lparr>st_chunks = map Inr (lb_chunks lb b), st_size_hint = None\<rparr>\<rparr>, s)"
proof -
  from assms have k: "valid_key k" "file_at (lf_tree s) (path_of k) = Some b"
    by (auto simp: stores_def blobs_def vis_files_def split: if_splits)
  then have n: "node_at (lf_tree s) (path_of k) = Inr (File b)"
    by (auto simp: file_at_def split: sum.splits Node.splits)
  note step = fs_node_calm [OF assms(2) n]
  have "open_blob (path_of k) k s = Some (Inr (File b), s)"
    by (simp add: open_blob_def perform_def observe_def step done_with_def)
  moreover obtain metadata where "local_head_blob lb k s = Some (Inr metadata, s)"
    using k(1) step by (simp add: local_head_blob_def path_for_iff perform_def of_result_def observe_def done_with_def)
  moreover have "read_node lb (path_of k) (File b) 0 None s
      = Some (Inr \<lparr>st_chunks = map Inr (lb_chunks lb b), st_size_hint = None\<rparr>, s)"
    by (simp add: read_node_def assms(2) calm_faults)
  ultimately show ?thesis
    using k(1) by (simp add: local_get_blob_def path_for_iff perform_def of_result_def done_with_def)
qed

section \<open>Listing\<close>

function tree_walk :: "path \<Rightarrow> Node \<Rightarrow> path list" where
  "tree_walk p (File b) = [p]"
| "tree_walk p (Dir es) = concat (map (\<lambda>e. tree_walk (p @ [fst e]) (snd e)) es)"
  by pat_completeness auto

termination
  by (relation "measure (\<lambda>(p, n). size n)") (auto dest: entry_smaller)

definition listing :: "Node \<Rightarrow> path \<Rightarrow> path list" where
  "listing t p = (case node_at t p of Inl _ \<Rightarrow> [] | Inr n \<Rightarrow> filter visible (tree_walk p n))"

lemma tree_walk_prefix: "q \<in> set (tree_walk p n) \<Longrightarrow> prefix p q"
proof (induction p n rule: tree_walk.induct)
  case (2 p es)
  then obtain e where "e \<in> set es" "q \<in> set (tree_walk (p @ [fst e]) (snd e))" by auto
  then have "prefix (p @ [fst e]) q" by (rule "2.IH")
  then show ?case by (rule append_prefixD)
qed simp

lemma listing_internal: "is_internal_storage_path p \<Longrightarrow> listing t p = []"
  unfolding listing_def
proof (cases "node_at t p")
  case (Inr n)
  assume p: "is_internal_storage_path p"
  have "\<not> visible q" if "q \<in> set (tree_walk p n)" for q
  proof -
    from tree_walk_prefix [OF that] obtain r where "q = p @ r" by (auto simp: prefix_def)
    with p show ?thesis by (simp add: visible_def is_internal_storage_path_def)
  qed
  with Inr show "(case node_at t p of Inl _ \<Rightarrow> [] | Inr n \<Rightarrow> filter visible (tree_walk p n)) = []"
    by (simp add: filter_empty_conv)
qed simp

lemma btree_sort: "btree es \<Longrightarrow> sort (map fst es) = map fst es"
  by (simp add: btree_def strict_sorted_iff sorted_sort_id)

lemma node_at_ok: "tree_ok t \<Longrightarrow> node_at t p = Inr n \<Longrightarrow> tree_ok n"
  by (induction t p rule: node_at.induct) (auto split: option.splits dest: map_of_SomeD)

lemma listing_dir:
  assumes "tree_ok t" and "node_at t p = Inr (Dir es)"
  shows "concat (map (listing t) (sorted_child_paths p es)) = listing t p"
proof -
  have es: "btree es" "distinct (map fst es)"
    using node_at_ok [OF assms] by (simp_all add: btree_def strict_sorted_iff)
  have "listing t (p @ [fst e]) = filter visible (tree_walk (p @ [fst e]) (snd e))" if "e \<in> set es" for e
  proof -
    from that es(2) have "map_of es (fst e) = Some (snd e)" by (intro map_of_is_SomeI) auto
    with assms(2) show ?thesis by (simp add: listing_def node_at_append)
  qed
  then show ?thesis
    using assms(2) es(1)
    by (simp add: sorted_child_paths_def btree_sort listing_def filter_concat o_def cong: map_cong)
qed

definition wanted :: "str option \<Rightarrow> str \<Rightarrow> bool" where
  "wanted continuation key \<longleftrightarrow> (case continuation of None \<Rightarrow> True | Some token \<Rightarrow> token < key)"

lemma collect_loop_listing:
  assumes "tree_ok t" and "collect_loop t continuation limit stack page faults = (Inr ks, faults')"
    and "length page \<le> limit"
  shows "ks = page @ take (limit - length page)
    (filter (wanted continuation) (map key_for_path (concat (map (listing t) stack))))"
  using assms
proof (induction t continuation limit stack page faults arbitrary: ks rule: collect_loop.induct)
  case (2 t continuation limit p stack page faults)
  note IH = "2.IH" and ok = "2.prems"(1) and run = "2.prems"(2) and len = "2.prems"(3)
  show ?case
  proof (cases "length page = limit")
    case False
    note room = this
    show ?thesis
    proof (cases "is_internal_storage_path p")
      case True
      with run room have "collect_loop t continuation limit stack page faults = (Inr ks, faults')" by simp
      from IH(1) [OF room True ok this len] True show ?thesis by (simp add: listing_internal)
    next
      case shown: False
      with run room have calm: "\<not> fault_pending faults" by (auto split: if_splits)
      show ?thesis
      proof (cases "node_at t p")
        case (Inl k)
        with run room shown calm have k: "k = NotFound" by (cases k) auto
        with run room shown calm Inl
        have "collect_loop t continuation limit stack page (tl faults) = (Inr ks, faults')" by simp
        from IH(2) [OF room shown calm Inl k ok this len] Inl show ?thesis by (simp add: listing_def)
      next
        case (Inr n)
        show ?thesis
        proof (cases n)
          case (Dir es)
          from run room shown calm Inr Dir have calm': "\<not> fault_pending (tl faults)"
            by (auto split: if_splits)
          with run room shown calm Inr Dir
          have "collect_loop t continuation limit (sorted_child_paths p es @ stack) page (tl (tl faults)) = (Inr ks, faults')"
            by simp
          from IH(6) [OF room shown calm Inr Dir calm' ok this len] show ?thesis
            using listing_dir [OF ok] Inr Dir by simp
        next
          case (File b)
          let ?skip = "case continuation of None \<Rightarrow> False | Some token \<Rightarrow> key_for_path p \<le> token"
          have skip: "?skip \<longleftrightarrow> \<not> wanted continuation (key_for_path p)"
            by (auto simp: wanted_def split: option.split)
          have here: "listing t p = (if is_uploading_temp_file p then [] else [p])"
            using Inr File shown by (simp add: listing_def visible_def)
          consider "is_uploading_temp_file p" | "\<not> is_uploading_temp_file p" "?skip" | "\<not> is_uploading_temp_file p" "\<not> ?skip"
            by blast
          then show ?thesis
          proof cases
            case 1
            with run room shown calm Inr File
            have "collect_loop t continuation limit stack page (tl faults) = (Inr ks, faults')" by simp
            from IH(3) [OF room shown calm Inr File 1 ok this len] here 1 show ?thesis by simp
          next
            case 2
            with run room shown calm Inr File
            have "collect_loop t continuation limit stack page (tl faults) = (Inr ks, faults')" by simp
            from IH(4) [OF room shown calm Inr File 2 ok this len] here 2 skip show ?thesis by simp
          next
            case 3
            with run room shown calm Inr File
            have "collect_loop t continuation limit stack (page @ [key_for_path p]) (tl faults) = (Inr ks, faults')" by simp
            from IH(5) [OF room shown calm Inr File 3 ok this] room len
            have ks: "ks = (page @ [key_for_path p]) @ take (limit - length (page @ [key_for_path p]))
                (filter (wanted continuation) (map key_for_path (concat (map (listing t) stack))))" by simp
            from room len have "limit - length page = Suc (limit - length (page @ [key_for_path p]))" by simp
            with ks here 3 skip show ?thesis by simp
          qed
        qed
      qed
    qed
  next
    case True
    with run show ?thesis by simp
  qed
qed simp

text \<open>One page, and the loop over pages; \<open>keys_below\<close> are the visible keys in directory order.\<close>

definition keys_below :: "Node \<Rightarrow> str \<Rightarrow> str list" where
  "keys_below t p = map key_for_path (listing t (start_path p))"

lemma runs_list_page:
  assumes "tree_ok t" and "0 < limit"
  shows "runs (\<lambda>s. lf_tree s = t) (local_list_blobs_page p continuation limit)
    (\<lambda>page s. lf_tree s = t \<and> (let ks = filter (wanted continuation) (keys_below t p) in
       lp_keys page = take limit ks
       \<and> lp_next_continuation page = (if limit < length ks then Some (ks ! (limit - 1)) else None)))
    (\<lambda>_ s. lf_tree s = t)"
proof -
  let ?ks = "filter (wanted continuation) (keys_below t p)"
  have collect: "runs (\<lambda>s. lf_tree s = t) (collect_blob_page p continuation (limit + 1))
      (\<lambda>ks s. lf_tree s = t \<and> ks = take (limit + 1) ?ks) (\<lambda>_ s. lf_tree s = t)"
  proof (rule runsI)
    fix s :: LocalFs
    assume t: "lf_tree s = t"
    obtain r fs where loop: "collect_loop t continuation (limit + 1) [start_path p] [] (lf_faults s) = (r, fs)"
      by (cases "collect_loop t continuation (limit + 1) [start_path p] [] (lf_faults s)")
    have "r = Inr (take (limit + 1) ?ks)" if "r = Inr ks" for ks
      using collect_loop_listing [OF assms(1), of continuation "limit + 1" "[start_path p]" "[]" "lf_faults s" ks fs]
        loop that by (simp add: keys_below_def del: collect_loop.simps)
    with loop t show "\<exists>r s'. collect_blob_page p continuation (limit + 1) s = Some (r, s') \<and>
        (case r of Inl e \<Rightarrow> lf_tree s' = t | Inr ks \<Rightarrow> lf_tree s' = t \<and> ks = take (limit + 1) ?ks)"
      by (cases "validate_blob_prefix p"; cases r)
        (auto simp: collect_blob_page_def perform_def of_result_def simp del: collect_loop.simps)
  qed
  have token: "last (take limit ?ks) = ?ks ! (limit - 1)" if "limit < length ?ks"
    using that assms(2) by (subst last_conv_nth) auto
  have page: "runs (\<lambda>s. lf_tree s = t \<and> page_keys = take (limit + 1) ?ks)
      (if limit < length page_keys
       then done_with \<lparr>lp_keys = take limit page_keys, lp_next_continuation = Some (last (take limit page_keys))\<rparr>
       else done_with \<lparr>lp_keys = page_keys, lp_next_continuation = None\<rparr>)
      (\<lambda>page s. lf_tree s = t \<and> (let ks = ?ks in lp_keys page = take limit ks
         \<and> lp_next_continuation page = (if limit < length ks then Some (ks ! (limit - 1)) else None)))
      (\<lambda>_ s. lf_tree s = t)" for page_keys
  proof (rule runs_pure)
    assume ks: "page_keys = take (limit + 1) ?ks"
    then have "limit < length page_keys \<longleftrightarrow> limit < length ?ks" by auto
    moreover have "take limit page_keys = take limit ?ks" using ks by (simp add: min_def)
    moreover have "page_keys = take limit ?ks" if "\<not> limit < length ?ks" using ks that by simp
    ultimately show "runs (\<lambda>s. lf_tree s = t)
      (if limit < length page_keys
       then done_with \<lparr>lp_keys = take limit page_keys, lp_next_continuation = Some (last (take limit page_keys))\<rparr>
       else done_with \<lparr>lp_keys = page_keys, lp_next_continuation = None\<rparr>)
      (\<lambda>page s. lf_tree s = t \<and> (let ks = ?ks in lp_keys page = take limit ks
         \<and> lp_next_continuation page = (if limit < length ks then Some (ks ! (limit - 1)) else None)))
      (\<lambda>_ s. lf_tree s = t)"
      using token by (auto simp: Let_def intro!: runs_pre [OF runs_done])
  qed
  have "limit \<noteq> 0" using assms(2) by simp
  then show ?thesis
    unfolding local_list_blobs_page_def by (simp only: if_False) (rule runs_perform [OF collect page])
qed

lemma wanted_token:
  assumes "token \<in> set (filter (wanted continuation) ks)"
  shows "length (filter (wanted (Some token)) ks) < length (filter (wanted continuation) ks)"
proof -
  have "filter (wanted (Some token)) ks = filter (wanted (Some token)) (filter (wanted continuation) ks)"
    using assms by (auto simp: wanted_def intro!: filter_cong split: option.splits)
  also have "length \<dots> < length (filter (wanted continuation) ks)"
    using assms by (intro length_filter_less [of token]) (auto simp: wanted_def)
  finally show ?thesis .
qed

lemma wanted_after_page:
  assumes "sorted_wrt (<) ks" and "limit < length (filter (wanted continuation) ks)" and "0 < limit"
  shows "filter (wanted (Some (filter (wanted continuation) ks ! (limit - 1)))) ks
           = drop limit (filter (wanted continuation) ks)"
proof -
  let ?fs = "filter (wanted continuation) ks"
  let ?token = "?fs ! (limit - 1)"
  have token: "?token \<in> set ?fs" using assms by (intro nth_mem) simp
  have "filter (wanted (Some ?token)) ks = filter (wanted (Some ?token)) ?fs"
    using token by (auto simp: wanted_def intro!: filter_cong split: option.splits)
  also have "\<dots> = filter (\<lambda>k. ?token < k) (take limit ?fs) @ filter (\<lambda>k. ?token < k) (drop limit ?fs)"
    by (simp add: wanted_def flip: filter_append)
  also have "filter (\<lambda>k. ?token < k) (take limit ?fs) = []"
  proof -
    have "?fs ! i \<le> ?token" if "i < limit" for i
    proof (cases "i = limit - 1")
      case False
      with that have "i < limit - 1" by simp
      with assms sorted_wrt_nth_less [OF sorted_wrt_filter [OF assms(1)], of i "limit - 1" "wanted continuation"]
      show ?thesis by fastforce
    qed simp
    then show ?thesis using assms by (auto simp: filter_empty_conv in_set_conv_nth not_less)
  qed
  also have "filter (\<lambda>k. ?token < k) (drop limit ?fs) = drop limit ?fs"
  proof -
    have "?token < ?fs ! i" if "limit \<le> i" "i < length ?fs" for i
      using sorted_wrt_nth_less [OF sorted_wrt_filter [OF assms(1)], of "limit - 1" i "wanted continuation"] that assms
      by auto
    then show ?thesis using assms by (auto simp: filter_id_conv in_set_conv_nth)
  qed
  finally show ?thesis by simp
qed

lemma runs_list_loop:
  assumes "tree_ok t" and "0 < limit"
  shows "runs (\<lambda>s. lf_tree s = t) (list_loop (\<lambda>c. local_list_blobs_page p c limit) continuation keys)
    (\<lambda>ks s. lf_tree s = t \<and> set ks \<subseteq> set keys \<union> set (keys_below t p)
       \<and> (sorted_wrt (<) (keys_below t p) \<longrightarrow> ks = keys @ filter (wanted continuation) (keys_below t p)))
    (\<lambda>_ s. lf_tree s = t)"
proof (induction "length (filter (wanted continuation) (keys_below t p))" arbitrary: continuation keys
    rule: less_induct)
  case less
  let ?K = "keys_below t p"
  let ?ks = "filter (wanted continuation) ?K"
  let ?post = "\<lambda>continuation keys ks s. lf_tree s = t \<and> set ks \<subseteq> set keys \<union> set ?K
       \<and> (sorted_wrt (<) ?K \<longrightarrow> ks = keys @ filter (wanted continuation) ?K)"
  have loop: "list_loop (\<lambda>c. local_list_blobs_page p c limit) continuation keys =
      perform (local_list_blobs_page p continuation limit) (\<lambda>page s.
       case lp_next_continuation page of
         None \<Rightarrow> Some (Inr (keys @ lp_keys page), s)
       | Some token \<Rightarrow> list_loop (\<lambda>c. local_list_blobs_page p c limit) (Some token) (keys @ lp_keys page) s)"
    by (rule ext) (rule list_loop.simps)
  show ?case
    unfolding loop
  proof (rule runs_perform [OF runs_list_page [OF assms]], unfold Let_def, rule runs_pure)
    fix page
    assume page: "lp_keys page = take limit ?ks
      \<and> lp_next_continuation page = (if limit < length ?ks then Some (?ks ! (limit - 1)) else None)"
    show "runs (\<lambda>s. lf_tree s = t) (\<lambda>s. case lp_next_continuation page of
         None \<Rightarrow> Some (Inr (keys @ lp_keys page), s)
       | Some token \<Rightarrow> list_loop (\<lambda>c. local_list_blobs_page p c limit) (Some token) (keys @ lp_keys page) s)
      (?post continuation keys) (\<lambda>_ s. lf_tree s = t)"
    proof (cases "limit < length ?ks")
      case False
      with page show ?thesis by (auto simp: runs_def)
    next
      case True
      let ?token = "?ks ! (limit - 1)"
      have "?token \<in> set ?ks" using True assms(2) by (intro nth_mem) simp
      from less.hyps [OF wanted_token [OF this], of "keys @ lp_keys page"]
      have "runs (\<lambda>s. lf_tree s = t) (list_loop (\<lambda>c. local_list_blobs_page p c limit) (Some ?token) (keys @ lp_keys page))
          (?post (Some ?token) (keys @ lp_keys page)) (\<lambda>_ s. lf_tree s = t)" .
      then have "runs (\<lambda>s. lf_tree s = t) (list_loop (\<lambda>c. local_list_blobs_page p c limit) (Some ?token) (keys @ lp_keys page))
          (?post continuation keys) (\<lambda>_ s. lf_tree s = t)"
        by (rule runs_conseq)
          (use page True assms(2) wanted_after_page in \<open>auto dest!: in_set_takeD\<close>)
      with page True show ?thesis by simp
    qed
  qed
qed

text \<open>
  With no failure pending a listing succeeds, unless its prefix leads through a file.
\<close>

definition no_file_above :: "Node \<Rightarrow> path \<Rightarrow> bool" where
  "no_file_above t p \<longleftrightarrow> (case node_at t p of Inl k \<Rightarrow> k = NotFound | Inr _ \<Rightarrow> True)"

lemma children_present:
  assumes "node_at t p = Inr (Dir es)" and "q \<in> set (sorted_child_paths p es)"
  shows "no_file_above t q"
proof -
  from assms(2) obtain e where e: "e \<in> set es" "q = p @ [fst e]" by (auto simp: sorted_child_paths_def)
  then show ?thesis using assms(1) by (auto simp: no_file_above_def node_at_append split: option.splits)
qed

lemma collect_loop_calm:
  assumes "\<forall>q \<in> set stack. no_file_above t q" and "faults = []"
  shows "\<exists>ks. collect_loop t continuation limit stack page faults = (Inr ks, [])"
  using assms
proof (induction t continuation limit stack page faults rule: collect_loop.induct)
  case (2 t continuation limit p stack page faults)
  have p: "no_file_above t p" using "2.prems" by simp
  show ?case
  proof (cases "node_at t p")
    case (Inl k)
    with 2 p show ?thesis by (auto simp: fault_pending_def no_file_above_def)
  next
    case (Inr n)
    show ?thesis
    proof (cases n)
      case (Dir es)
      have "\<forall>q \<in> set (sorted_child_paths p es @ stack). no_file_above t q"
        using children_present [of t p es] Inr Dir "2.prems" by auto
      with 2 Inr Dir show ?thesis by (auto simp: fault_pending_def)
    qed (use 2 Inr in \<open>auto simp: fault_pending_def\<close>)
  qed
qed simp

lemma list_page_calm:
  assumes "lf_faults s = []" "no_file_above (lf_tree s) (start_path p)" "validate_blob_prefix p = Inr ()" "0 < limit"
  shows "\<exists>page. local_list_blobs_page p continuation limit s = Some (Inr page, s)"
proof -
  obtain ks where "collect_loop (lf_tree s) continuation (limit + 1) [start_path p] [] (lf_faults s) = (Inr ks, [])"
    using collect_loop_calm [of "[start_path p]" "lf_tree s" "lf_faults s" continuation "limit + 1" "[]"] assms(1,2)
    by (auto simp del: collect_loop.simps)
  then have "collect_blob_page p continuation (limit + 1) s = Some (Inr ks, s)"
    using assms(1,3) by (simp add: collect_blob_page_def perform_def of_result_def calm_faults del: collect_loop.simps)
  then show ?thesis
    using assms(4) by (simp add: local_list_blobs_page_def perform_def done_with_def)
qed

lemma list_loop_calm:
  assumes "lf_faults s = []" "no_file_above (lf_tree s) (start_path p)" "validate_blob_prefix p = Inr ()" "0 < limit" "tree_ok (lf_tree s)"
  shows "\<exists>ks. list_loop (\<lambda>c. local_list_blobs_page p c limit) continuation keys s = Some (Inr ks, s)"
proof (induction "length (filter (wanted continuation) (keys_below (lf_tree s) p))" arbitrary: continuation keys rule: less_induct)
  case less
  let ?ks = "filter (wanted continuation) (keys_below (lf_tree s) p)"
  obtain page where page: "local_list_blobs_page p continuation limit s = Some (Inr page, s)"
    using list_page_calm [OF assms(1-4)] by blast
  from runs_Inr [OF runs_list_page [OF assms(5,4)] refl page]
  have next_: "lp_next_continuation page = (if limit < length ?ks then Some (?ks ! (limit - 1)) else None)" by (simp add: Let_def)
  show ?case
  proof (cases "limit < length ?ks")
    case True
    then have "?ks ! (limit - 1) \<in> set ?ks" using assms(4) by (intro nth_mem) simp
    from less.hyps [OF wanted_token [OF this], of "keys @ lp_keys page"] True next_ page show ?thesis
      by (subst list_loop.simps) (simp add: perform_def)
  next
    case False
    with next_ page show ?thesis by (subst list_loop.simps) (simp add: perform_def)
  qed
qed

text \<open>
  Directory order against key order. Two keys clash when one goes on with a separator where the
  other has a smaller character, as \<open>a/z\<close> and \<open>a.b\<close> do; without such keys both orders agree.
\<close>

definition clash :: "str \<Rightarrow> str \<Rightarrow> bool" where
  "clash k k' \<longleftrightarrow> (\<exists>c r x y. k = c @ CHR ''/'' # r \<and> k' = c @ x # y \<and> x < CHR ''/'')"

definition orderly :: "str set \<Rightarrow> bool" where
  "orderly K \<longleftrightarrow> (\<forall>k \<in> K. \<forall>k' \<in> K. \<not> clash k k')"

lemma join_middle:
  "join [s] (p @ c # r) = concat (map (\<lambda>x. x @ [s]) p) @ c @ concat (map (\<lambda>x. s # x) r)"
proof (induction p)
  case Nil
  show ?case by (induction r arbitrary: c) simp_all
next
  case (Cons x p)
  then show ?case by (cases p) simp_all
qed

lemma less_same_prefix [simp]: "b @ x < b @ y \<longleftrightarrow> x < (y :: 'a::order list)"
  by (induction b) simp_all

lemma less_append [simp]: "c < c @ y \<longleftrightarrow> y \<noteq> ([] :: 'a::order list)"
  using less_same_prefix [of c "[]" y] by (cases y) auto

lemma less_cases:
  assumes "c < (d :: 'a::order list)"
  obtains (shorter) a v where "d = c @ a # v" | (differ) u a b v w where "a < b" "c = u @ a # v" "d = u @ b # w"
  using assms by (auto simp: list_less_def lexord_def)

definition clean :: "path \<Rightarrow> bool" where
  "clean p \<longleftrightarrow> (\<forall>c \<in> set p. name_ok c)"

lemma key_for_path_clean: "clean p \<Longrightarrow> key_for_path p = join ''/'' p"
proof -
  assume "clean p"
  then have "bsl \<notin> set (join ''/'' p)"
    by (induction "''/''" p rule: join.induct) (auto simp: clean_def name_ok_def)
  then show ?thesis by (auto simp: key_for_path_def intro!: map_idI)
qed

lemma key_less:
  assumes "clean (p @ c # r)" "clean (p @ d # r')" "c < d"
    and "\<not> clash (key_for_path (p @ c # r)) (key_for_path (p @ d # r'))"
  shows "key_for_path (p @ c # r) < key_for_path (p @ d # r')"
proof -
  let ?b = "concat (map (\<lambda>x. x @ ''/'') p)"
  have k: "key_for_path (p @ c # r) = ?b @ c @ concat (map (\<lambda>x. CHR ''/'' # x) r)"
    and k': "key_for_path (p @ d # r') = ?b @ d @ concat (map (\<lambda>x. CHR ''/'' # x) r')"
    using assms(1,2) by (simp_all add: key_for_path_clean join_middle)
  from assms(3) show ?thesis
  proof (cases rule: less_cases)
    case (shorter a v)
    show ?thesis
    proof (cases r)
      case Nil
      with shorter k k' show ?thesis by simp
    next
      case (Cons e r2)
      have "a \<noteq> CHR ''/''" using shorter assms(2) by (auto simp: clean_def name_ok_def)
      moreover have "\<not> a < CHR ''/''"
      proof
        assume "a < CHR ''/''"
        moreover have "key_for_path (p @ c # r) = (?b @ c) @ CHR ''/'' # e @ concat (map (\<lambda>x. CHR ''/'' # x) r2)"
          "key_for_path (p @ d # r') = (?b @ c) @ a # v @ concat (map (\<lambda>x. CHR ''/'' # x) r')"
          using k k' shorter Cons by simp_all
        ultimately show False using assms(4) unfolding clash_def by blast
      qed
      ultimately have "CHR ''/'' < a" by simp
      with Cons shorter k k' show ?thesis by simp
    qed
  next
    case (differ u a b v w)
    then show ?thesis using k k' by simp
  qed
qed

lemma tree_ok_entry: "tree_ok (Dir es) \<Longrightarrow> e \<in> set es \<Longrightarrow> name_ok (fst e) \<and> tree_ok (snd e)"
  by (cases e) auto

lemma tree_walk_clean: "tree_ok n \<Longrightarrow> clean p \<Longrightarrow> q \<in> set (tree_walk p n) \<Longrightarrow> clean q"
proof (induction p n rule: tree_walk.induct)
  case (2 p es)
  then obtain e where e: "e \<in> set es" "q \<in> set (tree_walk (p @ [fst e]) (snd e))" by auto
  have "tree_ok (snd e)" "clean (p @ [fst e])"
    using tree_ok_entry [OF "2.prems"(1) e(1)] "2.prems"(2) by (simp_all add: clean_def)
  from "2.IH" [OF e(1) this e(2)] show ?case .
qed simp

lemma tree_walk_sorted:
  assumes "tree_ok n" "clean p" "orderly (key_for_path ` set (filter visible (tree_walk p n)))"
  shows "sorted_wrt (<) (map key_for_path (filter visible (tree_walk p n)))"
  using assms
proof (induction p n rule: tree_walk.induct)
  case (2 p es)
  let ?w = "\<lambda>e. filter visible (tree_walk (p @ [fst e]) (snd e))"
  have es: "sorted_wrt (<) (map fst es)" using "2.prems"(1) by (simp add: btree_def)
  have ok: "tree_ok (snd e) \<and> clean (p @ [fst e])" if "e \<in> set es" for e
    using tree_ok_entry [OF "2.prems"(1) that] "2.prems"(2) by (simp add: clean_def)
  have one: "sorted_wrt (<) (map key_for_path (?w e))" if "e \<in> set es" for e
    using "2.IH" [OF that] ok [OF that] "2.prems"(3) that by (auto simp: orderly_def)
  have cross: "key_for_path q < key_for_path q'"
    if "e \<in> set es" "e' \<in> set es" "fst e < fst e'" "q \<in> set (?w e)" "q' \<in> set (?w e')" for e e' q q'
  proof -
    have in_w: "q \<in> set (tree_walk (p @ [fst e]) (snd e))" "q' \<in> set (tree_walk (p @ [fst e']) (snd e'))"
      using that by simp_all
    then obtain r r' where q: "q = p @ fst e # r" "q' = p @ fst e' # r'"
      using tree_walk_prefix [OF in_w(1)] tree_walk_prefix [OF in_w(2)] unfolding prefix_def by auto
    have "clean q" "clean q'"
      using tree_walk_clean [OF _ _ in_w(1)] tree_walk_clean [OF _ _ in_w(2)] ok [OF that(1)] ok [OF that(2)] by simp_all
    moreover have "\<not> clash (key_for_path q) (key_for_path q')"
      using "2.prems"(3) that by (auto simp: orderly_def)
    ultimately show ?thesis using key_less that(3) unfolding q by blast
  qed
  have "sorted_wrt (<) (map key_for_path (filter visible (concat (map (\<lambda>e. tree_walk (p @ [fst e]) (snd e)) fs))))"
    if "set fs \<subseteq> set es" "sorted_wrt (<) (map fst fs)" for fs
    using that
  proof (induction fs)
    case (Cons f fs)
    then show ?case using one [of f] cross [of f]
      by (fastforce simp: sorted_wrt_append sorted_wrt_map)
  qed simp
  from this [of es] es show ?case by simp
qed simp

text \<open>The keys of a listing are exactly the visible blobs at or below the prefix.\<close>

definition under :: "str \<Rightarrow> str \<Rightarrow> bool" where
  "under p k \<longleftrightarrow> p = [] \<or> k = p \<or> starts_with (p @ ''/'') k"

lemma tree_walk_set:
  assumes "tree_ok n"
  shows "q \<in> set (tree_walk p n) \<longleftrightarrow> (\<exists>r b. q = p @ r \<and> file_at n r = Some b)"
  using assms
proof (induction p n rule: tree_walk.induct)
  case (1 p b)
  have "file_at (File b) r = Some b' \<longleftrightarrow> r = [] \<and> b' = b" for r b' by (cases r) (auto simp: file_at_def)
  then show ?case by auto
next
  case (2 p es)
  have es: "distinct (map fst es)" using "2.prems" by (simp add: btree_def strict_sorted_iff)
  have entry: "(\<exists>e \<in> set es. P (fst e) (snd e)) \<longleftrightarrow> (\<exists>c n. map_of es c = Some n \<and> P c n)" for P
    by (simp add: map_of_eq_Some_iff [OF es]) force
  have "q \<in> set (tree_walk p (Dir es)) \<longleftrightarrow> (\<exists>e \<in> set es. \<exists>r b. q = p @ fst e # r \<and> file_at (snd e) r = Some b)"
    using "2.IH" tree_ok_entry [OF "2.prems"] by auto
  also have "\<dots> \<longleftrightarrow> (\<exists>c n r b. map_of es c = Some n \<and> q = p @ c # r \<and> file_at n r = Some b)"
    using entry [of "\<lambda>c n. \<exists>r b. q = p @ c # r \<and> file_at n r = Some b"] by blast
  also have "\<dots> \<longleftrightarrow> (\<exists>r b. q = p @ r \<and> file_at (Dir es) r = Some b)"
  proof
    assume "\<exists>c n r b. map_of es c = Some n \<and> q = p @ c # r \<and> file_at n r = Some b"
    then obtain c n r b where "map_of es c = Some n" "q = p @ c # r" "file_at n r = Some b" by blast
    then show "\<exists>r b. q = p @ r \<and> file_at (Dir es) r = Some b" by (intro exI [of _ "c # r"] exI [of _ b]) simp
  next
    assume "\<exists>r b. q = p @ r \<and> file_at (Dir es) r = Some b"
    then obtain r b where r: "q = p @ r" "file_at (Dir es) r = Some b" by blast
    then obtain c r' where "r = c # r'" by (cases r) auto
    with r show "\<exists>c n r b. map_of es c = Some n \<and> q = p @ c # r \<and> file_at n r = Some b"
      by (auto split: option.splits)
  qed
  finally show ?case .
qed

lemma file_at_names: "tree_ok t \<Longrightarrow> file_at t p = Some b \<Longrightarrow> clean p"
  using tree_walk_clean [of t "[]" p] tree_walk_set [of t p "[]"] by (auto simp: clean_def)

lemma file_at_append: "file_at t (p @ r) = Some b \<longleftrightarrow> (\<exists>n. node_at t p = Inr n \<and> file_at n r = Some b)"
  by (induction t p rule: node_at.induct) (auto split: option.splits)

lemma listing_set:
  assumes "tree_ok t"
  shows "q \<in> set (listing t p) \<longleftrightarrow> visible q \<and> prefix p q \<and> (\<exists>b. file_at t q = Some b)"
proof (cases "node_at t p")
  case (Inl k)
  then have "file_at t (p @ r) = None" for r using file_at_append [of t p r] by (cases "file_at t (p @ r)") auto
  with Inl show ?thesis by (auto simp: listing_def prefix_def)
next
  case (Inr n)
  with tree_walk_set [OF node_at_ok [OF assms Inr], of q p] show ?thesis
    by (auto simp: listing_def prefix_def file_at_append)
qed

lemma split_char_append2: "split_char c (s @ c # s') = split_char c s @ split_char c s'"
  by (induction s) auto

lemma under_path:
  assumes "p = [] \<or> valid_key p"
  shows "under p k \<longleftrightarrow> prefix (start_path p) (path_of k)"
proof (cases "p = []")
  case False
  have "prefix (path_of p) (path_of k) \<longleftrightarrow> k = p \<or> starts_with (p @ ''/'') k"
  proof
    assume "prefix (path_of p) (path_of k)"
    then obtain r where r: "path_of k = path_of p @ r" by (auto simp: prefix_def)
    show "k = p \<or> starts_with (p @ ''/'') k"
    proof (cases r)
      case Nil
      with r show ?thesis by (auto dest: path_of_inj)
    next
      case (Cons c r')
      have "path_of k = path_of (p @ CHR ''/'' # join ''/'' r)"
        using r Cons split_char_join [of r "CHR ''/''"] split_char_pieces [of _ "CHR ''/''" k]
        by (simp add: split_char_append2)
      then have "k = p @ CHR ''/'' # join ''/'' r" by (rule path_of_inj)
      then show ?thesis by (simp add: starts_with_iff_prefix prefix_def)
    qed
  next
    assume "k = p \<or> starts_with (p @ ''/'') k"
    then show "prefix (path_of p) (path_of k)"
      by (auto simp: starts_with_iff_prefix prefix_def split_char_append2)
  qed
  with False show ?thesis by (simp add: under_def start_path_def)
qed (simp add: under_def start_path_def)

lemma keys_below_set:
  assumes "stores V s" "p = [] \<or> valid_key p"
  shows "set (keys_below (lf_tree s) p) = {k \<in> dom V. under p k}"
proof -
  have ok: "tree_ok (lf_tree s)" and root: "is_dir (lf_tree s) []" and V: "V = blobs s"
    using assms(1) by (simp_all add: stores_def)
  have "k \<in> set (keys_below (lf_tree s) p) \<longleftrightarrow> k \<in> dom V \<and> under p k" for k
  proof
    assume "k \<in> set (keys_below (lf_tree s) p)"
    then obtain q b where q: "k = key_for_path q" "visible q" "prefix (start_path p) q" "file_at (lf_tree s) q = Some b"
      by (auto simp: keys_below_def listing_set [OF ok])
    have "clean q" using ok q(4) by (rule file_at_names)
    moreover have "q \<noteq> []" using q(4) root by (cases "lf_tree s") (auto simp: file_at_def is_dir_def)
    ultimately have "k = join ''/'' q" "path_of k = q"
      using q(1) split_char_join [of q "CHR ''/''"] by (auto simp: key_for_path_clean clean_def name_ok_def)
    moreover from this have "valid_key k" using \<open>clean q\<close> by (simp add: valid_key_iff clean_def)
    ultimately show "k \<in> dom V \<and> under p k"
      using q under_path [OF assms(2)] by (auto simp: V blobs_def vis_files_def)
  next
    assume "k \<in> dom V \<and> under p k"
    then have k: "valid_key k" "visible (path_of k)" "\<exists>b. file_at (lf_tree s) (path_of k) = Some b"
      "prefix (start_path p) (path_of k)"
      using under_path [OF assms(2)] by (auto simp: V blobs_def vis_files_def split: if_splits)
    then have "key_for_path (path_of k) = k" by (simp add: key_for_path_clean clean_def valid_key_iff)
    with k listing_set [OF ok, of "path_of k" "start_path p"] show "k \<in> set (keys_below (lf_tree s) p)"
      unfolding keys_below_def by (metis image_eqI set_map)
  qed
  then show ?thesis by blast
qed

lemma local_list_blobs_runs:
  assumes "p = [] \<or> valid_key p"
  shows "runs (stores V) (list_blobs (local_store lb) p)
    (\<lambda>ks s. stores V s \<and> set ks \<subseteq> {k \<in> dom V. under p k}
       \<and> (orderly {k \<in> dom V. under p k} \<longrightarrow> sorted_wrt (<) ks \<and> set ks = {k \<in> dom V. under p k}))
    (\<lambda>_. stores V)"
proof (rule runsI)
  fix s
  assume s: "stores V s"
  let ?t = "lf_tree s" and ?K = "{k \<in> dom V. under p k}"
  have ok: "tree_ok ?t" using s by (simp add: stores_def)
  have K: "set (keys_below ?t p) = ?K" using s assms by (rule keys_below_set)
  have list: "list_blobs (local_store lb) p = list_loop (\<lambda>c. local_list_blobs_page p c 1000) None []"
    by (simp add: list_blobs_def local_store_def)
  from runs_list_loop [OF ok, of 1000 p None "[]"] obtain r s' where
    run: "list_blobs (local_store lb) p s = Some (r, s')"
    and post: "case r of Inl e \<Rightarrow> lf_tree s' = ?t | Inr ks \<Rightarrow> lf_tree s' = ?t \<and> set ks \<subseteq> ?K
      \<and> (sorted_wrt (<) (keys_below ?t p) \<longrightarrow> ks = keys_below ?t p)"
    unfolding list by (auto simp: runs_def K wanted_def)
  have "lf_tree s' = ?t" using post by (cases r) auto
  moreover from this have "blobs s' = blobs s" by (simp add: blobs_def fun_eq_iff)
  ultimately have s': "stores V s'" using s by (simp add: stores_def)
  have "sorted_wrt (<) (keys_below ?t p)" if "orderly ?K"
  proof (cases "node_at ?t (start_path p)")
    case (Inl k)
    then show ?thesis by (simp add: keys_below_def listing_def)
  next
    case (Inr n)
    have "clean (start_path p)" using assms by (auto simp: clean_def start_path_def valid_key_iff)
    moreover have "tree_ok n" using ok Inr by (rule node_at_ok)
    moreover have "keys_below ?t p = map key_for_path (filter visible (tree_walk (start_path p) n))"
      using Inr by (simp add: keys_below_def listing_def)
    ultimately show ?thesis using tree_walk_sorted K that by (metis set_map)
  qed
  with run post s' K show "\<exists>r s'. list_blobs (local_store lb) p s = Some (r, s') \<and>
      (case r of Inl e \<Rightarrow> stores V s' | Inr ks \<Rightarrow> stores V s' \<and> set ks \<subseteq> ?K
         \<and> (orderly ?K \<longrightarrow> sorted_wrt (<) ks \<and> set ks = ?K))"
    by (cases r) auto
qed

text \<open>
  C11. Listing the blobs of the local backend always ends, over any number of pages, and changes no
  blob; a successful listing contains only visible blobs at or below the prefix. It is complete, with
  every such blob exactly once and in ascending order, provided no two of their keys clash: no key
  \<open>d/x\<close> in a directory \<open>d\<close> beside a key that continues \<open>d\<close> with a character below the slash. With
  clashing keys a listing over several pages may leave blobs out. While no file-system call fails, a
  listing succeeds unless a file stands where the prefix has a directory.
\<close>

theorem local_listing_exact:
  assumes "stores V s" and "p = [] \<or> valid_key p"
  shows "\<exists>r s'. list_blobs (local_store lb) p s = Some (r, s') \<and> stores V s'
    \<and> (\<forall>ks. r = Inr ks \<longrightarrow> set ks \<subseteq> {k \<in> dom V. under p k}
         \<and> (orderly {k \<in> dom V. under p k} \<longrightarrow> sorted_wrt (<) ks \<and> set ks = {k \<in> dom V. under p k}))
    \<and> (lf_faults s = [] \<longrightarrow> no_file_above (lf_tree s) (start_path p) \<longrightarrow> (\<exists>ks. r = Inr ks))"
proof -
  have calm: "\<exists>ks. list_blobs (local_store lb) p s = Some (Inr ks, s)" if "lf_faults s = []" "no_file_above (lf_tree s) (start_path p)"
    using list_loop_calm [OF that, of 1000 None "[]"] assms
    by (auto simp: list_blobs_def local_store_def stores_def validate_blob_prefix_def validate_blob_key_iff)
  from runs_returns [OF local_list_blobs_runs [OF assms(2)] assms(1)]
  obtain r s' where run: "list_blobs (local_store lb) p s = Some (r, s')" by blast
  show ?thesis
  proof (cases r)
    case (Inl e)
    with run calm runs_Inl [OF local_list_blobs_runs [OF assms(2)] assms(1)] show ?thesis by auto
  next
    case (Inr ks)
    with run runs_Inr [OF local_list_blobs_runs [OF assms(2)] assms(1)] show ?thesis by auto
  qed
qed

definition sample_fs :: LocalFs where
  "sample_fs = \<lparr>lf_tree = Dir [(''a'', Dir [(''z'', File ''1'')]), (''b'', File ''2'')], lf_faults = [], lf_fresh = 0\<rparr>"

theorem local_listing_exact_witness:
  "\<forall>lb. \<exists>r s'. list_blobs (local_store lb) [] sample_fs = Some (r, s') \<and> stores (blobs sample_fs) s'
    \<and> (\<exists>ks. r = Inr ks \<and> sorted_wrt (<) ks \<and> set ks = {''a/z'', ''b''})"
proof -
  have ok: "tree_ok (lf_tree sample_fs)" "is_dir (lf_tree sample_fs) []"
    by (auto simp: sample_fs_def btree_def name_ok_def is_dir_def)
  have "set (keys_below (lf_tree sample_fs) []) = {''a/z'', ''b''}" by code_simp
  then have keys: "{k \<in> dom (blobs sample_fs). under [] k} = {''a/z'', ''b''}"
    using keys_below_set [of "blobs sample_fs" sample_fs "[]"] ok by (simp add: stores_def)
  then have "orderly {k \<in> dom (blobs sample_fs). under [] k}"
    by (auto simp: orderly_def clash_def append_eq_Cons_conv Cons_eq_append_conv)
  moreover have "lf_faults sample_fs = []" "no_file_above (lf_tree sample_fs) (start_path [])"
    by (simp_all add: sample_fs_def no_file_above_def start_path_def)
  moreover have "stores (blobs sample_fs) sample_fs" using ok by (simp add: stores_def)
  ultimately have "\<exists>r s'. list_blobs (local_store lb) [] sample_fs = Some (r, s') \<and> stores (blobs sample_fs) s'
    \<and> (\<exists>ks. r = Inr ks \<and> sorted_wrt (<) ks \<and> set ks = {''a/z'', ''b''})" for lb
    using local_listing_exact [of "blobs sample_fs" sample_fs "[]" lb] unfolding keys by fastforce
  then show ?thesis by blast
qed

text \<open>
  With clashing keys a page ends at a key that is greater than keys of later directories entries,
  and the next page leaves those out: here \<open>a.b\<close> is never listed.
\<close>

lemma local_listing_skips:
  defines "fs \<equiv> \<lparr>lf_tree = Dir [(''a'', Dir [(''z'', File ''1'')]), (''a.b'', File ''2'')], lf_faults = [], lf_fresh = 0\<rparr>"
  shows "list_loop (\<lambda>c. local_list_blobs_page [] c 1) None [] fs = Some (Inr [''a/z''], fs) \<and> blobs fs ''a.b'' = Some ''2''"
proof -
  have "local_list_blobs_page [] None 1 fs = Some (Inr \<lparr>lp_keys = [''a/z''], lp_next_continuation = Some ''a/z''\<rparr>, fs)"
    and "local_list_blobs_page [] (Some ''a/z'') 1 fs = Some (Inr \<lparr>lp_keys = [], lp_next_continuation = None\<rparr>, fs)"
    and "blobs fs ''a.b'' = Some ''2''"
    unfolding fs_def by code_simp+
  then show ?thesis by (simp add: list_loop.simps [of _ None] list_loop.simps [of _ "Some x" for x] perform_def)
qed

text \<open>
  C21. A write to the local backend is atomic whichever file-system calls fail: it ends, and
  either fails and leaves every visible blob as it was, or the blob has exactly the bytes of the
  stream and every other visible blob is unchanged. A conditional write that succeeds found no
  blob at its key, and one that reports an existing entry changes nothing.
\<close>

theorem local_writes_atomic:
  assumes "stores V s" and "shown_key k"
  shows "(\<exists>r s'. local_put_blob lb k body options s = Some (r, s')
      \<and> (case r of
           Inl e \<Rightarrow> stores V s'
         | Inr out \<Rightarrow> \<exists>b. collect_storage_stream body = Inr b \<and> stores (V(k \<mapsto> b)) s' \<and> wo_sha256_hex out = lb_sha256 lb b))
    \<and> (\<exists>r s'. local_put_blob_if_not_exists lb k body options s = Some (r, s')
      \<and> (case r of
           Inl e \<Rightarrow> stores V s'
         | Inr None \<Rightarrow> stores V s'
         | Inr (Some out) \<Rightarrow> V k = None \<and> (\<exists>b. collect_storage_stream body = Inr b \<and> stores (V(k \<mapsto> b)) s'
             \<and> wo_sha256_hex out = lb_sha256 lb b)))"
  using local_put_blob_runs [OF assms(2), of V lb body options]
    local_put_blob_if_not_exists_runs [OF assms(2), of V lb body options] assms(1)
  unfolding runs_def by simp

definition sample_backend :: LocalStorageBackend where
  "sample_backend = \<lparr>lb_uuid = (\<lambda>_. 0), lb_sha256 = (\<lambda>b. b), lb_chunks = (\<lambda>b. [b]), lb_modified = (\<lambda>_. None)\<rparr>"

lemma sample_fs_stores: "stores (blobs sample_fs) sample_fs"
  by (auto simp: stores_def sample_fs_def btree_def name_ok_def is_dir_def)

theorem local_writes_atomic_witness:
  "(\<exists>r s'. local_put_blob sample_backend ''b'' (stream_from_bytes ''x'') None sample_fs = Some (r, s')
      \<and> (case r of
           Inl e \<Rightarrow> stores (blobs sample_fs) s'
         | Inr out \<Rightarrow> \<exists>b. collect_storage_stream (stream_from_bytes ''x'') = Inr b
             \<and> stores ((blobs sample_fs)(''b'' \<mapsto> b)) s' \<and> wo_sha256_hex out = lb_sha256 sample_backend b))
    \<and> (\<exists>r s'. local_put_blob_if_not_exists sample_backend ''b'' (stream_from_bytes ''x'') None sample_fs = Some (r, s')
      \<and> (case r of
           Inl e \<Rightarrow> stores (blobs sample_fs) s'
         | Inr None \<Rightarrow> stores (blobs sample_fs) s'
         | Inr (Some out) \<Rightarrow> blobs sample_fs ''b'' = None \<and> (\<exists>b. collect_storage_stream (stream_from_bytes ''x'') = Inr b
             \<and> stores ((blobs sample_fs)(''b'' \<mapsto> b)) s' \<and> wo_sha256_hex out = lb_sha256 sample_backend b)))"
proof -
  have "shown_key ''b''" by code_simp
  from local_writes_atomic [OF sample_fs_stores this] show ?thesis by blast
qed

lemma uuid_zero: "uuid_text 0 = ''00000000-0000-0000-0000-000000000000''"
  by code_simp

lemma put_sample:
  "\<exists>out s'. local_put_blob sample_backend ''a/n'' (stream_from_bytes ''x'') None sample_fs = Some (Inr out, s') \<and> lf_faults s' = []"
  by (simp add: local_put_blob_def path_for_def validate_blob_key_def path_components_def starts_with_def
     perform_def of_result_def create_parent_dir_def map_failure_def fs_create_dir_all_def fs_call_def syscall_def sample_fs_def
     temp_path_for_def sample_backend_def uuid_zero observe_def write_stream_to_temp_def stream_from_bytes_def fs_create_def fs_replace_def
     is_dir_def set_entry_def btree_insert_def fs_write_all_def append_to_def file_at_def done_with_def fs_flush_def fs_rename_def)

text \<open>
  A blob that was written is read back: once a write has succeeded and no call fails after
  it, reading the key yields the bytes of the written stream, and the reported digest is theirs.
\<close>

theorem local_blob_roundtrip:
  assumes "stores V s" and "shown_key k" and "\<And>b. concat (lb_chunks lb b) = b"
    and "local_put_blob lb k body options s = Some (Inr out, s')" and "lf_faults s' = []"
  shows "\<exists>b got. collect_storage_stream body = Inr b \<and> wo_sha256_hex out = lb_sha256 lb b
    \<and> local_get_blob lb k s' = Some (Inr got, s') \<and> collect_storage_stream (bb_body got) = Inr b"
proof -
  from runs_Inr [OF local_put_blob_runs [OF assms(2)] assms(1,4)] obtain b where
    b: "collect_storage_stream body = Inr b" "stores (V(k \<mapsto> b)) s'" "wo_sha256_hex out = lb_sha256 lb b"
    by blast
  from local_get_blob_calm [OF b(2) assms(5), of k b lb] obtain metadata where
    "local_get_blob lb k s' = Some (Inr \<lparr>bb_key = k, bb_metadata = metadata,
      bb_body = \<lparr>st_chunks = map Inr (lb_chunks lb b), st_size_hint = None\<rparr>\<rparr>, s')" by auto
  with b assms(3) show ?thesis by (auto simp: collect_storage_stream_def collect_chunks_ok)
qed

theorem local_blob_roundtrip_witness:
  "\<exists>out s' b got. local_put_blob sample_backend ''a/n'' (stream_from_bytes ''x'') None sample_fs = Some (Inr out, s')
    \<and> collect_storage_stream (stream_from_bytes ''x'') = Inr b \<and> wo_sha256_hex out = lb_sha256 sample_backend b
    \<and> local_get_blob sample_backend ''a/n'' s' = Some (Inr got, s') \<and> collect_storage_stream (bb_body got) = Inr b"
proof -
  let ?put = "local_put_blob sample_backend ''a/n'' (stream_from_bytes ''x'') None sample_fs"
  have "shown_key ''a/n''" by code_simp
  moreover note put_sample
  moreover have "concat (lb_chunks sample_backend b) = b" for b by (simp add: sample_backend_def)
  ultimately show ?thesis
    using local_blob_roundtrip [OF sample_fs_stores] by metis
qed

end
