(* ===== verification/Repository.thy ===== *)
theory Repository
  imports LocalLaws
begin

text \<open>
  Backup repositories (\<open>graphql-orm-backup/src/repository.rs\<close>, \<open>capacity.rs\<close>, \<open>error.rs\<close>,
  \<open>lock.rs\<close>): the trait as a record of operations, the adapter over a blob store with its key
  prefix, byte limits and the writer lock. The locale \<open>backup_repository\<close> states what backup,
  restore and pruning rely on; the adapter over the local backend interprets it.
\<close>

section \<open>Errors and limits\<close>

datatype RestoreFailurePhase = Validation | Preparation | Apply

record RestoreFailureProgress =
  fp_requested_snapshot_id :: uuid
  fp_failed_manifest_id :: "uuid option"
  fp_phase :: RestoreFailurePhase
  fp_completed_manifest_ids :: "uuid list"

definition target_may_have_changed :: "RestoreFailureProgress \<Rightarrow> bool" where
  "target_may_have_changed fp \<longleftrightarrow> fp_phase fp = Apply \<or> fp_completed_manifest_ids fp \<noteq> []"

datatype BackupError =
    BeCapacityExceeded nat
  | BeRestoreStageFailed RestoreFailureProgress BackupError
  | BeUnsupportedProvider str
  | BeInvalidRepositoryKey str
  | BeInvalidRepositoryRoot path
  | BeMissingBlob str
  | BeChecksumMismatch str str str
  | BeRestoreTargetNotEmpty
  | BeRestoreSchemaMismatch str str str str
  | BeInvalidColumnBackupPolicyOverride str str str
  | BeInvalidRestoreContext str
  | BeInvalidManifestChain str
  | BeRepositoryLocked str
  | BeCompression
  | BeStorage StorageError
  | BeUnsupportedOperation str
  | BeDatabase str
  | BeSerialization
  | BeIo path IoKind

fun from_storage_error :: "StorageError \<Rightarrow> BackupError" where
  "from_storage_error (SeUnsupportedOperation operation) = BeUnsupportedOperation operation"
| "from_storage_error (SeUnsupportedBackend backend) = BeUnsupportedProvider backend"
| "from_storage_error (SeInvalidStorageKey key) = BeInvalidRepositoryKey key"
| "from_storage_error (SeMissingBlob key) = BeMissingBlob key"
| "from_storage_error (SeIo p k) = BeIo p k"
| "from_storage_error source = BeStorage source"

datatype BackupByteLimit = LimitBytes nat | Unbounded

definition default_byte_limit :: BackupByteLimit where
  "default_byte_limit = LimitBytes (64 * 1024 * 1024)"

fun limit_min :: "BackupByteLimit \<Rightarrow> BackupByteLimit \<Rightarrow> BackupByteLimit" where
  "limit_min (LimitBytes a) (LimitBytes b) = LimitBytes (min a b)"
| "limit_min Unbounded limit = limit"
| "limit_min limit Unbounded = limit"

fun limit_check :: "BackupByteLimit \<Rightarrow> nat \<Rightarrow> BackupError + unit" where
  "limit_check (LimitBytes limit) bytes = (if limit < bytes then Inl (BeCapacityExceeded limit) else Inr ())"
| "limit_check Unbounded bytes = Inr ()"

definition limit_remaining :: "BackupByteLimit \<Rightarrow> nat \<Rightarrow> BackupError + BackupByteLimit" where
  "limit_remaining l consumed =
     and_then (limit_check l consumed)
       (Inr (case l of LimitBytes limit \<Rightarrow> LimitBytes (limit - consumed) | Unbounded \<Rightarrow> Unbounded))"

record BackupCapacityLimits =
  cl_buffered_bytes :: BackupByteLimit
  cl_decompressed_bytes :: BackupByteLimit
  cl_stage_bytes :: BackupByteLimit

definition default_capacity_limits :: BackupCapacityLimits where
  "default_capacity_limits =
     \<lparr>cl_buffered_bytes = default_byte_limit,
      cl_decompressed_bytes = LimitBytes (256 * 1024 * 1024),
      cl_stage_bytes = LimitBytes (512 * 1024 * 1024)\<rparr>"

fun collect_limited :: "BackupByteLimit \<Rightarrow> (StorageError + str) list \<Rightarrow> str \<Rightarrow> BackupError + str" where
  "collect_limited limit [] buffer = Inr buffer"
| "collect_limited limit (Inl e # cs) buffer = Inl (from_storage_error e)"
| "collect_limited limit (Inr c # cs) buffer =
     (case u64_checked_add (length buffer) (length c) of
        None \<Rightarrow> Inl (BeCapacityExceeded u64_max)
      | Some bytes \<Rightarrow> and_then (limit_check limit bytes) (collect_limited limit cs (buffer @ c)))"

definition collect_backup_stream :: "ByteStream \<Rightarrow> BackupByteLimit \<Rightarrow> BackupError + str" where
  "collect_backup_stream body limit =
     and_then (case st_size_hint body of None \<Rightarrow> Inr () | Some bytes \<Rightarrow> limit_check limit bytes)
       (collect_limited limit (st_chunks body) [])"

section \<open>Repositories\<close>

record 's BackupRepository =
  rp_capacity_limits :: BackupCapacityLimits
  rp_put_blob :: "str \<Rightarrow> str \<Rightarrow> ('s, BackupError, unit) action"
  rp_put_blob_stream :: "str \<Rightarrow> ByteStream \<Rightarrow> ('s, BackupError, unit) action"
  rp_put_blob_if_absent :: "str \<Rightarrow> str \<Rightarrow> ('s, BackupError, bool) action"
  rp_put_blob_stream_if_absent :: "str \<Rightarrow> ByteStream \<Rightarrow> ('s, BackupError, bool) action"
  rp_get_blob :: "str \<Rightarrow> ('s, BackupError, str) action"
  rp_get_blob_stream :: "str \<Rightarrow> ('s, BackupError, ByteStream) action"
  rp_blob_exists :: "str \<Rightarrow> ('s, BackupError, bool) action"
  rp_list_blobs :: "str \<Rightarrow> ('s, BackupError, str list) action"
  rp_delete_blob_once :: "str \<Rightarrow> ('s, BackupError, unit) action"
  rp_delete_blob :: "str \<Rightarrow> ('s, BackupError, unit) action"

text \<open>The default methods of the trait.\<close>

definition default_put_blob_stream ::
  "BackupCapacityLimits \<Rightarrow> (str \<Rightarrow> str \<Rightarrow> ('s, BackupError, 'a) action) \<Rightarrow> str \<Rightarrow> ByteStream \<Rightarrow> ('s, BackupError, 'a) action" where
  "default_put_blob_stream limits put_blob key body =
     perform (of_result (collect_backup_stream body (cl_buffered_bytes limits))) (put_blob key)"

definition default_put_blob_if_absent :: "str \<Rightarrow> str \<Rightarrow> ('s, BackupError, bool) action" where
  "default_put_blob_if_absent key body = fail_with (BeUnsupportedOperation ''atomic conditional repository write'')"

definition default_get_blob_stream ::
  "BackupCapacityLimits \<Rightarrow> (str \<Rightarrow> ('s, BackupError, str) action) \<Rightarrow> str \<Rightarrow> ('s, BackupError, ByteStream) action" where
  "default_get_blob_stream limits get_blob key =
     perform (get_blob key) (\<lambda>bytes.
       perform (of_result (limit_check (cl_buffered_bytes limits) (length bytes))) (\<lambda>_.
         done_with (stream_from_bytes bytes)))"

definition default_repository_delete_once :: "str \<Rightarrow> ('s, BackupError, unit) action" where
  "default_repository_delete_once key = fail_with (BeUnsupportedOperation ''single-attempt repository deletion'')"

text \<open>The adapter over a blob store.\<close>

record 's BlobStoreBackupRepository =
  br_store :: "'s BlobStore"
  br_prefix :: "str option"
  br_limits :: BackupCapacityLimits

definition repository_new :: "'s BlobStore \<Rightarrow> 's BlobStoreBackupRepository" where
  "repository_new store = \<lparr>br_store = store, br_prefix = None, br_limits = default_capacity_limits\<rparr>"

definition repository_with_prefix :: "'s BlobStore \<Rightarrow> str \<Rightarrow> BackupError + 's BlobStoreBackupRepository" where
  "repository_with_prefix store p =
     map_sum from_storage_error
       (\<lambda>_. \<lparr>br_store = store, br_prefix = Some p, br_limits = default_capacity_limits\<rparr>) (validate_blob_key p)"

definition apply_prefix :: "str option \<Rightarrow> str \<Rightarrow> str" where
  "apply_prefix pfx key = (case pfx of Some p \<Rightarrow> p @ ''/'' @ key | None \<Rightarrow> key)"

definition apply_prefix_to_list :: "str option \<Rightarrow> str \<Rightarrow> str" where
  "apply_prefix_to_list pfx p =
     (case pfx of Some repository_prefix \<Rightarrow> if p = [] then repository_prefix else repository_prefix @ ''/'' @ p | None \<Rightarrow> p)"

definition strip_repository_prefix :: "str option \<Rightarrow> str \<Rightarrow> str" where
  "strip_repository_prefix pfx key =
     (case pfx of
        None \<Rightarrow> key
      | Some p \<Rightarrow>
          (case Option.bind (strip_prefix p key) (strip_prefix ''/'') of None \<Rightarrow> key | Some rest \<Rightarrow> rest))"

definition blob_store_repository :: "'s BlobStoreBackupRepository \<Rightarrow> 's BackupRepository" where
  "blob_store_repository br =
     (let store = br_store br; pre = apply_prefix (br_prefix br) in
      \<lparr>rp_capacity_limits = br_limits br,
       rp_put_blob = (\<lambda>key body. map_failure from_storage_error
         (perform (bs_put_blob store (pre key) (stream_from_bytes body) None) (\<lambda>_. done_with ()))),
       rp_put_blob_stream = (\<lambda>key body. map_failure from_storage_error
         (perform (bs_put_blob store (pre key) body None) (\<lambda>_. done_with ()))),
       rp_put_blob_if_absent = (\<lambda>key body. map_failure from_storage_error
         (perform (bs_put_blob_if_not_exists store (pre key) (stream_from_bytes body) None) (\<lambda>out. done_with (out \<noteq> None)))),
       rp_put_blob_stream_if_absent = (\<lambda>key body. map_failure from_storage_error
         (perform (bs_put_blob_if_not_exists store (pre key) body None) (\<lambda>out. done_with (out \<noteq> None)))),
       rp_get_blob = (\<lambda>key.
         perform (map_failure from_storage_error (bs_get_blob store (pre key))) (\<lambda>body.
           of_result (collect_backup_stream (bb_body body) (cl_buffered_bytes (br_limits br))))),
       rp_get_blob_stream = (\<lambda>key. map_failure from_storage_error
         (perform (bs_get_blob store (pre key)) (\<lambda>body. done_with (bb_body body)))),
       rp_blob_exists = (\<lambda>key. map_failure from_storage_error (bs_blob_exists store (pre key))),
       rp_list_blobs = (\<lambda>p. map_failure from_storage_error
         (perform (list_blobs store (apply_prefix_to_list (br_prefix br) p)) (\<lambda>keys.
           done_with (map (strip_repository_prefix (br_prefix br)) keys)))),
       rp_delete_blob_once = (\<lambda>key. map_failure
         (\<lambda>e. from_storage_error (if is_retryable e then SeSingleAttemptFailed e else e))
         (bs_delete_blob_once store (pre key))),
       rp_delete_blob = (\<lambda>key. map_failure from_storage_error (bs_delete_blob store (pre key)))\<rparr>)"

text \<open>The local repository is the adapter over the local backend, without a prefix.\<close>

definition local_backup_repository :: "LocalStorageBackend \<Rightarrow> BackupCapacityLimits \<Rightarrow> LocalFs BackupRepository" where
  "local_backup_repository lb limits =
     blob_store_repository ((repository_new (local_store lb))\<lparr>br_limits := limits\<rparr>)"

section \<open>The writer lock\<close>

definition REPOSITORY_LOCK_KEY :: str where "REPOSITORY_LOCK_KEY = ''locks/repository.lock''"

definition acquire :: "'s BackupRepository \<Rightarrow> int \<Rightarrow> ('s, BackupError, unit) action" where
  "acquire R now =
     perform (rp_put_blob_if_absent R REPOSITORY_LOCK_KEY (show_int now)) (\<lambda>created.
       if created then done_with () else fail_with (BeRepositoryLocked REPOSITORY_LOCK_KEY))"

definition lock_release :: "'s BackupRepository \<Rightarrow> ('s, BackupError, unit) action" where
  "lock_release R = rp_delete_blob_once R REPOSITORY_LOCK_KEY"

definition release_lock :: "'s BackupRepository \<Rightarrow> BackupError + 'a \<Rightarrow> ('s, BackupError, 'a) action" where
  "release_lock R result =
     perform (observe (lock_release R)) (\<lambda>released.
       case result of
         Inl e \<Rightarrow> fail_with e
       | Inr x \<Rightarrow> (case released of Inr _ \<Rightarrow> done_with x | Inl e \<Rightarrow> fail_with e))"

text \<open>An operation under the lock, as every writer of the crate runs: acquire, run, release.\<close>

definition locked :: "'s BackupRepository \<Rightarrow> int \<Rightarrow> ('s, BackupError, 'a) action \<Rightarrow> ('s, BackupError, 'a) action" where
  "locked R now m = perform (acquire R now) (\<lambda>_. perform (observe m) (release_lock R))"

text \<open>The blobs of a repository without the lock.\<close>

definition unlocked :: "(str \<Rightarrow> str option) \<Rightarrow> str \<Rightarrow> str option" where
  "unlocked V = V(REPOSITORY_LOCK_KEY := None)"

section \<open>The keys of a repository\<close>

definition snapshot_manifest_key :: "uuid \<Rightarrow> str" where
  "snapshot_manifest_key snapshot_id = ''snapshots/'' @ uuid_text snapshot_id @ ''/manifest.json''"

definition database_table_key :: "uuid \<Rightarrow> str \<Rightarrow> str" where
  "database_table_key snapshot_id table_name =
     ''snapshots/'' @ uuid_text snapshot_id @ ''/database/tables/'' @ table_name @ ''.jsonl.zst''"

definition database_changes_key :: "uuid \<Rightarrow> str \<Rightarrow> str" where
  "database_changes_key snapshot_id table_name =
     ''snapshots/'' @ uuid_text snapshot_id @ ''/database/changes/'' @ table_name @ ''.jsonl.zst''"

definition str_get :: "str \<Rightarrow> nat \<Rightarrow> nat \<Rightarrow> str option" where
  "str_get s a b =
     (if a \<le> b \<and> b \<le> length s \<and> is_char_boundary s a \<and> is_char_boundary s b then Some (take (b - a) (drop a s)) else None)"

definition object_content_key :: "str \<Rightarrow> str" where
  "object_content_key sha256_hex =
     (let shard_a = (case str_get sha256_hex 0 2 of Some s \<Rightarrow> s | None \<Rightarrow> ''00'');
          shard_b = (case str_get sha256_hex 2 4 of Some s \<Rightarrow> s | None \<Rightarrow> ''00'') in
      ''objects/sha256/'' @ shard_a @ ''/'' @ shard_b @ ''/'' @ sha256_hex)"

text \<open>
  The keys the crate writes, for table names and digests that are single path components. Their
  paths branch only between names of one length or fixed names, so no two of them clash and the
  listing of the local backend is exact on them.
\<close>

definition plain_name :: "str \<Rightarrow> bool" where
  "plain_name c \<longleftrightarrow> CHR ''/'' \<notin> set c \<and> \<not> ends_with ''.uploading'' c"

inductive_set backup_keys :: "str set" where
  lock_key: "REPOSITORY_LOCK_KEY \<in> backup_keys"
| manifest_key: "snapshot_manifest_key i \<in> backup_keys"
| table_key: "plain_name t \<Longrightarrow> database_table_key i t \<in> backup_keys"
| changes_key: "plain_name t \<Longrightarrow> database_changes_key i t \<in> backup_keys"
| object_key: "plain_name h \<Longrightarrow> object_content_key h \<in> backup_keys"

lemma uuid_text_length [simp]: "length (uuid_text u) = 36"
  by (simp add: uuid_text_def Let_def)

lemma uuid_text_no_slash [simp]: "CHR ''/'' \<notin> set (uuid_text u)"
  using uuid_text_set [of u] by blast

lemma str_get_Some: "str_get s a b = Some t \<Longrightarrow> length t = b - a \<and> set t \<subseteq> set s"
  by (auto simp: str_get_def dest!: in_set_takeD in_set_dropD split: if_splits)

lemma object_content_key_shards:
  assumes "plain_name h"
  obtains a b where "object_content_key h = join ''/'' [''objects'', ''sha256'', a, b, h]"
    "length a = 2" "length b = 2" "CHR ''/'' \<notin> set a" "CHR ''/'' \<notin> set b"
proof -
  let ?a = "case str_get h 0 2 of Some s \<Rightarrow> s | None \<Rightarrow> ''00''" and ?b = "case str_get h 2 4 of Some s \<Rightarrow> s | None \<Rightarrow> ''00''"
  have "length ?a = 2" "length ?b = 2" "CHR ''/'' \<notin> set ?a" "CHR ''/'' \<notin> set ?b"
    using assms by (auto simp: plain_name_def dest!: str_get_Some split: option.splits)
  then show ?thesis by (intro that [of ?a ?b]) (simp_all add: object_content_key_def Let_def)
qed

text \<open>A path of a backup key: its components, where the ones before the last are directories.\<close>

inductive_set backup_paths :: "path set" where
  lock_path: "[''locks'', ''repository.lock''] \<in> backup_paths"
| manifest_path: "[''snapshots'', uuid_text i, ''manifest.json''] \<in> backup_paths"
| payload_path: "d \<in> {''tables'', ''changes''} \<Longrightarrow> CHR ''/'' \<notin> set n \<Longrightarrow> \<not> ends_with ''.uploading'' n \<Longrightarrow>
    [''snapshots'', uuid_text i, ''database'', d, n] \<in> backup_paths"
| object_path: "length a = 2 \<Longrightarrow> length b = 2 \<Longrightarrow> CHR ''/'' \<notin> set a \<Longrightarrow> CHR ''/'' \<notin> set b \<Longrightarrow> plain_name h \<Longrightarrow>
    [''objects'', ''sha256'', a, b, h] \<in> backup_paths"

lemma zst_name: "plain_name t \<Longrightarrow> CHR ''/'' \<notin> set (t @ ''.jsonl.zst'') \<and> \<not> ends_with ''.uploading'' (t @ ''.jsonl.zst'')"
  by (auto simp: plain_name_def ends_with_def starts_with_def)

lemma backup_keys_path: "k \<in> backup_keys \<Longrightarrow> \<exists>p \<in> backup_paths. k = join ''/'' p"
proof (induction rule: backup_keys.induct)
  case lock_key
  show ?case by (rule bexI [OF _ lock_path]) (simp add: REPOSITORY_LOCK_KEY_def)
next
  case (manifest_key i)
  show ?case by (rule bexI [OF _ manifest_path [of i]]) (simp add: snapshot_manifest_key_def)
next
  case (table_key t i)
  with zst_name show ?case
    by (intro bexI [OF _ payload_path [of "''tables''" "t @ ''.jsonl.zst''" i]]) (auto simp: database_table_key_def)
next
  case (changes_key t i)
  with zst_name show ?case
    by (intro bexI [OF _ payload_path [of "''changes''" "t @ ''.jsonl.zst''" i]]) (auto simp: database_changes_key_def)
next
  case (object_key h)
  then show ?case by (metis object_content_key_shards object_path)
qed

lemma split_unique:
  assumes "CHR ''/'' \<notin> set a" "CHR ''/'' \<notin> set d" "a @ CHR ''/'' # x = d @ CHR ''/'' # y"
  shows "a = d \<and> x = y"
  using assms by (metis split_char_append split_char.simps(2) list.inject same_append_eq)

lemma clash_paths:
  assumes "join ''/'' p = c @ CHR ''/'' # r" "join ''/'' q = c @ x # y" "x \<noteq> CHR ''/''"
    and "\<forall>n \<in> set p \<union> set q. CHR ''/'' \<notin> set n"
  shows "\<exists>b n m p' q'. p = b @ n # p' \<and> q = b @ m # q' \<and> p' \<noteq> [] \<and> strict_prefix n m"
  using assms
proof (induction p arbitrary: c q)
  case (Cons a p)
  then have slash: "CHR ''/'' \<notin> set a" and "p \<noteq> []" by auto
  then have k: "a @ CHR ''/'' # join ''/'' p = c @ CHR ''/'' # r" using Cons.prems(1) by (simp add: join_Cons)
  obtain d q' where q: "q = d # q'" using Cons.prems(2) by (cases q) auto
  have d: "CHR ''/'' \<notin> set d" using Cons.prems(4) q by simp
  from k consider (here) "c = a" | (later) c' where "c = a @ CHR ''/'' # c'" "join ''/'' p = c' @ CHR ''/'' # r"
    using slash by (auto simp: append_eq_append_conv2 Cons_eq_append_conv append_eq_Cons_conv)
  then show ?case
  proof cases
    case here
    have "strict_prefix a d"
    proof (cases q')
      case Nil
      with Cons.prems(2) q here show ?thesis by (simp add: strict_prefix_def)
    next
      case (Cons e q2)
      then have "d @ CHR ''/'' # join ''/'' q' = a @ x # y" using \<open>join ''/'' q = c @ x # y\<close> q here by simp
      with slash \<open>x \<noteq> CHR ''/''\<close> show ?thesis
        by (auto simp: append_eq_append_conv2 Cons_eq_append_conv append_eq_Cons_conv strict_prefix_def)
    qed
    with q \<open>p \<noteq> []\<close> show ?thesis by (metis append.left_neutral)
  next
    case (later c')
    have "q' \<noteq> []" using Cons.prems(2) q d later by auto
    then have "d @ CHR ''/'' # join ''/'' q' = a @ CHR ''/'' # c' @ x # y"
      using Cons.prems(2) q later by (simp add: join_Cons)
    with slash d have "d = a" "join ''/'' q' = c' @ x # y" using split_unique by blast+
    moreover have "\<forall>n \<in> set p \<union> set q'. CHR ''/'' \<notin> set n" using Cons.prems(4) q by auto
    ultimately obtain b n m p2 q2 where "p = b @ n # p2" "q' = b @ m # q2" "p2 \<noteq> []" "strict_prefix n m"
      using Cons.IH [OF later(2) _ Cons.prems(3)] by blast
    with q \<open>d = a\<close> show ?thesis by (metis append_Cons)
  qed
qed simp

lemma backup_paths_prefix_free:
  assumes "b @ n # p' \<in> backup_paths" "b @ m # q' \<in> backup_paths" "p' \<noteq> []"
  shows "\<not> strict_prefix n m"
proof -
  have same: "\<not> strict_prefix n m" if "length n = length m" for n m :: str
    using that by (metis prefix_length_less nat_neq_iff)
  from assms show ?thesis
    by (elim backup_paths.cases) (auto simp: Cons_eq_append_conv append_eq_Cons_conv same)
qed

lemma backup_paths_names: "p \<in> backup_paths \<Longrightarrow> n \<in> set p \<Longrightarrow> CHR ''/'' \<notin> set n"
  by (induction rule: backup_paths.induct) (auto simp: plain_name_def)

lemma backup_keys_orderly: "orderly backup_keys"
  unfolding orderly_def
proof (intro ballI notI)
  fix k k'
  assume "k \<in> backup_keys" "k' \<in> backup_keys" and clash: "clash k k'"
  then obtain p q where p: "p \<in> backup_paths" "k = join ''/'' p" and q: "q \<in> backup_paths" "k' = join ''/'' q"
    using backup_keys_path by blast
  from clash obtain c r x y where "k = c @ CHR ''/'' # r" "k' = c @ x # y" "x \<noteq> CHR ''/''"
    by (auto simp: clash_def)
  with p q clash_paths [of p c r q x y] backup_paths_names
  obtain b n m p' q' where "p = b @ n # p'" "q = b @ m # q'" "p' \<noteq> []" "strict_prefix n m" by blast
  with p q backup_paths_prefix_free show False by blast
qed

section \<open>What clients rely on\<close>

text \<open>
  \<open>rep V s\<close> says that the repository in state \<open>s\<close> holds the blobs \<open>V\<close>. A failing write or deletion
  may or may not have taken effect, as the trait documents; it touches no other key.
\<close>

definition listable :: "str \<Rightarrow> bool" where
  "listable p \<longleftrightarrow> p = ''snapshots'' \<or> p = ''objects/sha256'' \<or> (\<exists>i. p = ''snapshots/'' @ uuid_text i)"

locale backup_repository =
  fixes R :: "'s BackupRepository" and rep :: "(str \<Rightarrow> str option) \<Rightarrow> 's \<Rightarrow> bool"
  assumes rep_finite: "rep V s \<Longrightarrow> finite (dom V)"
    and rep_keys: "rep V s \<Longrightarrow> dom V \<subseteq> backup_keys"
    and put_law: "k \<in> backup_keys \<Longrightarrow>
      runs (rep V) (rp_put_blob R k b) (\<lambda>_. rep (V(k \<mapsto> b))) (\<lambda>_ s. rep V s \<or> rep (V(k \<mapsto> b)) s)"
    and put_if_absent_law: "k \<in> backup_keys \<Longrightarrow>
      runs (rep V) (rp_put_blob_if_absent R k b)
        (\<lambda>written s. if written then V k = None \<and> rep (V(k \<mapsto> b)) s else rep V s)
        (\<lambda>_ s. rep V s \<or> V k = None \<and> rep (V(k \<mapsto> b)) s)"
    and put_stream_if_absent_law: "k \<in> backup_keys \<Longrightarrow>
      runs (rep V) (rp_put_blob_stream_if_absent R k body)
        (\<lambda>written s. if written then V k = None \<and> (\<exists>b. collect_storage_stream body = Inr b \<and> rep (V(k \<mapsto> b)) s)
           else rep V s)
        (\<lambda>_ s. rep V s \<or> V k = None \<and> (\<exists>b. rep (V(k \<mapsto> b)) s))"
    and get_law: "k \<in> backup_keys \<Longrightarrow>
      runs (rep V) (rp_get_blob_stream R k)
        (\<lambda>body s. rep V s \<and> (\<forall>b. collect_storage_stream body = Inr b \<longrightarrow> V k = Some b)) (\<lambda>_. rep V)"
    and get_keeps: "runs (rep V) (rp_get_blob_stream R k) (\<lambda>_. rep V) (\<lambda>_. rep V)"
    and list_law: "listable p \<Longrightarrow>
      runs (rep V) (rp_list_blobs R p)
        (\<lambda>ks s. rep V s \<and> distinct ks \<and> set ks = {k \<in> dom V. under p k}) (\<lambda>_. rep V)"
    and delete_law: "k \<in> backup_keys \<Longrightarrow>
      runs (rep V) (rp_delete_blob R k) (\<lambda>_. rep (V(k := None))) (\<lambda>_ s. rep V s \<or> rep (V(k := None)) s)"
    and delete_once_law: "k \<in> backup_keys \<Longrightarrow>
      runs (rep V) (rp_delete_blob_once R k) (\<lambda>_. rep (V(k := None))) (\<lambda>_ s. rep V s \<or> rep (V(k := None)) s)"

text \<open>The laws over views.\<close>

context backup_repository
begin

lemma put_acts:
  "k \<in> backup_keys \<Longrightarrow> acts rep V (rp_put_blob R k b) (\<lambda>_ V'. V' = V(k \<mapsto> b)) (\<lambda>_ V'. V' = V \<or> V' = V(k \<mapsto> b))"
  by (rule acts_runs, rule runs_conseq [OF put_law]) auto

lemma put_if_absent_acts:
  "k \<in> backup_keys \<Longrightarrow> acts rep V (rp_put_blob_if_absent R k b)
     (\<lambda>written V'. if written then V k = None \<and> V' = V(k \<mapsto> b) else V' = V)
     (\<lambda>_ V'. V' = V \<or> V k = None \<and> V' = V(k \<mapsto> b))"
  by (rule acts_runs, rule runs_conseq [OF put_if_absent_law]) (auto split: if_splits)

lemma put_stream_if_absent_acts:
  "k \<in> backup_keys \<Longrightarrow> acts rep V (rp_put_blob_stream_if_absent R k body)
     (\<lambda>written V'. if written then V k = None \<and> (\<exists>b. collect_storage_stream body = Inr b \<and> V' = V(k \<mapsto> b)) else V' = V)
     (\<lambda>_ V'. V' = V \<or> V k = None \<and> (\<exists>b. V' = V(k \<mapsto> b)))"
  by (rule acts_runs, rule runs_conseq [OF put_stream_if_absent_law]) (auto split: if_splits)

lemma get_acts:
  "acts rep V (rp_get_blob_stream R k)
     (\<lambda>body V'. V' = V \<and> (k \<in> backup_keys \<longrightarrow> (\<forall>b. collect_storage_stream body = Inr b \<longrightarrow> V k = Some b))) (\<lambda>_ V'. V' = V)"
proof (cases "k \<in> backup_keys")
  case True
  then show ?thesis by (intro acts_runs runs_conseq [OF get_law]) auto
next
  case False
  then show ?thesis by (intro acts_runs runs_conseq [OF get_keeps]) auto
qed

lemma list_acts:
  "listable p \<Longrightarrow> acts rep V (rp_list_blobs R p)
     (\<lambda>ks V'. V' = V \<and> distinct ks \<and> set ks = {k \<in> dom V. under p k}) (\<lambda>_ V'. V' = V)"
  by (rule acts_runs, rule runs_conseq [OF list_law]) auto

lemma delete_acts:
  "k \<in> backup_keys \<Longrightarrow> acts rep V (rp_delete_blob R k) (\<lambda>_ V'. V' = V(k := None)) (\<lambda>_ V'. V' = V \<or> V' = V(k := None))"
  by (rule acts_runs, rule runs_conseq [OF delete_law]) auto

lemma delete_once_acts:
  "k \<in> backup_keys \<Longrightarrow> acts rep V (rp_delete_blob_once R k) (\<lambda>_ V'. V' = V(k := None)) (\<lambda>_ V'. V' = V \<or> V' = V(k := None))"
  by (rule acts_runs, rule runs_conseq [OF delete_once_law]) auto

text \<open>
  An operation under the lock: with the lock taken nothing runs and nothing changes; otherwise it
  runs on the repository with the lock in it, and what holds after it holds up to the lock.
\<close>

lemma acquire_acts:
  "acts rep V (acquire R now) (\<lambda>_ V'. V REPOSITORY_LOCK_KEY = None \<and> V' = V(REPOSITORY_LOCK_KEY \<mapsto> show_int now))
     (\<lambda>_ V'. if V REPOSITORY_LOCK_KEY = None then unlocked V' = V else V' = V)"
  unfolding acquire_def
proof (rule acts_perform [OF acts_conseq [OF put_if_absent_acts [OF lock_key]]], assumption)
  fix written V'
  assume "if written then V REPOSITORY_LOCK_KEY = None \<and> V' = V(REPOSITORY_LOCK_KEY \<mapsto> show_int now) else V' = V"
  then show "acts rep V' (if written then done_with () else fail_with (BeRepositoryLocked REPOSITORY_LOCK_KEY))
      (\<lambda>_ V'. V REPOSITORY_LOCK_KEY = None \<and> V' = V(REPOSITORY_LOCK_KEY \<mapsto> show_int now))
      (\<lambda>_ V'. if V REPOSITORY_LOCK_KEY = None then unlocked V' = V else V' = V)"
    by (cases written) (auto intro: acts_rules simp: unlocked_def fun_eq_iff)
qed (auto simp: unlocked_def fun_eq_iff)

lemma release_acts: "acts rep V (release_lock R result) (\<lambda>x V'. result = Inr x \<and> V' = unlocked V) (\<lambda>_ V'. unlocked V' = unlocked V)"
  unfolding release_lock_def lock_release_def
  by (rule acts_perform [OF acts_observe [OF delete_once_acts [OF lock_key]]])
    (auto split: sum.splits intro!: acts_rules simp: unlocked_def)

lemma locked_acts:
  assumes "V REPOSITORY_LOCK_KEY = None \<Longrightarrow> acts rep (V(REPOSITORY_LOCK_KEY \<mapsto> show_int now)) m Q E"
  shows "acts rep V (locked R now m)
    (\<lambda>x V'. V REPOSITORY_LOCK_KEY = None \<and> (\<exists>V1. Q x V1 \<and> V' = unlocked V1))
    (\<lambda>_ V'. if V REPOSITORY_LOCK_KEY = None
       then unlocked V' = V \<or> (\<exists>V1. ((\<exists>x. Q x V1) \<or> (\<exists>e. E e V1)) \<and> unlocked V' = unlocked V1) else V' = V)"
    (is "acts rep V _ ?Q ?E")
  unfolding locked_def
proof (rule acts_perform [OF acts_conseq [OF acquire_acts]], assumption)
  fix u V'
  assume V': "V REPOSITORY_LOCK_KEY = None \<and> V' = V(REPOSITORY_LOCK_KEY \<mapsto> show_int now)"
  then have "acts rep V' (observe m) (\<lambda>r V1. case r of Inl e \<Rightarrow> E e V1 | Inr x \<Rightarrow> Q x V1) ?E"
    using assms by (auto intro: acts_observe)
  then show "acts rep V' (perform (observe m) (release_lock R)) ?Q ?E"
    by (rule acts_perform, intro acts_conseq [OF release_acts]) (use V' in \<open>auto split: sum.splits\<close>)
qed (auto split: if_splits)

end

text \<open>A repository whose reads succeed while it is calm.\<close>

locale calm_repository = backup_repository R rep
  for R :: "'s BackupRepository" and rep +
  fixes calm :: "'s \<Rightarrow> bool"
  assumes get_calm: "calm s \<Longrightarrow> rep V s \<Longrightarrow> V k = Some b \<Longrightarrow>
    \<exists>cs. concat cs = b \<and> rp_get_blob_stream R k s = Some (Inr \<lparr>st_chunks = map Inr cs, st_size_hint = None\<rparr>, s)"

section \<open>The adapter over the local backend\<close>

definition prefix_ok :: "str option \<Rightarrow> bool" where
  "prefix_ok pfx \<longleftrightarrow> (case pfx of None \<Rightarrow> True | Some p \<Rightarrow> valid_key p \<and> \<not> is_internal_storage_path (path_of p))"

definition area :: "str \<Rightarrow> bool" where
  "area k \<longleftrightarrow> under ''snapshots'' k \<or> under ''objects'' k \<or> under ''locks'' k"

definition repository_view :: "str option \<Rightarrow> (str \<Rightarrow> str option) \<Rightarrow> str \<Rightarrow> str option" where
  "repository_view pfx W k = (if area k then W (apply_prefix pfx k) else None)"

definition local_rep :: "LocalStorageBackend \<Rightarrow> str option \<Rightarrow> (str \<Rightarrow> str option) \<Rightarrow> LocalFs \<Rightarrow> bool" where
  "local_rep lb pfx V s \<longleftrightarrow>
     (\<forall>b. concat (lb_chunks lb b) = b) \<and> prefix_ok pfx
     \<and> (\<exists>W. stores W s \<and> V = repository_view pfx W) \<and> dom V \<subseteq> backup_keys"

lemma backup_keys_area: "k \<in> backup_keys \<Longrightarrow> area k"
  by (induction rule: backup_keys.induct)
    (simp_all add: area_def under_def starts_with_def REPOSITORY_LOCK_KEY_def snapshot_manifest_key_def
      database_table_key_def database_changes_key_def object_content_key_def)

lemma backup_path_of: "k \<in> backup_keys \<Longrightarrow> path_of k \<in> backup_paths"
proof -
  assume "k \<in> backup_keys"
  then obtain p where p: "p \<in> backup_paths" "k = join ''/'' p" using backup_keys_path by blast
  moreover have "p \<noteq> []" using p(1) by (cases rule: backup_paths.cases) auto
  ultimately show ?thesis using backup_paths_names [OF p(1)] by (simp add: split_char_join)
qed

lemma backup_paths_visible: "p \<in> backup_paths \<Longrightarrow> visible p"
  by (induction rule: backup_paths.induct)
    (auto simp: visible_def is_internal_storage_path_def INTERNAL_STORAGE_DIR_def is_uploading_temp_file_def
      plain_name_def ends_with_def starts_with_def)

lemma path_of_prefixed: "path_of (apply_prefix pfx k) = (case pfx of None \<Rightarrow> [] | Some p \<Rightarrow> path_of p) @ path_of k"
  by (simp add: apply_prefix_def split_char_append2 split: option.split)

lemma backup_keys_shown:
  assumes "prefix_ok pfx" "k \<in> backup_keys"
  shows "shown_key (apply_prefix pfx k)"
proof (cases pfx)
  case None
  with assms backup_paths_visible backup_path_of show ?thesis
    by (simp add: shown_key_def path_of_prefixed)
next
  case (Some p)
  with assms backup_paths_visible [OF backup_path_of [OF assms(2)]] show ?thesis
    by (auto simp: shown_key_def path_of_prefixed prefix_ok_def visible_def is_internal_storage_path_def
        is_uploading_temp_file_def)
qed

lemma apply_prefix_inj: "apply_prefix pfx k = apply_prefix pfx k' \<longleftrightarrow> k = k'"
  by (simp add: apply_prefix_def split: option.split)

lemma repository_view_update:
  "area k \<Longrightarrow> repository_view pfx (W(apply_prefix pfx k := x)) = (repository_view pfx W)(k := x)"
  by (auto simp: repository_view_def fun_eq_iff apply_prefix_inj)

lemma local_rep_stores:
  "prefix_ok pfx \<Longrightarrow> (\<And>b. concat (lb_chunks lb b) = b) \<Longrightarrow> dom (repository_view pfx W) \<subseteq> backup_keys \<Longrightarrow>
     stores W s \<Longrightarrow> local_rep lb pfx (repository_view pfx W) s"
  by (auto simp: local_rep_def)

lemma local_rep_update:
  assumes "prefix_ok pfx" "\<And>b. concat (lb_chunks lb b) = b" "dom (repository_view pfx W) \<subseteq> backup_keys"
    and "stores (W(apply_prefix pfx k := x)) s" "k \<in> backup_keys"
  shows "local_rep lb pfx ((repository_view pfx W)(k := x)) s"
proof -
  have "(repository_view pfx W)(k := x) = repository_view pfx (W(apply_prefix pfx k := x))"
    using assms(5) by (simp add: repository_view_update backup_keys_area)
  moreover have "dom ((repository_view pfx W)(k := x)) \<subseteq> backup_keys"
    using assms(3,5) by (auto split: if_splits)
  ultimately show ?thesis using assms(1,2,4) by (auto simp: local_rep_def)
qed

text \<open>Triples over the store carry over to the repository.\<close>

lemma runs_local_rep:
  assumes "\<And>W. prefix_ok pfx \<Longrightarrow> (\<And>b. concat (lb_chunks lb b) = b) \<Longrightarrow> dom (repository_view pfx W) \<subseteq> backup_keys \<Longrightarrow>
      (\<And>s. stores W s \<Longrightarrow> local_rep lb pfx (repository_view pfx W) s) \<Longrightarrow>
      (\<And>k x s. stores (W(apply_prefix pfx k := x)) s \<Longrightarrow> k \<in> backup_keys \<Longrightarrow>
         local_rep lb pfx ((repository_view pfx W)(k := x)) s) \<Longrightarrow>
      (\<And>k. k \<in> backup_keys \<Longrightarrow> repository_view pfx W k = W (apply_prefix pfx k)) \<Longrightarrow>
      runs (stores W) m (\<lambda>x s. Q x (repository_view pfx W) s) (\<lambda>e s. E e (repository_view pfx W) s)"
  shows "runs (local_rep lb pfx V) m (\<lambda>x. Q x V) (\<lambda>e. E e V)"
proof (rule runsI)
  fix s
  assume "local_rep lb pfx V s"
  then obtain W where W: "stores W s" and V: "V = repository_view pfx W" "dom (repository_view pfx W) \<subseteq> backup_keys"
    and ok: "prefix_ok pfx" "\<And>b. concat (lb_chunks lb b) = b"
    unfolding local_rep_def by blast
  have "runs (stores W) m (\<lambda>x s. Q x V s) (\<lambda>e s. E e V s)"
    unfolding V(1)
    by (rule assms [OF ok V(2)])
      (simp_all add: local_rep_stores [OF ok V(2)] local_rep_update [OF ok V(2)] repository_view_def backup_keys_area)
  with W show "\<exists>r s'. m s = Some (r, s') \<and> (case r of Inl e \<Rightarrow> E e V s' | Inr x \<Rightarrow> Q x V s')"
    unfolding runs_def by blast
qed

abbreviation local_repository ::
  "LocalStorageBackend \<Rightarrow> str option \<Rightarrow> BackupCapacityLimits \<Rightarrow> LocalFs BackupRepository" where
  "local_repository lb pfx limits \<equiv>
     blob_store_repository \<lparr>br_store = local_store lb, br_prefix = pfx, br_limits = limits\<rparr>"

lemma runs_map_result:
  assumes "runs P m (\<lambda>x. Q (g x)) (\<lambda>e. E (f e))"
  shows "runs P (map_failure f (perform m (\<lambda>x. done_with (g x)))) Q E"
  by (rule runs_map_failure, rule runs_perform [OF assms], rule runs_done)

lemma collect_stream_bytes [simp]: "collect_storage_stream (stream_from_bytes b) = Inr b"
  by (simp add: collect_storage_stream_def stream_from_bytes_def)

lemma local_put_law:
  assumes "k \<in> backup_keys"
  shows "runs (local_rep lb pfx V) (rp_put_blob (local_repository lb pfx limits) k b)
    (\<lambda>_. local_rep lb pfx (V(k \<mapsto> b))) (\<lambda>_ s. local_rep lb pfx V s \<or> local_rep lb pfx (V(k \<mapsto> b)) s)"
proof (rule runs_local_rep [where Q = "\<lambda>_ V. local_rep lb pfx (V(k \<mapsto> b))"
      and E = "\<lambda>_ V s. local_rep lb pfx V s \<or> local_rep lb pfx (V(k \<mapsto> b)) s"], goal_cases)
  case (1 W)
  show ?case
    unfolding blob_store_repository_def Let_def local_store_def
    by (simp, rule runs_map_result, rule runs_conseq [OF local_put_blob_runs [OF backup_keys_shown [OF 1(1) assms]]])
      (auto intro: 1(4,5) assms)
qed

lemma local_put_stream_if_absent_law:
  assumes "k \<in> backup_keys"
  shows "runs (local_rep lb pfx V) (rp_put_blob_stream_if_absent (local_repository lb pfx limits) k body)
    (\<lambda>written s. if written then V k = None \<and> (\<exists>b. collect_storage_stream body = Inr b \<and> local_rep lb pfx (V(k \<mapsto> b)) s)
       else local_rep lb pfx V s)
    (\<lambda>_ s. local_rep lb pfx V s)"
proof (rule runs_local_rep [where Q = "\<lambda>written V s. if written then V k = None \<and> (\<exists>b. collect_storage_stream body = Inr b
        \<and> local_rep lb pfx (V(k \<mapsto> b)) s) else local_rep lb pfx V s"
      and E = "\<lambda>_ V s. local_rep lb pfx V s"], goal_cases)
  case (1 W)
  show ?case
    unfolding blob_store_repository_def Let_def local_store_def
    by (simp, rule runs_map_result, rule runs_conseq [OF local_put_blob_if_not_exists_runs [OF backup_keys_shown [OF 1(1) assms]]])
      (auto intro: 1(4,5) assms simp: 1(6) [OF assms] split: option.splits)
qed

lemma local_put_if_absent_law:
  assumes "k \<in> backup_keys"
  shows "runs (local_rep lb pfx V) (rp_put_blob_if_absent (local_repository lb pfx limits) k b)
    (\<lambda>written s. if written then V k = None \<and> local_rep lb pfx (V(k \<mapsto> b)) s else local_rep lb pfx V s)
    (\<lambda>_ s. local_rep lb pfx V s)"
proof -
  have "rp_put_blob_if_absent (local_repository lb pfx limits) k b
      = rp_put_blob_stream_if_absent (local_repository lb pfx limits) k (stream_from_bytes b)"
    by (simp add: blob_store_repository_def Let_def)
  moreover have "runs (local_rep lb pfx V) (rp_put_blob_stream_if_absent (local_repository lb pfx limits) k (stream_from_bytes b))
    (\<lambda>written s. if written then V k = None \<and> local_rep lb pfx (V(k \<mapsto> b)) s else local_rep lb pfx V s)
    (\<lambda>_ s. local_rep lb pfx V s)"
    by (rule runs_conseq [OF local_put_stream_if_absent_law [OF assms]]) (auto split: if_splits)
  ultimately show ?thesis by (simp only:)
qed

lemma local_get_law:
  assumes "k \<in> backup_keys"
  shows "runs (local_rep lb pfx V) (rp_get_blob_stream (local_repository lb pfx limits) k)
    (\<lambda>body s. local_rep lb pfx V s \<and> (\<forall>b. collect_storage_stream body = Inr b \<longrightarrow> V k = Some b)) (\<lambda>_. local_rep lb pfx V)"
proof (rule runs_local_rep [where Q = "\<lambda>body V s. local_rep lb pfx V s \<and> (\<forall>b. collect_storage_stream body = Inr b \<longrightarrow> V k = Some b)"
      and E = "\<lambda>_ V s. local_rep lb pfx V s"], goal_cases)
  case (1 W)
  show ?case
    unfolding blob_store_repository_def Let_def local_store_def
    by (simp, rule runs_map_result, rule runs_conseq [OF local_get_blob_runs [OF backup_keys_shown [OF 1(1) assms] 1(2)]])
      (auto intro: 1(4) simp: 1(6) [OF assms])
qed

lemma local_get_keeps:
  "runs (local_rep lb pfx V) (rp_get_blob_stream (local_repository lb pfx limits) k)
    (\<lambda>_. local_rep lb pfx V) (\<lambda>_. local_rep lb pfx V)"
proof (rule runs_local_rep [where Q = "\<lambda>_ V. local_rep lb pfx V" and E = "\<lambda>_ V. local_rep lb pfx V"], goal_cases)
  case (1 W)
  show ?case
    unfolding blob_store_repository_def Let_def local_store_def
    by (simp, rule runs_map_result, rule runs_conseq [OF local_get_blob_keeps [OF 1(2)]]) (auto intro: 1(4))
qed

lemma local_delete_law:
  assumes "k \<in> backup_keys"
  shows "runs (local_rep lb pfx V) (rp_delete_blob (local_repository lb pfx limits) k)
    (\<lambda>_. local_rep lb pfx (V(k := None))) (\<lambda>_ s. local_rep lb pfx V s \<or> local_rep lb pfx (V(k := None)) s)"
    and "runs (local_rep lb pfx V) (rp_delete_blob_once (local_repository lb pfx limits) k)
    (\<lambda>_. local_rep lb pfx (V(k := None))) (\<lambda>_ s. local_rep lb pfx V s \<or> local_rep lb pfx (V(k := None)) s)"
proof -
  show "runs (local_rep lb pfx V) (rp_delete_blob (local_repository lb pfx limits) k)
    (\<lambda>_. local_rep lb pfx (V(k := None))) (\<lambda>_ s. local_rep lb pfx V s \<or> local_rep lb pfx (V(k := None)) s)"
  proof (rule runs_local_rep [where Q = "\<lambda>_ V. local_rep lb pfx (V(k := None))"
        and E = "\<lambda>_ V s. local_rep lb pfx V s \<or> local_rep lb pfx (V(k := None)) s"], goal_cases)
    case (1 W)
    show ?case
      unfolding blob_store_repository_def Let_def local_store_def
      by (simp, rule runs_map_failure, rule runs_conseq [OF local_delete_blob_runs [OF backup_keys_shown [OF 1(1) assms]]])
        (auto intro: 1(4,5) assms)
  qed
  show "runs (local_rep lb pfx V) (rp_delete_blob_once (local_repository lb pfx limits) k)
    (\<lambda>_. local_rep lb pfx (V(k := None))) (\<lambda>_ s. local_rep lb pfx V s \<or> local_rep lb pfx (V(k := None)) s)"
  proof (rule runs_local_rep [where Q = "\<lambda>_ V. local_rep lb pfx (V(k := None))"
        and E = "\<lambda>_ V s. local_rep lb pfx V s \<or> local_rep lb pfx (V(k := None)) s"], goal_cases)
    case (1 W)
    show ?case
      unfolding blob_store_repository_def Let_def local_store_def
      by (simp, rule runs_map_failure, rule runs_conseq [OF local_delete_blob_once_runs [OF backup_keys_shown [OF 1(1) assms]]])
        (auto intro: 1(4,5) assms)
  qed
qed

lemma under_prefixed:
  assumes "p \<noteq> []"
  shows "under (apply_prefix pfx p) k \<longleftrightarrow> (\<exists>k0. k = apply_prefix pfx k0 \<and> under p k0)"
proof -
  have below: "under q k \<longleftrightarrow> k = q \<or> (\<exists>r. k = q @ ''/'' @ r)" if "q \<noteq> []" for q k
    using that by (auto simp: under_def starts_with_iff_prefix prefix_def)
  have "apply_prefix pfx p \<noteq> []" using assms by (simp add: apply_prefix_def split: option.split)
  moreover have "apply_prefix pfx (p @ r) = apply_prefix pfx p @ r" for r
    by (simp add: apply_prefix_def split: option.split)
  ultimately show ?thesis using assms by (metis below)
qed

lemma starts_with_appendD: "starts_with (a @ b) k \<Longrightarrow> starts_with a k"
  by (auto simp: starts_with_iff_prefix dest: append_prefixD)

lemma listable_area:
  assumes "listable p" "under p k"
  shows "area k"
proof -
  consider "p = ''snapshots''" | "p = ''objects/sha256''" | i where "p = ''snapshots/'' @ uuid_text i"
    using assms(1) unfolding listable_def by blast
  then show ?thesis
  proof cases
    case 2
    with assms(2) starts_with_appendD [of "''objects/''" "''sha256/''" k] show ?thesis
      by (auto simp: area_def under_def starts_with_def)
  next
    case (3 i)
    with assms(2) starts_with_appendD [of "''snapshots/''" "uuid_text i @ ''/''" k] show ?thesis
      by (auto simp: area_def under_def starts_with_def)
  qed (use assms(2) in \<open>simp add: area_def\<close>)
qed

lemma clash_prefixed: "clash (apply_prefix pfx k) (apply_prefix pfx k') \<Longrightarrow> clash k k'"
proof (cases pfx)
  case (Some p)
  assume "clash (apply_prefix pfx k) (apply_prefix pfx k')"
  then obtain c r x y where eq: "(p @ ''/'') @ k = c @ CHR ''/'' # r" "(p @ ''/'') @ k' = c @ x # y" "x < CHR ''/''"
    by (auto simp: clash_def apply_prefix_def Some)
  have "length (p @ ''/'') \<le> length c"
  proof (rule ccontr)
    assume "\<not> length (p @ ''/'') \<le> length c"
    then have "((p @ ''/'') @ k) ! length c = ((p @ ''/'') @ k') ! length c" by (simp only: nth_append) simp
    then show False using eq by simp
  qed
  then obtain d where "c = (p @ ''/'') @ d"
    using eq(1) by (metis append_eq_append_conv_if append_take_drop_id)
  with eq show ?thesis by (auto simp: clash_def)
qed (simp add: apply_prefix_def)

lemma strip_applied [simp]: "strip_repository_prefix pfx (apply_prefix pfx k) = k"
  by (simp add: strip_repository_prefix_def apply_prefix_def strip_prefix_def starts_with_iff_prefix split: option.split)

lemma uuid_name: "name_ok (uuid_text u)"
proof -
  have "CHR ''-'' \<in> set (uuid_text u)" by (simp add: uuid_text_def Let_def)
  then have "uuid_text u \<noteq> []" "uuid_text u \<noteq> ''.''" "uuid_text u \<noteq> ''..''" by auto
  with uuid_text_set [of u] show ?thesis by (auto simp: name_ok_def)
qed

lemma listable_valid:
  assumes "listable p" "prefix_ok pfx"
  shows "valid_key (apply_prefix_to_list pfx p)" and "apply_prefix_to_list pfx p = apply_prefix pfx p" and "p \<noteq> []"
proof -
  have path: "path_of (''snapshots/'' @ uuid_text i) = [''snapshots'', uuid_text i]" for i
    using uuid_text_set [of i] by (simp add: split_char_free)
  have names: "\<forall>c \<in> set (path_of p). name_ok c"
  proof -
    consider "p = ''snapshots''" | "p = ''objects/sha256''" | i where "p = ''snapshots/'' @ uuid_text i"
      using assms(1) unfolding listable_def by blast
    then show ?thesis
      by cases (simp_all only: path set_simps ball_simps uuid_name, simp_all add: name_ok_def)
  qed
  show ne: "p \<noteq> []" using assms(1) by (auto simp: listable_def)
  then show eq: "apply_prefix_to_list pfx p = apply_prefix pfx p"
    by (simp add: apply_prefix_to_list_def apply_prefix_def split: option.split)
  show "valid_key (apply_prefix_to_list pfx p)"
    using assms(2) names unfolding eq valid_key_iff path_of_prefixed
    by (cases pfx) (auto simp: prefix_ok_def valid_key_iff)
qed

lemma local_list_law:
  assumes "listable p"
  shows "runs (local_rep lb pfx V) (rp_list_blobs (local_repository lb pfx limits) p)
    (\<lambda>ks s. local_rep lb pfx V s \<and> distinct ks \<and> set ks = {k \<in> dom V. under p k}) (\<lambda>_. local_rep lb pfx V)"
proof (rule runs_local_rep [where Q = "\<lambda>ks V s. local_rep lb pfx V s \<and> distinct ks \<and> set ks = {k \<in> dom V. under p k}"
      and E = "\<lambda>_ V s. local_rep lb pfx V s"], goal_cases)
  case (1 W)
  note valid = listable_valid [OF assms 1(1)]
  let ?V = "repository_view pfx W" and ?p = "apply_prefix_to_list pfx p"
  let ?K = "{k \<in> dom W. under ?p k}"
  have K: "?K = apply_prefix pfx ` {k \<in> dom ?V. under p k}"
    using listable_area [OF assms] by (auto simp: valid(2) under_prefixed [OF valid(3)] repository_view_def dom_def)
  have orderly: "orderly ?K"
    using backup_keys_orderly 1(3) unfolding K orderly_def by (blast dest: clash_prefixed)
  have post: "distinct (map (strip_repository_prefix pfx) ks) \<and> set (map (strip_repository_prefix pfx) ks) = {k \<in> dom ?V. under p k}"
    if ks: "sorted_wrt (<) ks" "set ks = ?K" for ks
  proof -
    have "inj_on (strip_repository_prefix pfx) (set ks)"
      unfolding ks(2) K by (auto simp: inj_on_def)
    moreover have "distinct ks" using ks(1) strict_sorted_iff by blast
    ultimately show ?thesis using ks(2) K by (simp add: distinct_map image_image)
  qed
  show ?case
    unfolding blob_store_repository_def Let_def
    by (simp, rule runs_map_result, rule runs_conseq [OF local_list_blobs_runs [OF disjI2 [OF valid(1)]]])
      (use post orderly 1(4) in \<open>fast+\<close>)
qed

lemma local_rep_finite: "local_rep lb pfx V s \<Longrightarrow> finite (dom V)"
proof -
  assume "local_rep lb pfx V s"
  then obtain W where W: "stores W s" "V = repository_view pfx W" by (auto simp: local_rep_def)
  have "finite (dom W)" using keys_below_set [OF W(1), of "[]"] by (simp add: under_def dom_def flip: finite_set)
      (metis (no_types) List.finite_set)
  moreover have "apply_prefix pfx ` dom V \<subseteq> dom W" unfolding W(2) by (auto simp: repository_view_def split: if_splits)
  moreover have "inj_on (apply_prefix pfx) (dom V)" by (simp add: inj_on_def apply_prefix_inj)
  ultimately show ?thesis by (meson finite_imageD finite_subset)
qed

lemma local_get_calm:
  assumes "lf_faults s = []" "local_rep lb pfx V s" "V k = Some b"
  shows "\<exists>cs. concat cs = b \<and> rp_get_blob_stream (local_repository lb pfx limits) k s
    = Some (Inr \<lparr>st_chunks = map Inr cs, st_size_hint = None\<rparr>, s)"
proof -
  from assms(2) obtain W where W: "stores W s" "V = repository_view pfx W" and ch: "concat (lb_chunks lb b) = b"
    by (auto simp: local_rep_def)
  then have "W (apply_prefix pfx k) = Some b" using assms(3) by (simp add: repository_view_def split: if_splits)
  from local_get_blob_calm [OF W(1) assms(1) this, of lb] ch show ?thesis
    by (auto simp: blob_store_repository_def Let_def local_store_def map_failure_def perform_def done_with_def)
qed

interpretation local_repo: calm_repository "local_repository lb pfx limits" "local_rep lb pfx" "\<lambda>s. lf_faults s = []"
proof (unfold_locales, goal_cases)
  case (2 V s)
  then show ?case by (auto simp: local_rep_def)
next
  case (4 k V b)
  show ?case by (rule runs_conseq [OF local_put_if_absent_law [OF 4]]) auto
next
  case (5 k V body)
  show ?case by (rule runs_conseq [OF local_put_stream_if_absent_law [OF 5]]) auto
qed (simp_all add: local_rep_finite local_put_law local_get_law local_get_keeps local_list_law local_delete_law local_get_calm)

end
