(* ===== verification/Manifest.thy ===== *)
theory Manifest
  imports Repository
begin

text \<open>
  Snapshot manifests (\<open>graphql-orm-backup/src/manifest.rs\<close>, \<open>verify.rs\<close>): their data, checksums, loading of
  one manifest and of a chain, chain validation and payload verification. JSON, SHA-256, zstd and the
  textual form of identifiers are libraries the sources call: the record \<open>BackupCodec\<close> is a
  parameter of every operation that uses them.
\<close>

section \<open>Data\<close>

definition BACKUP_FORMAT_VERSION :: nat where "BACKUP_FORMAT_VERSION = 1"

datatype BackupKind = Full | Incremental | SyntheticFull

datatype BackupCompression = NoCompression | Zstd

record TableBackupEntry =
  te_table_name :: str
  te_row_count :: nat
  te_content_key :: str
  te_sha256_hex :: str

record ObjectBackupEntry =
  oe_object_id :: uuid
  oe_storage_key :: str
  oe_content_key :: str
  oe_sha256_hex :: str
  oe_size_bytes :: nat
  oe_mime_type :: "str option"

record BackupTombstone =
  ts_table_name :: "str option"
  ts_primary_key :: "str option"
  ts_object_id :: "uuid option"
  ts_deleted_at :: int

record DatabaseBackupManifest =
  dm_export_format :: str
  dm_compression :: BackupCompression
  dm_row_count :: nat
  dm_table_count :: nat
  dm_tables :: "TableBackupEntry list"
  dm_changes :: "TableBackupEntry list"

record BackupSnapshotManifest =
  sm_format_version :: nat
  sm_snapshot_id :: uuid
  sm_parent_snapshot_id :: "uuid option"
  sm_created_at :: int
  sm_app_id :: str
  sm_app_version :: str
  sm_schema_version :: str
  sm_schema_hash :: str
  sm_database_backend :: str
  sm_backup_kind :: BackupKind
  sm_database :: DatabaseBackupManifest
  sm_objects :: "ObjectBackupEntry list"
  sm_tombstones :: "BackupTombstone list"
  sm_checksum :: str

text \<open>Rows and changes, with the JSON values of a row left abstract.\<close>

record 'v BackupRow =
  rw_table_name :: str
  rw_primary_key :: str
  rw_row_hash :: str
  rw_values :: 'v

datatype BackupChangeAction = CreateRow | UpdateRow | DeleteRow

record 'v BackupChangeExport =
  ce_table_name :: str
  ce_primary_key :: str
  ce_action :: BackupChangeAction
  ce_row :: "'v BackupRow option"
  ce_changed_at :: int

record 'v BackupTableExport =
  tx_table_name :: str
  tx_rows :: "'v BackupRow list"

text \<open>
  The libraries: the hexadecimal SHA-256 digest; JSON of the checksum view, of a manifest, of rows,
  changes and key parts (\<open>None\<close> for a serialization error); the zstd encoder fed with a list of
  writes; the reads of the zstd decoder under a window limit, each a chunk or an error; and the
  parser of identifiers.
\<close>

record 'v BackupCodec =
  cd_sha256 :: "str \<Rightarrow> str"
  cd_view_json :: "BackupSnapshotManifest \<Rightarrow> str option"
  cd_manifest_pretty :: "BackupSnapshotManifest \<Rightarrow> str option"
  cd_manifest_parse :: "str \<Rightarrow> BackupSnapshotManifest option"
  cd_row_json :: "'v BackupRow \<Rightarrow> str option"
  cd_row_parse :: "str \<Rightarrow> 'v BackupRow option"
  cd_change_json :: "'v BackupChangeExport \<Rightarrow> str option"
  cd_change_parse :: "str \<Rightarrow> 'v BackupChangeExport option"
  cd_key_parts :: "str \<Rightarrow> str list option"
  cd_zstd_encode :: "str list \<Rightarrow> str option"
  cd_zstd_reads :: "nat option \<Rightarrow> str \<Rightarrow> (unit + str) list option"
  cd_uuid_parse :: "str \<Rightarrow> uuid option"

abbreviation or_fail :: "'e \<Rightarrow> 'a option \<Rightarrow> 'e + 'a" where
  "or_fail e x \<equiv> (case x of None \<Rightarrow> Inl e | Some y \<Rightarrow> Inr y)"

section \<open>Checksums\<close>

definition checksum_view :: "BackupSnapshotManifest \<Rightarrow> BackupSnapshotManifest" where
  "checksum_view manifest = manifest\<lparr>sm_checksum := []\<rparr>"

definition manifest_checksum :: "'v BackupCodec \<Rightarrow> BackupSnapshotManifest \<Rightarrow> BackupError + str" where
  "manifest_checksum C manifest = map_sum id (cd_sha256 C) (or_fail BeSerialization (cd_view_json C (checksum_view manifest)))"

definition set_manifest_checksum ::
  "'v BackupCodec \<Rightarrow> BackupSnapshotManifest \<Rightarrow> BackupError + BackupSnapshotManifest" where
  "set_manifest_checksum C manifest = map_sum id (\<lambda>sum. manifest\<lparr>sm_checksum := sum\<rparr>) (manifest_checksum C manifest)"

definition verify_manifest_checksum :: "'v BackupCodec \<Rightarrow> BackupSnapshotManifest \<Rightarrow> BackupError + unit" where
  "verify_manifest_checksum C manifest =
     (case manifest_checksum C manifest of
        Inl e \<Rightarrow> Inl e
      | Inr actual \<Rightarrow>
          if actual = sm_checksum manifest then Inr ()
          else Inl (BeChecksumMismatch (snapshot_manifest_key (sm_snapshot_id manifest)) (sm_checksum manifest) actual))"

section \<open>Loading\<close>

definition load_manifest ::
  "'s BackupRepository \<Rightarrow> 'v BackupCodec \<Rightarrow> uuid \<Rightarrow> ('s, BackupError, BackupSnapshotManifest) action" where
  "load_manifest R C snapshot_id =
     perform (rp_get_blob_stream R (snapshot_manifest_key snapshot_id)) (\<lambda>body.
     perform (of_result (collect_backup_stream body (cl_buffered_bytes (rp_capacity_limits R)))) (\<lambda>bytes.
     perform (of_result (or_fail BeSerialization (cd_manifest_parse C bytes))) (\<lambda>manifest.
     perform (of_result (verify_manifest_checksum C manifest)) (\<lambda>_.
     done_with manifest))))"

fun validate_links :: "uuid list \<Rightarrow> BackupSnapshotManifest list \<Rightarrow> BackupError + unit" where
  "validate_links seen (parent # child # rest) =
     (let c = uuid_text (sm_snapshot_id child); p = uuid_text (sm_snapshot_id parent) in
      if sm_snapshot_id child \<in> set seen then Inl (BeInvalidManifestChain (''duplicate snapshot id '' @ c))
      else if sm_parent_snapshot_id child \<noteq> Some (sm_snapshot_id parent)
        then Inl (BeInvalidManifestChain (''snapshot '' @ c @ '' does not reference expected parent '' @ p))
      else if sm_app_id child \<noteq> sm_app_id parent
        then Inl (BeInvalidManifestChain (''snapshot '' @ c @ '' app_id does not match parent '' @ p))
      else if sm_database_backend child \<noteq> sm_database_backend parent
        then Inl (BeInvalidManifestChain (''snapshot '' @ c @ '' database backend does not match parent '' @ p))
      else if sm_schema_hash child \<noteq> sm_schema_hash parent
        then Inl (BeInvalidManifestChain (''snapshot '' @ c @ '' schema hash does not match parent '' @ p))
      else validate_links (sm_snapshot_id child # seen) (child # rest))"
| "validate_links seen chain = Inr ()"

fun validate_manifest_chain :: "BackupSnapshotManifest list \<Rightarrow> BackupError + unit" where
  "validate_manifest_chain [] = Inl (BeInvalidManifestChain ''manifest chain is empty'')"
| "validate_manifest_chain (first # rest) =
     (if sm_backup_kind first \<noteq> Full \<and> sm_backup_kind first \<noteq> SyntheticFull
        then Inl (BeInvalidManifestChain ''manifest chain does not start with a full or synthetic-full snapshot'')
      else if sm_parent_snapshot_id first \<noteq> None
        then Inl (BeInvalidManifestChain ''root full snapshot must not have a parent'')
      else validate_links [sm_snapshot_id first] (first # rest))"

text \<open>The loop of \<open>load_manifest_chain\<close> follows parents until there is none; it collects newest first.\<close>

partial_function (option) chain_loop ::
  "(uuid \<Rightarrow> ('s, BackupError, BackupSnapshotManifest) action) \<Rightarrow> uuid option \<Rightarrow> uuid list \<Rightarrow> BackupSnapshotManifest list \<Rightarrow>
     ('s, BackupError, BackupSnapshotManifest list) action" where
  "chain_loop load next_id seen chain s =
     (case next_id of
        None \<Rightarrow> done_with chain s
      | Some current \<Rightarrow>
          if current \<in> set seen then fail_with (BeInvalidManifestChain (''duplicate snapshot id '' @ uuid_text current)) s
          else perform (load current) (\<lambda>manifest.
            chain_loop load (sm_parent_snapshot_id manifest) (current # seen) (chain @ [manifest])) s)"

definition load_manifest_chain ::
  "'s BackupRepository \<Rightarrow> 'v BackupCodec \<Rightarrow> uuid \<Rightarrow> ('s, BackupError, BackupSnapshotManifest list) action" where
  "load_manifest_chain R C snapshot_id =
     perform (chain_loop (load_manifest R C) (Some snapshot_id) [] []) (\<lambda>chain.
     perform (of_result (validate_manifest_chain (rev chain))) (\<lambda>_. done_with (rev chain)))"

section \<open>Payloads\<close>

definition compress_payload :: "'v BackupCodec \<Rightarrow> str \<Rightarrow> BackupError + str" where
  "compress_payload C bytes = or_fail BeCompression (cd_zstd_encode C [bytes])"

text \<open>
  The decoder window for a limit: the position of its highest bit (63 less the leading zeros of
  a 64-bit number that is not 0), between 1 KiB and 1 GiB.
\<close>

fun top_bit :: "nat \<Rightarrow> nat" where
  "top_bit n = (if n < 2 then 0 else Suc (top_bit (n div 2)))"

declare top_bit.simps [simp del]

definition window_log :: "nat \<Rightarrow> nat" where
  "window_log limit_bytes = min 30 (max 10 (top_bit (max 1 limit_bytes)))"

fun read_all :: "BackupByteLimit \<Rightarrow> (unit + str) list \<Rightarrow> str \<Rightarrow> BackupError + str" where
  "read_all limit [] result = Inr result"
| "read_all limit (Inl u # rs) result = Inl BeCompression"
| "read_all limit (Inr chunk # rs) result =
     (if chunk = [] then Inr result
      else case u64_checked_add (length result) (length chunk) of
        None \<Rightarrow> Inl (BeCapacityExceeded u64_max)
      | Some bytes_read \<Rightarrow> and_then (limit_check limit bytes_read) (read_all limit rs (result @ chunk)))"

definition decompress_payload_with_limit :: "'v BackupCodec \<Rightarrow> str \<Rightarrow> BackupByteLimit \<Rightarrow> BackupError + str" where
  "decompress_payload_with_limit C bytes limit =
     (case cd_zstd_reads C (case limit of LimitBytes n \<Rightarrow> Some (window_log n) | Unbounded \<Rightarrow> None) bytes of
        None \<Rightarrow> Inl BeCompression
      | Some reads \<Rightarrow> read_all limit reads [])"

definition decompress_payload :: "'v BackupCodec \<Rightarrow> str \<Rightarrow> BackupError + str" where
  "decompress_payload C bytes = decompress_payload_with_limit C bytes (cl_decompressed_bytes default_capacity_limits)"

text \<open>Hashing a stream while counting its bytes, without keeping them.\<close>

fun count_chunks :: "(StorageError + str) list \<Rightarrow> nat \<Rightarrow> str \<Rightarrow> BackupError + str \<times> nat" where
  "count_chunks [] bytes_read hashed = Inr (hashed, bytes_read)"
| "count_chunks (Inl e # cs) bytes_read hashed = Inl (from_storage_error e)"
| "count_chunks (Inr c # cs) bytes_read hashed =
     (case u64_checked_add bytes_read (length c) of
        None \<Rightarrow> Inl (BeCapacityExceeded u64_max)
      | Some next_count \<Rightarrow> count_chunks cs next_count (hashed @ c))"

definition hash_stream :: "'v BackupCodec \<Rightarrow> ByteStream \<Rightarrow> BackupError + str \<times> nat" where
  "hash_stream C body = map_sum id (\<lambda>(hashed, bytes_read). (cd_sha256 C hashed, bytes_read)) (count_chunks (st_chunks body) 0 [])"

definition verify_blob_checksum ::
  "'s BackupRepository \<Rightarrow> 'v BackupCodec \<Rightarrow> str \<Rightarrow> str \<Rightarrow> ('s, BackupError, nat) action" where
  "verify_blob_checksum R C content_key expected =
     perform (rp_get_blob_stream R content_key) (\<lambda>body.
     perform (of_result (hash_stream C body)) (\<lambda>(actual, bytes_read).
     if actual \<noteq> expected then fail_with (BeChecksumMismatch content_key expected actual) else done_with bytes_read))"

text \<open>The checks run one after the other: a concurrency of one.\<close>

definition verify_object_checksums ::
  "'s BackupRepository \<Rightarrow> 'v BackupCodec \<Rightarrow> BackupSnapshotManifest \<Rightarrow> ('s, BackupError, unit) action" where
  "verify_object_checksums R C manifest =
     perform (for_each (sm_objects manifest)
       (\<lambda>object _. perform (verify_blob_checksum R C (oe_content_key object) (oe_sha256_hex object)) (\<lambda>_. done_with ())) ()) (\<lambda>_.
     for_each (dm_tables (sm_database manifest) @ dm_changes (sm_database manifest))
       (\<lambda>entry _. perform (verify_blob_checksum R C (te_content_key entry) (te_sha256_hex entry)) (\<lambda>_. done_with ())) ())"

definition verify_manifest_and_objects ::
  "'s BackupRepository \<Rightarrow> 'v BackupCodec \<Rightarrow> BackupSnapshotManifest \<Rightarrow> ('s, BackupError, unit) action" where
  "verify_manifest_and_objects R C manifest =
     perform (of_result (verify_manifest_checksum C manifest)) (\<lambda>_. verify_object_checksums R C manifest)"

section \<open>Streams\<close>

abbreviation within :: "BackupByteLimit \<Rightarrow> nat \<Rightarrow> bool" where
  "within l n \<equiv> limit_check l n = Inr ()"

lemma within_mono: "within l n \<Longrightarrow> m \<le> n \<Longrightarrow> within l m"
  by (cases l) (auto split: if_splits)

lemma within_zero [simp]: "within l 0"
  by (cases l) auto

lemma collect_limited_iff:
  assumes "length buffer < 2 ^ 64" "within l (length buffer)"
  shows "collect_limited l cs buffer = Inr b \<longleftrightarrow>
    (\<exists>r. collect_chunks cs = Inr r \<and> b = buffer @ r \<and> length b < 2 ^ 64 \<and> within l (length b))"
  using assms
proof (induction l cs buffer rule: collect_limited.induct)
  case (3 l c cs buffer)
  show ?case
  proof (cases "length buffer + length c < 2 ^ 64 \<and> within l (length buffer + length c)")
    case True
    then have "collect_limited l (Inr c # cs) buffer = collect_limited l cs (buffer @ c)"
      by (simp add: u64_checked_add_def)
    moreover have "collect_limited l cs (buffer @ c) = Inr b \<longleftrightarrow>
        (\<exists>r. collect_chunks cs = Inr r \<and> b = (buffer @ c) @ r \<and> length b < 2 ^ 64 \<and> within l (length b))"
      using True by (intro "3.IH") (auto simp: u64_checked_add_def)
    ultimately show ?thesis by (cases "collect_chunks cs") auto
  next
    case False
    then have "\<not> (length buffer + length c + n < 2 ^ 64 \<and> within l (length buffer + length c + n))" for n
      by (auto dest: within_mono [of _ _ "length buffer + length c"])
    moreover have "collect_limited l (Inr c # cs) buffer \<noteq> Inr b"
      using False by (auto simp: u64_checked_add_def and_then_Inr)
    ultimately show ?thesis by (cases "collect_chunks cs") (auto simp: add.assoc)
  qed
qed auto

lemma collect_backup_stream_ok: "collect_backup_stream body l = Inr b \<Longrightarrow> collect_storage_stream body = Inr b"
  by (auto simp: collect_backup_stream_def collect_storage_stream_def and_then_Inr collect_limited_iff)

lemma collect_backup_stream_chunks:
  "length (concat cs) < 2 ^ 64 \<Longrightarrow> within l (length (concat cs)) \<Longrightarrow>
     collect_backup_stream \<lparr>st_chunks = map Inr cs, st_size_hint = None\<rparr> l = Inr (concat cs)"
  by (auto simp: collect_backup_stream_def collect_limited_iff collect_chunks_ok)

lemma count_chunks_iff:
  "count_chunks cs n hashed = Inr (b, m) \<longleftrightarrow>
    (\<exists>r. collect_chunks cs = Inr r \<and> b = hashed @ r \<and> m = n + length r \<and> (cs = [] \<or> m < 2 ^ 64))" if "n < 2 ^ 64"
  using that
proof (induction cs n hashed rule: count_chunks.induct)
  case (3 c cs n hashed)
  show ?case
  proof (cases "n + length c < 2 ^ 64")
    case True
    have "count_chunks cs (n + length c) (hashed @ c) = Inr (b, m) \<longleftrightarrow>
        (\<exists>r. collect_chunks cs = Inr r \<and> b = (hashed @ c) @ r \<and> m = n + length c + length r \<and> (cs = [] \<or> m < 2 ^ 64))"
      using True by (intro "3.IH") auto
    with True show ?thesis by (cases "collect_chunks cs") (auto simp: u64_checked_add_def)
  next
    case False
    then have "\<not> n + (length c + k) < 2 ^ 64" for k by simp
    with False show ?thesis by (cases "collect_chunks cs") (auto simp: u64_checked_add_def)
  qed
qed auto

lemma hash_stream_iff:
  "hash_stream C body = Inr (h, n) \<longleftrightarrow>
    (\<exists>b. collect_storage_stream body = Inr b \<and> h = cd_sha256 C b \<and> n = length b \<and> length b < 2 ^ 64)"
proof -
  have "hash_stream C body = Inr (h, n) \<longleftrightarrow> (\<exists>b. count_chunks (st_chunks body) 0 [] = Inr (b, n) \<and> h = cd_sha256 C b)"
    unfolding hash_stream_def by (cases "count_chunks (st_chunks body) 0 []") auto
  then show ?thesis by (auto simp: count_chunks_iff collect_storage_stream_def)
qed

section \<open>What a repository stores\<close>

type_synonym blob_map = "str \<Rightarrow> str option"

text \<open>The manifest stored under an identifier: it parses and its checksum is right.\<close>

definition stored :: "'v BackupCodec \<Rightarrow> blob_map \<Rightarrow> uuid \<Rightarrow> BackupSnapshotManifest \<Rightarrow> bool" where
  "stored C V i m \<longleftrightarrow>
     (case V (snapshot_manifest_key i) of
        None \<Rightarrow> False
      | Some b \<Rightarrow> cd_manifest_parse C b = Some m \<and> verify_manifest_checksum C m = Inr ())"

lemma stored_unique: "stored C V i m \<Longrightarrow> stored C V i m' \<Longrightarrow> m = m'"
  by (simp add: stored_def split: option.splits)

lemma stored_cong: "V (snapshot_manifest_key i) = V' (snapshot_manifest_key i) \<Longrightarrow> stored C V i m = stored C V' i m"
  by (simp add: stored_def)

text \<open>The manifests from one identifier to its root, newest first.\<close>

fun lineage :: "'v BackupCodec \<Rightarrow> blob_map \<Rightarrow> uuid option \<Rightarrow> BackupSnapshotManifest list \<Rightarrow> bool" where
  "lineage C V next_id [] \<longleftrightarrow> next_id = None"
| "lineage C V next_id (m # ms) \<longleftrightarrow>
     (case next_id of None \<Rightarrow> False | Some i \<Rightarrow> stored C V i m \<and> lineage C V (sm_parent_snapshot_id m) ms)"

lemma lineage_unique: "lineage C V i ms \<Longrightarrow> lineage C V i ms' \<Longrightarrow> ms = ms'"
proof (induction C V i ms arbitrary: ms' rule: lineage.induct)
  case (1 C V i)
  then show ?case by (cases ms') auto
next
  case (2 C V i m ms)
  then show ?case by (cases ms') (auto split: option.splits dest: stored_unique)
qed

lemma lineage_step: "lineage C V (Some i) ms \<longleftrightarrow>
    (\<exists>m ms'. ms = m # ms' \<and> stored C V i m \<and> lineage C V (sm_parent_snapshot_id m) ms')"
  by (cases ms) auto

text \<open>A well-formed chain, oldest first.\<close>

definition linked :: "BackupSnapshotManifest \<Rightarrow> BackupSnapshotManifest \<Rightarrow> bool" where
  "linked parent child \<longleftrightarrow>
     sm_parent_snapshot_id child = Some (sm_snapshot_id parent) \<and> sm_app_id child = sm_app_id parent
     \<and> sm_database_backend child = sm_database_backend parent \<and> sm_schema_hash child = sm_schema_hash parent"

fun valid_chain :: "BackupSnapshotManifest list \<Rightarrow> bool" where
  "valid_chain [] \<longleftrightarrow> False"
| "valid_chain (first # rest) \<longleftrightarrow>
     (sm_backup_kind first = Full \<or> sm_backup_kind first = SyntheticFull) \<and> sm_parent_snapshot_id first = None
     \<and> distinct (map sm_snapshot_id (first # rest)) \<and> successively linked (first # rest)"

lemma validate_links_iff:
  "validate_links seen (m # ms) = Inr () \<longleftrightarrow>
     distinct (map sm_snapshot_id ms) \<and> set (map sm_snapshot_id ms) \<inter> set seen = {} \<and> successively linked (m # ms)"
proof (induction ms arbitrary: seen m)
  case (Cons c ms)
  have "validate_links seen (m # c # ms) = Inr () \<longleftrightarrow>
      sm_snapshot_id c \<notin> set seen \<and> linked m c \<and> validate_links (sm_snapshot_id c # seen) (c # ms) = Inr ()"
    by (auto simp: linked_def Let_def)
  with Cons show ?case by auto
qed simp

lemma validate_manifest_chain_iff: "validate_manifest_chain chain = Inr () \<longleftrightarrow> valid_chain chain"
  by (cases chain) (auto simp: validate_links_iff simp del: validate_links.simps)

lemma validate_chain_error: "validate_manifest_chain chain = Inl e \<Longrightarrow> \<exists>reason. e = BeInvalidManifestChain reason"
proof (cases chain)
  case (Cons m ms)
  have "validate_links seen (m # ms) = Inl e \<Longrightarrow> \<exists>reason. e = BeInvalidManifestChain reason" for seen m ms
    by (induction ms arbitrary: seen m) (auto simp: Let_def split: if_splits)
  with Cons show "validate_manifest_chain chain = Inl e \<Longrightarrow> ?thesis"
    by (auto split: if_splits simp del: validate_links.simps)
qed auto

text \<open>A manifest whose payloads are all present with their digests.\<close>

definition payloads :: "BackupSnapshotManifest \<Rightarrow> (str \<times> str) list" where
  "payloads m = map (\<lambda>e. (oe_content_key e, oe_sha256_hex e)) (sm_objects m)
     @ map (\<lambda>e. (te_content_key e, te_sha256_hex e)) (dm_tables (sm_database m) @ dm_changes (sm_database m))"

definition payload_ok :: "'v BackupCodec \<Rightarrow> blob_map \<Rightarrow> str \<Rightarrow> str \<Rightarrow> bool" where
  "payload_ok C V k h \<longleftrightarrow> (case V k of None \<Rightarrow> False | Some b \<Rightarrow> cd_sha256 C b = h)"

definition intact :: "'v BackupCodec \<Rightarrow> blob_map \<Rightarrow> BackupSnapshotManifest \<Rightarrow> bool" where
  "intact C V m \<longleftrightarrow> (\<forall>(k, h) \<in> set (payloads m). payload_ok C V k h)"

section \<open>Loading over a repository\<close>

lemma collect_within:
  "collect_storage_stream body = Inr b \<Longrightarrow> collect_backup_stream body l = Inr b' \<Longrightarrow> b' = b"
  by (auto dest: collect_backup_stream_ok)

text \<open>A blob that fits the limits of the repository.\<close>

definition fits :: "'s BackupRepository \<Rightarrow> str \<Rightarrow> bool" where
  "fits R b \<longleftrightarrow> length b < 2 ^ 64 \<and> within (cl_buffered_bytes (rp_capacity_limits R)) (length b)"

context backup_repository
begin

lemma load_manifest_acts:
  "acts rep V (load_manifest R C i) (\<lambda>m V'. V' = V \<and> stored C V i m) (\<lambda>_ V'. V' = V)"
  unfolding load_manifest_def
proof (rule acts_read [OF get_acts], simp, intro acts_check, simp_all, intro acts_done, goal_cases)
  case (1 body b m)
  then have "V (snapshot_manifest_key i) = Some b" by (simp add: manifest_key collect_backup_stream_ok)
  with 1 show ?case by (simp add: stored_def split: option.splits)
qed

lemma chain_loop_acts:
  "acts rep V (chain_loop (load_manifest R C) next_id seen chain)
     (\<lambda>ms V'. V' = V \<and> (\<exists>ms'. ms = chain @ ms' \<and> lineage C V next_id ms')) (\<lambda>_ V'. V' = V)"
proof (induction "card (UNIV - set seen)" arbitrary: next_id seen chain rule: less_induct)
  case less
  show ?case
  proof (cases next_id)
    case None
    have "chain_loop (load_manifest R C) next_id seen chain = done_with chain"
      by (rule ext) (simp add: chain_loop.simps None)
    with None show ?thesis by (auto intro: acts_done)
  next
    case (Some i)
    show ?thesis
    proof (cases "i \<in> set seen")
      case True
      then have "chain_loop (load_manifest R C) next_id seen chain
          = fail_with (BeInvalidManifestChain (''duplicate snapshot id '' @ uuid_text i))"
        by (intro ext) (simp add: chain_loop.simps Some)
      then show ?thesis by (auto intro: acts_fail)
    next
      case False
      then have loop: "chain_loop (load_manifest R C) next_id seen chain = perform (load_manifest R C i) (\<lambda>m.
          chain_loop (load_manifest R C) (sm_parent_snapshot_id m) (i # seen) (chain @ [m]))"
        unfolding Some by (intro ext, subst chain_loop.simps) simp
      have "card (UNIV - set (i # seen)) < card (UNIV - set seen)"
        using False by (intro psubset_card_mono) auto
      then show ?thesis
        unfolding loop
        by (intro acts_read [OF load_manifest_acts] acts_conseq [OF less.hyps]) (auto simp: Some)
    qed
  qed
qed

lemma load_manifest_chain_acts:
  "acts rep V (load_manifest_chain R C i)
     (\<lambda>chain V'. V' = V \<and> lineage C V (Some i) (rev chain) \<and> valid_chain chain) (\<lambda>_ V'. V' = V)"
  unfolding load_manifest_chain_def
  by (rule acts_read [OF chain_loop_acts], simp, intro acts_check acts_done)
    (auto simp: validate_manifest_chain_iff)

end

text \<open>A loop of checks that keep the view.\<close>

lemma acts_for_all:
  assumes "\<And>x. x \<in> set xs \<Longrightarrow> acts rep v (f x) (\<lambda>_ v'. v' = v \<and> A x) (\<lambda>_ v'. v' = v)"
  shows "acts rep v (for_each xs (\<lambda>x _. perform (f x) (\<lambda>_. done_with ())) ()) (\<lambda>_ v'. v' = v \<and> (\<forall>x \<in> set xs. A x)) (\<lambda>_ v'. v' = v)"
  by (rule acts_for_each [where I = "\<lambda>ys _ v'. v' = v \<and> (\<forall>x \<in> set ys. A x)"])
    (auto intro!: acts_read [OF assms] acts_done)

lemma for_all_ok:
  "(\<And>x. x \<in> set xs \<Longrightarrow> \<exists>y. f x s = Some (Inr y, s)) \<Longrightarrow>
     for_each xs (\<lambda>x _. perform (f x) (\<lambda>_. done_with ())) () s = Some (Inr (), s)"
  by (induction xs) (fastforce simp: perform_def done_with_def)+

lemma intact_iff: "intact C V m \<longleftrightarrow>
    (\<forall>e \<in> set (sm_objects m). payload_ok C V (oe_content_key e) (oe_sha256_hex e))
    \<and> (\<forall>e \<in> set (dm_tables (sm_database m) @ dm_changes (sm_database m)). payload_ok C V (te_content_key e) (te_sha256_hex e))"
  by (simp add: intact_def payloads_def ball_Un)

context backup_repository
begin

lemma verify_blob_checksum_acts:
  "acts rep V (verify_blob_checksum R C k h)
     (\<lambda>n V'. V' = V \<and> (k \<in> backup_keys \<longrightarrow> (\<exists>b. V k = Some b \<and> cd_sha256 C b = h \<and> n = length b))) (\<lambda>_ V'. V' = V)"
  unfolding verify_blob_checksum_def
  by (rule acts_read [OF get_acts], simp, intro acts_check)
    (auto intro!: acts_rules simp: hash_stream_iff)

lemma verify_manifest_acts:
  "acts rep V (verify_manifest_and_objects R C m)
     (\<lambda>_ V'. V' = V \<and> verify_manifest_checksum C m = Inr () \<and> (fst ` set (payloads m) \<subseteq> backup_keys \<longrightarrow> intact C V m))
     (\<lambda>_ V'. V' = V)"
proof -
  have one: "acts rep V (verify_blob_checksum R C k h) (\<lambda>_ V'. V' = V \<and> (k \<in> backup_keys \<longrightarrow> payload_ok C V k h)) (\<lambda>_ V'. V' = V)" for k h
    by (rule acts_conseq [OF verify_blob_checksum_acts]) (auto simp: payload_ok_def)
  show ?thesis
    unfolding verify_manifest_and_objects_def verify_object_checksums_def
    by (intro acts_check acts_read [OF acts_for_all [OF one]] acts_conseq [OF acts_for_all [OF one]])
      (simp_all add: intact_iff payloads_def image_subset_iff ball_Un)
qed

end

context calm_repository
begin

lemma load_manifest_calm:
  assumes "calm s" "rep V s" "stored C V i m" "\<And>b. V (snapshot_manifest_key i) = Some b \<Longrightarrow> fits R b"
  shows "load_manifest R C i s = Some (Inr m, s)"
proof -
  from assms(3) obtain b where b: "V (snapshot_manifest_key i) = Some b" "cd_manifest_parse C b = Some m"
    "verify_manifest_checksum C m = Inr ()"
    by (auto simp: stored_def split: option.splits)
  from get_calm [OF assms(1,2) b(1)] obtain cs where cs: "concat cs = b"
    "rp_get_blob_stream R (snapshot_manifest_key i) s = Some (Inr \<lparr>st_chunks = map Inr cs, st_size_hint = None\<rparr>, s)"
    by blast
  with b assms(4) [OF b(1)] show ?thesis
    by (auto simp: load_manifest_def action_defs fits_def collect_backup_stream_chunks)
qed

lemma chain_loop_calm:
  assumes "calm s" "rep V s" "\<And>i b. V (snapshot_manifest_key i) = Some b \<Longrightarrow> fits R b"
    and "lineage C V next_id ms" "\<And>j. j \<in> set seen \<Longrightarrow> \<exists>ms'. lineage C V (Some j) ms' \<and> length ms < length ms'"
  shows "chain_loop (load_manifest R C) next_id seen chain s = Some (Inr (chain @ ms), s)"
  using assms(4,5)
proof (induction ms arbitrary: next_id seen chain)
  case Nil
  then show ?case by (simp add: chain_loop.simps done_with_def)
next
  case (Cons m ms)
  then obtain i where i: "next_id = Some i" "stored C V i m" "lineage C V (sm_parent_snapshot_id m) ms"
    by (auto split: option.splits)
  have unseen: "i \<notin> set seen"
  proof
    assume "i \<in> set seen"
    then obtain ms' where "lineage C V (Some i) ms'" "length (m # ms) < length ms'" using Cons.prems(2) by blast
    with lineage_unique Cons.prems(1) i(1) show False by blast
  qed
  have "\<exists>ms'. lineage C V (Some j) ms' \<and> length ms < length ms'" if "j \<in> set (i # seen)" for j
  proof (cases "j = i")
    case True
    with Cons.prems(1) i(1) show ?thesis by (intro exI [of _ "m # ms"]) simp
  next
    case False
    with that Cons.prems(2) [of j] show ?thesis by (auto intro: less_trans)
  qed
  then have "chain_loop (load_manifest R C) (sm_parent_snapshot_id m) (i # seen) (chain @ [m]) s = Some (Inr ((chain @ [m]) @ ms), s)"
    by (rule Cons.IH [OF i(3)])
  with unseen show ?case
    unfolding i(1) by (subst chain_loop.simps) (simp add: perform_step load_manifest_calm [OF assms(1,2) i(2) assms(3)])
qed

lemma load_manifest_chain_calm:
  assumes "calm s" "rep V s" "\<And>i b. V (snapshot_manifest_key i) = Some b \<Longrightarrow> fits R b"
    and "lineage C V (Some i) (rev chain)" "valid_chain chain"
  shows "load_manifest_chain R C i s = Some (Inr chain, s)"
proof -
  have "chain_loop (load_manifest R C) (Some i) [] [] s = Some (Inr ([] @ rev chain), s)"
    by (rule chain_loop_calm [OF assms(1-4)]) simp_all
  moreover have "validate_manifest_chain chain = Inr ()" using assms(5) by (simp add: validate_manifest_chain_iff)
  ultimately show ?thesis
    by (simp add: load_manifest_chain_def perform_def of_result_def done_with_def)
qed

lemma verify_blob_checksum_calm:
  assumes "calm s" "rep V s" "payload_ok C V k h" "\<And>b. V k = Some b \<Longrightarrow> length b < 2 ^ 64"
  shows "\<exists>b. V k = Some b \<and> verify_blob_checksum R C k h s = Some (Inr (length b), s)"
proof -
  from assms(3) obtain b where b: "V k = Some b" "cd_sha256 C b = h" by (auto simp: payload_ok_def split: option.splits)
  from get_calm [OF assms(1,2) b(1)] obtain cs where cs: "concat cs = b"
    "rp_get_blob_stream R k s = Some (Inr \<lparr>st_chunks = map Inr cs, st_size_hint = None\<rparr>, s)"
    by blast
  then have "hash_stream C \<lparr>st_chunks = map Inr cs, st_size_hint = None\<rparr> = Inr (h, length b)"
    using b assms(4) by (auto simp: hash_stream_iff collect_storage_stream_def collect_chunks_ok)
  with b cs show ?thesis by (simp add: verify_blob_checksum_def action_defs)
qed

lemma verify_manifest_calm:
  assumes "calm s" "rep V s" "intact C V m" "verify_manifest_checksum C m = Inr ()" "\<And>k b. V k = Some b \<Longrightarrow> length b < 2 ^ 64"
  shows "verify_manifest_and_objects R C m s = Some (Inr (), s)"
proof -
  have one: "\<exists>n. verify_blob_checksum R C k h s = Some (Inr n, s)" if "payload_ok C V k h" for k h
    using verify_blob_checksum_calm [OF assms(1,2) that] assms(5) by blast
  show ?thesis
    using assms(3,4) for_all_ok [of "sm_objects m" "\<lambda>e. verify_blob_checksum R C (oe_content_key e) (oe_sha256_hex e)" s]
      for_all_ok [of "dm_tables (sm_database m) @ dm_changes (sm_database m)" "\<lambda>e. verify_blob_checksum R C (te_content_key e) (te_sha256_hex e)" s]
    by (simp add: verify_manifest_and_objects_def verify_object_checksums_def perform_def of_result_def one intact_iff)
qed

end

end
