(* ===== verification/Prune.thy ===== *)
theory Prune
  imports Manifest
begin

text \<open>
  Retention (\<open>graphql-orm-backup/src/prune.rs\<close>): pruning keeps the newest snapshots with their chains and
  deletes the rest; a single snapshot can be deleted when nothing depends on it. What is kept is
  specified over the blobs of the repository, and shown for every outcome of the two operations.
  The iteration order of a hash set is a parameter.
\<close>

section \<open>Operations\<close>

record PruneResult =
  pr_retained_snapshots :: nat
  pr_deleted_snapshots :: nat
  pr_deleted_blobs :: nat

record DeleteSnapshotResult =
  dr_deleted_blobs :: nat
  dr_retained_snapshots :: nat

definition snapshot_id_from_manifest_key :: "'v BackupCodec \<Rightarrow> str \<Rightarrow> uuid option" where
  "snapshot_id_from_manifest_key C key =
     Option.bind (strip_prefix ''snapshots/'' key) (\<lambda>rest.
     Option.bind (strip_suffix ''/manifest.json'' rest) (\<lambda>snapshot_id.
     if CHR ''/'' \<in> set snapshot_id then None else cd_uuid_parse C snapshot_id))"

definition load_all_manifests ::
  "'s BackupRepository \<Rightarrow> 'v BackupCodec \<Rightarrow> ('s, BackupError, BackupSnapshotManifest list) action" where
  "load_all_manifests R C =
     perform (rp_list_blobs R ''snapshots'') (\<lambda>keys.
     for_each keys (\<lambda>key manifests.
       case snapshot_id_from_manifest_key C key of
         None \<Rightarrow> done_with manifests
       | Some snapshot_id \<Rightarrow> perform (load_manifest R C snapshot_id) (\<lambda>m. done_with (manifests @ [m]))) [])"

text \<open>The content keys a manifest refers to.\<close>

definition content_keys :: "BackupSnapshotManifest \<Rightarrow> str set" where
  "content_keys m =
     te_content_key ` set (dm_tables (sm_database m)) \<union> te_content_key ` set (dm_changes (sm_database m))
     \<union> oe_content_key ` set (sm_objects m)"

definition collect_reachable_keys :: "BackupSnapshotManifest \<Rightarrow> str set \<Rightarrow> str set" where
  "collect_reachable_keys m keys = keys \<union> content_keys m"

text \<open>Newest first: by creation time, then by identifier, both descending.\<close>

definition age_key :: "BackupSnapshotManifest \<Rightarrow> int \<times> int" where
  "age_key m = (- sm_created_at m, - uint (sm_snapshot_id m))"

definition delete_keys :: "'s BackupRepository \<Rightarrow> str list \<Rightarrow> str set \<Rightarrow> nat \<Rightarrow> ('s, BackupError, nat) action" where
  "delete_keys R keys reachable deleted_blobs =
     for_each keys (\<lambda>key n.
       if key \<in> reachable then done_with n
       else perform (rp_delete_blob R key) (\<lambda>_. done_with (n + 1))) deleted_blobs"

definition snapshot_dir :: "uuid \<Rightarrow> str" where
  "snapshot_dir snapshot_id = ''snapshots/'' @ uuid_text snapshot_id"

definition delete_dir :: "'s BackupRepository \<Rightarrow> uuid \<Rightarrow> nat \<Rightarrow> ('s, BackupError, nat) action" where
  "delete_dir R snapshot_id deleted_blobs =
     perform (rp_list_blobs R (snapshot_dir snapshot_id)) (\<lambda>keys. delete_keys R keys {} deleted_blobs)"

definition delete_unreferenced :: "'s BackupRepository \<Rightarrow> str set \<Rightarrow> nat \<Rightarrow> ('s, BackupError, nat) action" where
  "delete_unreferenced R reachable deleted_blobs =
     perform (rp_list_blobs R ''objects/sha256'') (\<lambda>keys. delete_keys R keys reachable deleted_blobs)"

definition retain_chain ::
  "BackupSnapshotManifest list \<Rightarrow> uuid set \<times> str set \<Rightarrow> uuid set \<times> str set" where
  "retain_chain chain acc =
     fold (\<lambda>m (retained, reachable). (insert (sm_snapshot_id m) retained, collect_reachable_keys m reachable)) chain acc"

definition prune_inner ::
  "'s BackupRepository \<Rightarrow> 'v BackupCodec \<Rightarrow> (uuid set \<Rightarrow> uuid list) \<Rightarrow> nat \<Rightarrow> ('s, BackupError, PruneResult) action" where
  "prune_inner R C hash_order keep_last =
     perform (load_all_manifests R C) (\<lambda>loaded.
     let manifests = sort_key age_key loaded;
         selected = map sm_snapshot_id (take keep_last manifests) in
     perform (for_each selected (\<lambda>snapshot_id acc.
       perform (load_manifest_chain R C snapshot_id) (\<lambda>chain. done_with (retain_chain chain acc))) ({}, {}))
       (\<lambda>(retained, reachable).
     let expired = hash_order (set (map sm_snapshot_id manifests) - retained) in
     perform (for_each expired (delete_dir R) 0) (\<lambda>deleted_blobs.
     perform (delete_unreferenced R reachable deleted_blobs) (\<lambda>deleted_blobs.
     done_with \<lparr>pr_retained_snapshots = card retained, pr_deleted_snapshots = length expired,
       pr_deleted_blobs = deleted_blobs\<rparr>))))"

definition prune ::
  "'s BackupRepository \<Rightarrow> 'v BackupCodec \<Rightarrow> (uuid set \<Rightarrow> uuid list) \<Rightarrow> int \<Rightarrow> nat \<Rightarrow> ('s, BackupError, PruneResult) action" where
  "prune R C hash_order now keep_last = locked R now (prune_inner R C hash_order keep_last)"

definition delete_snapshot_inner ::
  "'s BackupRepository \<Rightarrow> 'v BackupCodec \<Rightarrow> uuid \<Rightarrow> ('s, BackupError, DeleteSnapshotResult) action" where
  "delete_snapshot_inner R C snapshot_id =
     perform (load_all_manifests R C) (\<lambda>manifests.
     if \<not> list_ex (\<lambda>m. sm_snapshot_id m = snapshot_id) manifests
       then fail_with (BeMissingBlob (snapshot_manifest_key snapshot_id))
     else case find (\<lambda>m. sm_parent_snapshot_id m = Some snapshot_id) manifests of
       Some child \<Rightarrow> fail_with (BeInvalidManifestChain
         (''snapshot '' @ uuid_text snapshot_id @ '' is the parent of snapshot '' @ uuid_text (sm_snapshot_id child)
            @ ''; delete or compact dependent snapshots first''))
     | None \<Rightarrow>
         perform (delete_dir R snapshot_id 0) (\<lambda>deleted_blobs.
         perform (delete_unreferenced R
             (fold collect_reachable_keys (filter (\<lambda>m. sm_snapshot_id m \<noteq> snapshot_id) manifests) {}) deleted_blobs)
           (\<lambda>deleted_blobs.
         done_with \<lparr>dr_deleted_blobs = deleted_blobs, dr_retained_snapshots = length manifests - 1\<rparr>)))"

definition delete_snapshot ::
  "'s BackupRepository \<Rightarrow> 'v BackupCodec \<Rightarrow> int \<Rightarrow> uuid \<Rightarrow> ('s, BackupError, DeleteSnapshotResult) action" where
  "delete_snapshot R C now snapshot_id = locked R now (delete_snapshot_inner R C snapshot_id)"

section \<open>Keys of different snapshots\<close>

lemma hex_digits_inj: "n < 16 ^ k \<Longrightarrow> m < 16 ^ k \<Longrightarrow> hex_digits k n = hex_digits k m \<Longrightarrow> n = m"
proof (induction k arbitrary: n m)
  case (Suc k)
  have "digit_char (n mod 16) = digit_char (m mod 16)" and digits: "hex_digits k (n div 16) = hex_digits k (m div 16)"
    using Suc.prems(3) by simp_all
  then have "n mod 16 = m mod 16"
    by (metis hex_value_digit mod_less_divisor option.inject zero_less_numeral)
  moreover have "n div 16 = m div 16"
    using Suc.prems digits by (intro Suc.IH) (auto simp: div_less_iff_less_mult)
  ultimately show ?case by (metis div_mult_mod_eq)
qed simp

lemma uuid_text_inj [simp]: "uuid_text i = uuid_text j \<longleftrightarrow> i = j"
proof
  assume eq: "uuid_text i = uuid_text j"
  let ?h = "\<lambda>u :: uuid. hex_digits 32 (unat u)"
  have parts: "take 8 (?h i) = take 8 (?h j)" "take 4 (drop 8 (?h i)) = take 4 (drop 8 (?h j))"
    "take 4 (drop 12 (?h i)) = take 4 (drop 12 (?h j))" "take 4 (drop 16 (?h i)) = take 4 (drop 16 (?h j))"
    "drop 20 (?h i) = drop 20 (?h j)"
    using eq by (simp_all add: uuid_text_def Let_def)
  have "take 20 xs = take 8 xs @ take 4 (drop 8 xs) @ take 4 (drop 12 xs) @ take 4 (drop 16 xs)" for xs :: str
    using take_add [of 8 4 xs] take_add [of 12 4 xs] take_add [of 16 4 xs] by simp
  with parts have "take 20 (?h i) = take 20 (?h j)" by metis
  then have "?h i = ?h j" using parts(5) by (metis append_take_drop_id)
  moreover have "unat u < 16 ^ 32" for u :: uuid
    using unsigned_less [of u, where 'a = nat] by simp
  ultimately show "i = j" using hex_digits_inj by (metis word_unat_eq_iff)
qed simp

lemma under_dir: "under (snapshot_dir i) k \<Longrightarrow> take 46 k = snapshot_dir i"
  by (auto simp: under_def snapshot_dir_def starts_with_def take_Cons' dest: arg_cong [where f = "take 46"])

lemma under_dirs: "under (snapshot_dir i) k \<Longrightarrow> under (snapshot_dir j) k \<Longrightarrow> i = j"
  by (drule under_dir)+ (simp add: snapshot_dir_def)

lemma under_dir_snapshots: "under (snapshot_dir i) k \<Longrightarrow> \<not> under ''objects/sha256'' k"
  by (drule under_dir, cases k) (auto simp: snapshot_dir_def under_def starts_with_def)

lemma manifest_key_dir: "under (snapshot_dir j) (snapshot_manifest_key i) \<longleftrightarrow> j = i"
proof
  assume "under (snapshot_dir j) (snapshot_manifest_key i)"
  then have "take 46 (snapshot_manifest_key i) = snapshot_dir j" by (rule under_dir)
  then show "j = i" by (simp add: snapshot_manifest_key_def snapshot_dir_def)
next
  show "j = i \<Longrightarrow> under (snapshot_dir j) (snapshot_manifest_key i)"
    by (simp add: under_def snapshot_dir_def snapshot_manifest_key_def starts_with_iff_prefix prefix_def)
qed

lemma manifest_key_shape:
  "\<not> under ''objects/sha256'' (snapshot_manifest_key i)" "snapshot_manifest_key i \<noteq> REPOSITORY_LOCK_KEY"
  "under ''snapshots'' (snapshot_manifest_key i)"
  by (simp_all add: under_def starts_with_def snapshot_manifest_key_def REPOSITORY_LOCK_KEY_def)

lemma lock_key_shape: "\<not> under ''objects/sha256'' REPOSITORY_LOCK_KEY" "\<not> under (snapshot_dir i) REPOSITORY_LOCK_KEY"
  by (auto simp: under_def starts_with_def REPOSITORY_LOCK_KEY_def snapshot_dir_def)

lemma dir_listable: "listable (snapshot_dir i)" "listable ''objects/sha256''" "listable ''snapshots''"
  by (auto simp: listable_def snapshot_dir_def)

text \<open>The parser of identifiers reads what the crate writes.\<close>

definition reads_ids :: "'v BackupCodec \<Rightarrow> bool" where
  "reads_ids C \<longleftrightarrow> (\<forall>i. cd_uuid_parse C (uuid_text i) = Some i)"

lemma id_of_manifest_key: "reads_ids C \<Longrightarrow> snapshot_id_from_manifest_key C (snapshot_manifest_key i) = Some i"
  by (simp add: snapshot_id_from_manifest_key_def snapshot_manifest_key_def strip_prefix_def starts_with_def
      strip_suffix_Some [THEN iffD2, OF refl] reads_ids_def)

lemma id_of_backup_key:
  assumes "reads_ids C" "k \<in> backup_keys" "snapshot_id_from_manifest_key C k = Some i"
  shows "k = snapshot_manifest_key i"
  using assms(2)
proof cases
  case (manifest_key j)
  with assms id_of_manifest_key show ?thesis by fastforce
next
  case (table_key t j)
  then show ?thesis using assms(3)
    by (auto simp: snapshot_id_from_manifest_key_def database_table_key_def strip_prefix_def starts_with_def
        strip_suffix_Some split: option.splits if_splits Option.bind_splits)
next
  case (changes_key t j)
  then show ?thesis using assms(3)
    by (auto simp: snapshot_id_from_manifest_key_def database_changes_key_def strip_prefix_def starts_with_def
        strip_suffix_Some split: option.splits if_splits Option.bind_splits)
qed (use assms(3) in \<open>simp_all add: snapshot_id_from_manifest_key_def REPOSITORY_LOCK_KEY_def object_content_key_def
      strip_prefix_def starts_with_def\<close>)

section \<open>What is kept\<close>

definition manifests :: "'v BackupCodec \<Rightarrow> blob_map \<Rightarrow> BackupSnapshotManifest set" where
  "manifests C V = {m. \<exists>i. stored C V i m}"

text \<open>
  A well-kept repository: a manifest carries the identifier it is stored under, its payloads are
  in its own directory and its objects in the object area.
\<close>

definition own_keys :: "BackupSnapshotManifest \<Rightarrow> bool" where
  "own_keys m \<longleftrightarrow>
     (\<forall>e \<in> set (dm_tables (sm_database m) @ dm_changes (sm_database m)). under (snapshot_dir (sm_snapshot_id m)) (te_content_key e))
     \<and> (\<forall>e \<in> set (sm_objects m). under ''objects/sha256'' (oe_content_key e))"

definition well_kept :: "'v BackupCodec \<Rightarrow> blob_map \<Rightarrow> bool" where
  "well_kept C V \<longleftrightarrow> (\<forall>i m. stored C V i m \<longrightarrow> sm_snapshot_id m = i \<and> own_keys m)"

text \<open>The newest manifests, and what they need.\<close>

definition newest :: "nat \<Rightarrow> BackupSnapshotManifest set \<Rightarrow> BackupSnapshotManifest set" where
  "newest n M = {m \<in> M. card {m' \<in> M. age_key m' < age_key m} < n}"

definition retained :: "'v BackupCodec \<Rightarrow> blob_map \<Rightarrow> nat \<Rightarrow> BackupSnapshotManifest set" where
  "retained C V n = {m'. \<exists>m \<in> newest n (manifests C V). \<exists>ms. lineage C V (Some (sm_snapshot_id m)) ms \<and> m' \<in> set ms}"

text \<open>The blobs that go when the manifests \<open>K\<close> are kept.\<close>

definition garbage :: "'v BackupCodec \<Rightarrow> blob_map \<Rightarrow> BackupSnapshotManifest set \<Rightarrow> str \<Rightarrow> bool" where
  "garbage C V K k \<longleftrightarrow>
     (\<exists>m \<in> manifests C V - K. under (snapshot_dir (sm_snapshot_id m)) k)
     \<or> (under ''objects/sha256'' k \<and> (\<forall>m \<in> K. k \<notin> content_keys m))"

definition swept :: "(str \<Rightarrow> bool) \<Rightarrow> blob_map \<Rightarrow> blob_map" where
  "swept G V k = (if G k then None else V k)"

definition partly_swept :: "(str \<Rightarrow> bool) \<Rightarrow> blob_map \<Rightarrow> blob_map \<Rightarrow> bool" where
  "partly_swept G V V' \<longleftrightarrow> (\<forall>k. V' k = V k \<or> G k \<and> V' k = None)"

lemma partly_swept_refl [simp]: "partly_swept G V V"
  by (simp add: partly_swept_def)

lemma partly_swept_swept: "(\<And>k. G k \<Longrightarrow> G' k) \<Longrightarrow> partly_swept G' V (swept G V)"
  by (simp add: partly_swept_def swept_def)

lemma partly_swept_mono: "partly_swept G V V' \<Longrightarrow> (\<And>k. G k \<Longrightarrow> G' k) \<Longrightarrow> partly_swept G' V V'"
  unfolding partly_swept_def by blast

text \<open>The first \<open>n\<close> of a sorted list are the elements with fewer than \<open>n\<close> before them.\<close>

lemma take_sorted_set:
  fixes f :: "'a \<Rightarrow> 'b :: linorder"
  assumes "distinct xs" "inj_on f (set xs)"
  shows "set (take n (sort_key f xs)) = {x \<in> set xs. card {y \<in> set xs. f y < f x} < n}"
proof -
  let ?ys = "sort_key f xs"
  have d: "distinct ?ys" using assms(1) by simp
  have mono: "f (?ys ! i) < f (?ys ! j) \<longleftrightarrow> i < j" if "i < length xs" "j < length xs" for i j
  proof -
    have le: "f (?ys ! a) \<le> f (?ys ! b)" if "a \<le> b" "b < length xs" for a b
      using sorted_nth_mono [of "map f ?ys" a b] that by simp
    have "f (?ys ! i) = f (?ys ! j) \<longleftrightarrow> i = j"
      using assms(2) d that by (metis inj_onD length_sort nth_eq_iff_index_eq nth_mem set_sort)
    then show ?thesis using le [of i j] le [of j i] that by (metis le_less linorder_not_less)
  qed
  have "set ?ys = (\<lambda>j. ?ys ! j) ` {..<length ?ys}" by (auto simp: set_conv_nth)
  then have idx: "set xs = (\<lambda>j. ?ys ! j) ` {..<length xs}" by simp
  have below: "card {y \<in> set xs. f y < f (?ys ! i)} = i" if "i < length xs" for i
  proof -
    have "{y \<in> set xs. f y < f (?ys ! i)} = (\<lambda>j. ?ys ! j) ` {..<i}"
      unfolding idx using mono that by auto
    moreover have "inj_on (\<lambda>j. ?ys ! j) {..<i}" using d that by (auto simp: inj_on_def nth_eq_iff_index_eq)
    ultimately show ?thesis by (simp add: card_image)
  qed
  have "x \<in> set (take n ?ys) \<longleftrightarrow> x \<in> set xs \<and> card {y \<in> set xs. f y < f x} < n" for x
  proof
    assume "x \<in> set (take n ?ys)"
    then obtain i where "i < n" "i < length xs" "x = ?ys ! i" by (auto simp: in_set_conv_nth)
    with below show "x \<in> set xs \<and> card {y \<in> set xs. f y < f x} < n" by (metis length_sort nth_mem set_sort)
  next
    assume *: "x \<in> set xs \<and> card {y \<in> set xs. f y < f x} < n"
    then obtain i where i: "i < length xs" "x = ?ys ! i" by (metis in_set_conv_nth length_sort set_sort)
    with * below have "i < n" by simp
    with i show "x \<in> set (take n ?ys)" by (auto simp: in_set_conv_nth intro!: exI [of _ i])
  qed
  then show ?thesis by blast
qed

section \<open>Sweeping\<close>

definition swept_blobs :: "(str \<Rightarrow> bool) \<Rightarrow> blob_map \<Rightarrow> nat" where
  "swept_blobs G V = card {k \<in> dom V. G k}"

context backup_repository
begin

lemma acts_rep: "(\<And>s. rep V s \<Longrightarrow> acts rep V m Q E) \<Longrightarrow> acts rep V m Q E"
  unfolding acts_def runs_def by blast

lemma acts_finite: "(finite (dom V) \<Longrightarrow> dom V \<subseteq> backup_keys \<Longrightarrow> acts rep V m Q E) \<Longrightarrow> acts rep V m Q E"
  by (rule acts_rep) (blast dest: rep_finite rep_keys)

lemma delete_keys_acts:
  assumes "finite (dom V)" "dom V \<subseteq> backup_keys" "distinct keys" "set keys \<subseteq> dom (swept G V)"
  shows "acts rep (swept G V) (delete_keys R keys X (swept_blobs G V))
    (\<lambda>n V'. V' = swept (\<lambda>k. G k \<or> k \<in> set keys \<and> k \<notin> X) V \<and> n = swept_blobs (\<lambda>k. G k \<or> k \<in> set keys \<and> k \<notin> X) V)
    (\<lambda>_. partly_swept (\<lambda>k. G k \<or> k \<in> set keys \<and> k \<notin> X) V)"
  unfolding delete_keys_def
proof (rule acts_for_each [where I = "\<lambda>ys n V'. V' = swept (\<lambda>k. G k \<or> k \<in> set ys \<and> k \<notin> X) V
      \<and> n = swept_blobs (\<lambda>k. G k \<or> k \<in> set ys \<and> k \<notin> X) V"], goal_cases)
  case (2 ys k zs n V')
  let ?G = "\<lambda>ys k. G k \<or> k \<in> set ys \<and> k \<notin> X"
  have V': "V' = swept (?G ys) V" and n: "n = swept_blobs (?G ys) V" using 2 by auto
  have k: "k \<in> dom V" "\<not> G k" "k \<notin> set ys" using assms(3,4) 2(1) by (auto simp: swept_def split: if_splits)
  show ?case
  proof (cases "k \<in> X")
    case True
    then have "?G (ys @ [k]) = ?G ys" by auto
    then show ?thesis using True V' n by (simp only: if_True) (auto intro!: acts_done)
  next
    case False
    have "V'(k := None) = swept (?G (ys @ [k])) V" using False V' by (auto simp: swept_def fun_eq_iff)
    moreover have "{k' \<in> dom V. ?G (ys @ [k]) k'} = insert k {k' \<in> dom V. ?G ys k'}" using k False by auto
    then have "swept_blobs (?G (ys @ [k])) V = n + 1" using k n assms(1) by (simp add: swept_blobs_def)
    moreover have "partly_swept (?G keys) V V'" "partly_swept (?G keys) V (V'(k := None))"
      using 2(1) False V' by (auto simp: partly_swept_def swept_def)
    moreover have "k \<in> backup_keys" using k assms(2) by blast
    ultimately show ?thesis
      using False by (auto intro!: acts_perform [OF acts_conseq [OF delete_acts]] acts_done)
  qed
qed (simp_all)

lemma sweep_acts:
  assumes "finite (dom V)" "dom V \<subseteq> backup_keys" "listable p"
  shows "acts rep (swept G V) (perform (rp_list_blobs R p) (\<lambda>keys. delete_keys R keys X (swept_blobs G V)))
    (\<lambda>n V'. V' = swept (\<lambda>k. G k \<or> under p k \<and> k \<notin> X) V \<and> n = swept_blobs (\<lambda>k. G k \<or> under p k \<and> k \<notin> X) V)
    (\<lambda>_. partly_swept (\<lambda>k. G k \<or> under p k \<and> k \<notin> X) V)"
proof (rule acts_read [OF list_acts [OF assms(3)]])
  fix keys
  assume "distinct keys \<and> set keys = {k \<in> dom (swept G V). under p k}"
  then have keys: "distinct keys" "set keys \<subseteq> dom (swept G V)" "set keys = {k \<in> dom (swept G V). under p k}" by auto
  have eq: "swept (\<lambda>k. G k \<or> k \<in> set keys \<and> k \<notin> X) V = swept (\<lambda>k. G k \<or> under p k \<and> k \<notin> X) V"
    "swept_blobs (\<lambda>k. G k \<or> k \<in> set keys \<and> k \<notin> X) V = swept_blobs (\<lambda>k. G k \<or> under p k \<and> k \<notin> X) V"
    using keys(3) by (auto simp: swept_def fun_eq_iff swept_blobs_def intro!: arg_cong [where f = card] split: if_splits)
  have part: "partly_swept (\<lambda>k. G k \<or> k \<in> set keys \<and> k \<notin> X) V V' \<Longrightarrow> partly_swept (\<lambda>k. G k \<or> under p k \<and> k \<notin> X) V V'" for V'
    using keys(3) by (auto simp: partly_swept_def)
  show "acts rep (swept G V) (delete_keys R keys X (swept_blobs G V))
    (\<lambda>n V'. V' = swept (\<lambda>k. G k \<or> under p k \<and> k \<notin> X) V \<and> n = swept_blobs (\<lambda>k. G k \<or> under p k \<and> k \<notin> X) V)
    (\<lambda>_. partly_swept (\<lambda>k. G k \<or> under p k \<and> k \<notin> X) V)"
    by (rule acts_conseq [OF delete_keys_acts [OF assms(1,2) keys(1,2)]])
      (simp_all only: eq part)
qed (auto intro: partly_swept_swept)

lemma delete_dir_acts:
  assumes "finite (dom V)" "dom V \<subseteq> backup_keys"
  shows "acts rep V (delete_dir R i 0)
    (\<lambda>n V'. V' = swept (under (snapshot_dir i)) V \<and> n = swept_blobs (under (snapshot_dir i)) V)
    (\<lambda>_. partly_swept (under (snapshot_dir i)) V)"
proof -
  have "swept (\<lambda>_. False) V = V" "swept_blobs (\<lambda>_. False) V = 0" by (simp_all add: swept_def swept_blobs_def fun_eq_iff)
  with sweep_acts [OF assms dir_listable(1), of "\<lambda>_. False" i "{}"] show ?thesis
    by (simp add: delete_dir_def)
qed

lemma delete_dirs_acts:
  assumes "finite (dom V)" "dom V \<subseteq> backup_keys"
  shows "acts rep V (for_each ids (delete_dir R) 0)
    (\<lambda>n V'. V' = swept (\<lambda>k. \<exists>i \<in> set ids. under (snapshot_dir i) k) V \<and> n = swept_blobs (\<lambda>k. \<exists>i \<in> set ids. under (snapshot_dir i) k) V)
    (\<lambda>_. partly_swept (\<lambda>k. \<exists>i \<in> set ids. under (snapshot_dir i) k) V)"
proof (rule acts_for_each [where I = "\<lambda>ys n V'. V' = swept (\<lambda>k. \<exists>i \<in> set ys. under (snapshot_dir i) k) V
      \<and> n = swept_blobs (\<lambda>k. \<exists>i \<in> set ys. under (snapshot_dir i) k) V"], goal_cases)
  case (2 ys i zs n V')
  let ?G = "\<lambda>ys k. \<exists>i \<in> set ys. under (snapshot_dir i) k"
  have eq: "?G (ys @ [i]) = (\<lambda>k. ?G ys k \<or> under (snapshot_dir i) k \<and> k \<notin> {})" by (auto simp: fun_eq_iff)
  have "acts rep (swept (?G ys) V) (delete_dir R i (swept_blobs (?G ys) V))
      (\<lambda>n V'. V' = swept (?G (ys @ [i])) V \<and> n = swept_blobs (?G (ys @ [i])) V) (\<lambda>_. partly_swept (?G (ys @ [i])) V)"
    unfolding delete_dir_def eq by (rule sweep_acts [OF assms dir_listable(1)])
  then have "acts rep (swept (?G ys) V) (delete_dir R i (swept_blobs (?G ys) V))
      (\<lambda>n V'. V' = swept (?G (ys @ [i])) V \<and> n = swept_blobs (?G (ys @ [i])) V) (\<lambda>_. partly_swept (?G ids) V)"
    by (rule acts_conseq) (auto simp: partly_swept_def 2(1))
  with 2(2) show ?case by simp
qed (simp add: swept_def swept_blobs_def fun_eq_iff)

end

section \<open>Retention\<close>

lemma retain_chain_eq:
  "retain_chain chain (ids, keys) = (ids \<union> sm_snapshot_id ` set chain, keys \<union> (\<Union>m \<in> set chain. content_keys m))"
  by (induction chain arbitrary: ids keys) (auto simp: retain_chain_def collect_reachable_keys_def)

lemma reachable_eq: "fold collect_reachable_keys ms keys = keys \<union> (\<Union>m \<in> set ms. content_keys m)"
  by (induction ms arbitrary: keys) (auto simp: collect_reachable_keys_def)

lemma well_kept_id: "well_kept C V \<Longrightarrow> stored C V i m \<Longrightarrow> sm_snapshot_id m = i"
  by (simp add: well_kept_def)

lemma well_kept_inj: "well_kept C V \<Longrightarrow> inj_on sm_snapshot_id (manifests C V)"
  by (rule inj_onI, unfold manifests_def, elim CollectE exE) (metis well_kept_id stored_unique)

lemma age_key_inj: "well_kept C V \<Longrightarrow> inj_on age_key (manifests C V)"
  by (drule well_kept_inj) (simp add: inj_on_def age_key_def flip: word_uint_eq_iff)

lemma lineage_stored: "lineage C V i ms \<Longrightarrow> m \<in> set ms \<Longrightarrow> m \<in> manifests C V"
  by (induction ms arbitrary: i) (auto simp: manifests_def split: option.splits)

lemma retained_stored: "retained C V n \<subseteq> manifests C V"
  by (auto simp: retained_def dest: lineage_stored)

lemma distinct_map_filter_inj:
  "distinct xs \<Longrightarrow> (\<And>x y c. x \<in> set xs \<Longrightarrow> y \<in> set xs \<Longrightarrow> f x = Some c \<Longrightarrow> f y = Some c \<Longrightarrow> x = y) \<Longrightarrow>
     distinct (List.map_filter f xs)"
proof (induction xs)
  case (Cons x xs)
  have "f x = Some c \<Longrightarrow> c \<notin> set (List.map_filter f xs)" for c
    using Cons.prems by (fastforce simp: map_filter_def)
  with Cons show ?case by (auto simp: map_filter_simps split: option.split)
qed (simp add: map_filter_simps)

context backup_repository
begin

lemma load_all_acts:
  assumes "reads_ids C"
  shows "acts rep V (load_all_manifests R C)
    (\<lambda>ms V'. V' = V \<and> set ms = manifests C V \<and> (well_kept C V \<longrightarrow> distinct ms)) (\<lambda>_ V'. V' = V)"
proof (rule acts_finite)
  assume V: "finite (dom V)" "dom V \<subseteq> backup_keys"
  let ?id = "snapshot_id_from_manifest_key C"
  have loop: "acts rep V (for_each keys (\<lambda>key manifests.
       case ?id key of None \<Rightarrow> done_with manifests
       | Some snapshot_id \<Rightarrow> perform (load_manifest R C snapshot_id) (\<lambda>m. done_with (manifests @ [m]))) [])
     (\<lambda>ms V'. V' = V \<and> list_all2 (stored C V) (List.map_filter ?id keys) ms) (\<lambda>_ V'. V' = V)" for keys
    by (rule acts_for_each [where I = "\<lambda>ys ms V'. V' = V \<and> list_all2 (stored C V) (List.map_filter ?id ys) ms"])
      (auto simp: map_filter_def list_all2_appendI split: option.splits intro!: acts_done acts_read [OF load_manifest_acts])
  have all: "set ms = manifests C V \<and> (well_kept C V \<longrightarrow> distinct ms)"
    if keys: "distinct keys" "set keys = {k \<in> dom V. under ''snapshots'' k}"
      and ms: "list_all2 (stored C V) (List.map_filter ?id keys) ms" for keys ms
  proof -
    have ids: "i \<in> set (List.map_filter ?id keys) \<longleftrightarrow> snapshot_manifest_key i \<in> dom V" for i
    proof
      assume "i \<in> set (List.map_filter ?id keys)"
      then obtain k where "k \<in> set keys" "?id k = Some i" by (auto simp: map_filter_def)
      then have "k \<in> dom V" "?id k = Some i" by (simp_all add: keys(2))
      then show "snapshot_manifest_key i \<in> dom V" using V(2) id_of_backup_key [OF assms, of k i] by blast
    next
      assume "snapshot_manifest_key i \<in> dom V"
      then have "snapshot_manifest_key i \<in> set keys" by (simp add: keys(2) manifest_key_shape)
      with id_of_manifest_key [OF assms] show "i \<in> set (List.map_filter ?id keys)"
        by (force simp: map_filter_def)
    qed
    have "set ms \<subseteq> manifests C V"
      using ms by (auto simp: manifests_def list_all2_conv_all_nth in_set_conv_nth) blast
    moreover have "m \<in> set ms" if "stored C V i m" for i m
    proof -
      have "i \<in> set (List.map_filter ?id keys)" using that by (auto simp: ids stored_def split: option.splits)
      then obtain j where "j < length ms" "stored C V i (ms ! j)"
        using ms by (auto simp: in_set_conv_nth list_all2_conv_all_nth)
      with that show ?thesis using stored_unique nth_mem by metis
    qed
    moreover have "distinct ms" if "well_kept C V"
    proof -
      have "map sm_snapshot_id ms = List.map_filter ?id keys"
        using ms well_kept_id [OF that] by (auto simp: list_all2_conv_all_nth intro!: nth_equalityI)
      moreover have "k = l" if "k \<in> set keys" "l \<in> set keys" "?id k = Some i" "?id l = Some i" for k l i
        using that V(2) keys(2) id_of_backup_key [OF assms] by blast
      then have "distinct (List.map_filter ?id keys)" by (rule distinct_map_filter_inj [OF keys(1)])
      ultimately show ?thesis by (metis distinct_map)
    qed
    ultimately show ?thesis by (auto simp: manifests_def)
  qed
  show ?thesis
    unfolding load_all_manifests_def
    by (rule acts_read [OF list_acts [OF dir_listable(3)]], simp, rule acts_conseq [OF loop]) (use all in blast)+
qed

end

text \<open>A hash set iterates over its elements once each, in an order of its own.\<close>

definition iterates :: "(uuid set \<Rightarrow> uuid list) \<Rightarrow> bool" where
  "iterates hash_order \<longleftrightarrow> (\<forall>A. set (hash_order A) = A \<and> distinct (hash_order A))"

definition needed :: "'v BackupCodec \<Rightarrow> blob_map \<Rightarrow> uuid set \<Rightarrow> BackupSnapshotManifest set" where
  "needed C V ids = {m. \<exists>i \<in> ids. \<exists>ms. lineage C V (Some i) ms \<and> m \<in> set ms}"

lemma retained_needed: "retained C V n = needed C V (sm_snapshot_id ` newest n (manifests C V))"
  by (auto simp: retained_def needed_def)

lemma needed_chain: "lineage C V (Some i) (rev chain) \<Longrightarrow> needed C V (insert i ids) = needed C V ids \<union> set chain"
  by (auto simp: needed_def dest: lineage_unique)

lemma garbage_split:
  assumes "inj_on sm_snapshot_id (manifests C V)" "K \<subseteq> manifests C V"
    and "set expired = sm_snapshot_id ` manifests C V - sm_snapshot_id ` K"
  shows "(\<lambda>k. (\<exists>i \<in> set expired. under (snapshot_dir i) k) \<or> under ''objects/sha256'' k \<and> k \<notin> \<Union> (content_keys ` K)) = garbage C V K"
    and "set expired = sm_snapshot_id ` (manifests C V - K)"
proof -
  show exp: "set expired = sm_snapshot_id ` (manifests C V - K)"
    using assms inj_on_image_set_diff [OF assms(1), of "manifests C V" K] by auto
  show "(\<lambda>k. (\<exists>i \<in> set expired. under (snapshot_dir i) k) \<or> under ''objects/sha256'' k \<and> k \<notin> \<Union> (content_keys ` K)) = garbage C V K"
    unfolding exp by (auto simp: garbage_def fun_eq_iff)
qed

context backup_repository
begin

lemma retain_acts:
  "acts rep V (for_each ids (\<lambda>i acc. perform (load_manifest_chain R C i) (\<lambda>chain. done_with (retain_chain chain acc))) ({}, {}))
     (\<lambda>acc V'. V' = V \<and> acc = (sm_snapshot_id ` needed C V (set ids), \<Union> (content_keys ` needed C V (set ids)))) (\<lambda>_ V'. V' = V)"
proof (rule acts_for_each [where I = "\<lambda>ys acc V'. V' = V
      \<and> acc = (sm_snapshot_id ` needed C V (set ys), \<Union> (content_keys ` needed C V (set ys)))"], goal_cases)
  case (2 ys i zs acc V')
  then have V': "V' = V" and acc: "acc = (sm_snapshot_id ` needed C V (set ys), \<Union> (content_keys ` needed C V (set ys)))" by auto
  show ?case
    unfolding V'
  proof (rule acts_read [OF load_manifest_chain_acts], simp, rule acts_done, goal_cases)
    case (1 chain)
    then have "needed C V (set (ys @ [i])) = needed C V (set ys) \<union> set chain" by (simp add: needed_chain)
    then show ?case by (simp add: acc retain_chain_eq image_Un)
  qed
qed (simp add: needed_def)

lemma prune_inner_acts:
  assumes "reads_ids C" "well_kept C V" "iterates hash_order"
    and K_def: "K = retained C V n"
  shows "acts rep V (prune_inner R C hash_order n)
    (\<lambda>res V'. V' = swept (garbage C V K) V
       \<and> res = \<lparr>pr_retained_snapshots = card K, pr_deleted_snapshots = card (manifests C V - K),
           pr_deleted_blobs = swept_blobs (garbage C V K) V\<rparr>)
    (\<lambda>_. partly_swept (garbage C V K) V)"
proof (rule acts_finite)
  assume V: "finite (dom V)" "dom V \<subseteq> backup_keys"
  note inj = well_kept_inj [OF assms(2)]
  have K: "K \<subseteq> manifests C V" unfolding K_def by (rule retained_stored)
  have sorted: "needed C V (sm_snapshot_id ` set (take n (sort_key age_key ms))) = K"
    if "set ms = manifests C V" "distinct ms" for ms
    using take_sorted_set [OF that(2), of age_key n] age_key_inj [OF assms(2)] that(1)
    by (simp add: K_def retained_needed newest_def)
  have expired: "set (hash_order A) = A" "length (hash_order A) = card A" for A
    using assms(3) distinct_card [of "hash_order A"] by (auto simp: iterates_def)
  show "acts rep V (prune_inner R C hash_order n)
    (\<lambda>res V'. V' = swept (garbage C V K) V
       \<and> res = \<lparr>pr_retained_snapshots = card K, pr_deleted_snapshots = card (manifests C V - K),
           pr_deleted_blobs = swept_blobs (garbage C V K) V\<rparr>)
    (\<lambda>_. partly_swept (garbage C V K) V)"
    unfolding prune_inner_def Let_def
  proof (rule acts_read [OF load_all_acts [OF assms(1)]], simp, rule acts_read [OF retain_acts], simp, goal_cases)
    case (1 ms acc)
    then have ms: "set ms = manifests C V" "distinct ms" using assms(2) by auto
    let ?expired = "hash_order (set (map sm_snapshot_id (sort_key age_key ms)) - sm_snapshot_id ` K)"
    let ?G = "\<lambda>k. \<exists>i \<in> set ?expired. under (snapshot_dir i) k"
    have acc: "acc = (sm_snapshot_id ` K, \<Union> (content_keys ` K))" using 1 sorted [OF ms] by simp
    have "set ?expired = sm_snapshot_id ` manifests C V - sm_snapshot_id ` K" using ms(1) by (simp add: expired)
    note G = garbage_split [OF inj K this]
    have counts: "card (sm_snapshot_id ` K) = card K" "length ?expired = card (manifests C V - K)"
      using inj K G(2) by (auto simp: expired intro!: card_image elim: inj_on_subset)
    have dirs: "acts rep V (for_each ?expired (delete_dir R) 0) (\<lambda>d V'. V' = swept ?G V \<and> d = swept_blobs ?G V)
        (\<lambda>_. partly_swept (garbage C V K) V)"
      by (rule acts_conseq [OF delete_dirs_acts [OF V]]) (auto simp: partly_swept_def simp flip: G(1))
    have objects: "acts rep (swept ?G V) (delete_unreferenced R (\<Union> (content_keys ` K)) (swept_blobs ?G V))
        (\<lambda>d V'. V' = swept (garbage C V K) V \<and> d = swept_blobs (garbage C V K) V) (\<lambda>_. partly_swept (garbage C V K) V)"
      unfolding delete_unreferenced_def G(1) [symmetric] by (rule sweep_acts [OF V dir_listable(2)])
    show ?case
      unfolding acc prod.case
      by (rule acts_perform [OF dirs], elim conjE, simp only:, rule acts_perform [OF objects], rule acts_done)
        (simp add: counts [symmetric])
  qed
qed

end

context backup_repository
begin

lemma delete_snapshot_inner_acts:
  assumes "reads_ids C" "well_kept C V"
    and K_def: "K = {m \<in> manifests C V. sm_snapshot_id m \<noteq> i}"
  shows "acts rep V (delete_snapshot_inner R C i)
    (\<lambda>res V'. V' = swept (garbage C V K) V \<and> (\<exists>m. stored C V i m) \<and> (\<forall>m \<in> manifests C V. sm_parent_snapshot_id m \<noteq> Some i)
       \<and> res = \<lparr>dr_deleted_blobs = swept_blobs (garbage C V K) V, dr_retained_snapshots = card K\<rparr>)
    (\<lambda>_. partly_swept (\<lambda>k. (\<forall>m \<in> manifests C V. sm_parent_snapshot_id m \<noteq> Some i) \<and> garbage C V K k) V)"
    (is "acts rep V _ ?Q ?E")
proof (rule acts_finite)
  assume V: "finite (dom V)" "dom V \<subseteq> backup_keys"
  note inj = well_kept_inj [OF assms(2)]
  show "acts rep V (delete_snapshot_inner R C i) ?Q ?E"
    unfolding delete_snapshot_inner_def
  proof (rule acts_read [OF load_all_acts [OF assms(1)]], simp, goal_cases)
    case (1 ms)
    then have ms: "set ms = manifests C V" "distinct ms" using assms(2) by auto
    show ?case
    proof (cases "(\<exists>m \<in> set ms. sm_snapshot_id m = i) \<and> (\<forall>m \<in> set ms. sm_parent_snapshot_id m \<noteq> Some i)")
      case False
      then show ?thesis
        by (auto simp: list_ex_iff find_None_iff ms(1) split: option.split intro!: acts_fail)
    next
      case True
      then obtain m where m: "m \<in> set ms" "sm_snapshot_id m = i" by blast
      then have st: "stored C V i m" using assms(2) ms(1) by (auto simp: manifests_def dest: well_kept_id)
      have K: "K = set (filter (\<lambda>m. sm_snapshot_id m \<noteq> i) ms)" by (auto simp: K_def ms(1))
      have ids: "set [i] = sm_snapshot_id ` manifests C V - sm_snapshot_id ` K"
        using m ms(1) by (auto simp: K_def)
      note G = garbage_split(1) [OF inj _ ids]
      have sub: "K \<subseteq> manifests C V" by (auto simp: K_def)
      have "set ms = insert m K" using m inj ms(1) by (auto simp: K_def dest: inj_onD)
      moreover have "m \<notin> K" using m by (simp add: K_def)
      ultimately have count: "length ms - 1 = card K" using distinct_card [OF ms(2)] by (metis K List.finite_set card_insert_disjoint diff_Suc_1)
      let ?G = "\<lambda>k. \<exists>j \<in> set [i]. under (snapshot_dir j) k"
      have dir: "acts rep V (delete_dir R i 0) (\<lambda>d V'. V' = swept ?G V \<and> d = swept_blobs ?G V) ?E"
        by (rule acts_conseq [OF delete_dir_acts [OF V]]) (use True ms(1) in \<open>auto simp: partly_swept_def simp flip: G [OF sub]\<close>)
      have objects: "acts rep (swept ?G V) (delete_unreferenced R (\<Union> (content_keys ` K)) (swept_blobs ?G V))
          (\<lambda>d V'. V' = swept (garbage C V K) V \<and> d = swept_blobs (garbage C V K) V) ?E"
        using True ms(1) unfolding delete_unreferenced_def G [OF sub, symmetric]
        by (auto intro!: acts_conseq [OF sweep_acts [OF V dir_listable(2)]])
      have found: "find (\<lambda>m. sm_parent_snapshot_id m = Some i) ms = None" "list_ex (\<lambda>m. sm_snapshot_id m = i) ms"
        using True by (auto simp: find_None_iff list_ex_iff)
      show ?thesis
        unfolding found(1) reachable_eq K [symmetric] option.case Un_empty_left if_not_P [OF not_not [THEN iffD2, OF found(2)]]
        by (rule acts_perform [OF dir], elim conjE, simp only:, rule acts_perform [OF objects], rule acts_done)
          (use st True ms(1) count in auto)
    qed
  qed
qed

end

section \<open>Kept snapshots\<close>

lemma content_keys_place:
  assumes "own_keys m" "k \<in> content_keys m"
  shows "under (snapshot_dir (sm_snapshot_id m)) k \<or> under ''objects/sha256'' k"
  using assms unfolding content_keys_def own_keys_def by auto

lemma content_not_garbage:
  assumes "well_kept C V" "K \<subseteq> manifests C V" "m \<in> K"
  shows "\<not> garbage C V K (snapshot_manifest_key (sm_snapshot_id m))"
    and "k \<in> content_keys m \<Longrightarrow> \<not> garbage C V K k"
proof -
  have other: "m' = m" if "m' \<in> manifests C V" "sm_snapshot_id m' = sm_snapshot_id m" for m'
    using well_kept_inj [OF assms(1)] that assms(2,3) by (auto dest: inj_onD)
  then show "\<not> garbage C V K (snapshot_manifest_key (sm_snapshot_id m))"
    using assms(3) by (auto simp: garbage_def manifest_key_dir manifest_key_shape)
  assume k: "k \<in> content_keys m"
  have own: "own_keys m" using assms by (auto simp: well_kept_def manifests_def)
  have "under (snapshot_dir (sm_snapshot_id m)) k \<or> under ''objects/sha256'' k"
    using own k by (rule content_keys_place)
  then show "\<not> garbage C V K k"
  proof
    assume "under (snapshot_dir (sm_snapshot_id m)) k"
    then show ?thesis using assms(3) under_dirs under_dir_snapshots other unfolding garbage_def by blast
  next
    assume "under ''objects/sha256'' k"
    then show ?thesis using k assms(3) under_dir_snapshots unfolding garbage_def by blast
  qed
qed

text \<open>What a sweep leaves of a manifest that is kept: its blob and every payload.\<close>

definition keeps_manifest :: "'v BackupCodec \<Rightarrow> blob_map \<Rightarrow> blob_map \<Rightarrow> BackupSnapshotManifest \<Rightarrow> bool" where
  "keeps_manifest C V V' m \<longleftrightarrow>
     stored C V' (sm_snapshot_id m) m \<and> (\<forall>k \<in> content_keys m. V' k = V k) \<and> (intact C V m \<longrightarrow> intact C V' m)"

lemma kept_manifest:
  assumes "well_kept C V" "K \<subseteq> manifests C V" "m \<in> K" "partly_swept (garbage C V K) V V'"
  shows "keeps_manifest C V V' m"
proof -
  obtain i where "stored C V i m" using assms(2,3) by (auto simp: manifests_def)
  then have st: "stored C V (sm_snapshot_id m) m" using assms(1) by (simp add: well_kept_id)
  note keep = content_not_garbage [OF assms(1-3)]
  have "V' (snapshot_manifest_key (sm_snapshot_id m)) = V (snapshot_manifest_key (sm_snapshot_id m))"
    using assms(4) keep(1) by (auto simp: partly_swept_def)
  with st have "stored C V' (sm_snapshot_id m) m" by (simp add: stored_def)
  moreover have same: "\<forall>k \<in> content_keys m. V' k = V k"
    using assms(4) keep(2) by (auto simp: partly_swept_def)
  moreover have "fst ` set (payloads m) = content_keys m"
    by (auto simp: payloads_def content_keys_def image_Un image_image)
  then have "intact C V m \<longrightarrow> intact C V' m"
    using same unfolding intact_def payload_ok_def by force
  ultimately show ?thesis by (simp add: keeps_manifest_def)
qed

text \<open>The lock is no part of what is stored.\<close>

lemma stored_lock [simp]: "stored C (V(REPOSITORY_LOCK_KEY := x)) i m = stored C V i m"
  by (rule stored_cong) (simp add: manifest_key_shape)

lemma lineage_cong: "(\<And>i m. stored C V i m = stored C V' i m) \<Longrightarrow> lineage C V i ms = lineage C V' i ms"
  by (induction ms arbitrary: i) (auto split: option.splits)

lemma lock_irrelevant [simp]:
  "manifests C (V(REPOSITORY_LOCK_KEY := x)) = manifests C V"
  "well_kept C (V(REPOSITORY_LOCK_KEY := x)) = well_kept C V"
  "lineage C (V(REPOSITORY_LOCK_KEY := x)) i ms = lineage C V i ms"
  "garbage C (V(REPOSITORY_LOCK_KEY := x)) K = garbage C V K"
  by (simp_all add: manifests_def well_kept_def garbage_def fun_eq_iff lineage_cong [of C "V(REPOSITORY_LOCK_KEY := x)" V])

lemma lock_retained [simp]: "retained C (V(REPOSITORY_LOCK_KEY := x)) n = retained C V n"
  by (simp add: retained_def)

lemma lock_not_garbage [simp]: "\<not> garbage C V K REPOSITORY_LOCK_KEY"
  by (simp add: garbage_def lock_key_shape)

lemma swept_lock:
  assumes "\<not> G REPOSITORY_LOCK_KEY" "V REPOSITORY_LOCK_KEY = None"
  shows "unlocked (swept G (V(REPOSITORY_LOCK_KEY \<mapsto> x))) = swept G V" "swept_blobs G (V(REPOSITORY_LOCK_KEY \<mapsto> x)) = swept_blobs G V"
  using assms by (auto simp: unlocked_def swept_def swept_blobs_def fun_eq_iff intro!: arg_cong [where f = card])

lemma partly_swept_unlocked:
  "partly_swept G (V(REPOSITORY_LOCK_KEY \<mapsto> x)) V1 \<Longrightarrow> unlocked V' = unlocked V1 \<Longrightarrow> V REPOSITORY_LOCK_KEY = None \<Longrightarrow>
     partly_swept G V (V'(REPOSITORY_LOCK_KEY := None))"
  by (auto simp: partly_swept_def unlocked_def fun_eq_iff split: if_splits)

context backup_repository
begin

text \<open>A sweep under the lock.\<close>

lemma locked_sweep:
  assumes "\<not> G REPOSITORY_LOCK_KEY"
    and "V REPOSITORY_LOCK_KEY = None \<Longrightarrow> acts rep (V(REPOSITORY_LOCK_KEY \<mapsto> show_int now)) m
      (\<lambda>x V'. V' = swept G (V(REPOSITORY_LOCK_KEY \<mapsto> show_int now)) \<and> P x) (\<lambda>_. partly_swept G (V(REPOSITORY_LOCK_KEY \<mapsto> show_int now)))"
  shows "acts rep V (locked R now m) (\<lambda>x V'. V REPOSITORY_LOCK_KEY = None \<and> V' = swept G V \<and> P x)
    (\<lambda>_ V'. partly_swept G V (V'(REPOSITORY_LOCK_KEY := V REPOSITORY_LOCK_KEY)))"
proof (rule acts_conseq [OF locked_acts [OF assms(2)]], assumption, goal_cases)
  case (1 x V')
  then show ?case by (auto simp: swept_lock assms(1))
next
  case (2 e V')
  then show ?case
    using partly_swept_swept [of G G "V(REPOSITORY_LOCK_KEY \<mapsto> show_int now)"] partly_swept_unlocked [of G V "show_int now" _ V']
    by (auto simp: unlocked_def fun_upd_idem split: if_splits)
qed

lemma prune_acts:
  assumes "reads_ids C" "well_kept C V" "iterates hash_order" and G: "G = garbage C V (retained C V n)"
  shows "acts rep V (prune R C hash_order now n)
    (\<lambda>res V'. V REPOSITORY_LOCK_KEY = None \<and> V' = swept G V
       \<and> res = \<lparr>pr_retained_snapshots = card (retained C V n), pr_deleted_snapshots = card (manifests C V - retained C V n),
           pr_deleted_blobs = swept_blobs G V\<rparr>)
    (\<lambda>_ V'. partly_swept G V (V'(REPOSITORY_LOCK_KEY := V REPOSITORY_LOCK_KEY)))"
  unfolding prune_def
proof (rule locked_sweep)
  show free: "\<not> G REPOSITORY_LOCK_KEY" by (simp add: G)
  assume "V REPOSITORY_LOCK_KEY = None"
  note same = swept_lock(2) [of G V, OF free this]
  have "well_kept C (V(REPOSITORY_LOCK_KEY \<mapsto> show_int now))" using assms(2) by simp
  from prune_inner_acts [OF assms(1) this assms(3) refl, of n] same
  show "acts rep (V(REPOSITORY_LOCK_KEY \<mapsto> show_int now)) (prune_inner R C hash_order n)
      (\<lambda>res V'. V' = swept G (V(REPOSITORY_LOCK_KEY \<mapsto> show_int now))
        \<and> res = \<lparr>pr_retained_snapshots = card (retained C V n), pr_deleted_snapshots = card (manifests C V - retained C V n),
            pr_deleted_blobs = swept_blobs G V\<rparr>)
      (\<lambda>_. partly_swept G (V(REPOSITORY_LOCK_KEY \<mapsto> show_int now)))"
    by (simp add: G)
qed

lemma delete_snapshot_acts:
  assumes "reads_ids C" "well_kept C V"
    and K: "K = {m \<in> manifests C V. sm_snapshot_id m \<noteq> i}"
    and G: "G = (\<lambda>k. (\<forall>m \<in> manifests C V. sm_parent_snapshot_id m \<noteq> Some i) \<and> garbage C V K k)"
  shows "acts rep V (delete_snapshot R C now i)
    (\<lambda>res V'. V REPOSITORY_LOCK_KEY = None \<and> V' = swept G V \<and> (\<exists>m. stored C V i m)
       \<and> (\<forall>m \<in> manifests C V. sm_parent_snapshot_id m \<noteq> Some i)
       \<and> res = \<lparr>dr_deleted_blobs = swept_blobs G V, dr_retained_snapshots = card K\<rparr>)
    (\<lambda>_ V'. partly_swept G V (V'(REPOSITORY_LOCK_KEY := V REPOSITORY_LOCK_KEY)))"
  unfolding delete_snapshot_def
proof (rule locked_sweep)
  show free: "\<not> G REPOSITORY_LOCK_KEY" by (simp add: G)
  assume "V REPOSITORY_LOCK_KEY = None"
  note same = swept_lock(2) [of G V, OF free this]
  have "well_kept C (V(REPOSITORY_LOCK_KEY \<mapsto> show_int now))" using assms(2) by simp
  from delete_snapshot_inner_acts [OF assms(1) this refl, of i]
  show "acts rep (V(REPOSITORY_LOCK_KEY \<mapsto> show_int now)) (delete_snapshot_inner R C i)
      (\<lambda>res V'. V' = swept G (V(REPOSITORY_LOCK_KEY \<mapsto> show_int now)) \<and> (\<exists>m. stored C V i m)
        \<and> (\<forall>m \<in> manifests C V. sm_parent_snapshot_id m \<noteq> Some i)
        \<and> res = \<lparr>dr_deleted_blobs = swept_blobs G V, dr_retained_snapshots = card K\<rparr>)
      (\<lambda>_. partly_swept G (V(REPOSITORY_LOCK_KEY \<mapsto> show_int now)))"
    by (rule acts_conseq) (use same in \<open>auto simp: G K\<close>)
qed

end

lemma content_not_lock: "own_keys m \<Longrightarrow> REPOSITORY_LOCK_KEY \<notin> content_keys m"
  using content_keys_place lock_key_shape by blast

lemma payload_keys: "fst ` set (payloads m) = content_keys m"
  by (auto simp: payloads_def content_keys_def image_Un image_image)

lemma keeps_manifest_lock:
  assumes "own_keys m" "keeps_manifest C V (V'(REPOSITORY_LOCK_KEY := x)) m"
  shows "keeps_manifest C V V' m"
proof -
  have "k \<noteq> REPOSITORY_LOCK_KEY" if "k \<in> content_keys m" for k using content_not_lock [OF assms(1)] that by blast
  then have "payload_ok C (V'(REPOSITORY_LOCK_KEY := x)) (fst p) h = payload_ok C V' (fst p) h" if "p \<in> set (payloads m)" for p h
    using that payload_keys by (fastforce simp: payload_ok_def)
  then show ?thesis
    using assms(2) \<open>\<And>k. k \<in> content_keys m \<Longrightarrow> k \<noteq> _\<close> by (fastforce simp: keeps_manifest_def intact_def)
qed

lemma kept_after_sweep:
  assumes "well_kept C V" "K \<subseteq> manifests C V" "partly_swept (garbage C V K) V (V'(REPOSITORY_LOCK_KEY := x))" "m \<in> K"
  shows "keeps_manifest C V V' m"
proof (rule keeps_manifest_lock)
  show "own_keys m" using assms(1,2,4) by (auto simp: well_kept_def manifests_def)
  show "keeps_manifest C V (V'(REPOSITORY_LOCK_KEY := x)) m" by (rule kept_manifest [OF assms(1,2,4,3)])
qed

text \<open>
  C13. Pruning always ends, and whatever fails on the way it only deletes garbage: directories of
  snapshots that no retained chain contains, and objects that no retained manifest refers to.
  Every manifest of the chains of the \<open>n\<close> newest snapshots is still stored with all its payloads.
  When pruning succeeds all the garbage is gone and the counts are exact.
\<close>

theorem prune_exact:
  assumes "local_rep lb pfx V s" and "reads_ids C" and "well_kept C V" and "iterates hash_order"
  shows "\<exists>r s' V'. prune (local_repository lb pfx limits) C hash_order now n s = Some (r, s') \<and> local_rep lb pfx V' s'
    \<and> partly_swept (garbage C V (retained C V n)) V (V'(REPOSITORY_LOCK_KEY := V REPOSITORY_LOCK_KEY))
    \<and> (\<forall>m \<in> retained C V n. keeps_manifest C V V' m)
    \<and> (\<forall>res. r = Inr res \<longrightarrow> V' = swept (garbage C V (retained C V n)) V
         \<and> res = \<lparr>pr_retained_snapshots = card (retained C V n), pr_deleted_snapshots = card (manifests C V - retained C V n),
             pr_deleted_blobs = swept_blobs (garbage C V (retained C V n)) V\<rparr>)"
proof -
  let ?G = "garbage C V (retained C V n)"
  from acts_ends [where rep = "local_rep lb pfx", OF local_repo.prune_acts [OF assms(2-4) refl] assms(1)] obtain r s' V' where
    run: "prune (local_repository lb pfx limits) C hash_order now n s = Some (r, s')" "local_rep lb pfx V' s'"
    and post: "case r of Inl e \<Rightarrow> partly_swept ?G V (V'(REPOSITORY_LOCK_KEY := V REPOSITORY_LOCK_KEY))
      | Inr res \<Rightarrow> V REPOSITORY_LOCK_KEY = None \<and> V' = swept ?G V
         \<and> res = \<lparr>pr_retained_snapshots = card (retained C V n), pr_deleted_snapshots = card (manifests C V - retained C V n),
             pr_deleted_blobs = swept_blobs ?G V\<rparr>"
    by blast
  have part: "partly_swept ?G V (V'(REPOSITORY_LOCK_KEY := V REPOSITORY_LOCK_KEY))"
    using post by (cases r) (auto simp: partly_swept_def swept_def)
  with kept_after_sweep [OF assms(3) retained_stored this] run post show ?thesis by (cases r) auto
qed

text \<open>
  C14. Deleting a snapshot always ends and never harms another one: every other manifest is still
  stored with all its payloads, whatever fails on the way, and nothing changes while a manifest has
  the snapshot as its parent. On success the snapshot existed, and what is gone, and counted, is exactly
  its directory and every object that no remaining snapshot refers to: the objects only it referred
  to, and objects that no snapshot referred to before, such as those a failed backup left behind.
\<close>

theorem delete_snapshot_exact:
  fixes C :: "'v BackupCodec"
  assumes "local_rep lb pfx V s" and "reads_ids C" and "well_kept C V"
  shows "\<exists>r s' V'. delete_snapshot (local_repository lb pfx limits) C now i s = Some (r, s') \<and> local_rep lb pfx V' s'
    \<and> (\<forall>m \<in> manifests C V. sm_snapshot_id m \<noteq> i \<longrightarrow> keeps_manifest C V V' m)
    \<and> ((\<exists>m \<in> manifests C V. sm_parent_snapshot_id m = Some i) \<longrightarrow>
         (\<exists>e. r = Inl e) \<and> V'(REPOSITORY_LOCK_KEY := V REPOSITORY_LOCK_KEY) = V)
    \<and> (\<forall>res. r = Inr res \<longrightarrow> (\<exists>m. stored C V i m)
         \<and> V' = swept (garbage C V {m \<in> manifests C V. sm_snapshot_id m \<noteq> i}) V
         \<and> res = \<lparr>dr_deleted_blobs = swept_blobs (garbage C V {m \<in> manifests C V. sm_snapshot_id m \<noteq> i}) V,
             dr_retained_snapshots = card {m \<in> manifests C V. sm_snapshot_id m \<noteq> i}\<rparr>)"
proof -
  let ?K = "{m \<in> manifests C V. sm_snapshot_id m \<noteq> i}"
  let ?free = "\<forall>m \<in> manifests C V. sm_parent_snapshot_id m \<noteq> Some i"
  from acts_ends [where rep = "local_rep lb pfx", OF local_repo.delete_snapshot_acts [OF assms(2,3) refl refl] assms(1)] obtain r s' V' where
    run: "delete_snapshot (local_repository lb pfx limits) C now i s = Some (r, s')" "local_rep lb pfx V' s'"
    and post: "case r of Inl e \<Rightarrow> partly_swept (\<lambda>k. ?free \<and> garbage C V ?K k) V (V'(REPOSITORY_LOCK_KEY := V REPOSITORY_LOCK_KEY))
      | Inr res \<Rightarrow> V REPOSITORY_LOCK_KEY = None \<and> V' = swept (\<lambda>k. ?free \<and> garbage C V ?K k) V \<and> (\<exists>m. stored C V i m) \<and> ?free
         \<and> res = \<lparr>dr_deleted_blobs = swept_blobs (\<lambda>k. ?free \<and> garbage C V ?K k) V, dr_retained_snapshots = card ?K\<rparr>"
    by blast
  have part: "partly_swept (garbage C V ?K) V (V'(REPOSITORY_LOCK_KEY := V REPOSITORY_LOCK_KEY))"
  proof (cases r)
    case (Inl e)
    with post show ?thesis by (auto intro: partly_swept_mono)
  next
    case (Inr res)
    with post show ?thesis by (auto simp: partly_swept_def swept_def)
  qed
  have kept: "\<forall>m \<in> ?K. keeps_manifest C V V' m" using kept_after_sweep [OF assms(3) _ part] by blast
  have "(\<exists>e. r = Inl e) \<and> V'(REPOSITORY_LOCK_KEY := V REPOSITORY_LOCK_KEY) = V" if "\<not> ?free"
    using post that by (cases r) (auto simp: partly_swept_def fun_eq_iff)
  moreover have "\<forall>res. r = Inr res \<longrightarrow> (\<exists>m. stored C V i m) \<and> V' = swept (garbage C V ?K) V
      \<and> res = \<lparr>dr_deleted_blobs = swept_blobs (garbage C V ?K) V, dr_retained_snapshots = card ?K\<rparr>"
    using post by (cases r) (auto simp: swept_def fun_eq_iff)
  ultimately show ?thesis using run kept by blast
qed

section \<open>A sample repository\<close>

definition sample_uuid_parse :: "str \<Rightarrow> uuid option" where
  "sample_uuid_parse s = Some (of_nat (foldl (\<lambda>n c. 16 * n + the (hex_value c)) 0 (filter (\<lambda>c. c \<noteq> CHR ''-'') s)))"

lemma foldl_hex_digits: "n < 16 ^ k \<Longrightarrow> foldl (\<lambda>n c. 16 * n + the (hex_value c)) 0 (hex_digits k n) = n"
proof (induction k arbitrary: n)
  case (Suc k)
  then have "foldl (\<lambda>n c. 16 * n + the (hex_value c)) 0 (hex_digits k (n div 16)) = n div 16"
    by (intro Suc.IH) (simp add: div_less_iff_less_mult)
  then show ?case by simp
qed simp

lemma hex_digits_dashes: "CHR ''-'' \<notin> set (hex_digits k n)"
proof (induction k arbitrary: n)
  case (Suc k)
  have "digit_char (n mod 16) \<noteq> CHR ''-''"
    using digit_char_less [of "n mod 16"] by (cases "n mod 16 < 10") auto
  with Suc show ?case by simp
qed simp

lemma sample_uuid_parse_text: "sample_uuid_parse (uuid_text i) = Some i"
proof -
  have "filter (\<lambda>c. c \<noteq> CHR ''-'') (uuid_text i) = hex_digits 32 (unat i)"
  proof -
    let ?h = "hex_digits 32 (unat i)"
    have "filter (\<lambda>c. c \<noteq> CHR ''-'') s = s" if "set s \<subseteq> set ?h" for s
      using that hex_digits_dashes [of 32 "unat i"] by (auto simp: filter_id_conv)
    moreover have "set (take a (drop b ?h)) \<subseteq> set ?h" "set (drop b ?h) \<subseteq> set ?h" "set (take a ?h) \<subseteq> set ?h" for a b
      by (auto dest: in_set_takeD in_set_dropD)
    ultimately have "filter (\<lambda>c. c \<noteq> CHR ''-'') (uuid_text i) =
        take 8 ?h @ take 4 (drop 8 ?h) @ take 4 (drop 12 ?h) @ take 4 (drop 16 ?h) @ drop 20 ?h"
      by (simp add: uuid_text_def Let_def)
    also have "\<dots> = take 20 ?h @ drop 20 ?h"
      using take_add [of 8 4 ?h] take_add [of 12 4 ?h] take_add [of 16 4 ?h] by simp
    finally show ?thesis by (simp only: append_take_drop_id)
  qed
  moreover have "unat i < 16 ^ 32" using unsigned_less [of i, where 'a = nat] by simp
  ultimately show ?thesis by (simp add: sample_uuid_parse_def foldl_hex_digits)
qed

definition sample_manifest :: "uuid \<Rightarrow> int \<Rightarrow> BackupSnapshotManifest" where
  "sample_manifest i created =
     \<lparr>sm_format_version = 1, sm_snapshot_id = i, sm_parent_snapshot_id = None, sm_created_at = created, sm_app_id = ''app'',
      sm_app_version = ''1'', sm_schema_version = ''1'', sm_schema_hash = ''h'', sm_database_backend = ''sqlite'',
      sm_backup_kind = Full,
      sm_database = \<lparr>dm_export_format = ''jsonl'', dm_compression = Zstd, dm_row_count = 0, dm_table_count = 0, dm_tables = [], dm_changes = []\<rparr>,
      sm_objects = [], sm_tombstones = [], sm_checksum = ''''\<rparr>"

definition backup_codec :: "unit BackupCodec" where
  "backup_codec =
     \<lparr>cd_sha256 = (\<lambda>_. ''''), cd_view_json = (\<lambda>_. Some ''''), 
      cd_manifest_pretty = (\<lambda>m. if m = sample_manifest 1 10 then Some ''one'' else if m = sample_manifest 2 20 then Some ''two'' else None),
      cd_manifest_parse = (\<lambda>b. if b = ''one'' then Some (sample_manifest 1 10) else if b = ''two'' then Some (sample_manifest 2 20) else None),
      cd_row_json = (\<lambda>_. None), cd_row_parse = (\<lambda>_. None), cd_change_json = (\<lambda>_. None), cd_change_parse = (\<lambda>_. None),
      cd_key_parts = (\<lambda>_. None), cd_zstd_encode = (\<lambda>_. None), cd_zstd_reads = (\<lambda>_ _. None), cd_uuid_parse = sample_uuid_parse\<rparr>"

definition sample_repo_fs :: LocalFs where
  "sample_repo_fs =
     \<lparr>lf_tree = Dir [(''objects'', Dir [(''sha256'', Dir [(''aa'', Dir [(''bb'', Dir [(''aabb'', File ''x'')])])])]),
        (''snapshots'', Dir [(uuid_text 1, Dir [(''manifest.json'', File ''one'')]), (uuid_text 2, Dir [(''manifest.json'', File ''two'')])])],
      lf_faults = [], lf_fresh = 0\<rparr>"

definition sample_blobs :: blob_map where
  "sample_blobs = repository_view None (blobs sample_repo_fs)"

lemma sample_reads_ids: "reads_ids backup_codec"
  by (simp add: reads_ids_def backup_codec_def sample_uuid_parse_text)

lemma sample_repo_stores: "stores (blobs sample_repo_fs) sample_repo_fs"
proof -
  have "uuid_text 1 < uuid_text 2" by code_simp
  then show ?thesis
    using uuid_name [of 1] uuid_name [of 2]
    by (auto simp: stores_def sample_repo_fs_def btree_def name_ok_def is_dir_def)
qed

lemma sample_dom: "dom sample_blobs \<subseteq> {object_content_key ''aabb'', snapshot_manifest_key 1, snapshot_manifest_key 2}"
proof -
  have "set (keys_below (lf_tree sample_repo_fs) []) = {object_content_key ''aabb'', snapshot_manifest_key 1, snapshot_manifest_key 2}"
    by code_simp
  then have "dom (blobs sample_repo_fs) = {object_content_key ''aabb'', snapshot_manifest_key 1, snapshot_manifest_key 2}"
    using keys_below_set [OF sample_repo_stores, of "[]"] by (simp add: under_def)
  then show ?thesis by (auto simp: sample_blobs_def repository_view_def apply_prefix_def split: if_splits)
qed

lemma sample_rep: "local_rep sample_backend None sample_blobs sample_repo_fs"
proof -
  have "plain_name ''aabb''" by code_simp
  then have "dom sample_blobs \<subseteq> backup_keys" using sample_dom by (auto intro: backup_keys.intros)
  with sample_repo_stores show ?thesis
    by (auto simp: local_rep_def prefix_ok_def sample_backend_def sample_blobs_def)
qed

lemma manifest_path: "path_of (snapshot_manifest_key i) = [''snapshots'', uuid_text i, ''manifest.json'']"
  using split_char_append [of "CHR ''/''" "uuid_text i" "''manifest.json''"] by (simp add: snapshot_manifest_key_def)

lemma sample_values: "sample_blobs (snapshot_manifest_key 1) = Some ''one''" "sample_blobs (snapshot_manifest_key 2) = Some ''two''"
proof -
  have "valid_key (snapshot_manifest_key i)" "area (snapshot_manifest_key i)" "visible (path_of (snapshot_manifest_key i))" for i
    using uuid_name [of i] backup_keys_area [OF manifest_key] backup_paths_visible [OF backup_path_of [OF manifest_key]]
    by (simp_all add: valid_key_iff manifest_path name_ok_def)
  then show "sample_blobs (snapshot_manifest_key 1) = Some ''one''" "sample_blobs (snapshot_manifest_key 2) = Some ''two''"
    by (simp_all add: sample_blobs_def repository_view_def apply_prefix_def blobs_def vis_files_def manifest_path file_at_def sample_repo_fs_def)
qed

lemma sample_stored: "stored backup_codec sample_blobs i m \<longleftrightarrow> i = 1 \<and> m = sample_manifest 1 10 \<or> i = 2 \<and> m = sample_manifest 2 20"
proof -
  have key: "snapshot_manifest_key i \<in> {object_content_key ''aabb'', snapshot_manifest_key 1, snapshot_manifest_key 2} \<longleftrightarrow> i = 1 \<or> i = 2"
    by (simp add: snapshot_manifest_key_def object_content_key_def)
  have "verify_manifest_checksum backup_codec (sample_manifest j c) = Inr ()" for j c
    by (simp add: verify_manifest_checksum_def manifest_checksum_def backup_codec_def sample_manifest_def)
  moreover have "cd_manifest_parse backup_codec ''one'' = Some (sample_manifest 1 10)" "cd_manifest_parse backup_codec ''two'' = Some (sample_manifest 2 20)"
    by (simp_all add: backup_codec_def)
  ultimately have "stored backup_codec sample_blobs 1 m \<longleftrightarrow> m = sample_manifest 1 10"
    "stored backup_codec sample_blobs 2 m \<longleftrightarrow> m = sample_manifest 2 20"
    using sample_values by (auto simp: stored_def)
  moreover have "stored backup_codec sample_blobs i m \<Longrightarrow> i = 1 \<or> i = 2"
    using key sample_dom by (auto simp: stored_def split: option.splits)
  ultimately show ?thesis by auto
qed

lemma sample_well_kept: "well_kept backup_codec sample_blobs"
  by (auto simp: well_kept_def sample_stored own_keys_def sample_manifest_def)

lemma sample_iterates: "iterates sorted_list_of_set"
  by (simp add: iterates_def)

theorem prune_exact_witness:
  "\<exists>r s' V'. prune (local_repository sample_backend None default_capacity_limits) backup_codec sorted_list_of_set 0 1 sample_repo_fs = Some (r, s')
    \<and> local_rep sample_backend None V' s' \<and> (\<forall>m \<in> retained backup_codec sample_blobs 1. keeps_manifest backup_codec sample_blobs V' m)
    \<and> (\<forall>res. r = Inr res \<longrightarrow> V' = swept (garbage backup_codec sample_blobs (retained backup_codec sample_blobs 1)) sample_blobs)"
  using prune_exact [OF sample_rep sample_reads_ids sample_well_kept sample_iterates, of default_capacity_limits 0 1] by blast

theorem delete_snapshot_exact_witness:
  "\<exists>r s' V'. delete_snapshot (local_repository sample_backend None default_capacity_limits) backup_codec 0 1 sample_repo_fs = Some (r, s')
    \<and> local_rep sample_backend None V' s' \<and> keeps_manifest backup_codec sample_blobs V' (sample_manifest 2 20)"
proof -
  have "sample_manifest 2 20 \<in> manifests backup_codec sample_blobs" "sm_snapshot_id (sample_manifest 2 20) \<noteq> 1"
    by (auto simp: manifests_def sample_stored) (simp add: sample_manifest_def)
  with delete_snapshot_exact [OF sample_rep sample_reads_ids sample_well_kept, of default_capacity_limits 0 1] show ?thesis by blast
qed

end
