(* ===== verification/Payload.thy ===== *)
theory Payload
  imports Prune
begin

text \<open>
  Database payloads of a snapshot: rows and changes as JSON lines under zstd (the serializer of
  \<open>graphql-orm-backup/src/backup.rs\<close>, the loader of \<open>restore.rs\<close>), with the byte limits of a stage, and
  the replay of a chain that compaction performs on ordered maps.
\<close>

section \<open>Writing\<close>

definition DATABASE_EXPORT_FORMAT :: str where "DATABASE_EXPORT_FORMAT = ''jsonl''"

abbreviation newline :: char where "newline \<equiv> CHR 0x0A"

fun json_lines :: "('r \<Rightarrow> str option) \<Rightarrow> 'r list \<Rightarrow> str list option" where
  "json_lines json [] = Some []"
| "json_lines json (entry # entries) =
     (case json entry of
        None \<Rightarrow> None
      | Some line \<Rightarrow> map_option (\<lambda>writes. line # [newline] # writes) (json_lines json entries))"

definition serialize_jsonl_entries :: "'v BackupCodec \<Rightarrow> ('r \<Rightarrow> str option) \<Rightarrow> 'r list \<Rightarrow> BackupError + str" where
  "serialize_jsonl_entries C json entries =
     (case json_lines json entries of
        None \<Rightarrow> Inl BeSerialization
      | Some writes \<Rightarrow> or_fail BeCompression (cd_zstd_encode C writes))"

definition serialize_table_export :: "'v BackupCodec \<Rightarrow> 'v BackupTableExport \<Rightarrow> BackupError + str" where
  "serialize_table_export C table = serialize_jsonl_entries C (cd_row_json C) (tx_rows table)"

section \<open>Reading\<close>

fun parse_lines :: "(str \<Rightarrow> 'r option) \<Rightarrow> str list \<Rightarrow> BackupError + 'r list" where
  "parse_lines parse [] = Inr []"
| "parse_lines parse (line # rest) =
     (if line = [] then parse_lines parse rest
      else case parse line of
        None \<Rightarrow> Inl BeSerialization
      | Some entry \<Rightarrow> map_sum id (\<lambda>entries. entry # entries) (parse_lines parse rest))"

definition parse_jsonl :: "(str \<Rightarrow> 'r option) \<Rightarrow> str \<Rightarrow> BackupError + 'r list" where
  "parse_jsonl parse payload = parse_lines parse (split_char newline payload)"

definition decode_payload :: "'v BackupCodec \<Rightarrow> str \<Rightarrow> BackupCompression \<Rightarrow> BackupByteLimit \<Rightarrow> BackupError + str" where
  "decode_payload C bytes compression limit =
     (case compression of
        NoCompression \<Rightarrow> and_then (limit_check limit (length bytes)) (Inr bytes)
      | Zstd \<Rightarrow> decompress_payload_with_limit C bytes limit)"

definition stage_add :: "BackupByteLimit \<Rightarrow> nat \<Rightarrow> nat \<Rightarrow> BackupError + nat" where
  "stage_add limit stage_bytes bytes =
     (case u64_checked_add stage_bytes bytes of
        None \<Rightarrow> Inl (BeCapacityExceeded u64_max)
      | Some n \<Rightarrow> and_then (limit_check limit n) (Inr n))"

definition load_jsonl_entries ::
  "'s BackupRepository \<Rightarrow> 'v BackupCodec \<Rightarrow> (str \<Rightarrow> 'r option) \<Rightarrow> BackupSnapshotManifest \<Rightarrow> TableBackupEntry \<Rightarrow> nat \<Rightarrow>
     ('s, BackupError, 'r list \<times> nat) action" where
  "load_jsonl_entries R C parse manifest entry stage_bytes =
     (let limits = rp_capacity_limits R; db = sm_database manifest in
      if dm_export_format db \<noteq> DATABASE_EXPORT_FORMAT
        then fail_with (BeUnsupportedOperation (''database export format '' @ dm_export_format db))
      else
        perform (rp_get_blob_stream R (te_content_key entry)) (\<lambda>body.
        perform (of_result (collect_backup_stream body (cl_buffered_bytes limits))) (\<lambda>stored.
        perform (of_result (limit_remaining (cl_stage_bytes limits) stage_bytes)) (\<lambda>remaining_stage.
        perform (of_result (decode_payload C stored (dm_compression db) (limit_min (cl_decompressed_bytes limits) remaining_stage))) (\<lambda>payload.
        perform (of_result (stage_add (cl_stage_bytes limits) stage_bytes (length payload))) (\<lambda>stage_bytes.
        perform (of_result (parse_jsonl parse payload)) (\<lambda>entries.
        done_with (entries, stage_bytes))))))))"

definition load_table_exports ::
  "'s BackupRepository \<Rightarrow> 'v BackupCodec \<Rightarrow> BackupSnapshotManifest \<Rightarrow> ('s, BackupError, 'v BackupTableExport list) action" where
  "load_table_exports R C manifest =
     perform (for_each (dm_tables (sm_database manifest)) (\<lambda>table (exports, stage_bytes).
       perform (load_jsonl_entries R C (cd_row_parse C) manifest table stage_bytes) (\<lambda>(rows, stage_bytes).
       done_with (exports @ [\<lparr>tx_table_name = te_table_name table, tx_rows = rows\<rparr>], stage_bytes))) ([], 0))
     (\<lambda>(exports, _). done_with exports)"

definition load_change_exports ::
  "'s BackupRepository \<Rightarrow> 'v BackupCodec \<Rightarrow> BackupSnapshotManifest \<Rightarrow> ('s, BackupError, 'v BackupChangeExport list) action" where
  "load_change_exports R C manifest =
     perform (for_each (dm_changes (sm_database manifest)) (\<lambda>table (changes, stage_bytes).
       perform (load_jsonl_entries R C (cd_change_parse C) manifest table stage_bytes) (\<lambda>(entries, stage_bytes).
       done_with (changes @ entries, stage_bytes))) ([], 0))
     (\<lambda>(changes, _). done_with changes)"

section \<open>Round trip\<close>

text \<open>
  What the libraries promise for a list of entries: every entry has a JSON line that parses back,
  and the decoder reads what the encoder wrote, for windows that admit the encoder's frames.
\<close>

definition json_ok :: "('r \<Rightarrow> str option) \<Rightarrow> (str \<Rightarrow> 'r option) \<Rightarrow> 'r \<Rightarrow> bool" where
  "json_ok json parse entry \<longleftrightarrow>
     (\<exists>line. json entry = Some line \<and> line \<noteq> [] \<and> newline \<notin> set line \<and> parse line = Some entry)"

definition wide_window :: "nat option \<Rightarrow> bool" where
  "wide_window w \<longleftrightarrow> (case w of None \<Rightarrow> True | Some n \<Rightarrow> 27 \<le> n)"

definition zstd_ok :: "'v BackupCodec \<Rightarrow> bool" where
  "zstd_ok C \<longleftrightarrow> (\<forall>writes b w. cd_zstd_encode C writes = Some b \<longrightarrow> wide_window w \<longrightarrow>
     (\<exists>cs. cd_zstd_reads C w b = Some (map Inr cs) \<and> [] \<notin> set cs \<and> concat cs = concat writes))"

lemma json_lines_parse:
  "json_lines json entries = Some writes \<Longrightarrow> (\<And>e. e \<in> set entries \<Longrightarrow> json_ok json parse e) \<Longrightarrow>
     parse_jsonl parse (concat writes) = Inr entries"
proof (induction entries arbitrary: writes)
  case (Cons e es)
  from Cons.prems obtain line ws where w: "json e = Some line" "json_lines json es = Some ws" "writes = line # [newline] # ws"
    by (auto split: option.splits)
  have "json_ok json parse e" using Cons.prems(2) by simp
  with w(1) have line: "line \<noteq> []" "newline \<notin> set line" "parse line = Some e" by (auto simp: json_ok_def)
  have "parse_jsonl parse (concat ws) = Inr es" using Cons.IH [OF w(2)] Cons.prems(2) by simp
  with line show ?case
    by (simp add: w(3) parse_jsonl_def split_char_append)
qed (auto simp: parse_jsonl_def)

lemma read_all_ok:
  assumes "[] \<notin> set cs" "length (buffer @ concat cs) < 2 ^ 64" "within l (length (buffer @ concat cs))"
  shows "read_all l (map Inr cs) buffer = Inr (buffer @ concat cs)"
  using assms
proof (induction cs arbitrary: buffer)
  case (Cons c cs)
  have "within l (length buffer + length c)" using Cons.prems(3) by (rule within_mono) simp
  moreover have "read_all l (map Inr cs) (buffer @ c) = Inr ((buffer @ c) @ concat cs)"
    using Cons.prems by (intro Cons.IH) auto
  ultimately show ?case using Cons.prems by (auto simp: u64_checked_add_def)
qed simp

lemma top_bit_large: "2 ^ k \<le> n \<Longrightarrow> k \<le> top_bit n"
proof (induction k arbitrary: n)
  case (Suc k)
  then have "k \<le> top_bit (n div 2)" by (intro Suc.IH) simp
  moreover have "2 \<le> n" using Suc.prems by (meson le_trans one_le_numeral power_increasing self_le_power zero_less_Suc)
  ultimately show ?case by (simp add: top_bit.simps [of n])
qed simp

text \<open>A limit that admits a payload and the encoder's window.\<close>

definition roomy :: "BackupByteLimit \<Rightarrow> nat \<Rightarrow> bool" where
  "roomy l n \<longleftrightarrow> (case l of Unbounded \<Rightarrow> True | LimitBytes k \<Rightarrow> n + 2 ^ 27 \<le> k)"

lemma payload_roundtrip:
  assumes "zstd_ok C" "serialize_jsonl_entries C json entries = Inr b" "json_lines json entries = Some writes"
    and "length (concat writes) < 2 ^ 64" "roomy l (length (concat writes))"
  shows "decode_payload C b Zstd l = Inr (concat writes)"
proof -
  have enc: "cd_zstd_encode C writes = Some b"
    using assms(2,3) by (auto simp: serialize_jsonl_entries_def split: option.splits)
  let ?w = "case l of LimitBytes n \<Rightarrow> Some (window_log n) | Unbounded \<Rightarrow> None"
  have "wide_window ?w"
  proof (cases l)
    case (LimitBytes n)
    then have "2 ^ 27 \<le> max 1 n" using assms(5) by (simp add: roomy_def)
    then have "27 \<le> top_bit (max 1 n)" by (rule top_bit_large)
    with LimitBytes show ?thesis by (simp add: wide_window_def window_log_def)
  qed (simp add: wide_window_def)
  with assms(1) enc obtain cs where "cd_zstd_reads C ?w b = Some (map Inr cs)" "[] \<notin> set cs" "concat cs = concat writes"
    unfolding zstd_ok_def by blast
  moreover have "within l (length (concat writes))" using assms(5) by (cases l) (auto simp: roomy_def)
  ultimately show ?thesis
    using assms(4) read_all_ok [of cs "[]" l] by (simp add: decode_payload_def decompress_payload_with_limit_def)
qed

section \<open>Loading over a repository\<close>

text \<open>What a payload entry of a manifest reads as.\<close>

definition entry_reads ::
  "'v BackupCodec \<Rightarrow> (str \<Rightarrow> 'r option) \<Rightarrow> blob_map \<Rightarrow> BackupSnapshotManifest \<Rightarrow> TableBackupEntry \<Rightarrow> 'r list \<Rightarrow> bool" where
  "entry_reads C parse V m e rows \<longleftrightarrow>
     (\<exists>b l payload. V (te_content_key e) = Some b \<and> decode_payload C b (dm_compression (sm_database m)) l = Inr payload
        \<and> parse_jsonl parse payload = Inr rows)"

definition keys_ok :: "BackupSnapshotManifest \<Rightarrow> bool" where
  "keys_ok m \<longleftrightarrow> (\<forall>e \<in> set (dm_tables (sm_database m) @ dm_changes (sm_database m)). te_content_key e \<in> backup_keys)"

context backup_repository
begin

lemma load_jsonl_acts:
  "acts rep V (load_jsonl_entries R C parse m e stage)
     (\<lambda>r V'. V' = V \<and> (te_content_key e \<in> backup_keys \<longrightarrow> entry_reads C parse V m e (fst r))) (\<lambda>_ V'. V' = V)"
  unfolding load_jsonl_entries_def Let_def
proof (cases "dm_export_format (sm_database m) = DATABASE_EXPORT_FORMAT", simp_all, rule acts_read [OF get_acts], simp,
    intro acts_check, simp_all, intro acts_done, goal_cases)
  case (1 body b l payload n rows)
  then show ?case by (auto simp: entry_reads_def dest: collect_backup_stream_ok)
qed (auto intro: acts_fail)

lemma load_table_exports_acts:
  "acts rep V (load_table_exports R C m)
     (\<lambda>ts V'. V' = V \<and> (keys_ok m \<longrightarrow> list_all2 (\<lambda>e t. tx_table_name t = te_table_name e \<and> entry_reads C (cd_row_parse C) V m e (tx_rows t))
        (dm_tables (sm_database m)) ts)) (\<lambda>_ V'. V' = V)"
proof -
  let ?ok = "\<lambda>e t. tx_table_name t = te_table_name e \<and> entry_reads C (cd_row_parse C) V m e (tx_rows t)"
  have loop: "acts rep V (for_each (dm_tables (sm_database m)) (\<lambda>table (exports, stage_bytes).
       perform (load_jsonl_entries R C (cd_row_parse C) m table stage_bytes) (\<lambda>(rows, stage_bytes).
       done_with (exports @ [\<lparr>tx_table_name = te_table_name table, tx_rows = rows\<rparr>], stage_bytes))) ([], 0))
     (\<lambda>acc V'. V' = V \<and> (keys_ok m \<longrightarrow> list_all2 ?ok (dm_tables (sm_database m)) (fst acc))) (\<lambda>_ V'. V' = V)"
  proof (rule acts_for_each [where I = "\<lambda>ys acc V'. V' = V \<and> (keys_ok m \<longrightarrow> list_all2 ?ok ys (fst acc))"], goal_cases)
    case (2 ys e zs acc V')
    then show ?case
      by (cases acc) (auto intro!: acts_read [OF load_jsonl_acts] acts_done simp: keys_ok_def list_all2_appendI)
  qed simp
  show ?thesis
    unfolding load_table_exports_def by (rule acts_read [OF loop]) (auto intro!: acts_done)
qed

lemma load_change_exports_acts:
  "acts rep V (load_change_exports R C m)
     (\<lambda>cs V'. V' = V \<and> (keys_ok m \<longrightarrow> (\<exists>css. cs = concat css \<and> list_all2 (entry_reads C (cd_change_parse C) V m) (dm_changes (sm_database m)) css)))
     (\<lambda>_ V'. V' = V)"
proof -
  let ?ok = "\<lambda>ys cs. \<exists>css. cs = concat css \<and> list_all2 (entry_reads C (cd_change_parse C) V m) ys css"
  have loop: "acts rep V (for_each (dm_changes (sm_database m)) (\<lambda>table (changes, stage_bytes).
       perform (load_jsonl_entries R C (cd_change_parse C) m table stage_bytes) (\<lambda>(entries, stage_bytes).
       done_with (changes @ entries, stage_bytes))) ([], 0))
     (\<lambda>acc V'. V' = V \<and> (keys_ok m \<longrightarrow> ?ok (dm_changes (sm_database m)) (fst acc))) (\<lambda>_ V'. V' = V)"
  proof (rule acts_for_each [where I = "\<lambda>ys acc V'. V' = V \<and> (keys_ok m \<longrightarrow> ?ok ys (fst acc))"], goal_cases)
    case (2 ys e zs acc V')
    have step: "?ok (ys @ [e]) (cs @ rows)" if "?ok ys cs" "entry_reads C (cd_change_parse C) V m e rows" for cs rows
    proof -
      from that(1) obtain css where "cs = concat css" "list_all2 (entry_reads C (cd_change_parse C) V m) ys css" by blast
      with that(2) show ?thesis by (intro exI [of _ "css @ [rows]"]) (simp add: list_all2_appendI)
    qed
    from 2 show ?case
      by (cases acc) (auto intro!: acts_read [OF load_jsonl_acts] acts_done step simp: keys_ok_def)
  qed simp
  show ?thesis
    unfolding load_change_exports_def by (rule acts_read [OF loop]) (auto intro!: acts_done)
qed

end

end
