(* ===== verification/Backup.thy ===== *)
theory Backup
  imports Payload
begin

text \<open>
  Creating snapshots (\<open>graphql-orm-backup/src/backup.rs\<close>, \<open>planner.rs\<close>, \<open>database.rs\<close>, \<open>object_index.rs\<close>):
  full and incremental backups and the compaction of a chain. The database adapter and the object
  index belong to the application: they are records of functions on its state, and a backup runs
  on the pair of the repository and that state. Objects are written one after the other.
\<close>

section \<open>The application\<close>

type_synonym ('d, 'a) app = "'d \<Rightarrow> (BackupError + 'a) \<times> 'd"

definition app_done :: "'a \<Rightarrow> ('d, 'a) app" where
  "app_done x d = (Inr x, d)"

definition app_then :: "('d, 'a) app \<Rightarrow> ('a \<Rightarrow> ('d, 'b) app) \<Rightarrow> ('d, 'b) app" where
  "app_then m f d = (case m d of (Inl e, d') \<Rightarrow> (Inl e, d') | (Inr x, d') \<Rightarrow> f x d')"

record GraphqlOrmBackupSchema =
  gs_backend :: str
  gs_migration_version :: str
  gs_schema_hash :: str

datatype RestoreMode = EmptyDatabase | DryRun

record RestoreContext =
  rx_mode :: RestoreMode
  rx_disable_policies :: bool
  rx_disable_change_journal :: bool

record ('d, 'v) GraphqlOrmBackupAdapter =
  ad_schema_snapshot :: "('d, GraphqlOrmBackupSchema) app"
  ad_restore_target_is_empty :: "('d, bool) app"
  ad_export_full :: "('d, 'v BackupTableExport list) app"
  ad_export_incremental :: "uuid \<Rightarrow> ('d, 'v BackupChangeExport list) app"
  ad_restore_full :: "GraphqlOrmBackupSchema \<Rightarrow> 'v BackupTableExport list \<Rightarrow> RestoreContext \<Rightarrow> ('d, unit) app"
  ad_restore_incremental :: "'v BackupChangeExport list \<Rightarrow> RestoreContext \<Rightarrow> ('d, unit) app"

definition default_restore_target_is_empty :: "('d, bool) app" where
  "default_restore_target_is_empty d = (Inl (BeUnsupportedOperation ''restore target emptiness check''), d)"

record BackupObjectRef =
  or_object_id :: uuid
  or_storage_key :: str
  or_sha256_hex :: str
  or_size_bytes :: nat
  or_mime_type :: "str option"

record 'd BackupObjectIndex =
  ix_list_full :: "('d, BackupObjectRef list) app"
  ix_list_incremental :: "uuid \<Rightarrow> ('d, BackupObjectRef list) app"
  ix_load_object :: "BackupObjectRef \<Rightarrow> ('d, str) app"
  ix_load_object_stream :: "BackupObjectRef \<Rightarrow> ('d, ByteStream) app"

text \<open>The buffered default of the streaming loader.\<close>

definition default_load_object_stream ::
  "BackupByteLimit \<Rightarrow> (BackupObjectRef \<Rightarrow> ('d, str) app) \<Rightarrow> BackupObjectRef \<Rightarrow> ('d, ByteStream) app" where
  "default_load_object_stream limit load_object object =
     app_then (\<lambda>d. (limit_check limit (or_size_bytes object), d)) (\<lambda>_.
     app_then (load_object object) (\<lambda>bytes.
     app_then (\<lambda>d. (limit_check limit (length bytes), d)) (\<lambda>_.
     app_done (stream_from_bytes bytes))))"

record 'v FullBackupPlan =
  pl_schema :: GraphqlOrmBackupSchema
  pl_tables :: "'v BackupTableExport list"
  pl_objects :: "BackupObjectRef list"

definition plan_full_backup ::
  "('d, 'v) GraphqlOrmBackupAdapter \<Rightarrow> 'd BackupObjectIndex \<Rightarrow> ('d, 'v FullBackupPlan) app" where
  "plan_full_backup database objects =
     app_then (ad_schema_snapshot database) (\<lambda>schema.
     app_then (ad_export_full database) (\<lambda>tables.
     app_then (ix_list_full objects) (\<lambda>refs.
     app_done \<lparr>pl_schema = schema, pl_tables = tables, pl_objects = refs\<rparr>)))"

text \<open>Operations of the repository and of the application on the pair of their states.\<close>

definition in_repository :: "('s, 'e, 'a) action \<Rightarrow> ('s \<times> 'd, 'e, 'a) action" where
  "in_repository m = (\<lambda>(s, d). map_option (\<lambda>(r, s'). (r, (s', d))) (m s))"

definition in_application :: "('d, 'a) app \<Rightarrow> ('s \<times> 'd, BackupError, 'a) action" where
  "in_application m = (\<lambda>(s, d). Some (fst (m d), (s, snd (m d))))"

section \<open>Objects\<close>

text \<open>The stream handed to the repository hashes and counts what passes through it.\<close>

fun counted_chunks :: "nat \<Rightarrow> (StorageError + str) list \<Rightarrow> (StorageError + str) list" where
  "counted_chunks n [] = []"
| "counted_chunks n (Inl e # cs) = Inl e # counted_chunks n cs"
| "counted_chunks n (Inr c # cs) =
     (case u64_checked_add n (length c) of
        None \<Rightarrow> Inl (SePreconditionFailed ''object stream'' ''byte count overflow'') # counted_chunks n cs
      | Some n' \<Rightarrow> Inr c # counted_chunks n' cs)"

definition counted_stream :: "ByteStream \<Rightarrow> ByteStream" where
  "counted_stream source = \<lparr>st_chunks = counted_chunks 0 (st_chunks source), st_size_hint = None\<rparr>"

definition passed_bytes :: "ByteStream \<Rightarrow> str" where
  "passed_bytes st = concat (map (\<lambda>c. case c of Inl _ \<Rightarrow> [] | Inr bytes \<Rightarrow> bytes) (st_chunks st))"

definition write_object_entry ::
  "'s BackupRepository \<Rightarrow> 'v BackupCodec \<Rightarrow> 'd BackupObjectIndex \<Rightarrow> BackupObjectRef \<Rightarrow> ('s \<times> 'd, BackupError, ObjectBackupEntry) action" where
  "write_object_entry R C objects object =
     (let content_key = object_content_key (or_sha256_hex object);
          mismatch = (\<lambda>actual. BeChecksumMismatch content_key (or_sha256_hex object) actual) in
      perform (in_application (ix_load_object_stream objects object)) (\<lambda>source.
      perform (in_repository (rp_put_blob_stream_if_absent R content_key (counted_stream source))) (\<lambda>written.
      perform
        (if written then done_with (cd_sha256 C (passed_bytes (counted_stream source)), length (passed_bytes (counted_stream source)))
         else
           perform (in_application (ix_load_object_stream objects object)) (\<lambda>again.
           perform (of_result (hash_stream C again)) (\<lambda>(source_checksum, _).
           if source_checksum \<noteq> or_sha256_hex object then fail_with (mismatch source_checksum)
           else perform (in_repository (verify_blob_checksum R C content_key (or_sha256_hex object))) (\<lambda>bytes_read.
             done_with (or_sha256_hex object, bytes_read)))))
        (\<lambda>(actual, observed_size).
      if actual \<noteq> or_sha256_hex object
        then perform (if written then in_repository (rp_delete_blob R content_key) else done_with ()) (\<lambda>_. fail_with (mismatch actual))
      else done_with
        \<lparr>oe_object_id = or_object_id object, oe_storage_key = or_storage_key object, oe_content_key = content_key,
         oe_sha256_hex = or_sha256_hex object, oe_size_bytes = observed_size, oe_mime_type = or_mime_type object\<rparr>))))"

definition write_object_entries ::
  "'s BackupRepository \<Rightarrow> 'v BackupCodec \<Rightarrow> 'd BackupObjectIndex \<Rightarrow> BackupObjectRef list \<Rightarrow>
     ('s \<times> 'd, BackupError, ObjectBackupEntry list) action" where
  "write_object_entries R C objects object_refs =
     for_each object_refs (\<lambda>object entries.
       perform (write_object_entry R C objects object) (\<lambda>entry. done_with (entries @ [entry]))) []"

section \<open>Snapshots\<close>

record FullBackupRequest =
  fr_snapshot_id :: uuid
  fr_created_at :: int
  fr_app_id :: str
  fr_app_version :: str

record IncrementalBackupRequest =
  ir_snapshot_id :: uuid
  ir_parent_snapshot_id :: uuid
  ir_created_at :: int
  ir_app_id :: str
  ir_app_version :: str

definition write_manifest ::
  "'s BackupRepository \<Rightarrow> 'v BackupCodec \<Rightarrow> BackupSnapshotManifest \<Rightarrow> ('s, BackupError, BackupSnapshotManifest) action" where
  "write_manifest R C manifest =
     perform (of_result (set_manifest_checksum C manifest)) (\<lambda>manifest.
     perform (of_result (or_fail BeSerialization (cd_manifest_pretty C manifest))) (\<lambda>body.
     perform (rp_put_blob R (snapshot_manifest_key (sm_snapshot_id manifest)) body) (\<lambda>_. done_with manifest)))"

text \<open>Serializing a payload, writing it and recording its entry, for tables and for change groups.\<close>

definition write_payload ::
  "'s BackupRepository \<Rightarrow> 'v BackupCodec \<Rightarrow> str \<Rightarrow> str \<Rightarrow> nat \<Rightarrow> BackupError + str \<Rightarrow> ('s, BackupError, TableBackupEntry) action" where
  "write_payload R C table_name content_key rows serialized =
     perform (of_result serialized) (\<lambda>bytes.
     perform (rp_put_blob R content_key bytes) (\<lambda>_.
     done_with \<lparr>te_table_name = table_name, te_row_count = rows, te_content_key = content_key, te_sha256_hex = cd_sha256 C bytes\<rparr>))"

definition write_tables ::
  "'s BackupRepository \<Rightarrow> 'v BackupCodec \<Rightarrow> uuid \<Rightarrow> 'v BackupTableExport list \<Rightarrow> ('s, BackupError, TableBackupEntry list \<times> nat) action" where
  "write_tables R C snapshot_id tables =
     for_each tables (\<lambda>table (entries, row_count).
       perform (write_payload R C (tx_table_name table) (database_table_key snapshot_id (tx_table_name table))
         (length (tx_rows table)) (serialize_table_export C table)) (\<lambda>entry.
       done_with (entries @ [entry], row_count + length (tx_rows table)))) ([], 0)"

definition create_full_backup_inner ::
  "'s BackupRepository \<Rightarrow> 'v BackupCodec \<Rightarrow> ('d, 'v) GraphqlOrmBackupAdapter \<Rightarrow> 'd BackupObjectIndex \<Rightarrow> FullBackupRequest \<Rightarrow>
     ('s \<times> 'd, BackupError, BackupSnapshotManifest) action" where
  "create_full_backup_inner R C database objects request =
     perform (in_application (plan_full_backup database objects)) (\<lambda>plan.
     perform (in_repository (write_tables R C (fr_snapshot_id request) (pl_tables plan))) (\<lambda>(table_entries, row_count).
     perform (write_object_entries R C objects (pl_objects plan)) (\<lambda>object_entries.
     in_repository (write_manifest R C
       \<lparr>sm_format_version = BACKUP_FORMAT_VERSION, sm_snapshot_id = fr_snapshot_id request, sm_parent_snapshot_id = None,
        sm_created_at = fr_created_at request, sm_app_id = fr_app_id request, sm_app_version = fr_app_version request,
        sm_schema_version = gs_migration_version (pl_schema plan), sm_schema_hash = gs_schema_hash (pl_schema plan),
        sm_database_backend = gs_backend (pl_schema plan), sm_backup_kind = Full,
        sm_database = \<lparr>dm_export_format = DATABASE_EXPORT_FORMAT, dm_compression = Zstd, dm_row_count = row_count,
          dm_table_count = length table_entries, dm_tables = table_entries, dm_changes = []\<rparr>,
        sm_objects = object_entries, sm_tombstones = [], sm_checksum = []\<rparr>))))"

text \<open>A writer that also uses the application takes the lock of the repository in the same way.\<close>

definition locked_with :: "'s BackupRepository \<Rightarrow> int \<Rightarrow> ('s \<times> 'd, BackupError, 'a) action \<Rightarrow> ('s \<times> 'd, BackupError, 'a) action" where
  "locked_with R now m =
     perform (in_repository (acquire R now)) (\<lambda>_.
     perform (observe m) (\<lambda>result. in_repository (release_lock R result)))"

definition create_full_backup ::
  "'s BackupRepository \<Rightarrow> 'v BackupCodec \<Rightarrow> ('d, 'v) GraphqlOrmBackupAdapter \<Rightarrow> 'd BackupObjectIndex \<Rightarrow> int \<Rightarrow> FullBackupRequest \<Rightarrow>
     ('s \<times> 'd, BackupError, BackupSnapshotManifest) action" where
  "create_full_backup R C database objects now request =
     locked_with R now (create_full_backup_inner R C database objects request)"

record 'v ChangeGroup =
  cg_table_name :: str
  cg_changes :: "'v BackupChangeExport list"

fun add_to_group :: "'v BackupChangeExport \<Rightarrow> 'v ChangeGroup list \<Rightarrow> 'v ChangeGroup list" where
  "add_to_group change [] = [\<lparr>cg_table_name = ce_table_name change, cg_changes = [change]\<rparr>]"
| "add_to_group change (grp # groups) =
     (if cg_table_name grp = ce_table_name change then grp\<lparr>cg_changes := cg_changes grp @ [change]\<rparr> # groups
      else grp # add_to_group change groups)"

definition group_changes_by_table :: "'v BackupChangeExport list \<Rightarrow> 'v ChangeGroup list" where
  "group_changes_by_table changes = fold add_to_group changes []"

definition changes_to_tombstones :: "'v BackupChangeExport list \<Rightarrow> BackupTombstone list" where
  "changes_to_tombstones changes =
     map (\<lambda>change. \<lparr>ts_table_name = Some (ce_table_name change), ts_primary_key = Some (ce_primary_key change),
         ts_object_id = None, ts_deleted_at = ce_changed_at change\<rparr>)
       (filter (\<lambda>change. ce_action change = DeleteRow) changes)"

definition write_changes ::
  "'s BackupRepository \<Rightarrow> 'v BackupCodec \<Rightarrow> uuid \<Rightarrow> 'v ChangeGroup list \<Rightarrow> ('s, BackupError, TableBackupEntry list \<times> nat) action" where
  "write_changes R C snapshot_id groups =
     for_each groups (\<lambda>grp (entries, change_count).
       perform (write_payload R C (cg_table_name grp) (database_changes_key snapshot_id (cg_table_name grp))
         (length (cg_changes grp)) (serialize_jsonl_entries C (cd_change_json C) (cg_changes grp))) (\<lambda>entry.
       done_with (entries @ [entry], change_count + length (cg_changes grp)))) ([], 0)"

definition create_incremental_backup_inner ::
  "'s BackupRepository \<Rightarrow> 'v BackupCodec \<Rightarrow> ('d, 'v) GraphqlOrmBackupAdapter \<Rightarrow> 'd BackupObjectIndex \<Rightarrow> IncrementalBackupRequest \<Rightarrow>
     ('s \<times> 'd, BackupError, BackupSnapshotManifest) action" where
  "create_incremental_backup_inner R C database objects request =
     perform (in_application (ad_schema_snapshot database)) (\<lambda>schema.
     perform (in_application (ad_export_incremental database (ir_parent_snapshot_id request))) (\<lambda>changes.
     perform (in_application (ix_list_incremental objects (ir_parent_snapshot_id request))) (\<lambda>object_refs.
     perform (in_repository (write_changes R C (ir_snapshot_id request) (group_changes_by_table changes))) (\<lambda>(change_entries, change_count).
     perform (write_object_entries R C objects object_refs) (\<lambda>object_entries.
     in_repository (write_manifest R C
       \<lparr>sm_format_version = BACKUP_FORMAT_VERSION, sm_snapshot_id = ir_snapshot_id request,
        sm_parent_snapshot_id = Some (ir_parent_snapshot_id request), sm_created_at = ir_created_at request,
        sm_app_id = ir_app_id request, sm_app_version = ir_app_version request,
        sm_schema_version = gs_migration_version schema, sm_schema_hash = gs_schema_hash schema,
        sm_database_backend = gs_backend schema, sm_backup_kind = Incremental,
        sm_database = \<lparr>dm_export_format = DATABASE_EXPORT_FORMAT, dm_compression = Zstd, dm_row_count = change_count,
          dm_table_count = 0, dm_tables = [], dm_changes = change_entries\<rparr>,
        sm_objects = object_entries, sm_tombstones = changes_to_tombstones changes, sm_checksum = []\<rparr>))))))"

definition create_incremental_backup ::
  "'s BackupRepository \<Rightarrow> 'v BackupCodec \<Rightarrow> ('d, 'v) GraphqlOrmBackupAdapter \<Rightarrow> 'd BackupObjectIndex \<Rightarrow> int \<Rightarrow> IncrementalBackupRequest \<Rightarrow>
     ('s \<times> 'd, BackupError, BackupSnapshotManifest) action" where
  "create_incremental_backup R C database objects now request =
     locked_with R now (create_incremental_backup_inner R C database objects request)"

section \<open>Compaction\<close>

record CompactChainRequest =
  cr_snapshot_id :: uuid
  cr_source_snapshot_id :: uuid
  cr_created_at :: int
  cr_app_id :: str
  cr_app_version :: str

type_synonym 'v table_rows = "(str, (str, 'v BackupRow) btree) btree"

definition or_default :: "'k::linorder \<Rightarrow> ('k, 'a list) btree \<Rightarrow> 'a list" where
  "or_default k m = (case btree_get m k of None \<Rightarrow> [] | Some v \<Rightarrow> v)"

definition insert_table :: "'v BackupTableExport \<Rightarrow> 'v table_rows \<Rightarrow> 'v table_rows" where
  "insert_table table table_rows =
     btree_insert (tx_table_name table)
       (fold (\<lambda>row rows. btree_insert (rw_primary_key row) row rows) (tx_rows table) (or_default (tx_table_name table) table_rows))
       table_rows"

text \<open>The tables whose every base row is identified by a JSON array of at least two parts.\<close>

definition composite_tables :: "'v BackupCodec \<Rightarrow> 'v table_rows \<Rightarrow> str list" where
  "composite_tables C table_rows =
     map fst (filter (\<lambda>(_, rows). rows \<noteq> [] \<and> (\<forall>(key, _) \<in> set rows.
       case cd_key_parts C key of None \<Rightarrow> False | Some parts \<Rightarrow> 2 \<le> length parts)) table_rows)"

definition apply_change :: "'v BackupChangeExport \<Rightarrow> 'v table_rows \<Rightarrow> 'v table_rows" where
  "apply_change change table_rows =
     (let rows = or_default (ce_table_name change) table_rows in
      btree_insert (ce_table_name change)
        (case ce_action change of
           DeleteRow \<Rightarrow> filter (\<lambda>(key, _). key \<noteq> ce_primary_key change) rows
         | _ \<Rightarrow> (case ce_row change of None \<Rightarrow> rows | Some row \<Rightarrow> btree_insert (ce_primary_key change) row rows))
        table_rows)"

fun apply_changes :: "str list \<Rightarrow> 'v BackupChangeExport list \<Rightarrow> 'v table_rows \<Rightarrow> BackupError + 'v table_rows" where
  "apply_changes composite [] table_rows = Inr table_rows"
| "apply_changes composite (change # changes) table_rows =
     (if ce_table_name change \<in> set composite
        then Inl (BeInvalidManifestChain (''incremental changes to composite-key table '' @ ce_table_name change @ '' cannot be compacted''))
      else apply_changes composite changes (apply_change change table_rows))"

text \<open>The last entry of every object that no tombstone of the chain names, by identifier.\<close>

definition compact_object_entries :: "BackupSnapshotManifest list \<Rightarrow> ObjectBackupEntry list" where
  "compact_object_entries chain =
     (let tombstoned = set (List.map_filter ts_object_id (concat (map sm_tombstones chain)));
          objects_by_id = fold (\<lambda>object m. if oe_object_id object \<in> tombstoned then m else btree_insert (uint (oe_object_id object)) object m)
            (concat (map sm_objects chain)) [] in
      map snd objects_by_id)"

definition synthetic_tables :: "'v table_rows \<Rightarrow> 'v BackupTableExport list" where
  "synthetic_tables table_rows = map (\<lambda>(table_name, rows). \<lparr>tx_table_name = table_name, tx_rows = map snd rows\<rparr>) table_rows"

definition compact_chain_inner ::
  "'s BackupRepository \<Rightarrow> 'v BackupCodec \<Rightarrow> CompactChainRequest \<Rightarrow> ('s, BackupError, BackupSnapshotManifest) action" where
  "compact_chain_inner R C request =
     perform (load_manifest_chain R C (cr_source_snapshot_id request)) (\<lambda>chain.
     perform (for_each chain (\<lambda>m _. perform (verify_manifest_and_objects R C m) (\<lambda>_. done_with ())) ()) (\<lambda>_.
     if chain = [] then fail_with (BeInvalidManifestChain ''manifest chain is empty'')
     else
     perform (load_table_exports R C (hd chain)) (\<lambda>tables.
     let base = fold insert_table tables []; composite = composite_tables C base in
     perform (for_each (tl chain) (\<lambda>m rows.
       perform (load_change_exports R C m) (\<lambda>changes. of_result (apply_changes composite changes rows))) base) (\<lambda>table_rows.
     perform (write_tables R C (cr_snapshot_id request) (synthetic_tables table_rows)) (\<lambda>(table_entries, row_count).
     perform (for_each (compact_object_entries chain) (\<lambda>object entries.
       perform (verify_blob_checksum R C (oe_content_key object) (oe_sha256_hex object)) (\<lambda>observed_size.
       done_with (entries @ [object\<lparr>oe_size_bytes := observed_size\<rparr>]))) []) (\<lambda>object_entries.
     let latest = last chain in
     write_manifest R C
       \<lparr>sm_format_version = BACKUP_FORMAT_VERSION, sm_snapshot_id = cr_snapshot_id request, sm_parent_snapshot_id = None,
        sm_created_at = cr_created_at request, sm_app_id = cr_app_id request, sm_app_version = cr_app_version request,
        sm_schema_version = sm_schema_version latest, sm_schema_hash = sm_schema_hash latest,
        sm_database_backend = sm_database_backend latest, sm_backup_kind = SyntheticFull,
        sm_database = \<lparr>dm_export_format = DATABASE_EXPORT_FORMAT, dm_compression = Zstd, dm_row_count = row_count,
          dm_table_count = length table_entries, dm_tables = table_entries, dm_changes = []\<rparr>,
        sm_objects = object_entries, sm_tombstones = [], sm_checksum = []\<rparr>))))))"

definition compact_chain ::
  "'s BackupRepository \<Rightarrow> 'v BackupCodec \<Rightarrow> int \<Rightarrow> CompactChainRequest \<Rightarrow> ('s, BackupError, BackupSnapshotManifest) action" where
  "compact_chain R C now request = locked R now (compact_chain_inner R C request)"

section \<open>What a backup may change\<close>

text \<open>
  A backup with identifier \<open>i\<close> writes payloads in its own directory, its manifest, and objects that
  were not there.
\<close>

definition own_manifest :: "'v BackupCodec \<Rightarrow> uuid \<Rightarrow> str option \<Rightarrow> bool" where
  "own_manifest C i blob \<longleftrightarrow> (\<exists>b m. blob = Some b \<and> cd_manifest_pretty C m = Some b \<and> sm_snapshot_id m = i \<and> own_keys m)"

definition added :: "'v BackupCodec \<Rightarrow> uuid \<Rightarrow> str \<Rightarrow> str option \<Rightarrow> str option \<Rightarrow> bool" where
  "added C i k x x' \<longleftrightarrow> x' = x \<or> x = None \<and> under ''objects/sha256'' k
     \<or> (if k = snapshot_manifest_key i then own_manifest C i x' else under (snapshot_dir i) k)"

definition adds :: "'v BackupCodec \<Rightarrow> uuid \<Rightarrow> blob_map \<Rightarrow> blob_map \<Rightarrow> bool" where
  "adds C i V V' \<longleftrightarrow> (\<forall>k. added C i k (V k) (V' k))"

definition adds_objects :: "blob_map \<Rightarrow> blob_map \<Rightarrow> bool" where
  "adds_objects V V' \<longleftrightarrow> (\<forall>k. V' k = V k \<or> V k = None \<and> under ''objects/sha256'' k)"

lemma adds_refl [simp]: "adds C i V V" "adds_objects V V"
  by (simp_all add: adds_def added_def adds_objects_def)

lemma added_trans: "added C i k x y \<Longrightarrow> added C i k y z \<Longrightarrow> added C i k x z"
  unfolding added_def by (cases "k = snapshot_manifest_key i") (auto simp: manifest_key_shape)

lemma adds_trans: "adds C i V V1 \<Longrightarrow> adds C i V1 V2 \<Longrightarrow> adds C i V V2"
  unfolding adds_def by (blast intro: added_trans)

lemma adds_objects_trans: "adds_objects V V1 \<Longrightarrow> adds_objects V1 V2 \<Longrightarrow> adds_objects V V2"
  unfolding adds_objects_def by metis

lemma adds_objects_adds: "adds_objects V V' \<Longrightarrow> adds C i V V'"
  unfolding adds_objects_def adds_def added_def by blast

lemma adds_update: "adds C i V V1 \<Longrightarrow> added C i k (V k) x \<Longrightarrow> adds C i V (V1(k := x))"
  unfolding adds_def by simp

lemma adds_dir_key:
  "under (snapshot_dir i) k \<Longrightarrow> k \<noteq> snapshot_manifest_key i \<Longrightarrow> adds C i V V1 \<Longrightarrow> adds C i V (V1(k \<mapsto> b))"
  by (rule adds_update) (simp_all add: added_def)

lemma adds_manifest:
  "cd_manifest_pretty C m = Some b \<Longrightarrow> sm_snapshot_id m = i \<Longrightarrow> own_keys m \<Longrightarrow> adds C i V V1 \<Longrightarrow>
     adds C i V (V1(snapshot_manifest_key i \<mapsto> b))"
  by (rule adds_update) (auto simp: added_def own_manifest_def)

lemma adds_keys:
  assumes "\<forall>k. k \<notin> key ` A \<longrightarrow> V' k = V k" "\<And>n. under (snapshot_dir i) (key n)" "\<And>n. key n \<noteq> snapshot_manifest_key i"
  shows "adds C i V V'"
  unfolding adds_def
proof
  fix k
  show "added C i k (V k) (V' k)"
    using assms by (cases "k \<in> key ` A") (auto simp: added_def)
qed

lemma object_key_under: "under ''objects/sha256'' (object_content_key h)"
  by (simp add: under_def object_content_key_def starts_with_def Let_def)

lemma payload_key_dir:
  "under (snapshot_dir i) (database_table_key i t)" "under (snapshot_dir i) (database_changes_key i t)"
  "under (snapshot_dir i) (snapshot_manifest_key i)"
  by (simp_all add: under_def snapshot_dir_def database_table_key_def database_changes_key_def snapshot_manifest_key_def
      starts_with_iff_prefix prefix_def)

lemma payload_key_inj:
  "database_table_key i t = database_table_key i t' \<longleftrightarrow> t = t'" "database_changes_key i t = database_changes_key i t' \<longleftrightarrow> t = t'"
  by (simp_all add: database_table_key_def database_changes_key_def)

lemma manifest_not_payload:
  "database_table_key i t \<noteq> snapshot_manifest_key i" "database_changes_key i t \<noteq> snapshot_manifest_key i"
  "object_content_key h \<noteq> snapshot_manifest_key i"
  by (simp_all add: database_table_key_def database_changes_key_def snapshot_manifest_key_def object_content_key_def)

text \<open>The pair of a repository and the application, seen as its blobs and the application's state.\<close>

definition with_app :: "('v \<Rightarrow> 's \<Rightarrow> bool) \<Rightarrow> 'v \<times> 'd \<Rightarrow> 's \<times> 'd \<Rightarrow> bool" where
  "with_app rep v w \<longleftrightarrow> rep (fst v) (fst w) \<and> snd v = snd w"

lemma in_repository_acts:
  assumes "acts rep (fst v) m Q E"
  shows "acts (with_app rep) v (in_repository m) (\<lambda>x v'. Q x (fst v') \<and> snd v' = snd v) (\<lambda>e v'. E e (fst v') \<and> snd v' = snd v)"
proof (rule acts_runs, rule runsI)
  fix w
  assume w: "with_app rep v w"
  then obtain r s' V' where "m (fst w) = Some (r, s')" "rep V' s'" "case r of Inl e \<Rightarrow> E e V' | Inr x \<Rightarrow> Q x V'"
    using acts_ends [OF assms, of "fst w"] by (auto simp: with_app_def)
  with w show "\<exists>r w'. in_repository m w = Some (r, w') \<and>
      (case r of Inl e \<Rightarrow> \<exists>v'. with_app rep v' w' \<and> E e (fst v') \<and> snd v' = snd v
       | Inr x \<Rightarrow> \<exists>v'. with_app rep v' w' \<and> Q x (fst v') \<and> snd v' = snd v)"
    by (cases w; cases r) (auto simp: in_repository_def with_app_def)
qed

lemma in_application_acts:
  "acts (with_app rep) v (in_application m) (\<lambda>x v'. fst v' = fst v \<and> m (snd v) = (Inr x, snd v'))
     (\<lambda>e v'. fst v' = fst v \<and> m (snd v) = (Inl e, snd v'))"
proof (rule acts_runs, rule runsI)
  fix w
  assume "with_app rep v w"
  then show "\<exists>r w'. in_application m w = Some (r, w') \<and>
      (case r of Inl e \<Rightarrow> \<exists>v'. with_app rep v' w' \<and> fst v' = fst v \<and> m (snd v) = (Inl e, snd v')
       | Inr x \<Rightarrow> \<exists>v'. with_app rep v' w' \<and> fst v' = fst v \<and> m (snd v) = (Inr x, snd v'))"
    by (cases v; cases w; cases "m (snd w)"; cases "fst (m (snd w))") (auto simp: in_application_def with_app_def)
qed

lemma application_step:
  assumes "\<And>x d'. m (snd v) = (Inr x, d') \<Longrightarrow> acts (with_app rep) (fst v, d') (f x) Q E" "\<And>e d'. E e (fst v, d')"
  shows "acts (with_app rep) v (perform (in_application m) f) Q E"
  by (rule acts_perform [OF acts_conseq [OF in_application_acts]], assumption) (use assms in \<open>force simp: prod_eq_iff\<close>)+

lemma collect_counted:
  "collect_chunks (counted_chunks n cs) = Inr b \<Longrightarrow> collect_chunks cs = Inr b
     \<and> concat (map (\<lambda>c. case c of Inl _ \<Rightarrow> [] | Inr bytes \<Rightarrow> bytes) (counted_chunks n cs)) = b"
proof (induction n cs arbitrary: b rule: counted_chunks.induct)
  case (3 n c cs)
  show ?case
  proof (cases "n + length c < 2 ^ 64")
    case True
    then have add: "u64_checked_add n (length c) = Some (n + length c)" by (simp add: u64_checked_add_def)
    have eq: "counted_chunks n (Inr c # cs) = Inr c # counted_chunks (n + length c) cs"
      using True by (simp add: u64_checked_add_def)
    from "3.prems" obtain r where r: "collect_chunks (counted_chunks (n + length c) cs) = Inr r" "b = c @ r"
      unfolding eq by (cases "collect_chunks (counted_chunks (n + length c) cs)") auto
    from "3.IH"(2) [OF add r(1)] r show ?thesis unfolding eq by simp
  next
    case False
    with "3.prems" show ?thesis by (simp add: u64_checked_add_def)
  qed
qed auto

lemma counted_stream_bytes:
  "collect_storage_stream (counted_stream st) = Inr b \<Longrightarrow> collect_storage_stream st = Inr b \<and> passed_bytes (counted_stream st) = b"
  using collect_counted [of 0 "st_chunks st" b] by (simp add: collect_storage_stream_def counted_stream_def passed_bytes_def)

section \<open>Writing payloads\<close>

text \<open>A payload entry and the blob it stands for.\<close>

definition payload_written :: "'v BackupCodec \<Rightarrow> blob_map \<Rightarrow> str \<Rightarrow> str \<Rightarrow> nat \<Rightarrow> BackupError + str \<Rightarrow> TableBackupEntry \<Rightarrow> bool" where
  "payload_written C V name key rows serialized e \<longleftrightarrow>
     te_table_name e = name \<and> te_row_count e = rows \<and> te_content_key e = key
     \<and> (\<exists>b. serialized = Inr b \<and> V key = Some b \<and> te_sha256_hex e = cd_sha256 C b)"

lemma payload_written_cong: "V' key = V key \<Longrightarrow> payload_written C V' name key rows r e = payload_written C V name key rows r e"
  by (simp add: payload_written_def)

definition table_written :: "'v BackupCodec \<Rightarrow> blob_map \<Rightarrow> uuid \<Rightarrow> 'v BackupTableExport \<Rightarrow> TableBackupEntry \<Rightarrow> bool" where
  "table_written C V i t e \<longleftrightarrow>
     payload_written C V (tx_table_name t) (database_table_key i (tx_table_name t)) (length (tx_rows t)) (serialize_table_export C t) e"

definition changes_written :: "'v BackupCodec \<Rightarrow> blob_map \<Rightarrow> uuid \<Rightarrow> 'v ChangeGroup \<Rightarrow> TableBackupEntry \<Rightarrow> bool" where
  "changes_written C V i g e \<longleftrightarrow>
     payload_written C V (cg_table_name g) (database_changes_key i (cg_table_name g)) (length (cg_changes g))
       (serialize_jsonl_entries C (cd_change_json C) (cg_changes g)) e"

context backup_repository
begin

lemma write_payload_acts:
  assumes "key \<in> backup_keys" "under (snapshot_dir i) key" "key \<noteq> snapshot_manifest_key i"
  shows "acts rep V (write_payload R C name key rows serialized)
    (\<lambda>e V'. payload_written C V' name key rows serialized e \<and> (\<forall>k. k \<noteq> key \<longrightarrow> V' k = V k)) (\<lambda>_ V'. adds C i V V')"
  unfolding write_payload_def
  by (intro acts_check acts_perform [OF acts_conseq [OF put_acts [OF assms(1)]]] acts_done)
    (use assms(2,3) in \<open>auto simp: payload_written_def intro: adds_dir_key\<close>)

text \<open>A loop that writes one payload per element, under distinct keys.\<close>

lemma write_payloads_acts:
  fixes name :: "'x \<Rightarrow> str" and key :: "str \<Rightarrow> str"
  assumes "\<And>x. x \<in> set xs \<Longrightarrow> key (name x) \<in> backup_keys" "\<And>n. under (snapshot_dir i) (key n)" "\<And>n. key n \<noteq> snapshot_manifest_key i"
    and "inj key" "distinct (map name xs)"
  shows "acts rep V (for_each xs (\<lambda>x (entries, n).
      perform (write_payload R C (name x) (key (name x)) (rows x) (ser x)) (\<lambda>entry. done_with (entries @ [entry], n + rows x))) ([], 0))
    (\<lambda>acc V'. list_all2 (\<lambda>x. payload_written C V' (name x) (key (name x)) (rows x) (ser x)) xs (fst acc) \<and> snd acc = sum_list (map rows xs)
       \<and> (\<forall>k. k \<notin> key ` name ` set xs \<longrightarrow> V' k = V k)) (\<lambda>_ V'. adds C i V V')"
proof (rule acts_for_each [where I = "\<lambda>ys acc V'. list_all2 (\<lambda>x. payload_written C V' (name x) (key (name x)) (rows x) (ser x)) ys (fst acc)
      \<and> snd acc = sum_list (map rows ys) \<and> (\<forall>k. k \<notin> key ` name ` set ys \<longrightarrow> V' k = V k)"], goal_cases)
  case (2 ys x zs acc V1)
  let ?w = "\<lambda>V x. payload_written C V (name x) (key (name x)) (rows x) (ser x)"
  have x: "key (name x) \<in> backup_keys" using assms(1) 2(1) by simp
  have fresh: "key (name y) \<noteq> key (name x)" if "y \<in> set ys" for y
    using that assms(4,5) 2(1) by (auto simp: inj_eq image_iff)
  have adds: "adds C i V V1" using 2(2) assms(2,3) by (blast intro: adds_keys)
  show ?case
  proof (cases acc)
    case (Pair entries n)
    have step: "list_all2 (?w V2) (ys @ [x]) (entries @ [e]) \<and> (\<forall>k. k \<notin> key ` name ` set (ys @ [x]) \<longrightarrow> V2 k = V k)"
      if "?w V2 x e" "\<forall>k. k \<noteq> key (name x) \<longrightarrow> V2 k = V1 k" for e V2
    proof -
      have "list_all2 (?w V2) ys entries"
      proof (rule list.rel_mono_strong)
        show "list_all2 (?w V1) ys entries" using 2(2) Pair by simp
        show "?w V2 y e" if "y \<in> set ys" "?w V1 y e" for y e
          using fresh [OF that(1)] that(2) \<open>\<forall>k. k \<noteq> _ \<longrightarrow> _\<close> by (simp add: payload_written_cong [of V2 _ V1])
      qed
      with that 2(2) show ?thesis by (auto simp: list_all2_appendI)
    qed
    show ?thesis
      unfolding Pair prod.case
      by (rule acts_perform [OF acts_conseq [OF write_payload_acts [OF x assms(2,3)]]], assumption, erule adds_trans [OF adds], rule acts_done)
        (use step 2(2) Pair in auto)
  qed
qed simp

end

text \<open>An object entry and the blob it stands for.\<close>

definition object_written :: "'v BackupCodec \<Rightarrow> blob_map \<Rightarrow> BackupObjectRef \<Rightarrow> ObjectBackupEntry \<Rightarrow> bool" where
  "object_written C V ref e \<longleftrightarrow>
     oe_object_id e = or_object_id ref \<and> oe_storage_key e = or_storage_key ref \<and> oe_mime_type e = or_mime_type ref
     \<and> oe_sha256_hex e = or_sha256_hex ref \<and> oe_content_key e = object_content_key (or_sha256_hex ref)
     \<and> (\<exists>b. V (oe_content_key e) = Some b \<and> cd_sha256 C b = oe_sha256_hex e \<and> oe_size_bytes e = length b)"

lemma object_written_later:
  assumes "object_written C V ref e" "adds_objects V V'"
  shows "object_written C V' ref e"
proof -
  have "V' (oe_content_key e) = V (oe_content_key e)" using assms by (auto simp: object_written_def adds_objects_def)
  with assms(1) show ?thesis by (auto simp: object_written_def)
qed

lemma object_written_elsewhere:
  assumes "object_written C V ref e"
  shows "object_written C (V(snapshot_manifest_key i := x)) ref e"
proof -
  have "oe_content_key e \<noteq> snapshot_manifest_key i"
    using assms by (simp add: object_written_def object_content_key_def snapshot_manifest_key_def Let_def)
  with assms show ?thesis by (auto simp: object_written_def)
qed

lemma adds_object_key: "V k = None \<Longrightarrow> under ''objects/sha256'' k \<Longrightarrow> adds_objects V (V(k := x))"
  by (simp add: adds_objects_def)

context backup_repository
begin

abbreviation "wrep \<equiv> with_app rep"

lemma verify_in_repository:
  "acts wrep v (in_repository (verify_blob_checksum R C k h))
     (\<lambda>n v'. v' = v \<and> (k \<in> backup_keys \<longrightarrow> (\<exists>b. fst v k = Some b \<and> cd_sha256 C b = h \<and> n = length b))) (\<lambda>_ v'. v' = v)"
  by (rule acts_conseq [OF in_repository_acts [OF verify_blob_checksum_acts]]) (auto simp: prod_eq_iff)

lemma write_object_entry_acts:
  fixes ref :: BackupObjectRef
  assumes "plain_name (or_sha256_hex ref)"
  shows "acts wrep v (write_object_entry R C objects ref)
    (\<lambda>e v'. object_written C (fst v') ref e \<and> adds_objects (fst v) (fst v')) (\<lambda>_ v'. adds_objects (fst v) (fst v'))"
    (is "acts wrep v _ ?Q ?E")
proof -
  let ?h = "or_sha256_hex ref"
  let ?k = "object_content_key ?h"
  have k: "?k \<in> backup_keys" using assms by (rule object_key)
  note area = object_key_under [of ?h]
  have load: "acts wrep v (in_application (ix_load_object_stream objects ref)) (\<lambda>_ v'. fst v' = fst v) ?E"
    by (rule acts_conseq [OF in_application_acts]) auto
  have existing: "acts wrep v1 (perform (in_application (ix_load_object_stream objects ref)) (\<lambda>again.
         perform (of_result (hash_stream C again)) (\<lambda>(source_checksum, _).
         if source_checksum \<noteq> ?h then fail_with (BeChecksumMismatch ?k ?h source_checksum)
         else perform (in_repository (verify_blob_checksum R C ?k ?h)) (\<lambda>bytes_read. done_with (?h, bytes_read)))))
      (\<lambda>r v'. fst v' = fst v \<and> fst r = ?h \<and> (\<exists>b. fst v' ?k = Some b \<and> cd_sha256 C b = ?h \<and> snd r = length b)) ?E"
    if v1: "fst v1 = fst v" for v1
    by (rule acts_perform [OF acts_conseq [OF in_application_acts]], assumption, simp add: v1, intro acts_check, simp add: v1,
        auto intro!: acts_fail acts_read [OF verify_in_repository] acts_done simp: v1 k split: prod.split)
  have stored: "fst v ?k = None \<and> (\<exists>b. collect_storage_stream (counted_stream source) = Inr b \<and> fst v1 = (fst v)(?k \<mapsto> b)) \<Longrightarrow>
      acts wrep v1 (done_with (cd_sha256 C (passed_bytes (counted_stream source)), length (passed_bytes (counted_stream source))))
      (\<lambda>r v'. fst v ?k = None \<and> (\<exists>b. fst v' = (fst v)(?k \<mapsto> b) \<and> r = (cd_sha256 C b, length b))) ?E" for source v1
    by (rule acts_done) (auto dest!: counted_stream_bytes)
  show ?thesis
    unfolding write_object_entry_def Let_def
  proof (rule acts_perform [OF load], goal_cases)
    case (1 source v0)
    have put: "acts wrep v0 (in_repository (rp_put_blob_stream_if_absent R ?k (counted_stream source)))
        (\<lambda>written v'. if written then fst v ?k = None \<and> (\<exists>b. collect_storage_stream (counted_stream source) = Inr b \<and> fst v' = (fst v)(?k \<mapsto> b))
           else fst v' = fst v) ?E"
      by (rule acts_conseq [OF in_repository_acts [OF put_stream_if_absent_acts [OF k]]])
        (use 1 area in \<open>auto simp: adds_object_key split: if_splits\<close>)
    show ?case
    proof (rule acts_perform [OF put], goal_cases)
      case (1 written v1)
      show ?case
      proof (cases written)
        case True
        with 1 have "fst v ?k = None \<and> (\<exists>b. collect_storage_stream (counted_stream source) = Inr b \<and> fst v1 = (fst v)(?k \<mapsto> b))" by simp
        note first = stored [OF this]
        have delete: "acts wrep v2 (in_repository (rp_delete_blob R ?k)) (\<lambda>_ v'. adds_objects (fst v) (fst v')) ?E"
          if "fst v ?k = None" "fst v2 = (fst v)(?k \<mapsto> b)" for v2 b
          by (rule acts_conseq [OF in_repository_acts [OF delete_acts [OF k]]]) (use that area in \<open>auto simp: adds_object_key\<close>)
        show ?thesis
          unfolding if_P [OF True]
        proof (rule acts_perform [OF first], goal_cases)
          case (1 r v2)
          then obtain b where b: "fst v ?k = None" "fst v2 = (fst v)(?k \<mapsto> b)" "r = (cd_sha256 C b, length b)" by blast
          show ?case
            using b area by (auto intro!: acts_perform [OF delete [OF b(1,2)]] acts_fail acts_done simp: object_written_def adds_object_key)
        qed
      next
        case False
        with 1 have v1: "fst v1 = fst v" by simp
        show ?thesis
          unfolding if_not_P [OF False]
          by (rule acts_perform [OF existing [OF v1]]) (auto intro!: acts_done simp: object_written_def)
      qed
    qed
  qed
qed

end

section \<open>Writing snapshots\<close>

text \<open>A manifest in its JSON form is parsed back.\<close>

definition manifest_json_ok :: "'v BackupCodec \<Rightarrow> bool" where
  "manifest_json_ok C \<longleftrightarrow> (\<forall>m b. cd_manifest_pretty C m = Some b \<longrightarrow> cd_manifest_parse C b = Some m)"

lemma set_checksum_verifies:
  assumes "set_manifest_checksum C m = Inr m'"
  shows "verify_manifest_checksum C m' = Inr ()" and "\<exists>c. m' = m\<lparr>sm_checksum := c\<rparr>"
proof -
  obtain c where c: "manifest_checksum C m = Inr c" "m' = m\<lparr>sm_checksum := c\<rparr>"
    using assms by (cases "manifest_checksum C m") (auto simp: set_manifest_checksum_def)
  moreover have "manifest_checksum C m' = manifest_checksum C m"
    by (simp add: c(2) manifest_checksum_def checksum_view_def)
  ultimately show "verify_manifest_checksum C m' = Inr ()" by (simp add: verify_manifest_checksum_def)
  from c(2) show "\<exists>c. m' = m\<lparr>sm_checksum := c\<rparr>" by blast
qed

text \<open>The names and digests of a plan are single path components, and no table is exported twice.\<close>

definition plan_ok :: "'v FullBackupPlan \<Rightarrow> bool" where
  "plan_ok plan \<longleftrightarrow> distinct (map tx_table_name (pl_tables plan)) \<and> (\<forall>t \<in> set (pl_tables plan). plain_name (tx_table_name t))
     \<and> (\<forall>ref \<in> set (pl_objects plan). plain_name (or_sha256_hex ref))"

text \<open>A snapshot as it is in the repository: its manifest, and the blobs behind its entries.\<close>

definition snapshot_written ::
  "'v BackupCodec \<Rightarrow> blob_map \<Rightarrow> 'v BackupTableExport list \<Rightarrow> 'v ChangeGroup list \<Rightarrow> BackupSnapshotManifest \<Rightarrow> bool" where
  "snapshot_written C V tables groups m \<longleftrightarrow>
     stored C V (sm_snapshot_id m) m \<and> dm_export_format (sm_database m) = DATABASE_EXPORT_FORMAT \<and> dm_compression (sm_database m) = Zstd
     \<and> list_all2 (table_written C V (sm_snapshot_id m)) tables (dm_tables (sm_database m))
     \<and> list_all2 (changes_written C V (sm_snapshot_id m)) groups (dm_changes (sm_database m))
     \<and> (\<forall>e \<in> set (sm_objects m). payload_ok C V (oe_content_key e) (oe_sha256_hex e) \<and> under ''objects/sha256'' (oe_content_key e))"

lemma snapshot_written_intact:
  assumes "snapshot_written C V tables groups m"
  shows "intact C V m" and "own_keys m"
proof -
  have entry: "payload_ok C V (te_content_key e) (te_sha256_hex e) \<and> under (snapshot_dir (sm_snapshot_id m)) (te_content_key e)"
    if "e \<in> set (dm_tables (sm_database m) @ dm_changes (sm_database m))" for e
  proof -
    have "(\<exists>t. table_written C V (sm_snapshot_id m) t e) \<or> (\<exists>g. changes_written C V (sm_snapshot_id m) g e)"
      using assms that by (auto simp: snapshot_written_def list_all2_conv_all_nth in_set_conv_nth)
    then show ?thesis
      by (auto simp: table_written_def changes_written_def payload_written_def payload_ok_def payload_key_dir)
  qed
  with assms show "intact C V m" "own_keys m"
    unfolding snapshot_written_def intact_iff own_keys_def by blast+
qed

lemma object_written_ok:
  "list_all2 (object_written C V) refs entries \<Longrightarrow> e \<in> set entries \<Longrightarrow>
     payload_ok C V (oe_content_key e) (oe_sha256_hex e) \<and> under ''objects/sha256'' (oe_content_key e)"
  by (auto simp: list_all2_conv_all_nth in_set_conv_nth object_written_def payload_ok_def object_key_under)

context backup_repository
begin

lemma write_object_entries_acts:
  assumes "\<And>ref. ref \<in> set refs \<Longrightarrow> plain_name (or_sha256_hex ref)"
  shows "acts wrep v (write_object_entries R C objects refs)
    (\<lambda>entries v'. list_all2 (object_written C (fst v')) refs entries \<and> adds_objects (fst v) (fst v')) (\<lambda>_ v'. adds_objects (fst v) (fst v'))"
  unfolding write_object_entries_def
proof (rule acts_for_each [where I = "\<lambda>ys entries v'. list_all2 (object_written C (fst v')) ys entries \<and> adds_objects (fst v) (fst v')"], goal_cases)
  case (2 ys ref zs entries v1)
  have plain: "plain_name (or_sha256_hex ref)" using assms 2(1) by simp
  show ?case
  proof (rule acts_perform [OF acts_conseq [OF write_object_entry_acts [OF plain]]], assumption, goal_cases)
    case (1 e v')
    with 2(2) show ?case by (auto intro: adds_objects_trans)
  next
    case 3: (2 e v2)
    then have "list_all2 (object_written C (fst v2)) ys entries"
      using 2(2) by (auto elim!: list.rel_mono_strong intro: object_written_later)
    with 3 2(2) show ?case by (auto intro!: acts_done simp: list_all2_appendI intro: adds_objects_trans)
  qed
qed simp

lemma write_manifest_acts:
  assumes "i = sm_snapshot_id m" "own_keys m"
  shows "acts rep V (write_manifest R C m)
    (\<lambda>m' V'. verify_manifest_checksum C m' = Inr () \<and> (\<exists>c. m' = m\<lparr>sm_checksum := c\<rparr>)
       \<and> (\<exists>b. cd_manifest_pretty C m' = Some b \<and> V' = V(snapshot_manifest_key i \<mapsto> b))) (\<lambda>_ V'. adds C i V V')"
  unfolding write_manifest_def
proof (intro acts_check, simp, simp, goal_cases)
  case (1 m' b)
  from set_checksum_verifies [OF 1(1)] obtain c where c: "m' = m\<lparr>sm_checksum := c\<rparr>" "verify_manifest_checksum C m' = Inr ()" by blast
  then have i: "sm_snapshot_id m' = i" using assms by simp
  have own: "own_keys m'" using assms(2) c(1) by (simp add: own_keys_def)
  have b: "cd_manifest_pretty C m' = Some b" using 1(2) by (simp split: option.splits)
  show ?case
    unfolding i
    by (rule acts_perform [OF acts_conseq [OF put_acts [OF manifest_key]]], assumption, auto intro: adds_manifest [OF b i own])
      (rule acts_done, use b c in auto)
qed

end

lemma snapshot_finished:
  assumes "list_all2 (table_written C V1 i) tables (dm_tables (sm_database m))"
    and "list_all2 (changes_written C V1 i) groups (dm_changes (sm_database m))"
    and "adds_objects V1 V2" "\<And>e. e \<in> set (sm_objects m) \<Longrightarrow> payload_ok C V2 (oe_content_key e) (oe_sha256_hex e) \<and> under ''objects/sha256'' (oe_content_key e)"
    and "manifest_json_ok C" "cd_manifest_pretty C m = Some b" "verify_manifest_checksum C m = Inr ()"
    and "sm_snapshot_id m = i" "dm_export_format (sm_database m) = DATABASE_EXPORT_FORMAT" "dm_compression (sm_database m) = Zstd"
  shows "snapshot_written C (V2(snapshot_manifest_key i \<mapsto> b)) tables groups m"
proof -
  let ?V = "V2(snapshot_manifest_key i \<mapsto> b)"
  have keep: "payload_written C ?V n k r ser e" if "payload_written C V1 n k r ser e" "k \<noteq> snapshot_manifest_key i" for n k r ser e
  proof -
    have "V2 k = V1 k" using that(1) assms(3) by (auto simp: payload_written_def adds_objects_def)
    with that show ?thesis by (simp add: payload_written_cong [of ?V k V1])
  qed
  have "list_all2 (table_written C ?V i) tables (dm_tables (sm_database m))"
    using assms(1) by (rule list.rel_mono_strong) (simp add: table_written_def keep manifest_not_payload)
  moreover have "list_all2 (changes_written C ?V i) groups (dm_changes (sm_database m))"
    using assms(2) by (rule list.rel_mono_strong) (simp add: changes_written_def keep manifest_not_payload)
  moreover have "payload_ok C ?V (oe_content_key e) (oe_sha256_hex e)" if "e \<in> set (sm_objects m)" for e
    using assms(4) [OF that] manifest_key_shape(1) [of i] by (auto simp: payload_ok_def)
  moreover have "stored C ?V i m" using assms(5-7) by (simp add: stored_def manifest_json_ok_def)
  ultimately show ?thesis using assms(4,8-) by (simp add: snapshot_written_def)
qed

text \<open>The header of a full snapshot.\<close>

definition full_header :: "FullBackupRequest \<Rightarrow> GraphqlOrmBackupSchema \<Rightarrow> BackupSnapshotManifest \<Rightarrow> bool" where
  "full_header request schema m \<longleftrightarrow>
     sm_snapshot_id m = fr_snapshot_id request \<and> sm_parent_snapshot_id m = None \<and> sm_backup_kind m = Full
     \<and> sm_created_at m = fr_created_at request \<and> sm_app_id m = fr_app_id request \<and> sm_schema_version m = gs_migration_version schema
     \<and> sm_schema_hash m = gs_schema_hash schema
     \<and> sm_database_backend m = gs_backend schema"

context backup_repository
begin

lemma write_tables_acts:
  assumes "distinct (map tx_table_name tables)" "\<And>t. t \<in> set tables \<Longrightarrow> plain_name (tx_table_name t)"
  shows "acts rep V (write_tables R C i tables)
    (\<lambda>acc V'. list_all2 (table_written C V' i) tables (fst acc) \<and> snd acc = sum_list (map (\<lambda>t. length (tx_rows t)) tables) \<and> adds C i V V')
    (\<lambda>_ V'. adds C i V V')"
  unfolding write_tables_def
  by (rule acts_conseq [OF write_payloads_acts [where key = "database_table_key i" and i = i]])
    (use assms in \<open>auto simp: table_written_def [abs_def] inj_def payload_key_inj payload_key_dir manifest_not_payload intro: table_key
      adds_keys [where key = "database_table_key i", OF _ payload_key_dir(1) manifest_not_payload(1)]\<close>)

text \<open>The objects and then the manifest, on top of payloads that are in place.\<close>

lemma finish_snapshot_acts:
  assumes "manifest_json_ok C" "\<And>ref. ref \<in> set refs \<Longrightarrow> plain_name (or_sha256_hex ref)"
    and mk: "\<And>oes. sm_snapshot_id (mk oes) = i" "\<And>oes. sm_objects (mk oes) = oes" "\<And>oes. sm_database (mk oes) = db"
    and db: "dm_export_format db = DATABASE_EXPORT_FORMAT" "dm_compression db = Zstd"
    and "list_all2 (table_written C (fst v) i) tables (dm_tables db)" "list_all2 (changes_written C (fst v) i) groups (dm_changes db)"
    and "adds C i V (fst v)"
  shows "acts wrep v (perform (write_object_entries R C objects refs) (\<lambda>oes. in_repository (write_manifest R C (mk oes))))
    (\<lambda>m v'. adds C i V (fst v') \<and> snapshot_written C (fst v') tables groups m
       \<and> (\<exists>oes c. m = (mk oes)\<lparr>sm_checksum := c\<rparr> \<and> list_all2 (object_written C (fst v')) refs oes))
    (\<lambda>_ v'. adds C i V (fst v'))"
proof -
  have objs: "acts wrep v (write_object_entries R C objects refs)
      (\<lambda>oes v'. list_all2 (object_written C (fst v')) refs oes \<and> adds_objects (fst v) (fst v')) (\<lambda>_ v'. adds C i V (fst v'))"
    by (rule acts_conseq [OF write_object_entries_acts [OF assms(2)]])
      (use assms(10) in \<open>auto intro: adds_trans adds_objects_adds\<close>)
  show ?thesis
  proof (rule acts_perform [OF objs], goal_cases)
    case (1 oes v1)
    then have oes: "list_all2 (object_written C (fst v1)) refs oes" "adds_objects (fst v) (fst v1)" by auto
    have v1: "adds C i V (fst v1)" using oes(2) assms(10) by (blast intro: adds_trans adds_objects_adds)
    have finished: "adds C i V V' \<and> snapshot_written C V' tables groups m
        \<and> (\<exists>oes c. m = (mk oes)\<lparr>sm_checksum := c\<rparr> \<and> list_all2 (object_written C V') refs oes)"
      if m: "verify_manifest_checksum C m = Inr ()" "m = (mk oes)\<lparr>sm_checksum := c\<rparr>"
        and b: "cd_manifest_pretty C m = Some b" "V' = (fst v1)(snapshot_manifest_key i \<mapsto> b)" for m c b V'
    proof -
      have "snapshot_written C V' tables groups m"
        unfolding b(2)
        by (rule snapshot_finished [OF _ _ oes(2) _ assms(1) b(1) m(1)])
          (use assms(8,9) object_written_ok [OF oes(1)] in \<open>simp_all add: m(2) mk db\<close>)
      moreover from this have "own_keys m" by (rule snapshot_written_intact)
      then have "adds C i V V'" unfolding b(2) by (intro adds_manifest [OF b(1)]) (simp_all add: m(2) mk v1)
      moreover have "list_all2 (object_written C V') refs oes"
        using oes(1) by (rule list.rel_mono_strong) (simp add: b(2) object_written_elsewhere)
      ultimately show ?thesis using m(2) by blast
    qed
    have own: "own_keys (mk oes)"
      using assms(8,9) object_written_ok [OF oes(1)]
      by (auto simp: own_keys_def mk table_written_def changes_written_def payload_written_def payload_key_dir
          list_all2_conv_all_nth in_set_conv_nth)
    show ?case
      by (rule acts_conseq [OF in_repository_acts [OF write_manifest_acts [OF mk(1) [symmetric] own]]])
        (use finished v1 in \<open>blast intro: adds_trans\<close>)+
  qed
qed

lemma write_changes_acts:
  assumes "distinct (map cg_table_name groups)" "\<And>g. g \<in> set groups \<Longrightarrow> plain_name (cg_table_name g)"
  shows "acts rep V (write_changes R C i groups)
    (\<lambda>acc V'. list_all2 (changes_written C V' i) groups (fst acc) \<and> snd acc = sum_list (map (\<lambda>g. length (cg_changes g)) groups) \<and> adds C i V V')
    (\<lambda>_ V'. adds C i V V')"
  unfolding write_changes_def
  by (rule acts_conseq [OF write_payloads_acts [where key = "database_changes_key i" and i = i]])
    (use assms in \<open>auto simp: changes_written_def [abs_def] inj_def payload_key_inj payload_key_dir manifest_not_payload intro: changes_key
      adds_keys [where key = "database_changes_key i", OF _ payload_key_dir(2) manifest_not_payload(2)]\<close>)

lemma create_full_backup_inner_acts:
  assumes "manifest_json_ok C" "\<And>plan d'. plan_full_backup database objects (snd v) = (Inr plan, d') \<Longrightarrow> plan_ok plan"
    and i: "i = fr_snapshot_id request"
  shows "acts wrep v (create_full_backup_inner R C database objects request)
    (\<lambda>m v'. adds C i (fst v) (fst v') \<and> (\<exists>plan d'. plan_full_backup database objects (snd v) = (Inr plan, d')
       \<and> full_header request (pl_schema plan) m \<and> snapshot_written C (fst v') (pl_tables plan) [] m
       \<and> list_all2 (object_written C (fst v')) (pl_objects plan) (sm_objects m)))
    (\<lambda>_ v'. adds C i (fst v) (fst v'))"
  unfolding create_full_backup_inner_def
proof (rule acts_perform [OF acts_conseq [OF in_application_acts]], assumption, simp, goal_cases)
  case (1 plan v1)
  then have plan: "plan_ok plan" "fst v1 = fst v" using assms(2) by auto
  have tables: "acts wrep v1 (in_repository (write_tables R C (fr_snapshot_id request) (pl_tables plan)))
      (\<lambda>acc v'. list_all2 (table_written C (fst v') i) (pl_tables plan) (fst acc) \<and> adds C i (fst v) (fst v')) (\<lambda>_ v'. adds C i (fst v) (fst v'))"
    using plan unfolding i
    by (intro acts_conseq [OF in_repository_acts [OF write_tables_acts]]) (auto simp: plan_ok_def)
  show ?case
  proof (rule acts_perform [OF tables], goal_cases)
    case (1 acc v2)
    then show ?case
      using plan(1) \<open>fst v1 = fst v \<and> _\<close>
      by (cases acc, simp only: prod.case, intro acts_conseq [OF finish_snapshot_acts [OF assms(1), where i = i and tables = "pl_tables plan" and groups = "[]" and V = "fst v"]])
        (auto simp: plan_ok_def i full_header_def)
  qed
qed

end

section \<open>Incremental snapshots\<close>

text \<open>Grouping keeps the changes of a table together and in order.\<close>

definition groups_of :: "'v BackupChangeExport list \<Rightarrow> 'v ChangeGroup list \<Rightarrow> bool" where
  "groups_of changes groups \<longleftrightarrow>
     distinct (map cg_table_name groups) \<and> set (map cg_table_name groups) = ce_table_name ` set changes
     \<and> (\<forall>g \<in> set groups. cg_changes g = filter (\<lambda>c. ce_table_name c = cg_table_name g) changes)"

lemma add_to_group_names:
  "set (map cg_table_name (add_to_group c groups)) = insert (ce_table_name c) (set (map cg_table_name groups))"
  by (induction groups) auto

lemma add_to_group_distinct:
  "distinct (map cg_table_name groups) \<Longrightarrow> distinct (map cg_table_name (add_to_group c groups))"
proof (induction groups)
  case (Cons g groups)
  then show ?case using add_to_group_names [of c groups] by auto
qed simp

lemma add_to_group_changes:
  assumes "distinct (map cg_table_name groups)" "g \<in> set (add_to_group c groups)"
  shows "(cg_table_name g \<noteq> ce_table_name c \<and> g \<in> set groups)
    \<or> (cg_table_name g = ce_table_name c \<and> (cg_changes g = [c] \<and> ce_table_name c \<notin> set (map cg_table_name groups)
         \<or> (\<exists>g' \<in> set groups. cg_table_name g' = ce_table_name c \<and> cg_changes g = cg_changes g' @ [c])))"
  using assms by (induction groups) (auto simp: image_iff split: if_splits)

lemma groups_of_step:
  assumes "groups_of changes groups"
  shows "groups_of (changes @ [c]) (add_to_group c groups)"
proof -
  have d: "distinct (map cg_table_name groups)" and names: "set (map cg_table_name groups) = ce_table_name ` set changes"
    and ch: "\<And>g. g \<in> set groups \<Longrightarrow> cg_changes g = filter (\<lambda>c. ce_table_name c = cg_table_name g) changes"
    using assms by (auto simp: groups_of_def)
  have "cg_changes g = filter (\<lambda>c. ce_table_name c = cg_table_name g) (changes @ [c])" if "g \<in> set (add_to_group c groups)" for g
    using add_to_group_changes [OF d that]
  proof (elim disjE conjE bexE)
    assume "ce_table_name c \<notin> set (map cg_table_name groups)" "cg_table_name g = ce_table_name c" "cg_changes g = [c]"
    then have "\<forall>x \<in> set changes. ce_table_name x \<noteq> ce_table_name c"
      unfolding names by (metis imageI)
    then show ?thesis using \<open>cg_changes g = [c]\<close> \<open>cg_table_name g = _\<close> by (simp add: filter_False)
  qed (auto simp: ch)
  with d names show ?thesis
    using add_to_group_names [of c groups] add_to_group_distinct [OF d] by (auto simp: groups_of_def)
qed

lemma group_changes_groups: "groups_of changes (group_changes_by_table changes)"
  unfolding group_changes_by_table_def
proof (induction changes rule: rev_induct)
  case Nil
  show ?case by (simp add: groups_of_def)
next
  case (snoc c changes)
  then show ?case by (simp add: groups_of_step)
qed

definition incremental_header :: "IncrementalBackupRequest \<Rightarrow> GraphqlOrmBackupSchema \<Rightarrow> BackupSnapshotManifest \<Rightarrow> bool" where
  "incremental_header request schema m \<longleftrightarrow>
     sm_snapshot_id m = ir_snapshot_id request \<and> sm_parent_snapshot_id m = Some (ir_parent_snapshot_id request)
     \<and> sm_backup_kind m = Incremental \<and> sm_created_at m = ir_created_at request \<and> sm_app_id m = ir_app_id request
     \<and> sm_schema_hash m = gs_schema_hash schema \<and> sm_database_backend m = gs_backend schema"

text \<open>The names and digests of what the application reports since a snapshot are single path components.\<close>

definition incremental_ok :: "('d, 'v) GraphqlOrmBackupAdapter \<Rightarrow> 'd BackupObjectIndex \<Rightarrow> uuid \<Rightarrow> bool" where
  "incremental_ok database objects parent \<longleftrightarrow>
     (\<forall>d changes d'. ad_export_incremental database parent d = (Inr changes, d') \<longrightarrow> (\<forall>c \<in> set changes. plain_name (ce_table_name c)))
     \<and> (\<forall>d refs d'. ix_list_incremental objects parent d = (Inr refs, d') \<longrightarrow> (\<forall>ref \<in> set refs. plain_name (or_sha256_hex ref)))"

context backup_repository
begin

lemma create_incremental_backup_inner_acts:
  assumes "manifest_json_ok C" "incremental_ok database objects (ir_parent_snapshot_id request)"
    and i: "i = ir_snapshot_id request"
  shows "acts wrep v (create_incremental_backup_inner R C database objects request)
    (\<lambda>m v'. adds C i (fst v) (fst v') \<and> (\<exists>schema d1 changes d2 refs d3. ad_schema_snapshot database (snd v) = (Inr schema, d1)
       \<and> ad_export_incremental database (ir_parent_snapshot_id request) d1 = (Inr changes, d2)
       \<and> ix_list_incremental objects (ir_parent_snapshot_id request) d2 = (Inr refs, d3)
       \<and> list_all2 (object_written C (fst v')) refs (sm_objects m)
       \<and> incremental_header request schema m \<and> snapshot_written C (fst v') [] (group_changes_by_table changes) m
       \<and> sm_tombstones m = changes_to_tombstones changes))
    (\<lambda>_ v'. adds C i (fst v) (fst v'))"
  unfolding create_incremental_backup_inner_def
proof (rule application_step, rule application_step, rule application_step, goal_cases)
  case (1 schema d1 changes d2 refs d3)
  then have refs: "\<And>ref. ref \<in> set refs \<Longrightarrow> plain_name (or_sha256_hex ref)"
    and plain: "\<And>c. c \<in> set changes \<Longrightarrow> plain_name (ce_table_name c)"
    and schema: "ad_schema_snapshot database (snd v) = (Inr schema, d1)"
      "ad_export_incremental database (ir_parent_snapshot_id request) d1 = (Inr changes, d2)"
      "ix_list_incremental objects (ir_parent_snapshot_id request) d2 = (Inr refs, d3)"
    using assms(2) unfolding incremental_ok_def snd_conv by blast+
  let ?groups = "group_changes_by_table changes"
  have names: "distinct (map cg_table_name ?groups)" "\<And>g. g \<in> set ?groups \<Longrightarrow> plain_name (cg_table_name g)"
    using group_changes_groups [of changes] plain unfolding groups_of_def by force+
  have payloads: "acts wrep (fst v, d3) (in_repository (write_changes R C (ir_snapshot_id request) ?groups))
      (\<lambda>acc v'. list_all2 (changes_written C (fst v') i) ?groups (fst acc) \<and> adds C i (fst v) (fst v')) (\<lambda>_ v'. adds C i (fst v) (fst v'))"
    unfolding i by (rule acts_conseq [OF in_repository_acts [OF write_changes_acts [OF names]]]) auto
  show ?case
    unfolding fst_conv
  proof (rule acts_perform [OF payloads], goal_cases)
    case (1 acc v4)
    then show ?case
      using schema refs
      by (cases acc, simp only: prod.case, intro acts_conseq [OF finish_snapshot_acts [OF assms(1), where i = i and tables = "[]" and groups = "?groups" and V = "fst v"]])
        (auto simp: i incremental_header_def)
  qed
qed simp_all

end

section \<open>Under the lock\<close>

lemma payload_not_lock:
  "database_table_key i t \<noteq> REPOSITORY_LOCK_KEY" "database_changes_key i t \<noteq> REPOSITORY_LOCK_KEY"
  by (simp_all add: database_table_key_def database_changes_key_def REPOSITORY_LOCK_KEY_def)

lemma adds_other: "adds C i V V' \<Longrightarrow> \<not> under ''objects/sha256'' k \<Longrightarrow> \<not> under (snapshot_dir i) k \<Longrightarrow> V' k = V k"
  using manifest_key_dir [of i i] by (auto simp: adds_def added_def split: if_splits)

lemma adds_unlocked:
  assumes "adds C i (V(REPOSITORY_LOCK_KEY \<mapsto> x)) V1" "V REPOSITORY_LOCK_KEY = None" "unlocked V' = unlocked V1"
  shows "adds C i V (V'(REPOSITORY_LOCK_KEY := None))"
  unfolding adds_def
proof
  fix k
  have "added C i k ((V(REPOSITORY_LOCK_KEY \<mapsto> x)) k) (V1 k)" using assms(1) by (simp add: adds_def)
  moreover have "V'(REPOSITORY_LOCK_KEY := None) = V1(REPOSITORY_LOCK_KEY := None)" using assms(3) by (simp add: unlocked_def)
  ultimately show "added C i k (V k) ((V'(REPOSITORY_LOCK_KEY := None)) k)"
    using assms(2) by (cases "k = REPOSITORY_LOCK_KEY") (simp_all add: added_def)
qed

lemma objects_written_unlocked:
  "list_all2 (object_written C V) refs es \<Longrightarrow> list_all2 (object_written C (unlocked V)) refs es"
proof (erule list.rel_mono_strong)
  fix ref e
  assume e: "object_written C V ref e"
  then have "oe_content_key e \<noteq> REPOSITORY_LOCK_KEY"
    using lock_key_shape(1) object_key_under [of "or_sha256_hex ref"] by (auto simp: object_written_def)
  with e show "object_written C (unlocked V) ref e" by (auto simp: object_written_def unlocked_def)
qed

lemma snapshot_written_unlocked: "snapshot_written C V tables groups m \<Longrightarrow> snapshot_written C (unlocked V) tables groups m"
proof -
  assume m: "snapshot_written C V tables groups m"
  have "payload_ok C (unlocked V) k h" if "payload_ok C V k h" "under ''objects/sha256'' k" for k h
    using that lock_key_shape(1) by (auto simp: payload_ok_def unlocked_def)
  moreover have "table_written C (unlocked V) = table_written C V" "changes_written C (unlocked V) = changes_written C V"
    by (intro ext, simp add: table_written_def changes_written_def payload_written_def unlocked_def payload_not_lock)+
  moreover have "stored C (unlocked V) i m = stored C V i m" for i by (simp add: unlocked_def)
  ultimately show ?thesis
    using m by (simp add: snapshot_written_def)
qed

context backup_repository
begin

lemma locked_with_acts:
  assumes "fst v REPOSITORY_LOCK_KEY = None \<Longrightarrow> acts wrep ((fst v)(REPOSITORY_LOCK_KEY \<mapsto> show_int now), snd v) m Q E"
  shows "acts wrep v (locked_with R now m)
    (\<lambda>x v'. fst v REPOSITORY_LOCK_KEY = None \<and> (\<exists>v1. Q x v1 \<and> fst v' = unlocked (fst v1)))
    (\<lambda>_ v'. if fst v REPOSITORY_LOCK_KEY = None
       then unlocked (fst v') = fst v \<or> (\<exists>v1. ((\<exists>x. Q x v1) \<or> (\<exists>e. E e v1)) \<and> unlocked (fst v') = unlocked (fst v1)) else fst v' = fst v)"
    (is "acts wrep v _ ?Q ?E")
  unfolding locked_with_def
proof (rule acts_perform [OF acts_conseq [OF in_repository_acts [OF acquire_acts]]], assumption)
  fix u v1
  assume "(fst v REPOSITORY_LOCK_KEY = None \<and> fst v1 = (fst v)(REPOSITORY_LOCK_KEY \<mapsto> show_int now)) \<and> snd v1 = snd v"
  then have v1: "fst v REPOSITORY_LOCK_KEY = None" "v1 = ((fst v)(REPOSITORY_LOCK_KEY \<mapsto> show_int now), snd v)" by (auto simp: prod_eq_iff)
  have "acts wrep v1 (observe m) (\<lambda>r v2. case r of Inl e \<Rightarrow> E e v2 | Inr x \<Rightarrow> Q x v2) ?E"
    unfolding v1(2) by (rule acts_observe [OF assms [OF v1(1)]])
  then show "acts wrep v1 (perform (observe m) (\<lambda>result. in_repository (release_lock R result))) ?Q ?E"
  proof (rule acts_perform)
    fix result v2
    assume post: "case result of Inl e \<Rightarrow> E e v2 | Inr x \<Rightarrow> Q x v2"
    then have ex: "(\<exists>x. Q x v2) \<or> (\<exists>e. E e v2)" by (cases result) auto
    show "acts wrep v2 (in_repository (release_lock R result)) ?Q ?E"
    proof (rule acts_conseq [OF in_repository_acts [OF release_acts]], goal_cases)
      case (1 x v')
      then have "Q x v2" "fst v' = unlocked (fst v2)" using post by auto
      with v1(1) show ?case by blast
    next
      case (2 e v')
      then have "unlocked (fst v') = unlocked (fst v2)" by simp
      with ex have "\<exists>v1. ((\<exists>x. Q x v1) \<or> (\<exists>e. E e v1)) \<and> unlocked (fst v') = unlocked (fst v1)" by blast
      then show ?case unfolding if_P [OF v1(1)] by (rule disjI2)
    qed
  qed
qed (auto split: if_splits)

lemma locked_backup_acts:
  fixes v :: "blob_map \<times> 'd"
  assumes "\<And>V1. acts wrep (V1, snd v) m (\<lambda>x v'. adds C i V1 (fst v') \<and> P x (fst v')) (\<lambda>_ v'. adds C i V1 (fst v'))"
    and "\<And>x V. P x V \<Longrightarrow> P x (unlocked V)"
  shows "acts wrep v (locked_with R now m) (\<lambda>x v'. adds C i (fst v) (fst v') \<and> P x (fst v'))
    (\<lambda>_ v'. adds C i (fst v) ((fst v')(REPOSITORY_LOCK_KEY := fst v REPOSITORY_LOCK_KEY)))"
proof (rule acts_conseq [OF locked_with_acts [OF assms(1)]], goal_cases)
  case (1 x v')
  then show ?case using adds_unlocked [of C i "fst v" "show_int now" _ "fst v'"] assms(2)
    by (auto simp: unlocked_def fun_upd_idem)
next
  case (2 e v')
  then show ?case using adds_unlocked [of C i "fst v" "show_int now" _ "fst v'"]
    by (auto simp: unlocked_def fun_upd_idem split: if_splits)
qed

end

lemma adds_kept:
  assumes "well_kept C V" "adds C i V V'" "m \<in> manifests C V" "sm_snapshot_id m \<noteq> i"
  shows "stored C V' (sm_snapshot_id m) m" and "intact C V m \<Longrightarrow> intact C V' m"
proof -
  have st: "stored C V (sm_snapshot_id m) m" "own_keys m"
    using assms(1,3) by (auto simp: manifests_def well_kept_def)
  have "V' (snapshot_manifest_key (sm_snapshot_id m)) = V (snapshot_manifest_key (sm_snapshot_id m))"
    using assms(2,4) by (intro adds_other) (auto simp: manifest_key_dir manifest_key_shape)
  with st(1) show "stored C V' (sm_snapshot_id m) m" by (simp add: stored_def)
  assume intact: "intact C V m"
  have "V' k = V k" if "k \<in> content_keys m" "V k \<noteq> None" for k
    using content_keys_place [OF st(2) that(1)]
  proof
    assume "under (snapshot_dir (sm_snapshot_id m)) k"
    then show ?thesis using assms(2,4) by (intro adds_other) (auto dest: under_dirs under_dir_snapshots)
  next
    assume "under ''objects/sha256'' k"
    then have "\<not> under (snapshot_dir i) k" "k \<noteq> snapshot_manifest_key i" using under_dir_snapshots manifest_key_shape(1) by blast+
    then show ?thesis using assms(2) that(2) by (auto simp: adds_def added_def)
  qed
  moreover have "payload_ok C V' k h" if p: "(k, h) \<in> set (payloads m)" and keep: "k \<in> content_keys m \<Longrightarrow> V k \<noteq> None \<Longrightarrow> V' k = V k" for k h
  proof -
    have "payload_ok C V k h" using intact p by (auto simp: intact_def)
    moreover have "k \<in> content_keys m" using p by (auto simp flip: payload_keys intro: rev_image_eqI)
    ultimately show ?thesis using keep by (auto simp: payload_ok_def split: option.splits)
  qed
  ultimately show "intact C V' m" by (auto simp: intact_def)
qed

lemma adds_well_kept:
  assumes "well_kept C V" "manifest_json_ok C" "adds C i V V'"
  shows "well_kept C V'"
  unfolding well_kept_def
proof (intro allI impI)
  fix j m
  assume st: "stored C V' j m"
  show "sm_snapshot_id m = j \<and> own_keys m"
  proof (cases "V' (snapshot_manifest_key j) = V (snapshot_manifest_key j)")
    case True
    with st have "stored C V j m" by (simp add: stored_def)
    with assms(1) show ?thesis by (simp add: well_kept_def)
  next
    case False
    then have "j = i" using assms(3) adds_other manifest_key_shape(1) manifest_key_dir by metis
    with False assms(3) have "own_manifest C i (V' (snapshot_manifest_key i))"
      by (force simp: adds_def added_def manifest_key_shape split: if_splits)
    with st assms(2) \<open>j = i\<close> show ?thesis by (auto simp: own_manifest_def stored_def manifest_json_ok_def)
  qed
qed

lemma swept_well_kept: "well_kept C V \<Longrightarrow> partly_swept G V V' \<Longrightarrow> well_kept C V'"
proof -
  assume V: "well_kept C V" "partly_swept G V V'"
  have "stored C V j m" if "stored C V' j m" for j m
  proof -
    have "V' (snapshot_manifest_key j) = V (snapshot_manifest_key j)"
      using that V(2) unfolding stored_def partly_swept_def by (metis option.simps(4))
    with that show ?thesis by (simp add: stored_def)
  qed
  with V(1) show ?thesis unfolding well_kept_def by blast
qed

end
