(* ===== verification/Compact.thy ===== *)
theory Compact
  imports Backup
begin

text \<open>
  Compaction (\<open>compact_chain\<close> of \<open>graphql-orm-backup/src/backup.rs\<close>) refines the replay of a chain: the
  ordered maps it builds stand for the state that restoring the full snapshot and then every change
  would give, and the synthetic tables restore that state.
\<close>

section \<open>The state a chain stands for\<close>

type_synonym 'v table_state = "str \<Rightarrow> str \<Rightarrow> 'v BackupRow option"

definition put_row :: "str \<Rightarrow> str \<Rightarrow> 'v BackupRow option \<Rightarrow> 'v table_state \<Rightarrow> 'v table_state" where
  "put_row t k row st = st(t := (st t)(k := row))"

definition put_table :: "'v BackupTableExport \<Rightarrow> 'v table_state \<Rightarrow> 'v table_state" where
  "put_table t st = fold (\<lambda>row. put_row (tx_table_name t) (rw_primary_key row) (Some row)) (tx_rows t) st"

definition table_state :: "'v BackupTableExport list \<Rightarrow> 'v table_state" where
  "table_state tables = fold put_table tables (\<lambda>_ _. None)"

definition replay_change :: "'v BackupChangeExport \<Rightarrow> 'v table_state \<Rightarrow> 'v table_state" where
  "replay_change c st =
     (case ce_action c of
        DeleteRow \<Rightarrow> put_row (ce_table_name c) (ce_primary_key c) None st
      | _ \<Rightarrow> (case ce_row c of None \<Rightarrow> st | Some row \<Rightarrow> put_row (ce_table_name c) (ce_primary_key c) (Some row) st))"

text \<open>The maps of the code, as a state; their invariant.\<close>

definition rows_of :: "'v table_rows \<Rightarrow> 'v table_state" where
  "rows_of tr t = btree_get (or_default t tr)"

definition rows_ok :: "'v table_rows \<Rightarrow> bool" where
  "rows_ok tr \<longleftrightarrow> btree tr \<and> (\<forall>t rows. btree_get tr t = Some rows \<longrightarrow> btree rows)"

definition replay_rows :: "(str, 'v BackupRow) btree \<Rightarrow> bool" where
  "replay_rows rows \<longleftrightarrow> (\<forall>(k, row) \<in> set rows. rw_primary_key row = k)"

definition keyed_change :: "'v BackupChangeExport \<Rightarrow> bool" where
  "keyed_change c \<longleftrightarrow> (\<forall>row. ce_row c = Some row \<longrightarrow> rw_primary_key row = ce_primary_key c)"

lemma rows_ok_default: "rows_ok tr \<Longrightarrow> btree (or_default t tr)"
  by (auto simp: rows_ok_def or_default_def btree_def split: option.split)

lemma rows_ok_insert: "rows_ok tr \<Longrightarrow> btree rows \<Longrightarrow> rows_ok (btree_insert t rows tr)"
  by (auto simp: rows_ok_def btree_insert_inv btree_insert_get split: if_splits)

lemma rows_of_insert: "rows_ok tr \<Longrightarrow> rows_of (btree_insert t rows tr) = (rows_of tr)(t := btree_get rows)"
  by (auto simp: rows_ok_def rows_of_def or_default_def btree_insert_get fun_eq_iff)

lemma btree_get_remove: "btree_get (filter (\<lambda>(key, _). key \<noteq> k) rows) = (btree_get rows)(k := None)"
proof (rule ext)
  fix x
  have "map_of (filter (\<lambda>(key, _). key \<noteq> k) rows) x = (if x = k then None else map_of rows x)"
    by (induction rows) auto
  then show "btree_get (filter (\<lambda>(key, _). key \<noteq> k) rows) x = ((btree_get rows)(k := None)) x"
    by (simp add: btree_get_def)
qed

lemma fold_insert_rows:
  assumes "btree rows"
  shows "btree (fold (\<lambda>row rows. btree_insert (rw_primary_key row) row rows) xs rows)"
    and "btree_get (fold (\<lambda>row rows. btree_insert (rw_primary_key row) row rows) xs rows)
      = fold (\<lambda>row m. m(rw_primary_key row \<mapsto> row)) xs (btree_get rows)"
  using assms by (induction xs arbitrary: rows) (simp_all add: btree_insert_inv btree_insert_get)

lemma put_table_eq: "put_table t st = st(tx_table_name t := fold (\<lambda>row m. m(rw_primary_key row \<mapsto> row)) (tx_rows t) (st (tx_table_name t)))"
proof -
  have "fold (\<lambda>row. put_row n (rw_primary_key row) (Some row)) rows st = st(n := fold (\<lambda>row m. m(rw_primary_key row \<mapsto> row)) rows (st n))" for n rows
  proof (induction rows arbitrary: st)
    case (Cons row rows)
    have "put_row n k x st n = (st n)(k := x)" "(put_row n k x st)(n := m) = st(n := m)" for k x m
      by (simp_all add: put_row_def)
    with Cons.IH [of "put_row n (rw_primary_key row) (Some row) st"] show ?case by simp
  qed simp
  then show ?thesis by (simp add: put_table_def)
qed

lemma insert_table_refines:
  assumes "rows_ok tr"
  shows "rows_ok (insert_table t tr)" and "rows_of (insert_table t tr) = put_table t (rows_of tr)"
proof -
  note rows = fold_insert_rows [OF rows_ok_default [OF assms, of "tx_table_name t"], of "tx_rows t"]
  show "rows_ok (insert_table t tr)" unfolding insert_table_def by (rule rows_ok_insert [OF assms rows(1)])
  have "rows_of tr (tx_table_name t) = btree_get (or_default (tx_table_name t) tr)" by (simp add: rows_of_def)
  then show "rows_of (insert_table t tr) = put_table t (rows_of tr)"
    unfolding insert_table_def rows_of_insert [OF assms] put_table_eq rows(2) by simp
qed

lemma insert_tables_refines:
  "rows_ok tr \<Longrightarrow> rows_ok (fold insert_table tables tr) \<and> rows_of (fold insert_table tables tr) = fold put_table tables (rows_of tr)"
  by (induction tables arbitrary: tr) (simp_all add: insert_table_refines)

lemma apply_change_refines:
  assumes "rows_ok tr"
  shows "rows_ok (apply_change c tr)" and "rows_of (apply_change c tr) = replay_change c (rows_of tr)"
proof -
  note d = rows_ok_default [OF assms, of "ce_table_name c"]
  have "btree (filter (\<lambda>(key, _). key \<noteq> k) (or_default (ce_table_name c) tr))" for k
    using d by (rule btree_filter)
  with assms d show "rows_ok (apply_change c tr)"
    by (auto simp: apply_change_def Let_def btree_insert_inv split: BackupChangeAction.split option.split intro!: rows_ok_insert)
  have upd: "(rows_of tr)(t := btree_get (or_default t tr)) = rows_of tr" for t by (simp add: rows_of_def fun_eq_iff)
  show "rows_of (apply_change c tr) = replay_change c (rows_of tr)"
    using d by (auto simp: apply_change_def Let_def rows_of_insert [OF assms] replay_change_def put_row_def btree_get_remove btree_insert_get upd
        rows_of_def [of tr "ce_table_name c"] split: BackupChangeAction.split option.split)
qed

lemma apply_changes_refines:
  "rows_ok tr \<Longrightarrow> apply_changes composite changes tr = Inr tr' \<Longrightarrow>
     rows_ok tr' \<and> rows_of tr' = fold replay_change changes (rows_of tr) \<and> (\<forall>c \<in> set changes. ce_table_name c \<notin> set composite)"
proof (induction composite changes tr rule: apply_changes.induct)
  case (2 composite c cs tr)
  then show ?case by (auto simp: apply_change_refines split: if_splits)
qed simp

text \<open>Rows stay under their own keys.\<close>

definition keyed_tables :: "'v table_rows \<Rightarrow> bool" where
  "keyed_tables tr \<longleftrightarrow> (\<forall>(_, rows) \<in> set tr. replay_rows rows)"

lemma btree_insert_subset: "set (btree_insert k v m) \<subseteq> insert (k, v) (set m)"
  by (auto simp: btree_insert_def dest: set_takeWhileD set_dropWhileD)

lemma keyed_insert: "replay_rows rows \<Longrightarrow> rw_primary_key row = k \<Longrightarrow> replay_rows (btree_insert k row rows)"
  using btree_insert_subset [of k row rows] unfolding replay_rows_def by blast

lemma keyed_insert_table: "keyed_tables tr \<Longrightarrow> replay_rows rows \<Longrightarrow> keyed_tables (btree_insert t rows tr)"
  using btree_insert_subset [of t rows tr] unfolding keyed_tables_def by blast

lemma keyed_default:
  assumes "keyed_tables tr"
  shows "replay_rows (or_default t tr)"
proof (cases "btree_get tr t")
  case None
  then show ?thesis by (simp add: or_default_def replay_rows_def)
next
  case (Some rows)
  then have "(t, rows) \<in> set tr" by (simp add: btree_get_def map_of_SomeD)
  with assms Some show ?thesis by (auto simp: keyed_tables_def or_default_def)
qed

lemma replay_rows_fold:
  "replay_rows rows \<Longrightarrow> replay_rows (fold (\<lambda>row rows. btree_insert (rw_primary_key row) row rows) xs rows)"
  by (induction xs arbitrary: rows) (simp_all add: keyed_insert)

lemma keyed_base: "keyed_tables tr \<Longrightarrow> keyed_tables (fold insert_table tables tr)"
proof (induction tables arbitrary: tr)
  case (Cons t tables)
  from Cons.prems have "keyed_tables (insert_table t tr)"
    unfolding insert_table_def by (intro keyed_insert_table replay_rows_fold keyed_default)
  with Cons.IH show ?case by simp
qed simp

lemma keyed_apply: "keyed_tables tr \<Longrightarrow> keyed_change c \<Longrightarrow> keyed_tables (apply_change c tr)"
proof -
  assume tr: "keyed_tables tr" and c: "keyed_change c"
  have "replay_rows (filter (\<lambda>(key, _). key \<noteq> k) (or_default t tr))" for k t
    using keyed_default [OF tr, of t] unfolding replay_rows_def by auto
  with tr c keyed_default [OF tr] show ?thesis
    unfolding apply_change_def Let_def
    by (intro keyed_insert_table) (auto simp: keyed_change_def keyed_insert split: BackupChangeAction.split option.split)
qed

lemma keyed_changes:
  "apply_changes composite changes tr = Inr tr' \<Longrightarrow> keyed_tables tr \<Longrightarrow> (\<And>c. c \<in> set changes \<Longrightarrow> keyed_change c) \<Longrightarrow> keyed_tables tr'"
  by (induction composite changes tr rule: apply_changes.induct) (auto simp: keyed_apply split: if_splits)

text \<open>The synthetic tables restore the state of the maps.\<close>

lemma fold_rows:
  "btree rows \<Longrightarrow> replay_rows rows \<Longrightarrow> fold (\<lambda>row m. m(rw_primary_key row \<mapsto> row)) (map snd rows) m k
     = (case btree_get rows k of None \<Rightarrow> m k | Some row \<Rightarrow> Some row)"
proof (induction rows arbitrary: m)
  case (Cons r rows)
  obtain a row where r: "r = (a, row)" by fastforce
  have "btree rows" "\<forall>x \<in> fst ` set rows. a < x" using Cons.prems(1) by (simp_all add: r btree_Cons)
  moreover have "rw_primary_key row = a" "replay_rows rows" using Cons.prems(2) by (auto simp: r replay_rows_def)
  moreover from calculation have "map_of rows a = None" by (auto simp: map_of_eq_None_iff)
  ultimately show ?case
    using Cons.IH [of "m(a \<mapsto> row)"] by (auto simp: r btree_get_def split: option.split)
qed (simp add: btree_get_def)

lemma synthetic_state:
  assumes "rows_ok tr" "keyed_tables tr"
  shows "table_state (synthetic_tables tr) = rows_of tr"
proof -
  have "fold put_table (synthetic_tables tr) st t k =
      (case map_of tr t of None \<Rightarrow> st t k | Some rows \<Rightarrow> (case btree_get rows k of None \<Rightarrow> st t k | Some row \<Rightarrow> Some row))"
    if "distinct (map fst tr)" "\<forall>(n, rows) \<in> set tr. btree rows \<and> replay_rows rows" for tr :: "'a table_rows" and st t k
    using that
  proof (induction tr arbitrary: st)
    case (Cons e tr)
    obtain n rows where e: "e = (n, rows)" by fastforce
    have rows: "btree rows" "replay_rows rows" using Cons.prems(2) by (auto simp: e)
    have new: "map_of tr n = None" using Cons.prems(1) by (auto simp: e map_of_eq_None_iff)
    let ?t = "\<lparr>tx_table_name = n, tx_rows = map snd rows\<rparr> :: 'a BackupTableExport"
    have "fold put_table (synthetic_tables (e # tr)) st t k = fold put_table (synthetic_tables tr) (put_table ?t st) t k"
      by (simp add: synthetic_tables_def e)
    also have "\<dots> = (case map_of tr t of None \<Rightarrow> put_table ?t st t k
        | Some rows \<Rightarrow> (case btree_get rows k of None \<Rightarrow> put_table ?t st t k | Some row \<Rightarrow> Some row))"
      using Cons.prems by (intro Cons.IH) (auto simp: e)
    finally have eq: "fold put_table (synthetic_tables (e # tr)) st t k = \<dots>" .
    have "put_table ?t st t k = (if t = n then (case btree_get rows k of None \<Rightarrow> st t k | Some row \<Rightarrow> Some row) else st t k)"
      using fold_rows [OF rows] by (cases "t = n", hypsubst) (simp_all add: put_table_eq)
    with new show ?case unfolding eq by (auto simp: e split: option.splits)
  qed (simp add: synthetic_tables_def)
  moreover have "distinct (map fst tr)" using assms(1) by (auto simp: rows_ok_def btree_def strict_sorted_iff)
  moreover have "\<forall>(n, rows) \<in> set tr. btree rows \<and> replay_rows rows"
    using assms calculation(2) by (auto simp: rows_ok_def keyed_tables_def btree_get_def)
  ultimately show ?thesis
    by (auto simp: table_state_def rows_of_def or_default_def btree_get_def fun_eq_iff split: option.split)
qed

lemma compaction_state:
  assumes "apply_changes composite changes (fold insert_table tables []) = Inr tr" "\<And>c. c \<in> set changes \<Longrightarrow> keyed_change c"
  shows "table_state (synthetic_tables tr) = fold replay_change changes (table_state tables)"
    and "distinct (map tx_table_name (synthetic_tables tr))" and "\<forall>c \<in> set changes. ce_table_name c \<notin> set composite"
proof -
  have empty: "rows_ok ([] :: 'a table_rows)" "keyed_tables ([] :: 'a table_rows)" "rows_of ([] :: 'a table_rows) = (\<lambda>_ _. None)"
    by (simp_all add: rows_ok_def btree_def btree_get_def keyed_tables_def rows_of_def or_default_def fun_eq_iff)
  note base = insert_tables_refines [OF empty(1), of tables]
  have tr: "rows_ok tr" "rows_of tr = fold replay_change changes (table_state tables)"
    "\<forall>c \<in> set changes. ce_table_name c \<notin> set composite"
    using apply_changes_refines [OF _ assms(1)] base empty(3) by (simp_all add: table_state_def)
  then show "\<forall>c \<in> set changes. ce_table_name c \<notin> set composite" by blast
  have "keyed_tables tr" using keyed_changes [OF assms(1) keyed_base [OF empty(2)]] assms(2) by blast
  with tr show "table_state (synthetic_tables tr) = fold replay_change changes (table_state tables)" using synthetic_state [of tr] by simp
  have "map tx_table_name (synthetic_tables tr) = map fst tr" by (simp add: synthetic_tables_def case_prod_beta)
  with tr(1) show "distinct (map tx_table_name (synthetic_tables tr))" by (auto simp: rows_ok_def btree_def strict_sorted_iff)
qed

text \<open>
  Compacting a chain replays it: when no change touches a table with composite keys, the
  synthetic tables restore exactly the rows that restoring the full tables and then every change in
  order would leave, each table once; a change to a composite-key table is refused.
\<close>

theorem compaction_replays:
  assumes "\<And>c. c \<in> set changes \<Longrightarrow> keyed_change c"
  shows "case apply_changes composite changes (fold insert_table tables []) of
      Inl e \<Rightarrow> \<exists>c \<in> set changes. ce_table_name c \<in> set composite
    | Inr tr \<Rightarrow> (\<forall>c \<in> set changes. ce_table_name c \<notin> set composite)
        \<and> table_state (synthetic_tables tr) = fold replay_change changes (table_state tables)
        \<and> distinct (map tx_table_name (synthetic_tables tr))"
proof (cases "apply_changes composite changes (fold insert_table tables [])")
  case (Inl e)
  have "apply_changes composite cs tr = Inl e \<Longrightarrow> \<exists>c \<in> set cs. ce_table_name c \<in> set composite" for cs and tr :: "'a table_rows"
    by (induction cs arbitrary: tr) (auto split: if_splits)
  with Inl show ?thesis by simp
next
  case (Inr tr)
  then show ?thesis using compaction_state [OF Inr] assms by simp
qed

definition sample_row :: "str \<Rightarrow> unit BackupRow" where
  "sample_row k = \<lparr>rw_table_name = ''t'', rw_primary_key = k, rw_row_hash = '''', rw_values = ()\<rparr>"

definition sample_changes :: "unit BackupChangeExport list" where
  "sample_changes =
     [\<lparr>ce_table_name = ''t'', ce_primary_key = ''2'', ce_action = CreateRow, ce_row = Some (sample_row ''2''), ce_changed_at = 5\<rparr>,
      \<lparr>ce_table_name = ''t'', ce_primary_key = ''1'', ce_action = DeleteRow, ce_row = None, ce_changed_at = 6\<rparr>]"

theorem compaction_replays_witness:
  "\<exists>tr. apply_changes [] sample_changes (fold insert_table [\<lparr>tx_table_name = ''t'', tx_rows = [sample_row ''1'']\<rparr>] []) = Inr tr
    \<and> table_state (synthetic_tables tr) = fold replay_change sample_changes (table_state [\<lparr>tx_table_name = ''t'', tx_rows = [sample_row ''1'']\<rparr>])"
proof -
  have "keyed_change c" if "c \<in> set sample_changes" for c
    using that by (auto simp: sample_changes_def keyed_change_def sample_row_def)
  from compaction_replays [of sample_changes, OF this, where composite = "[]" and tables = "[\<lparr>tx_table_name = ''t'', tx_rows = [sample_row ''1'']\<rparr>]"]
  show ?thesis by (auto split: sum.splits)
qed

text \<open>
  Objects are compacted without replaying their tombstones in order: an object that was deleted and
  stored again later is lost, though the last manifest of the chain still lists it.
\<close>

lemma compaction_drops_readded:
  "compact_object_entries
     [(sample_manifest 1 10)\<lparr>sm_tombstones := [\<lparr>ts_table_name = None, ts_primary_key = None, ts_object_id = Some 7, ts_deleted_at = 0\<rparr>]\<rparr>,
      (sample_manifest 2 20)\<lparr>sm_objects := [\<lparr>oe_object_id = 7, oe_storage_key = ''k'', oe_content_key = ''c'', oe_sha256_hex = ''h'',
        oe_size_bytes = 1, oe_mime_type = None\<rparr>]\<rparr>] = []"
  by (simp add: compact_object_entries_def sample_manifest_def map_filter_def)

end
