(* ===== verification/BackupLaws.thy ===== *)
theory BackupLaws
  imports Compact
begin

text \<open>
  What the backup crate promises as a whole, on the repository over the local backend: loading a
  chain ends and is exact, backups only add, every operation keeps the repository well kept, and the
  writer lock excludes other writers.
\<close>

section \<open>Chains\<close>

text \<open>
  C18. Loading a manifest chain always ends, also on manifests that refer to each other in a circle,
  and changes nothing. A chain that loads is the lineage of the requested snapshot: it starts with a
  full snapshot without a parent, every manifest names its predecessor, identifiers are distinct, and
  application, backend and schema agree. While no file-system call fails, every such lineage loads.
\<close>

theorem load_chain_exact:
  assumes "local_rep lb pfx V s"
  shows "\<exists>r s'. load_manifest_chain (local_repository lb pfx limits) C i s = Some (r, s') \<and> local_rep lb pfx V s'
    \<and> (\<forall>chain. r = Inr chain \<longrightarrow> lineage C V (Some i) (rev chain) \<and> valid_chain chain)
    \<and> (\<forall>chain. lf_faults s = [] \<longrightarrow> (\<forall>j b. V (snapshot_manifest_key j) = Some b \<longrightarrow> fits (local_repository lb pfx limits) b) \<longrightarrow>
         lineage C V (Some i) (rev chain) \<longrightarrow> valid_chain chain \<longrightarrow> r = Inr chain)"
proof -
  from acts_ends [where rep = "local_rep lb pfx", OF local_repo.load_manifest_chain_acts assms] obtain r s' V' where
    run: "load_manifest_chain (local_repository lb pfx limits) C i s = Some (r, s')" "local_rep lb pfx V' s'"
    and post: "case r of Inl e \<Rightarrow> V' = V | Inr chain \<Rightarrow> V' = V \<and> lineage C V (Some i) (rev chain) \<and> valid_chain chain"
    by blast
  have "V' = V" using post by (cases r) auto
  moreover have "r = Inr chain" if "lf_faults s = []" "\<And>j b. V (snapshot_manifest_key j) = Some b \<Longrightarrow> fits (local_repository lb pfx limits) b"
    "lineage C V (Some i) (rev chain)" "valid_chain chain" for chain
    using local_repo.load_manifest_chain_calm [OF that(1) assms that(2-4)] run(1) by simp
  ultimately show ?thesis using run post by (cases r) auto
qed

theorem load_chain_exact_witness:
  "\<exists>r s'. load_manifest_chain (local_repository sample_backend None default_capacity_limits) backup_codec 2 sample_repo_fs = Some (r, s')
    \<and> local_rep sample_backend None sample_blobs s' \<and> r = Inr [sample_manifest 2 20]"
proof -
  have chain: "lineage backup_codec sample_blobs (Some 2) (rev [sample_manifest 2 20])" "valid_chain [sample_manifest 2 20]"
    by (simp_all add: sample_stored) (simp_all add: sample_manifest_def)
  have "b \<in> {''one'', ''two''}" if "sample_blobs (snapshot_manifest_key j) = Some b" for j b
  proof -
    have "j = 1 \<or> j = 2"
      using that sample_dom by (auto simp: snapshot_manifest_key_def object_content_key_def)
    with that sample_values show ?thesis by auto
  qed
  then have "fits (local_repository sample_backend None default_capacity_limits) b" if "sample_blobs (snapshot_manifest_key j) = Some b" for j b
    using that by (fastforce simp: fits_def blob_store_repository_def Let_def default_capacity_limits_def default_byte_limit_def)
  moreover have "lf_faults sample_repo_fs = []" by (simp add: sample_repo_fs_def)
  ultimately show ?thesis
    using load_chain_exact [OF sample_rep, of default_capacity_limits backup_codec 2] chain by blast
qed

section \<open>Backups\<close>

definition other_kept :: "'v BackupCodec \<Rightarrow> blob_map \<Rightarrow> blob_map \<Rightarrow> uuid \<Rightarrow> bool" where
  "other_kept C V V' i \<longleftrightarrow>
     (\<forall>m \<in> manifests C V. sm_snapshot_id m \<noteq> i \<longrightarrow> stored C V' (sm_snapshot_id m) m \<and> (intact C V m \<longrightarrow> intact C V' m))"

lemma intact_lock: "own_keys m \<Longrightarrow> intact C (V(REPOSITORY_LOCK_KEY := x)) m = intact C V m"
proof -
  assume "own_keys m"
  then have "fst p \<noteq> REPOSITORY_LOCK_KEY" if "p \<in> set (payloads m)" for p
    using that content_not_lock payload_keys [of m] by (metis imageI)
  then show ?thesis by (fastforce simp: intact_def payload_ok_def)
qed

lemma adds_locked_kept:
  assumes "well_kept C V" "manifest_json_ok C" "adds C i V (V'(REPOSITORY_LOCK_KEY := x))"
  shows "well_kept C V'" and "other_kept C V V' i"
proof -
  show "well_kept C V'" using adds_well_kept [OF assms] by simp
  show "other_kept C V V' i"
    unfolding other_kept_def
  proof (intro ballI impI)
    fix m
    assume m: "m \<in> manifests C V" "sm_snapshot_id m \<noteq> i"
    have "own_keys m" using m(1) assms(1) by (auto simp: manifests_def well_kept_def)
    with adds_kept [OF assms(1,3) m] show "stored C V' (sm_snapshot_id m) m \<and> (intact C V m \<longrightarrow> intact C V' m)"
      by (simp add: intact_lock)
  qed
qed

lemma backup_ends:
  assumes acts: "acts (with_app (local_rep lb pfx)) (V, d) m (\<lambda>x v'. adds C i V (fst v') \<and> P x (fst v'))
      (\<lambda>_ v'. adds C i V ((fst v')(REPOSITORY_LOCK_KEY := V REPOSITORY_LOCK_KEY)))"
    and "local_rep lb pfx V s" "well_kept C V" "manifest_json_ok C"
  shows "\<exists>r s' d' V'. m (s, d) = Some (r, (s', d')) \<and> local_rep lb pfx V' s' \<and> well_kept C V' \<and> other_kept C V V' i
    \<and> (\<forall>x. r = Inr x \<longrightarrow> P x V')"
proof -
  have "with_app (local_rep lb pfx) (V, d) (s, d)" using assms(2) by (simp add: with_app_def)
  from acts_ends [OF acts this] obtain r w' v' where run: "m (s, d) = Some (r, w')" "with_app (local_rep lb pfx) v' w'"
    and post: "case r of Inl e \<Rightarrow> adds C i V ((fst v')(REPOSITORY_LOCK_KEY := V REPOSITORY_LOCK_KEY)) | Inr x \<Rightarrow> adds C i V (fst v') \<and> P x (fst v')"
    by blast
  have "\<exists>x. adds C i V ((fst v')(REPOSITORY_LOCK_KEY := x))"
  proof (cases r)
    case (Inr m)
    with post have "adds C i V ((fst v')(REPOSITORY_LOCK_KEY := fst v' REPOSITORY_LOCK_KEY))" by (simp add: fun_upd_idem)
    then show ?thesis by blast
  qed (use post in auto)
  then obtain x where "adds C i V ((fst v')(REPOSITORY_LOCK_KEY := x))" by blast
  from adds_locked_kept [OF assms(3,4) this] run post show ?thesis
    by (cases w'; cases r) (auto simp: with_app_def)
qed

definition full_backup_done ::
  "'v BackupCodec \<Rightarrow> ('d, 'v) GraphqlOrmBackupAdapter \<Rightarrow> 'd BackupObjectIndex \<Rightarrow> FullBackupRequest \<Rightarrow> 'd \<Rightarrow> BackupSnapshotManifest \<Rightarrow> blob_map \<Rightarrow> bool" where
  "full_backup_done C database objects request d m V' \<longleftrightarrow> (\<exists>plan d1. plan_full_backup database objects d = (Inr plan, d1)
     \<and> full_header request (pl_schema plan) m \<and> snapshot_written C V' (pl_tables plan) [] m
     \<and> list_all2 (object_written C V') (pl_objects plan) (sm_objects m) \<and> intact C V' m)"

lemma full_backup_ends:
  assumes "local_rep lb pfx V s" "well_kept C V" "manifest_json_ok C"
    and "\<And>plan d'. plan_full_backup database objects d = (Inr plan, d') \<Longrightarrow> plan_ok plan"
  shows "\<exists>r s' d' V'. create_full_backup (local_repository lb pfx limits) C database objects now request (s, d) = Some (r, (s', d'))
    \<and> local_rep lb pfx V' s' \<and> well_kept C V' \<and> other_kept C V V' (fr_snapshot_id request)
    \<and> (\<forall>m. r = Inr m \<longrightarrow> full_backup_done C database objects request d m V')"
proof -
  let ?i = "fr_snapshot_id request"
  have "acts (with_app (local_rep lb pfx)) (V, d) (create_full_backup (local_repository lb pfx limits) C database objects now request)
      (\<lambda>m v'. adds C ?i (fst (V, d)) (fst v') \<and> full_backup_done C database objects request d m (fst v'))
      (\<lambda>_ v'. adds C ?i (fst (V, d)) ((fst v')(REPOSITORY_LOCK_KEY := fst (V, d) REPOSITORY_LOCK_KEY)))"
    unfolding create_full_backup_def full_backup_done_def
    by (rule local_repo.locked_backup_acts, rule acts_conseq [OF local_repo.create_full_backup_inner_acts [OF assms(3) _ refl]])
      (use assms(4) snapshot_written_unlocked objects_written_unlocked snapshot_written_intact(1) in \<open>fastforce+\<close>)
  from backup_ends [OF this [unfolded fst_conv] assms(1-3)] show ?thesis .
qed

text \<open>
  C16. A full backup always ends and only adds: whatever fails on the way, every other snapshot is
  still stored and as complete as before, and the repository stays well kept. A backup that succeeds
  has stored its manifest with the header of the request. It has one entry per table the database
  exported, in order, whose blob is the serialized table, and one entry per object the index listed,
  in order, with the identifier, storage key and digest of the object and a blob of that digest
  behind it.
\<close>

theorem full_backup_adds:
  assumes "local_rep lb pfx V s" and "well_kept C V" and "manifest_json_ok C"
    and "\<And>plan d'. plan_full_backup database objects d = (Inr plan, d') \<Longrightarrow> plan_ok plan"
  shows "\<exists>r s' d' V'. create_full_backup (local_repository lb pfx limits) C database objects now request (s, d) = Some (r, (s', d'))
    \<and> local_rep lb pfx V' s' \<and> well_kept C V' \<and> other_kept C V V' (fr_snapshot_id request)
    \<and> (\<forall>m. r = Inr m \<longrightarrow> (\<exists>plan d1. plan_full_backup database objects d = (Inr plan, d1) \<and> full_header request (pl_schema plan) m
         \<and> snapshot_written C V' (pl_tables plan) [] m \<and> list_all2 (object_written C V') (pl_objects plan) (sm_objects m) \<and> intact C V' m))"
  using full_backup_ends [OF assms] unfolding full_backup_done_def .

text \<open>
  C17. An incremental backup always ends and only adds, like a full one. A backup that succeeds has
  stored its manifest with its parent; the change payloads are the exported changes, grouped by
  table in the order of export, every exported deletion has its tombstone, and every listed object
  has its entry and its blob.
\<close>

theorem incremental_backup_adds:
  assumes "local_rep lb pfx V s" and "well_kept C V" and "manifest_json_ok C"
    and "incremental_ok database objects (ir_parent_snapshot_id request)"
  shows "\<exists>r s' d' V'. create_incremental_backup (local_repository lb pfx limits) C database objects now request (s, d) = Some (r, (s', d'))
    \<and> local_rep lb pfx V' s' \<and> well_kept C V' \<and> other_kept C V V' (ir_snapshot_id request)
    \<and> (\<forall>m. r = Inr m \<longrightarrow> (\<exists>schema d1 changes d2 groups refs d3. ad_schema_snapshot database d = (Inr schema, d1)
         \<and> ad_export_incremental database (ir_parent_snapshot_id request) d1 = (Inr changes, d2)
         \<and> ix_list_incremental objects (ir_parent_snapshot_id request) d2 = (Inr refs, d3)
         \<and> list_all2 (object_written C V') refs (sm_objects m)
         \<and> incremental_header request schema m \<and> groups_of changes groups \<and> snapshot_written C V' [] groups m \<and> intact C V' m
         \<and> sm_tombstones m = changes_to_tombstones changes))"
proof -
  let ?P = "\<lambda>m V. \<exists>schema d1 changes d2 groups refs d3. ad_schema_snapshot database d = (Inr schema, d1)
     \<and> ad_export_incremental database (ir_parent_snapshot_id request) d1 = (Inr changes, d2)
     \<and> ix_list_incremental objects (ir_parent_snapshot_id request) d2 = (Inr refs, d3)
     \<and> list_all2 (object_written C V) refs (sm_objects m)
     \<and> incremental_header request schema m \<and> groups_of changes groups \<and> snapshot_written C V [] groups m \<and> intact C V m
     \<and> sm_tombstones m = changes_to_tombstones changes"
  let ?i = "ir_snapshot_id request"
  have "acts (with_app (local_rep lb pfx)) (V, d) (create_incremental_backup (local_repository lb pfx limits) C database objects now request)
      (\<lambda>m v'. adds C ?i (fst (V, d)) (fst v') \<and> ?P m (fst v'))
      (\<lambda>_ v'. adds C ?i (fst (V, d)) ((fst v')(REPOSITORY_LOCK_KEY := fst (V, d) REPOSITORY_LOCK_KEY)))"
    unfolding create_incremental_backup_def
  proof (rule local_repo.locked_backup_acts, rule acts_conseq [OF local_repo.create_incremental_backup_inner_acts [OF assms(3,4) refl]], goal_cases)
    case (1 V1 m v')
    then show ?case using group_changes_groups snapshot_written_intact(1) unfolding snd_conv fst_conv by blast
  next
    case (3 m V1)
    then show ?case
      by (elim exE conjE, intro exI conjI)
        (assumption | erule objects_written_unlocked | erule snapshot_written_unlocked
          | rule snapshot_written_intact(1), erule snapshot_written_unlocked)+
  qed simp
  from backup_ends [OF this [unfolded fst_conv] assms(1-3)] show ?thesis .
qed

section \<open>A sample application\<close>

definition sample_database :: "(unit, unit) GraphqlOrmBackupAdapter" where
  "sample_database =
     \<lparr>ad_schema_snapshot = app_done \<lparr>gs_backend = ''sqlite'', gs_migration_version = ''1'', gs_schema_hash = ''h''\<rparr>,
      ad_restore_target_is_empty = app_done True,
      ad_export_full = app_done [\<lparr>tx_table_name = ''users'', tx_rows = []\<rparr>],
      ad_export_incremental = (\<lambda>_. app_done []), ad_restore_full = (\<lambda>_ _ _. app_done ()), ad_restore_incremental = (\<lambda>_ _. app_done ())\<rparr>"

definition sample_index :: "unit BackupObjectIndex" where
  "sample_index =
     \<lparr>ix_list_full = app_done [], ix_list_incremental = (\<lambda>_. app_done []), ix_load_object = (\<lambda>_. app_done ''''),
      ix_load_object_stream = (\<lambda>_. app_done (stream_from_bytes ''''))\<rparr>"

lemma sample_json_ok: "manifest_json_ok backup_codec"
  by (simp add: manifest_json_ok_def backup_codec_def)

lemma sample_other_kept:
  assumes "other_kept backup_codec sample_blobs V' i" "i \<noteq> 1"
  shows "stored backup_codec V' 1 (sample_manifest 1 10)"
proof -
  have "sample_manifest 1 10 \<in> manifests backup_codec sample_blobs" "sm_snapshot_id (sample_manifest 1 10) = 1"
    by (auto simp: manifests_def sample_stored) (simp add: sample_manifest_def)
  with assms show ?thesis by (force simp: other_kept_def)
qed

theorem full_backup_adds_witness:
  "\<exists>r s' d' V'. create_full_backup (local_repository sample_backend None default_capacity_limits) backup_codec sample_database sample_index 0
       \<lparr>fr_snapshot_id = 2, fr_created_at = 20, fr_app_id = ''app'', fr_app_version = ''1''\<rparr> (sample_repo_fs, ()) = Some (r, (s', d'))
     \<and> local_rep sample_backend None V' s' \<and> stored backup_codec V' 1 (sample_manifest 1 10)"
proof -
  have "plan_ok plan" if "plan_full_backup sample_database sample_index () = (Inr plan, d')" for plan d'
    using that by (auto simp: plan_full_backup_def sample_database_def sample_index_def app_then_def app_done_def plan_ok_def plain_name_def ends_with_def starts_with_def)
  from full_backup_adds [where database = sample_database and objects = sample_index and d = "()" and limits = default_capacity_limits and now = 0
      and request = "\<lparr>fr_snapshot_id = 2, fr_created_at = 20, fr_app_id = ''app'', fr_app_version = ''1''\<rparr>",
      OF sample_rep sample_well_kept sample_json_ok this]
  show ?thesis using sample_other_kept [where i = 2] by (auto 4 0)
qed

theorem incremental_backup_adds_witness:
  "\<exists>r s' d' V'. create_incremental_backup (local_repository sample_backend None default_capacity_limits) backup_codec sample_database sample_index 0
       \<lparr>ir_snapshot_id = 2, ir_parent_snapshot_id = 1, ir_created_at = 20, ir_app_id = ''app'', ir_app_version = ''1''\<rparr> (sample_repo_fs, ()) = Some (r, (s', d'))
     \<and> local_rep sample_backend None V' s' \<and> stored backup_codec V' 1 (sample_manifest 1 10)"
proof -
  have "incremental_ok sample_database sample_index
      (ir_parent_snapshot_id \<lparr>ir_snapshot_id = 2, ir_parent_snapshot_id = 1, ir_created_at = 20, ir_app_id = ''app'', ir_app_version = ''1''\<rparr>)"
    by (simp add: incremental_ok_def sample_database_def sample_index_def app_done_def)
  from incremental_backup_adds [OF sample_rep sample_well_kept sample_json_ok this, where limits = default_capacity_limits and now = 0 and d = "()"]
  show ?thesis using sample_other_kept [where i = 2] by (auto 4 0)
qed

section \<open>The writer lock\<close>

definition refused :: "LocalStorageBackend \<Rightarrow> str option \<Rightarrow> blob_map \<Rightarrow> ('e + 'a) \<Rightarrow> LocalFs \<Rightarrow> bool" where
  "refused lb pfx V r s \<longleftrightarrow> (\<exists>e. r = Inl e) \<and> local_rep lb pfx V s"

lemma locked_refused:
  assumes "local_rep lb pfx V s" "V REPOSITORY_LOCK_KEY \<noteq> None"
  shows "\<exists>r s'. locked (local_repository lb pfx limits) now m s = Some (r, s') \<and> refused lb pfx V r s'"
proof -
  have "acts (local_rep lb pfx) V (locked (local_repository lb pfx limits) now m) (\<lambda>_ _. False) (\<lambda>_ V'. V' = V)"
    by (rule acts_conseq [OF local_repo.locked_acts [where Q = "\<lambda>_ _. False" and E = "\<lambda>_ _. False"]]) (use assms(2) in auto)
  from acts_ends [where rep = "local_rep lb pfx", OF this assms(1)] obtain r s' V' where "locked (local_repository lb pfx limits) now m s = Some (r, s')"
    "local_rep lb pfx V' s'" "case r of Inl e \<Rightarrow> V' = V | Inr x \<Rightarrow> False" by blast
  then show ?thesis by (cases r) (auto simp: refused_def)
qed

lemma locked_with_refused:
  assumes "local_rep lb pfx V s" "V REPOSITORY_LOCK_KEY \<noteq> None"
  shows "\<exists>r s' d'. locked_with (local_repository lb pfx limits) now m (s, d) = Some (r, (s', d')) \<and> refused lb pfx V r s'"
proof -
  have "acts (with_app (local_rep lb pfx)) (V, d) (locked_with (local_repository lb pfx limits) now m) (\<lambda>_ _. False) (\<lambda>_ v'. fst v' = V)"
    by (rule acts_conseq [OF local_repo.locked_with_acts [where Q = "\<lambda>_ _. False" and E = "\<lambda>_ _. False"]]) (use assms(2) in auto)
  note refusal = this
  have "with_app (local_rep lb pfx) (V, d) (s, d)" using assms(1) by (simp add: with_app_def)
  from acts_ends [OF refusal this] obtain r w' v' where "locked_with (local_repository lb pfx limits) now m (s, d) = Some (r, w')"
    "with_app (local_rep lb pfx) v' w'" "case r of Inl e \<Rightarrow> fst v' = V | Inr x \<Rightarrow> False" by blast
  then show ?thesis by (cases r; cases w') (auto simp: refused_def with_app_def)
qed

text \<open>
  C20. While the writer lock of a repository is held, every operation that writes is refused: it
  ends with an error and leaves every blob as it was, the lock of the other writer included.
\<close>

theorem lock_excludes:
  assumes "local_rep lb pfx V s" and "V REPOSITORY_LOCK_KEY \<noteq> None"
  shows "(\<exists>r s'. prune (local_repository lb pfx limits) C hash_order now n s = Some (r, s') \<and> refused lb pfx V r s')
    \<and> (\<exists>r s'. delete_snapshot (local_repository lb pfx limits) C now i s = Some (r, s') \<and> refused lb pfx V r s')
    \<and> (\<exists>r s'. compact_chain (local_repository lb pfx limits) C now compaction s = Some (r, s') \<and> refused lb pfx V r s')
    \<and> (\<exists>r s' d'. create_full_backup (local_repository lb pfx limits) C database objects now full (s, d) = Some (r, (s', d')) \<and> refused lb pfx V r s')
    \<and> (\<exists>r s' d'. create_incremental_backup (local_repository lb pfx limits) C database objects now incremental (s, d) = Some (r, (s', d')) \<and> refused lb pfx V r s')"
  unfolding prune_def delete_snapshot_def compact_chain_def create_full_backup_def create_incremental_backup_def
  by (intro conjI locked_refused [OF assms(1,2)] locked_with_refused [OF assms(1,2)])

definition locked_fs :: LocalFs where
  "locked_fs = \<lparr>lf_tree = Dir [(''locks'', Dir [(''repository.lock'', File ''7'')])], lf_faults = [], lf_fresh = 0\<rparr>"

lemma locked_rep: "local_rep sample_backend None (repository_view None (blobs locked_fs)) locked_fs"
proof -
  have stores: "stores (blobs locked_fs) locked_fs"
    by (auto simp: stores_def locked_fs_def btree_def name_ok_def is_dir_def)
  have "set (keys_below (lf_tree locked_fs) []) = {REPOSITORY_LOCK_KEY}" by code_simp
  then have "dom (blobs locked_fs) = {REPOSITORY_LOCK_KEY}"
    using keys_below_set [OF stores, of "[]"] by (simp add: under_def)
  then have "dom (repository_view None (blobs locked_fs)) \<subseteq> {REPOSITORY_LOCK_KEY}"
    by (auto simp: repository_view_def apply_prefix_def split: if_splits)
  then have "dom (repository_view None (blobs locked_fs)) \<subseteq> backup_keys" using lock_key by blast
  with stores show ?thesis by (auto simp: local_rep_def prefix_ok_def sample_backend_def)
qed

theorem lock_excludes_witness:
  "(\<exists>r s'. prune (local_repository sample_backend None default_capacity_limits) backup_codec sorted_list_of_set 8 1 locked_fs = Some (r, s')
      \<and> refused sample_backend None (repository_view None (blobs locked_fs)) r s')
   \<and> repository_view None (blobs locked_fs) REPOSITORY_LOCK_KEY = Some ''7''"
proof -
  have "path_of REPOSITORY_LOCK_KEY = [''locks'', ''repository.lock'']"
    using split_char_append [of "CHR ''/''" "''locks''" "''repository.lock''"] split_char_free [of "CHR ''/''" "''repository.lock''"]
    by (simp add: REPOSITORY_LOCK_KEY_def del: split_char.simps)
  moreover have "valid_key REPOSITORY_LOCK_KEY" "area REPOSITORY_LOCK_KEY" "visible (path_of REPOSITORY_LOCK_KEY)"
    using backup_keys_area [OF lock_key] backup_paths_visible [OF backup_path_of [OF lock_key]] calculation
    by (simp_all add: valid_key_iff name_ok_def)
  ultimately have held: "repository_view None (blobs locked_fs) REPOSITORY_LOCK_KEY = Some ''7''"
    by (simp add: repository_view_def apply_prefix_def blobs_def vis_files_def file_at_def locked_fs_def)
  then have "repository_view None (blobs locked_fs) REPOSITORY_LOCK_KEY \<noteq> None" by simp
  from conjunct1 [OF lock_excludes [OF locked_rep this, where C = backup_codec]] held show ?thesis by blast
qed

end
