(* ===== verification/CompactLaws.thy ===== *)
theory CompactLaws
  imports BackupLaws
begin

text \<open>
  The compaction of a chain in a repository: what the new snapshot contains, and that every other
  snapshot survives whatever fails.
\<close>

section \<open>Compaction\<close>

text \<open>The names and keys in the manifests of a repository are those the crate writes.\<close>

definition changes_read :: "'v BackupCodec \<Rightarrow> blob_map \<Rightarrow> BackupSnapshotManifest \<Rightarrow> 'v BackupChangeExport list \<Rightarrow> bool" where
  "changes_read C V m cs \<longleftrightarrow> (\<exists>css. cs = concat css \<and> list_all2 (entry_reads C (cd_change_parse C) V m) (dm_changes (sm_database m)) css)"

definition tables_read :: "'v BackupCodec \<Rightarrow> blob_map \<Rightarrow> BackupSnapshotManifest \<Rightarrow> 'v BackupTableExport list \<Rightarrow> bool" where
  "tables_read C V m ts \<longleftrightarrow>
     list_all2 (\<lambda>e t. tx_table_name t = te_table_name e \<and> entry_reads C (cd_row_parse C) V m e (tx_rows t)) (dm_tables (sm_database m)) ts"

definition crate_names :: "'v BackupCodec \<Rightarrow> blob_map \<Rightarrow> bool" where
  "crate_names C V \<longleftrightarrow> (\<forall>m \<in> manifests C V. keys_ok m \<and> (\<forall>e \<in> set (sm_objects m). oe_content_key e \<in> backup_keys)
     \<and> (\<forall>e \<in> set (dm_tables (sm_database m)). plain_name (te_table_name e))
     \<and> (\<forall>cs. changes_read C V m cs \<longrightarrow> (\<forall>c \<in> set cs. plain_name (ce_table_name c))))"

definition plain_tables :: "'v table_rows \<Rightarrow> bool" where
  "plain_tables tr \<longleftrightarrow> rows_ok tr \<and> (\<forall>t \<in> fst ` set tr. plain_name t)"

lemma plain_tables_insert: "plain_tables tr \<Longrightarrow> rows_ok (btree_insert t rows tr) \<Longrightarrow> plain_name t \<Longrightarrow> plain_tables (btree_insert t rows tr)"
  using btree_insert_subset [of t rows tr] unfolding plain_tables_def by auto

lemma plain_tables_base:
  "plain_tables tr \<Longrightarrow> (\<And>t. t \<in> set ts \<Longrightarrow> plain_name (tx_table_name t)) \<Longrightarrow> plain_tables (fold insert_table ts tr)"
proof (induction ts arbitrary: tr)
  case (Cons t ts)
  have "rows_ok (insert_table t tr)" using Cons.prems(1) by (simp add: plain_tables_def insert_table_refines)
  then have "plain_tables (insert_table t tr)"
    using Cons.prems unfolding insert_table_def by (intro plain_tables_insert) simp_all
  with Cons show ?case by simp
qed simp

lemma plain_tables_changes:
  "apply_changes composite cs tr = Inr tr' \<Longrightarrow> plain_tables tr \<Longrightarrow> (\<And>c. c \<in> set cs \<Longrightarrow> plain_name (ce_table_name c)) \<Longrightarrow> plain_tables tr'"
proof (induction composite cs tr rule: apply_changes.induct)
  case (2 composite c cs tr)
  have "rows_ok (apply_change c tr)" using "2.prems"(2) by (simp add: plain_tables_def apply_change_refines)
  then have "plain_tables (apply_change c tr)"
    using "2.prems"(2,3) unfolding apply_change_def Let_def by (intro plain_tables_insert) simp_all
  with "2" show ?case by (auto split: if_splits)
qed simp

lemma plain_synthetic:
  assumes "plain_tables tr"
  shows "distinct (map tx_table_name (synthetic_tables tr))" and "\<And>t. t \<in> set (synthetic_tables tr) \<Longrightarrow> plain_name (tx_table_name t)"
proof -
  have names: "map tx_table_name (synthetic_tables tr) = map fst tr" by (simp add: synthetic_tables_def case_prod_beta)
  show "distinct (map tx_table_name (synthetic_tables tr))"
    using assms unfolding names by (auto simp: plain_tables_def rows_ok_def btree_def strict_sorted_iff)
  show "plain_name (tx_table_name t)" if "t \<in> set (synthetic_tables tr)" for t
    using assms that by (auto simp: plain_tables_def synthetic_tables_def)
qed

lemma apply_changes_append:
  "apply_changes composite (xs @ ys) tr = (case apply_changes composite xs tr of Inl e \<Rightarrow> Inl e | Inr tr' \<Rightarrow> apply_changes composite ys tr')"
  by (induction composite xs tr rule: apply_changes.induct) auto

lemma compact_objects_subset: "e \<in> set (compact_object_entries chain) \<Longrightarrow> \<exists>m \<in> set chain. e \<in> set (sm_objects m)"
proof -
  let ?step = "\<lambda>T object m. if oe_object_id object \<in> T then m else btree_insert (uint (oe_object_id object)) object m"
  have "snd ` set (fold (?step T) os acc) \<subseteq> set os \<union> snd ` set acc" for T os and acc :: "(int \<times> ObjectBackupEntry) list"
  proof (induction os arbitrary: acc)
    case (Cons ob os)
    have "snd ` set (?step T ob acc) \<subseteq> insert ob (snd ` set acc)"
      using btree_insert_subset [of "uint (oe_object_id ob)" ob acc] by auto
    then have "set os \<union> snd ` set (?step T ob acc) \<subseteq> set (ob # os) \<union> snd ` set acc"
      unfolding list.set(2) by blast
    then show ?case unfolding fold_Cons comp_apply by (rule subset_trans [OF Cons.IH])
  qed simp
  from this [of _ "concat (map sm_objects chain)" "[]"] show "e \<in> set (compact_object_entries chain) \<Longrightarrow> ?thesis"
    unfolding compact_object_entries_def Let_def by fastforce
qed

definition compact_header :: "CompactChainRequest \<Rightarrow> BackupSnapshotManifest list \<Rightarrow> BackupSnapshotManifest \<Rightarrow> bool" where
  "compact_header request chain m \<longleftrightarrow>
     sm_snapshot_id m = cr_snapshot_id request \<and> sm_parent_snapshot_id m = None \<and> sm_backup_kind m = SyntheticFull
     \<and> sm_schema_hash m = sm_schema_hash (last chain) \<and> sm_database_backend m = sm_database_backend (last chain)
     \<and> map oe_content_key (sm_objects m) = map oe_content_key (compact_object_entries chain)"

definition compacted ::
  "'v BackupCodec \<Rightarrow> blob_map \<Rightarrow> CompactChainRequest \<Rightarrow> BackupSnapshotManifest list \<Rightarrow> BackupSnapshotManifest \<Rightarrow> blob_map \<Rightarrow> bool" where
  "compacted C V request chain m V' \<longleftrightarrow>
     (\<exists>tables css tr. tables_read C V (hd chain) tables \<and> list_all2 (changes_read C V) (tl chain) css
       \<and> apply_changes (composite_tables C (fold insert_table tables [])) (concat css) (fold insert_table tables []) = Inr tr
       \<and> compact_header request chain m \<and> snapshot_written C V' (synthetic_tables tr) [] m)"

lemma entry_reads_lock:
  assumes "own_keys m" "e \<in> set (dm_tables (sm_database m)) \<union> set (dm_changes (sm_database m))"
  shows "entry_reads C parse (V(REPOSITORY_LOCK_KEY := x)) m e rows = entry_reads C parse V m e rows"
proof -
  have "te_content_key e \<in> content_keys m" using assms(2) by (auto simp: content_keys_def)
  then have "te_content_key e \<noteq> REPOSITORY_LOCK_KEY" using content_not_lock [OF assms(1)] by metis
  then show ?thesis by (simp add: entry_reads_def)
qed

lemma reads_lock:
  assumes "own_keys m"
  shows "changes_read C (V(REPOSITORY_LOCK_KEY := x)) m cs = changes_read C V m cs"
    and "tables_read C (V(REPOSITORY_LOCK_KEY := x)) m ts = tables_read C V m ts"
proof -
  have "list_all2 (entry_reads C (cd_change_parse C) (V(REPOSITORY_LOCK_KEY := x)) m) (dm_changes (sm_database m)) css
      = list_all2 (entry_reads C (cd_change_parse C) V m) (dm_changes (sm_database m)) css" for css
    by (rule list.rel_cong [OF refl refl]) (simp add: entry_reads_lock [OF assms])
  then show "changes_read C (V(REPOSITORY_LOCK_KEY := x)) m cs = changes_read C V m cs" by (simp add: changes_read_def)
  show "tables_read C (V(REPOSITORY_LOCK_KEY := x)) m ts = tables_read C V m ts"
    unfolding tables_read_def by (rule list.rel_cong [OF refl refl]) (simp add: entry_reads_lock [OF assms])
qed

lemma crate_names_lock:
  assumes "well_kept C V" "crate_names C V"
  shows "crate_names C (V(REPOSITORY_LOCK_KEY := x))"
proof -
  have "own_keys m" if "m \<in> manifests C V" for m using assms(1) that by (auto simp: manifests_def well_kept_def)
  with assms(2) show ?thesis by (simp add: crate_names_def reads_lock)
qed

lemma compacted_lock:
  assumes "well_kept C V" "lineage C V i (rev chain)" "chain \<noteq> []"
  shows "compacted C (V(REPOSITORY_LOCK_KEY := x)) request chain m V' = compacted C V request chain m V'"
proof -
  have own: "own_keys m" if "m \<in> set chain" for m
    using lineage_stored [OF assms(2)] that assms(1) by (auto simp: manifests_def well_kept_def)
  have "list_all2 (changes_read C (V(REPOSITORY_LOCK_KEY := x))) (tl chain) css = list_all2 (changes_read C V) (tl chain) css" for css
    by (rule list.rel_cong [OF refl refl]) (simp add: reads_lock own list.set_sel(2) [OF assms(3)])
  then show ?thesis using reads_lock(2) [OF own [OF hd_in_set [OF assms(3)]], of C V x] by (simp add: compacted_def)
qed

lemma compacted_replays:
  assumes "compacted C V request chain m V'"
  shows "intact C V' m \<and> compact_header request chain m \<and> (\<exists>base changes tables. tables_read C V (hd chain) base
    \<and> list_all2 (changes_read C V) (tl chain) changes \<and> snapshot_written C V' tables [] m
    \<and> ((\<forall>c \<in> set (concat changes). keyed_change c) \<longrightarrow> table_state tables = fold replay_change (concat changes) (table_state base)))"
proof -
  from assms obtain base css tr where tr: "tables_read C V (hd chain) base" "list_all2 (changes_read C V) (tl chain) css"
    "compact_header request chain m" "snapshot_written C V' (synthetic_tables tr) [] m"
    and state: "apply_changes (composite_tables C (fold insert_table base [])) (concat css) (fold insert_table base []) = Inr tr"
    unfolding compacted_def by blast
  have "table_state (synthetic_tables tr) = fold replay_change (concat css) (table_state base)" if "\<forall>c \<in> set (concat css). keyed_change c"
    using that by (intro compaction_state(1) [OF state]) blast
  with tr snapshot_written_intact(1) [OF tr(4)] show ?thesis by blast
qed

lemma chain_names:
  assumes "crate_names C V" "well_kept C V" "lineage C V i (rev chain)" "m \<in> set chain"
  shows "keys_ok m" and "e \<in> set (sm_objects m) \<Longrightarrow> oe_content_key e \<in> backup_keys \<and> under ''objects/sha256'' (oe_content_key e)"
    and "te \<in> set (dm_tables (sm_database m)) \<Longrightarrow> plain_name (te_table_name te)"
    and "changes_read C V m cs \<Longrightarrow> c \<in> set cs \<Longrightarrow> plain_name (ce_table_name c)"
proof -
  have m: "m \<in> manifests C V" using lineage_stored [OF assms(3)] assms(4) by auto
  then have "own_keys m" using assms(2) by (auto simp: manifests_def well_kept_def)
  with m assms(1) show "keys_ok m" and "e \<in> set (sm_objects m) \<Longrightarrow> oe_content_key e \<in> backup_keys \<and> under ''objects/sha256'' (oe_content_key e)"
    and "te \<in> set (dm_tables (sm_database m)) \<Longrightarrow> plain_name (te_table_name te)"
    and "changes_read C V m cs \<Longrightarrow> c \<in> set cs \<Longrightarrow> plain_name (ce_table_name c)"
    unfolding crate_names_def own_keys_def by blast+
qed

lemma read_tables_plain:
  assumes "tables_read C V m tables" "\<And>e. e \<in> set (dm_tables (sm_database m)) \<Longrightarrow> plain_name (te_table_name e)"
  shows "plain_tables (fold insert_table tables [])"
proof (rule plain_tables_base)
  show "plain_tables []" by (simp add: plain_tables_def rows_ok_def btree_def btree_get_def)
  show "plain_name (tx_table_name t)" if "t \<in> set tables" for t
    using assms that by (auto simp: tables_read_def list_all2_conv_all_nth in_set_conv_nth) (metis nth_mem)
qed

lemma read_changes_plain:
  assumes "list_all2 (changes_read C V) ms css" "\<And>m cs c. m \<in> set ms \<Longrightarrow> changes_read C V m cs \<Longrightarrow> c \<in> set cs \<Longrightarrow> plain_name (ce_table_name c)"
    and "c \<in> set (concat css)"
  shows "plain_name (ce_table_name c)"
  using assms by (induction rule: list_all2_induct) auto

lemma map_eq_transfer: "map f xs = map f ys \<Longrightarrow> (\<And>y. y \<in> set ys \<Longrightarrow> P (f y)) \<Longrightarrow> x \<in> set xs \<Longrightarrow> P (f x)"
  by (metis (no_types, lifting) imageE imageI list.set_map)

lemma compact_objects_keys:
  assumes "\<And>m e. m \<in> set chain \<Longrightarrow> e \<in> set (sm_objects m) \<Longrightarrow> oe_content_key e \<in> backup_keys \<and> under ''objects/sha256'' (oe_content_key e)"
    and "e \<in> set (compact_object_entries chain)"
  shows "oe_content_key e \<in> backup_keys \<and> under ''objects/sha256'' (oe_content_key e)"
  using compact_objects_subset [OF assms(2)] assms(1) by blast

context backup_repository
begin

lemma compact_changes_acts:
  assumes "\<And>m. m \<in> set ms \<Longrightarrow> keys_ok m"
  shows "acts rep V (for_each ms (\<lambda>m rows. perform (load_change_exports R C m) (\<lambda>changes. of_result (apply_changes composite changes rows))) base)
    (\<lambda>tr V'. V' = V \<and> (\<exists>css. list_all2 (changes_read C V) ms css \<and> apply_changes composite (concat css) base = Inr tr)) (\<lambda>_ V'. V' = V)"
proof (rule acts_for_each [where I = "\<lambda>ys tr V'. V' = V \<and> (\<exists>css. list_all2 (changes_read C V) ys css \<and> apply_changes composite (concat css) base = Inr tr)"], goal_cases)
  case (2 ys m zs rows V')
  then obtain css where css: "list_all2 (changes_read C V) ys css" "apply_changes composite (concat css) base = Inr rows" and V': "V' = V" by blast
  have ok: "keys_ok m" using assms 2(1) by simp
  show ?case
    unfolding V'
  proof (rule acts_read [OF load_change_exports_acts], simp, rule acts_of_result, goal_cases)
    case (1 cs tr)
    then have "changes_read C V m cs" using ok by (simp add: changes_read_def)
    with css 1(2) show ?case by (intro conjI exI [of _ "css @ [cs]"]) (auto simp: list_all2_appendI apply_changes_append)
  qed simp
qed (auto intro: exI [of _ "[]"])

lemma compact_objects_acts:
  assumes "\<And>e. e \<in> set es \<Longrightarrow> oe_content_key e \<in> backup_keys"
  shows "acts rep V (for_each es (\<lambda>object entries.
       perform (verify_blob_checksum R C (oe_content_key object) (oe_sha256_hex object)) (\<lambda>observed_size.
       done_with (entries @ [object\<lparr>oe_size_bytes := observed_size\<rparr>]))) [])
    (\<lambda>oes V'. V' = V \<and> map oe_content_key oes = map oe_content_key es
       \<and> (\<forall>e \<in> set oes. payload_ok C V (oe_content_key e) (oe_sha256_hex e))) (\<lambda>_ V'. V' = V)"
proof (rule acts_for_each [where I = "\<lambda>ys oes V'. V' = V \<and> map oe_content_key oes = map oe_content_key ys
      \<and> (\<forall>e \<in> set oes. payload_ok C V (oe_content_key e) (oe_sha256_hex e))"], goal_cases)
  case (2 ys e zs oes V')
  then show ?case
    by (auto intro!: acts_read [OF verify_blob_checksum_acts] acts_done simp: payload_ok_def assms)
qed simp

lemma write_checked_manifest_acts:
  assumes "manifest_json_ok C" "sm_snapshot_id m = i" "dm_export_format (sm_database m) = DATABASE_EXPORT_FORMAT"
    "dm_compression (sm_database m) = Zstd" "dm_changes (sm_database m) = []"
    and tables: "list_all2 (table_written C V1 i) tables (dm_tables (sm_database m))" and "adds C i V V1"
    and objects: "\<And>e. e \<in> set (sm_objects m) \<Longrightarrow> payload_ok C V1 (oe_content_key e) (oe_sha256_hex e) \<and> under ''objects/sha256'' (oe_content_key e)"
  shows "acts rep V1 (write_manifest R C m)
    (\<lambda>m' V'. adds C i V V' \<and> snapshot_written C V' tables [] m' \<and> (\<exists>c. m' = m\<lparr>sm_checksum := c\<rparr>)) (\<lambda>_ V'. adds C i V V')"
proof -
  have own: "own_keys m"
    using tables objects assms(2,5)
    by (auto simp: own_keys_def table_written_def payload_written_def payload_key_dir list_all2_conv_all_nth in_set_conv_nth)
  show ?thesis
  proof (rule acts_conseq [OF write_manifest_acts [OF assms(2) [symmetric] own]], elim conjE exE, goal_cases)
    case (1 m' V' c b)
    have m': "sm_snapshot_id m' = i" "sm_database m' = sm_database m" "sm_objects m' = sm_objects m" using 1 assms(2) by simp_all
    have "snapshot_written C V' tables [] m'"
      unfolding 1(4) by (rule snapshot_finished [OF _ _ adds_refl(2) _ assms(1) 1(3) 1(1)])
        (use m' assms tables objects in simp_all)
    moreover from this have "own_keys m'" by (rule snapshot_written_intact)
    then have "adds C i V V'" unfolding 1(4) by (intro adds_manifest [OF 1(3)]) (use m' assms(7) in simp_all)
    ultimately show ?case using 1 by blast
  next
    case (2 e V')
    then show ?case using assms(7) by (blast intro: adds_trans)
  qed
qed

lemma write_compacted_acts:
  assumes "manifest_json_ok C" and i: "i = cr_snapshot_id request" and tr: "plain_tables tr"
    and objects: "\<And>e. e \<in> set (compact_object_entries chain) \<Longrightarrow> oe_content_key e \<in> backup_keys \<and> under ''objects/sha256'' (oe_content_key e)"
    and mk: "\<And>entries n oes. sm_snapshot_id (mk entries n oes) = i" "\<And>entries n oes. sm_objects (mk entries n oes) = oes"
      "\<And>entries n oes. dm_tables (sm_database (mk entries n oes)) = entries" "\<And>entries n oes. dm_changes (sm_database (mk entries n oes)) = []"
      "\<And>entries n oes. dm_export_format (sm_database (mk entries n oes)) = DATABASE_EXPORT_FORMAT"
      "\<And>entries n oes. dm_compression (sm_database (mk entries n oes)) = Zstd"
  shows "acts rep V (perform (write_tables R C i (synthetic_tables tr)) (\<lambda>(entries, n).
      perform (for_each (compact_object_entries chain) (\<lambda>object entries.
        perform (verify_blob_checksum R C (oe_content_key object) (oe_sha256_hex object)) (\<lambda>observed_size.
        done_with (entries @ [object\<lparr>oe_size_bytes := observed_size\<rparr>]))) []) (\<lambda>oes. write_manifest R C (mk entries n oes))))
    (\<lambda>m V'. adds C i V V' \<and> snapshot_written C V' (synthetic_tables tr) [] m
       \<and> (\<exists>entries n oes c. m = (mk entries n oes)\<lparr>sm_checksum := c\<rparr> \<and> map oe_content_key oes = map oe_content_key (compact_object_entries chain)))
    (\<lambda>_ V'. adds C i V V')" (is "acts rep V _ ?Q ?E")
proof -
  have tables: "acts rep V (write_tables R C i (synthetic_tables tr))
      (\<lambda>acc V'. list_all2 (table_written C V' i) (synthetic_tables tr) (fst acc) \<and> adds C i V V') ?E"
    by (rule acts_conseq [OF write_tables_acts [OF plain_synthetic [OF tr]]]) auto
  show ?thesis
  proof (rule acts_perform [OF tables], goal_cases)
    case (1 acc V1)
    then obtain entries n where acc: "acc = (entries, n)" and V1: "list_all2 (table_written C V1 i) (synthetic_tables tr) entries" "adds C i V V1"
      by (cases acc) auto
    show ?case
      unfolding acc prod.case
    proof (rule acts_read [OF compact_objects_acts], goal_cases)
      case (3 oes)
      then have keys: "map oe_content_key oes = map oe_content_key (compact_object_entries chain)" by blast
      then have "under ''objects/sha256'' (oe_content_key e)" if "e \<in> set oes" for e
        by (rule map_eq_transfer [where f = oe_content_key and P = "under ''objects/sha256''"]) (use objects that in blast)+
      with 3 have payload: "\<And>e. e \<in> set oes \<Longrightarrow> payload_ok C V1 (oe_content_key e) (oe_sha256_hex e) \<and> under ''objects/sha256'' (oe_content_key e)"
        by blast
      show ?case
        by (rule acts_conseq [OF write_checked_manifest_acts [where V = V and i = i and tables = "synthetic_tables tr", OF assms(1)]])
          (use keys V1 payload in \<open>simp_all add: mk, blast\<close>)
    qed (use objects V1(2) in auto)
  qed
qed

lemma compact_chain_inner_acts:
  assumes "manifest_json_ok C" "crate_names C V" "well_kept C V" and i: "i = cr_snapshot_id request"
  shows "acts rep V (compact_chain_inner R C request)
    (\<lambda>m V'. adds C i V V' \<and> (\<exists>chain. lineage C V (Some (cr_source_snapshot_id request)) (rev chain) \<and> valid_chain chain
       \<and> compacted C V request chain m V'))
    (\<lambda>_ V'. adds C i V V')"
  unfolding compact_chain_inner_def Let_def
proof (rule acts_read [OF load_manifest_chain_acts], simp, rule acts_read [OF acts_for_all [OF verify_manifest_acts]], simp, goal_cases)
  case (1 chain)
  then have chain: "lineage C V (Some (cr_source_snapshot_id request)) (rev chain)" "valid_chain chain" by auto
  have nonempty: "chain \<noteq> []" using chain(2) by auto
  note names = chain_names [OF assms(2,3) chain(1)]
  show ?case
    unfolding if_not_P [OF nonempty]
  proof (rule acts_read [OF load_table_exports_acts], simp, goal_cases)
    case (1 tables)
    let ?base = "fold insert_table tables []"
    let ?composite = "composite_tables C ?base"
    have tables: "tables_read C V (hd chain) tables" using 1 names(1) nonempty by (simp add: tables_read_def)
    have base: "plain_tables ?base" using names(3) [OF hd_in_set [OF nonempty]] by (rule read_tables_plain [OF tables])
    have later: "m \<in> set (tl chain) \<Longrightarrow> m \<in> set chain" for m using list.set_sel(2) [OF nonempty] by blast
    have "\<And>m. m \<in> set (tl chain) \<Longrightarrow> keys_ok m" using names(1) later by blast
    note changes = compact_changes_acts [OF this, where C = C and V = V and composite = ?composite and base = ?base]
    show ?case
    proof (rule acts_read [OF changes], goal_cases)
      case (3 tr)
      then obtain css where css: "list_all2 (changes_read C V) (tl chain) css" "apply_changes ?composite (concat css) ?base = Inr tr" by blast
      have tr: "plain_tables tr"
        by (rule plain_tables_changes [OF css(2) base], erule read_changes_plain [OF css(1), rotated]) (use names(4) later in blast)
      show ?case
        unfolding i [symmetric]
      proof (rule acts_conseq [OF write_compacted_acts [OF assms(1) i tr]], goal_cases)
        case (1 e)
        then show ?case using compact_objects_keys names(2) by blast
      next
        case (8 m V')
        then have "compact_header request chain m" using i by (auto simp: compact_header_def)
        with 8 chain tables css show ?case by (auto simp: compacted_def)
      qed simp_all
    qed simp_all
  qed
qed

lemma compact_chain_acts:
  assumes "manifest_json_ok C" "crate_names C V" "well_kept C V" and i: "i = cr_snapshot_id request"
  shows "acts rep V (compact_chain R C now request)
    (\<lambda>m V'. adds C i V V' \<and> (\<exists>chain. lineage C V (Some (cr_source_snapshot_id request)) (rev chain) \<and> valid_chain chain
       \<and> compacted C V request chain m V'))
    (\<lambda>_ V'. adds C i V (V'(REPOSITORY_LOCK_KEY := V REPOSITORY_LOCK_KEY)))"
proof -
  let ?V = "V(REPOSITORY_LOCK_KEY \<mapsto> show_int now)"
  have inner: "acts rep ?V (compact_chain_inner R C request)
      (\<lambda>m V'. adds C i ?V V' \<and> (\<exists>chain. lineage C ?V (Some (cr_source_snapshot_id request)) (rev chain) \<and> valid_chain chain
         \<and> compacted C ?V request chain m V')) (\<lambda>_ V'. adds C i ?V V')"
    by (rule compact_chain_inner_acts [OF assms(1) crate_names_lock [OF assms(3,2)] _ i]) (simp add: assms(3))
  have lock: "compacted C V request chain m (unlocked V')" if "compacted C ?V request chain m V'"
      "lineage C V (Some (cr_source_snapshot_id request)) (rev chain)" "valid_chain chain" for chain m V'
  proof -
    have "chain \<noteq> []" using that(3) by auto
    with that(1) compacted_lock [OF assms(3) that(2)] have "compacted C V request chain m V'" by simp
    then show ?thesis unfolding compacted_def by (blast intro: snapshot_written_unlocked)
  qed
  show ?thesis
    unfolding compact_chain_def
  proof (rule acts_conseq [OF locked_acts [OF inner]], goal_cases)
    case (1 m V')
    then show ?case using adds_unlocked [of C i V "show_int now" _ V'] lock
      by (fastforce simp: unlocked_def fun_upd_idem)
  next
    case (2 e V')
    then show ?case using adds_unlocked [of C i V "show_int now" _ V']
      by (auto simp: unlocked_def fun_upd_idem split: if_splits)
  qed
qed

end

text \<open>
  C15. Compacting a chain always ends and only adds: whatever fails, every other snapshot is still
  stored and as complete as before, and the repository stays well kept. When it succeeds, the chain
  was the valid lineage of the source snapshot, the new snapshot is complete and has no parent, and
  its tables restore the rows that the base tables and then all changes of the chain would leave.
\<close>

theorem compaction_adds:
  assumes "local_rep lb pfx V s" and "well_kept C V" and "manifest_json_ok C" and "crate_names C V"
  shows "\<exists>r s' V'. compact_chain (local_repository lb pfx limits) C now request s = Some (r, s')
    \<and> local_rep lb pfx V' s' \<and> well_kept C V' \<and> other_kept C V V' (cr_snapshot_id request)
    \<and> (\<forall>m. r = Inr m \<longrightarrow> intact C V' m \<and> (\<exists>chain base changes tables.
         lineage C V (Some (cr_source_snapshot_id request)) (rev chain) \<and> valid_chain chain \<and> compact_header request chain m
         \<and> tables_read C V (hd chain) base \<and> list_all2 (changes_read C V) (tl chain) changes \<and> snapshot_written C V' tables [] m
         \<and> ((\<forall>c \<in> set (concat changes). keyed_change c) \<longrightarrow>
              table_state tables = fold replay_change (concat changes) (table_state base))))"
proof -
  let ?i = "cr_snapshot_id request"
  from acts_ends [where rep = "local_rep lb pfx", OF local_repo.compact_chain_acts [OF assms(3,4,2) refl] assms(1)] obtain r s' V' where
    run: "compact_chain (local_repository lb pfx limits) C now request s = Some (r, s')" "local_rep lb pfx V' s'"
    and post: "case r of Inl e \<Rightarrow> adds C ?i V (V'(REPOSITORY_LOCK_KEY := V REPOSITORY_LOCK_KEY))
      | Inr m \<Rightarrow> adds C ?i V V' \<and> (\<exists>chain. lineage C V (Some (cr_source_snapshot_id request)) (rev chain) \<and> valid_chain chain
          \<and> compacted C V request chain m V')" by blast
  have "\<exists>x. adds C ?i V (V'(REPOSITORY_LOCK_KEY := x))"
  proof (cases r)
    case (Inr m)
    with post show ?thesis by (intro exI [of _ "V' REPOSITORY_LOCK_KEY"]) simp
  qed (use post in auto)
  then obtain x where "adds C ?i V (V'(REPOSITORY_LOCK_KEY := x))" by blast
  note kept = adds_locked_kept [OF assms(2,3) this]
  have "\<forall>m. r = Inr m \<longrightarrow> (\<exists>chain. lineage C V (Some (cr_source_snapshot_id request)) (rev chain) \<and> valid_chain chain
      \<and> compacted C V request chain m V')"
    using post by auto
  then have "\<forall>m. r = Inr m \<longrightarrow> intact C V' m \<and> (\<exists>chain base changes tables.
         lineage C V (Some (cr_source_snapshot_id request)) (rev chain) \<and> valid_chain chain \<and> compact_header request chain m
         \<and> tables_read C V (hd chain) base \<and> list_all2 (changes_read C V) (tl chain) changes \<and> snapshot_written C V' tables [] m
         \<and> ((\<forall>c \<in> set (concat changes). keyed_change c) \<longrightarrow>
              table_state tables = fold replay_change (concat changes) (table_state base)))"
    using compacted_replays by blast
  with run kept show ?thesis by blast
qed

lemma sample_crate_names: "crate_names backup_codec sample_blobs"
proof -
  have "m = sample_manifest 1 10 \<or> m = sample_manifest 2 20" if "m \<in> manifests backup_codec sample_blobs" for m
    using that by (auto simp: manifests_def sample_stored)
  then show ?thesis
    by (fastforce simp: crate_names_def keys_ok_def changes_read_def sample_manifest_def)
qed

theorem compaction_adds_witness:
  "\<exists>r s' V'. compact_chain (local_repository sample_backend None default_capacity_limits) backup_codec 0
       \<lparr>cr_snapshot_id = 3, cr_source_snapshot_id = 2, cr_created_at = 30, cr_app_id = ''app'', cr_app_version = ''1''\<rparr> sample_repo_fs = Some (r, s')
     \<and> local_rep sample_backend None V' s' \<and> stored backup_codec V' 1 (sample_manifest 1 10)"
proof -
  have "(3::uuid) \<noteq> 1" by simp
  with compaction_adds [OF sample_rep sample_well_kept sample_json_ok sample_crate_names, where limits = default_capacity_limits and now = 0
      and request = "\<lparr>cr_snapshot_id = 3, cr_source_snapshot_id = 2, cr_created_at = 30, cr_app_id = ''app'', cr_app_version = ''1''\<rparr>"]
  show ?thesis using sample_other_kept [where i = 3] by (auto 4 0)
qed

end
