(* ===== verification/Restore.thy ===== *)
theory Restore
  imports CompactLaws
begin

text \<open>
  Restoring (\<open>graphql-orm-backup/src/restore.rs\<close>): the restore of a snapshot chain into a database
  through the application's adapter, with the progress a failure reports, and the restore of the
  objects of a manifest through a sink.
\<close>

section \<open>Contexts, checks and progress\<close>

definition empty_database :: RestoreContext where
  "empty_database = \<lparr>rx_mode = EmptyDatabase, rx_disable_policies = True, rx_disable_change_journal = True\<rparr>"

definition dry_run :: RestoreContext where
  "dry_run = \<lparr>rx_mode = DryRun, rx_disable_policies = True, rx_disable_change_journal = True\<rparr>"

definition display_progress :: "RestoreFailureProgress \<Rightarrow> str" where
  "display_progress fp =
     (let stages = show_nat (length (fp_completed_manifest_ids fp)) in
      case fp_phase fp of
        Validation \<Rightarrow> ''restore validation failed before any writes were attempted''
      | Preparation \<Rightarrow>
          if fp_completed_manifest_ids fp = [] then ''restore preparation failed before any writes were attempted''
          else ''restore preparation failed after '' @ stages @ '' completed stages; target may contain earlier restored stages''
      | Apply \<Rightarrow> ''restore apply failed after '' @ stages @ '' completed stages; failing stage may be partially applied'')"

definition restore_stage_error ::
  "uuid \<Rightarrow> uuid option \<Rightarrow> RestoreFailurePhase \<Rightarrow> uuid list \<Rightarrow> BackupError \<Rightarrow> BackupError" where
  "restore_stage_error requested_snapshot_id failed_manifest_id phase completed_manifest_ids source =
     BeRestoreStageFailed
       \<lparr>fp_requested_snapshot_id = requested_snapshot_id, fp_failed_manifest_id = failed_manifest_id,
        fp_phase = phase, fp_completed_manifest_ids = completed_manifest_ids\<rparr> source"

definition ensure_empty_restore_target :: "bool \<Rightarrow> RestoreContext \<Rightarrow> BackupError + unit" where
  "ensure_empty_restore_target target_is_empty context =
     (case rx_mode context of
        EmptyDatabase \<Rightarrow> if target_is_empty then Inr () else Inl BeRestoreTargetNotEmpty
      | DryRun \<Rightarrow> Inr ())"

definition manifest_schema :: "BackupSnapshotManifest \<Rightarrow> GraphqlOrmBackupSchema" where
  "manifest_schema m =
     \<lparr>gs_backend = sm_database_backend m, gs_migration_version = sm_schema_version m, gs_schema_hash = sm_schema_hash m\<rparr>"

definition verify_restore_schema ::
  "('d, 'v) GraphqlOrmBackupAdapter \<Rightarrow> BackupSnapshotManifest \<Rightarrow> ('d, GraphqlOrmBackupSchema) app" where
  "verify_restore_schema database m =
     (let backup = manifest_schema m in
      app_then (ad_schema_snapshot database) (\<lambda>target d.
        if gs_backend backup \<noteq> gs_backend target \<or> gs_schema_hash backup \<noteq> gs_schema_hash target
          then (Inl (BeRestoreSchemaMismatch (gs_backend backup) (gs_schema_hash backup) (gs_backend target) (gs_schema_hash target)), d)
        else (Inr backup, d)))"

section \<open>Restoring a chain\<close>

record RestoreResult =
  rr_manifest_chain_len :: nat
  rr_full_table_count :: nat
  rr_full_row_count :: nat
  rr_incremental_change_count :: nat

text \<open>One incremental stage: its changes are loaded, and applied unless the run is dry.\<close>

definition restore_step ::
  "'s BackupRepository \<Rightarrow> 'v BackupCodec \<Rightarrow> ('d, 'v) GraphqlOrmBackupAdapter \<Rightarrow> uuid \<Rightarrow> RestoreContext \<Rightarrow> BackupSnapshotManifest \<Rightarrow>
     nat \<times> uuid list \<Rightarrow> ('s \<times> 'd, BackupError, nat \<times> uuid list) action" where
  "restore_step R C database snapshot_id context m = (\<lambda>(incremental_change_count, completed).
     let fails = restore_stage_error snapshot_id (Some (sm_snapshot_id m)) in
     perform (map_failure (fails Preparation completed) (in_repository (load_change_exports R C m))) (\<lambda>changes.
     if rx_mode context = DryRun then done_with (incremental_change_count + length changes, completed)
     else
       perform (map_failure (fails Apply completed) (in_application (ad_restore_incremental database changes context))) (\<lambda>_.
       done_with (incremental_change_count + length changes, completed @ [sm_snapshot_id m]))))"

definition restore_snapshot ::
  "'s BackupRepository \<Rightarrow> 'v BackupCodec \<Rightarrow> ('d, 'v) GraphqlOrmBackupAdapter \<Rightarrow> uuid \<Rightarrow> RestoreContext \<Rightarrow>
     ('s \<times> 'd, BackupError, RestoreResult) action" where
  "restore_snapshot R C database snapshot_id context =
     perform (map_failure (restore_stage_error snapshot_id None Validation []) (in_repository (load_manifest_chain R C snapshot_id))) (\<lambda>chain.
     perform (for_each chain (\<lambda>m _.
       perform (map_failure (restore_stage_error snapshot_id (Some (sm_snapshot_id m)) Validation [])
         (in_repository (verify_manifest_and_objects R C m))) (\<lambda>_. done_with ())) ()) (\<lambda>_.
     if chain = []
       then fail_with (restore_stage_error snapshot_id None Validation [] (BeInvalidManifestChain ''manifest chain is empty''))
     else
     let full_manifest = hd chain; full_id = sm_snapshot_id full_manifest; fails = restore_stage_error snapshot_id (Some full_id) in
     perform (map_failure (fails Validation []) (in_application (verify_restore_schema database full_manifest))) (\<lambda>backup_schema.
     perform
       (case rx_mode context of
          DryRun \<Rightarrow> done_with True
        | EmptyDatabase \<Rightarrow> map_failure (fails Validation []) (in_application (ad_restore_target_is_empty database))) (\<lambda>target_is_empty.
     perform (map_failure (fails Validation []) (of_result (ensure_empty_restore_target target_is_empty context))) (\<lambda>_.
     perform (map_failure (fails Preparation []) (in_repository (load_table_exports R C full_manifest))) (\<lambda>full_export.
     perform
       (if rx_mode context = DryRun then done_with []
        else perform (map_failure (fails Apply []) (in_application (ad_restore_full database backup_schema full_export context))) (\<lambda>_.
          done_with [full_id])) (\<lambda>completed.
     perform (for_each (tl chain) (restore_step R C database snapshot_id context) (0, completed)) (\<lambda>(incremental_change_count, _).
     done_with
       \<lparr>rr_manifest_chain_len = length chain, rr_full_table_count = length full_export,
        rr_full_row_count = sum_list (map (\<lambda>table. length (tx_rows table)) full_export),
        rr_incremental_change_count = incremental_change_count\<rparr>))))))))"

section \<open>Restoring objects\<close>

text \<open>
  A sink gets a stream that hashes what is taken from it. Beside its result a sink reports how many
  chunks it took, which the source observes through the shared hasher.
\<close>

record 'o RestoreObjectSink =
  sk_restore_object :: "BackupObjectRef \<Rightarrow> str \<Rightarrow> ('o, BackupError, unit) action"
  sk_restore_object_stream :: "BackupObjectRef \<Rightarrow> ByteStream \<Rightarrow> ('o, BackupError, nat) action"

definition default_restore_object_stream ::
  "BackupByteLimit \<Rightarrow> (BackupObjectRef \<Rightarrow> str \<Rightarrow> ('o, BackupError, unit) action) \<Rightarrow> BackupObjectRef \<Rightarrow> ByteStream \<Rightarrow> ('o, BackupError, nat) action" where
  "default_restore_object_stream limit restore_object object body =
     perform (of_result (collect_backup_stream body limit)) (\<lambda>bytes.
     perform (restore_object object bytes) (\<lambda>_. done_with (length (st_chunks body))))"

text \<open>The sink over a blob store; a store that accepts a blob has read the whole stream.\<close>

definition blob_store_sink :: "'o BlobStore \<Rightarrow> 'o RestoreObjectSink" where
  "blob_store_sink store =
     (let put = (\<lambda>object body. map_failure from_storage_error (bs_put_blob store (or_storage_key object) body (or_mime_type object))) in
      \<lparr>sk_restore_object = (\<lambda>object bytes. perform (put object (stream_from_bytes bytes)) (\<lambda>_. done_with ())),
       sk_restore_object_stream = (\<lambda>object body. perform (put object body) (\<lambda>_. done_with (length (st_chunks body))))\<rparr>)"

definition object_ref_from_entry :: "ObjectBackupEntry \<Rightarrow> BackupObjectRef" where
  "object_ref_from_entry e =
     \<lparr>or_object_id = oe_object_id e, or_storage_key = oe_storage_key e, or_sha256_hex = oe_sha256_hex e,
      or_size_bytes = oe_size_bytes e, or_mime_type = oe_mime_type e\<rparr>"

text \<open>An action of the second of two components.\<close>

definition in_sink :: "('o, 'e, 'a) action \<Rightarrow> ('s \<times> 'o, 'e, 'a) action" where
  "in_sink m = (\<lambda>(s, t). map_option (\<lambda>(r, t'). (r, (s, t'))) (m t))"

definition restore_object_entry ::
  "'s BackupRepository \<Rightarrow> 'v BackupCodec \<Rightarrow> 'o RestoreObjectSink \<Rightarrow> ObjectBackupEntry \<Rightarrow> ('s \<times> 'o, BackupError, unit) action" where
  "restore_object_entry R C sink object =
     perform (in_repository (verify_blob_checksum R C (oe_content_key object) (oe_sha256_hex object))) (\<lambda>observed_size.
     let reference = (object_ref_from_entry object)\<lparr>or_size_bytes := observed_size\<rparr> in
     perform (in_repository (rp_get_blob_stream R (oe_content_key object))) (\<lambda>source.
     perform (in_sink (sk_restore_object_stream sink reference \<lparr>st_chunks = st_chunks source, st_size_hint = None\<rparr>)) (\<lambda>taken.
     let actual = cd_sha256 C (passed_bytes \<lparr>st_chunks = take taken (st_chunks source), st_size_hint = None\<rparr>) in
     if actual \<noteq> oe_sha256_hex object
       then fail_with (BeChecksumMismatch (oe_content_key object) (oe_sha256_hex object) actual)
     else done_with ())))"

definition restore_objects ::
  "'s BackupRepository \<Rightarrow> 'v BackupCodec \<Rightarrow> BackupSnapshotManifest \<Rightarrow> 'o RestoreObjectSink \<Rightarrow> ('s \<times> 'o, BackupError, unit) action" where
  "restore_objects R C m sink = for_each (sm_objects m) (\<lambda>object _. restore_object_entry R C sink object) ()"

section \<open>What a restore does to its target\<close>

text \<open>The calls of the adapter for the first stages of a chain, and a run of such calls that all succeed.\<close>

definition calls_of ::
  "('d, 'v) GraphqlOrmBackupAdapter \<Rightarrow> RestoreContext \<Rightarrow> GraphqlOrmBackupSchema \<Rightarrow> 'v BackupTableExport list \<Rightarrow> 'v BackupChangeExport list list \<Rightarrow>
     ('d, unit) app list" where
  "calls_of database context schema tables changes =
     ad_restore_full database schema tables context # map (\<lambda>cs. ad_restore_incremental database cs context) changes"

definition stage_calls ::
  "'v BackupCodec \<Rightarrow> blob_map \<Rightarrow> ('d, 'v) GraphqlOrmBackupAdapter \<Rightarrow> RestoreContext \<Rightarrow> BackupSnapshotManifest list \<Rightarrow> ('d, unit) app list \<Rightarrow> bool" where
  "stage_calls C V database context chain calls \<longleftrightarrow> calls = [] \<or> (\<exists>tables changes. tables_read C V (hd chain) tables
     \<and> list_all2 (changes_read C V) (take (length changes) (tl chain)) changes
     \<and> calls = calls_of database context (manifest_schema (hd chain)) tables changes)"

fun run_calls :: "('d, unit) app list \<Rightarrow> 'd \<Rightarrow> 'd \<Rightarrow> bool" where
  "run_calls [] d d' \<longleftrightarrow> d' = d"
| "run_calls (call # calls) d d' \<longleftrightarrow> (\<exists>d1. call d = (Inr (), d1) \<and> run_calls calls d1 d')"

lemma run_calls_append: "run_calls (xs @ ys) d d' \<longleftrightarrow> (\<exists>d1. run_calls xs d d1 \<and> run_calls ys d1 d')"
  by (induction xs arbitrary: d) auto

text \<open>
  What the progress of a failed restore says. \<open>reports\<close> fixes the chain: the failure is that of its
  stage \<open>n\<close>, whose identifier is reported; the completed manifests are those of the stages before it,
  none in a dry run and none before validation is over; exactly their calls have succeeded, and only a
  failure while applying ran another call, that of stage \<open>n\<close>, which gave the error.
\<close>

definition reports ::
  "'v BackupCodec \<Rightarrow> blob_map \<Rightarrow> ('d, 'v) GraphqlOrmBackupAdapter \<Rightarrow> RestoreContext \<Rightarrow> BackupSnapshotManifest list \<Rightarrow>
     RestoreFailureProgress \<Rightarrow> BackupError \<Rightarrow> 'd \<Rightarrow> 'd \<Rightarrow> bool" where
  "reports C V database context chain fp source d d' \<longleftrightarrow> (\<exists>n calls d1.
     n < length chain \<and> fp_failed_manifest_id fp = Some (sm_snapshot_id (chain ! n))
     \<and> length calls = (if fp_phase fp = Validation \<or> rx_mode context = DryRun then 0 else n)
     \<and> fp_completed_manifest_ids fp = map sm_snapshot_id (take (length calls) chain)
     \<and> stage_calls C V database context chain calls \<and> run_calls calls d d1
     \<and> (if fp_phase fp = Apply
        then rx_mode context \<noteq> DryRun
          \<and> (\<exists>call. stage_calls C V database context chain (calls @ [call]) \<and> call d1 = (Inl source, d'))
        else d' = d1))"

text \<open>
  The chain is the one the repository stores for the request. Only when it cannot be loaded is no
  manifest named.
\<close>

definition truthful ::
  "'v BackupCodec \<Rightarrow> blob_map \<Rightarrow> ('d, 'v) GraphqlOrmBackupAdapter \<Rightarrow> RestoreContext \<Rightarrow> uuid \<Rightarrow> BackupError \<Rightarrow> 'd \<Rightarrow> 'd \<Rightarrow> bool" where
  "truthful C V database context snapshot_id e d d' \<longleftrightarrow> (\<exists>fp source.
     e = BeRestoreStageFailed fp source \<and> fp_requested_snapshot_id fp = snapshot_id
     \<and> (fp_failed_manifest_id fp = None \<and> fp_phase fp = Validation \<and> fp_completed_manifest_ids fp = [] \<and> d' = d
        \<or> (\<exists>chain. lineage C V (Some snapshot_id) (rev chain) \<and> valid_chain chain
             \<and> reports C V database context chain fp source d d')))"

definition reads_only :: "('d, 'v) GraphqlOrmBackupAdapter \<Rightarrow> bool" where
  "reads_only database \<longleftrightarrow> (\<forall>d. snd (ad_schema_snapshot database d) = d \<and> snd (ad_restore_target_is_empty database d) = d)"

definition truthful_for ::
  "'v BackupCodec \<Rightarrow> blob_map \<Rightarrow> ('d, 'v) GraphqlOrmBackupAdapter \<Rightarrow> RestoreContext \<Rightarrow> BackupSnapshotManifest list \<Rightarrow> uuid \<Rightarrow>
     BackupError \<Rightarrow> 'd \<Rightarrow> 'd \<Rightarrow> bool" where
  "truthful_for C V database context chain snapshot_id e d d' \<longleftrightarrow> (\<exists>fp source.
     e = BeRestoreStageFailed fp source \<and> fp_requested_snapshot_id fp = snapshot_id
     \<and> reports C V database context chain fp source d d')"

lemma truthful_chain:
  "truthful_for C V database context chain i e d d' \<Longrightarrow> lineage C V (Some i) (rev chain) \<Longrightarrow> valid_chain chain \<Longrightarrow>
     truthful C V database context i e d d'"
  unfolding truthful_def truthful_for_def by blast

lemma truthful_unloaded: "truthful C V database context i (restore_stage_error i None Validation [] source) d d"
  by (simp add: truthful_def restore_stage_error_def)

lemma truthful_before:
  assumes "m \<in> set chain" "phase = Validation \<or> phase = Preparation \<and> (rx_mode context = DryRun \<or> m = hd chain)"
  shows "truthful_for C V database context chain i (restore_stage_error i (Some (sm_snapshot_id m)) phase [] source) d d"
proof -
  obtain n where n: "n < length chain" "chain ! n = m" using assms(1) by (auto simp: in_set_conv_nth)
  have hd: "chain ! 0 = hd chain" "0 < length chain" using assms(1) by (cases chain; simp)+
  show ?thesis
  proof (cases "phase = Validation \<or> rx_mode context = DryRun")
    case True
    with n assms(2) show ?thesis
      unfolding truthful_for_def restore_stage_error_def reports_def
      by (intro exI [of _ source] exI [of _ n] exI [of _ "[]"] exI [of _ d] exI conjI) (auto simp: stage_calls_def)
  next
    case False
    with hd assms(2) show ?thesis
      unfolding truthful_for_def restore_stage_error_def reports_def
      by (intro exI [of _ source] exI [of _ 0] exI [of _ "[]"] exI [of _ d] exI conjI) (auto simp: stage_calls_def)
  qed
qed

lemma acts_errors: "acts rep v m Q E' \<Longrightarrow> (\<And>e v'. E' e v' \<Longrightarrow> E e v') \<Longrightarrow> acts rep v m Q E"
  by (rule acts_conseq)

lemma stage_reads:
  assumes "acts rep (fst v) m (\<lambda>x V'. V' = fst v \<and> A x) (\<lambda>_ V'. V' = fst v)" and "\<And>e. E (g e) v"
    and "\<And>x. A x \<Longrightarrow> acts (with_app rep) v (f x) Q E"
  shows "acts (with_app rep) v (perform (map_failure g (in_repository m)) f) Q E"
proof (rule acts_perform [where Q = "\<lambda>x v'. v' = v \<and> A x"], rule acts_map_failure, rule acts_conseq [OF in_repository_acts [OF assms(1)]])
qed (use assms(2,3) in \<open>auto simp: prod_eq_iff\<close>)

lemma stage_asks:
  assumes "\<And>x d'. m (snd v) = (Inr x, d') \<Longrightarrow> acts (with_app rep) (fst v, d') (f x) Q E"
    and "\<And>e d'. m (snd v) = (Inl e, d') \<Longrightarrow> E (g e) (fst v, d')"
  shows "acts (with_app rep) v (perform (map_failure g (in_application m)) f) Q E"
proof (rule acts_perform [OF acts_map_failure [OF acts_conseq [OF in_application_acts]]], assumption)
qed (use assms in \<open>force simp: prod_eq_iff\<close>)+

lemma truthful_stage:
  assumes chain: "chain = full # ys @ m # zs" and tables: "tables_read C V full tables" and css: "list_all2 (changes_read C V) ys css"
    and run: "run_calls (calls_of database context (manifest_schema full) tables css) d d1" and "rx_mode context \<noteq> DryRun"
  shows "truthful_for C V database context chain i
      (restore_stage_error i (Some (sm_snapshot_id m)) Preparation (map sm_snapshot_id (full # ys)) source) d d1"
    and "changes_read C V m cs \<Longrightarrow> ad_restore_incremental database cs context d1 = (Inl source, d') \<Longrightarrow>
      truthful_for C V database context chain i (restore_stage_error i (Some (sm_snapshot_id m)) Apply (map sm_snapshot_id (full # ys)) source) d d'"
proof -
  let ?calls = "\<lambda>css. calls_of database context (manifest_schema full) tables css"
  have len: "length css = length ys" using css by (simp add: list_all2_lengthD)
  then have "list_all2 (changes_read C V) (take (length css) (tl chain)) css" using css chain by simp
  with tables chain have calls: "stage_calls C V database context chain (?calls css)"
    unfolding stage_calls_def by (metis list.sel(1))
  have calls_len: "length (?calls css) = Suc (length ys)" using len by (simp add: calls_of_def)
  have stage: "chain ! Suc (length ys) = m" "Suc (length ys) < length chain" "take (Suc (length ys)) chain = full # ys"
    using chain by (simp_all add: nth_append)
  show "truthful_for C V database context chain i
      (restore_stage_error i (Some (sm_snapshot_id m)) Preparation (map sm_snapshot_id (full # ys)) source) d d1"
    unfolding truthful_for_def restore_stage_error_def reports_def
    by (intro exI [of _ source] exI [of _ "Suc (length ys)"] exI [of _ "?calls css"] exI [of _ d1] exI conjI)
      (use assms(5) calls calls_len run stage in auto)
  assume m: "changes_read C V m cs" "ad_restore_incremental database cs context d1 = (Inl source, d')"
  let ?call = "ad_restore_incremental database cs context"
  have "list_all2 (changes_read C V) (take (length (css @ [cs])) (tl chain)) (css @ [cs])"
    using css m(1) chain len by (simp add: list_all2_appendI)
  moreover have "?calls css @ [?call] = ?calls (css @ [cs])" by (simp add: calls_of_def)
  ultimately have "stage_calls C V database context chain (?calls css @ [?call])"
    using tables chain unfolding stage_calls_def by (metis list.sel(1))
  then show "truthful_for C V database context chain i (restore_stage_error i (Some (sm_snapshot_id m)) Apply (map sm_snapshot_id (full # ys)) source) d d'"
    unfolding truthful_for_def restore_stage_error_def reports_def
    by (intro exI [of _ source] exI [of _ "Suc (length ys)"] exI [of _ "?calls css"] exI [of _ d1] exI conjI)
      (use assms(5) calls calls_len run stage m in auto)
qed

lemma truthful_first:
  assumes "tables_read C V full tables" "ad_restore_full database (manifest_schema full) tables context d = (Inl source, d')"
    and "rx_mode context \<noteq> DryRun" "chain = full # ms"
  shows "truthful_for C V database context chain i (restore_stage_error i (Some (sm_snapshot_id full)) Apply [] source) d d'"
proof -
  have "stage_calls C V database context chain [ad_restore_full database (manifest_schema full) tables context]"
    using assms(1,4) by (auto simp: stage_calls_def calls_of_def)
  then show ?thesis
    unfolding truthful_for_def restore_stage_error_def reports_def
    by (intro exI [of _ source] exI [of _ 0] exI [of _ "[]"] exI [of _ d] exI conjI) (use assms(2-4) in \<open>auto simp: stage_calls_def\<close>)
qed

definition restored_to ::
  "'v BackupCodec \<Rightarrow> blob_map \<Rightarrow> ('d, 'v) GraphqlOrmBackupAdapter \<Rightarrow> RestoreContext \<Rightarrow> BackupSnapshotManifest \<Rightarrow> BackupSnapshotManifest list \<Rightarrow>
     'v BackupTableExport list \<Rightarrow> nat \<Rightarrow> 'd \<Rightarrow> 'd \<Rightarrow> bool" where
  "restored_to C V database context full ys tables n d d' \<longleftrightarrow> (\<exists>css. list_all2 (changes_read C V) ys css \<and> n = length (concat css)
     \<and> (if rx_mode context = DryRun then d' = d else run_calls (calls_of database context (manifest_schema full) tables css) d d'))"

context backup_repository
begin

lemma restore_step_acts:
  assumes chain: "chain = full # ys @ m # zs" and "keys_ok m" and tables: "tables_read C V full tables"
    and before: "restored_to C V database context full ys tables n d d1"
    and completed: "completed = (if rx_mode context = DryRun then [] else map sm_snapshot_id (full # ys))"
  shows "acts wrep (V, d1) (restore_step R C database i context m (n, completed))
    (\<lambda>acc v'. fst v' = V \<and> restored_to C V database context full (ys @ [m]) tables (fst acc) d (snd v')
       \<and> snd acc = (if rx_mode context = DryRun then [] else map sm_snapshot_id (full # ys @ [m])))
    (\<lambda>e v'. fst v' = V \<and> truthful_for C V database context chain i e d (snd v') \<and> (rx_mode context = DryRun \<longrightarrow> snd v' = d))"
  unfolding restore_step_def prod.case Let_def
proof (rule stage_reads [where v = "(V, d1)", unfolded fst_conv, OF load_change_exports_acts], goal_cases)
  case (1 e)
  from before obtain css where css: "list_all2 (changes_read C V) ys css"
    "if rx_mode context = DryRun then d1 = d else run_calls (calls_of database context (manifest_schema full) tables css) d d1"
    unfolding restored_to_def by blast
  show ?case
  proof (cases "rx_mode context = DryRun")
    case True
    then show ?thesis using css(2) by (simp add: completed truthful_before chain)
  next
    case False
    with css(2) have "run_calls (calls_of database context (manifest_schema full) tables css) d d1" by simp
    from truthful_stage(1) [OF chain tables css(1) this False] False show ?thesis by (simp add: completed)
  qed
next
  case (2 cs)
  then have cs: "changes_read C V m cs" using assms(2) by (simp add: changes_read_def)
  from before obtain css where css: "list_all2 (changes_read C V) ys css" "n = length (concat css)"
    "if rx_mode context = DryRun then d1 = d else run_calls (calls_of database context (manifest_schema full) tables css) d d1"
    unfolding restored_to_def by blast
  have read: "list_all2 (changes_read C V) (ys @ [m]) (css @ [cs])" "n + length cs = length (concat (css @ [cs]))"
    using css(1,2) cs by (simp_all add: list_all2_appendI)
  show ?case
  proof (cases "rx_mode context = DryRun")
    case True
    with css(3) read show ?thesis by (auto intro!: acts_done simp: restored_to_def completed simp del: concat_append)
  next
    case False
    then have run: "run_calls (calls_of database context (manifest_schema full) tables css) d d1" using css(3) by simp
    have calls: "calls_of database context (manifest_schema full) tables (css @ [cs])
        = calls_of database context (manifest_schema full) tables css @ [ad_restore_incremental database cs context]" by (simp add: calls_of_def)
    show ?thesis
      unfolding if_not_P [OF False]
    proof (rule stage_asks, goal_cases)
      case (1 u d')
      then have "run_calls (calls_of database context (manifest_schema full) tables (css @ [cs])) d d'"
        using run unfolding calls run_calls_append by auto
      with read False show ?case by (auto intro!: acts_done simp: restored_to_def completed simp del: concat_append)
    next
      case (2 e d')
      then show ?case using truthful_stage(2) [OF chain tables css(1) run False cs] False by (simp add: completed)
    qed
  qed
qed

end

definition restore_done ::
  "'v BackupCodec \<Rightarrow> blob_map \<Rightarrow> ('d, 'v) GraphqlOrmBackupAdapter \<Rightarrow> RestoreContext \<Rightarrow> BackupSnapshotManifest list \<Rightarrow> RestoreResult \<Rightarrow> 'd \<Rightarrow> 'd \<Rightarrow> bool" where
  "restore_done C V database context chain res d d' \<longleftrightarrow> (\<exists>tables. tables_read C V (hd chain) tables
     \<and> restored_to C V database context (hd chain) (tl chain) tables (rr_incremental_change_count res) d d'
     \<and> rr_manifest_chain_len res = length chain \<and> rr_full_table_count res = length tables
     \<and> rr_full_row_count res = sum_list (map (\<lambda>t. length (tx_rows t)) tables))"

definition target_fits :: "('d, 'v) GraphqlOrmBackupAdapter \<Rightarrow> RestoreContext \<Rightarrow> BackupSnapshotManifest \<Rightarrow> 'd \<Rightarrow> bool" where
  "target_fits database context m d \<longleftrightarrow>
     (\<exists>target. fst (ad_schema_snapshot database d) = Inr target \<and> gs_backend target = sm_database_backend m \<and> gs_schema_hash target = sm_schema_hash m)
     \<and> (rx_mode context = EmptyDatabase \<longrightarrow> fst (ad_restore_target_is_empty database d) = Inr True)"

context backup_repository
begin

abbreviation fails_truthfully where
  "fails_truthfully C V database context chain i d \<equiv>
     (\<lambda>e v'. fst v' = V \<and> truthful_for C V database context chain i e d (snd v') \<and> (rx_mode context = DryRun \<longrightarrow> snd v' = d))"

lemma restore_loop_acts:
  assumes chain: "chain = full # ms" and "\<And>m. m \<in> set ms \<Longrightarrow> keys_ok m" and tables: "tables_read C V full tables"
    and before: "restored_to C V database context full [] tables 0 d d1"
    and completed: "completed = (if rx_mode context = DryRun then [] else [sm_snapshot_id full])"
  shows "acts wrep (V, d1) (for_each ms (restore_step R C database i context) (0, completed))
    (\<lambda>acc v'. fst v' = V \<and> restored_to C V database context full ms tables (fst acc) d (snd v')) (fails_truthfully C V database context chain i d)"
proof (rule acts_conseq [OF acts_for_each [where I = "\<lambda>ys acc v'. fst v' = V \<and> restored_to C V database context full ys tables (fst acc) d (snd v')
      \<and> snd acc = (if rx_mode context = DryRun then [] else map sm_snapshot_id (full # ys))" and E = "fails_truthfully C V database context chain i d"]], goal_cases)
  case (2 ys m zs acc v')
  obtain n done_ids where acc: "acc = (n, done_ids)" by (cases acc)
  have v': "v' = (V, snd v')" using 2 by (simp add: prod_eq_iff)
  show ?case
    unfolding acc
    by (subst v', rule acts_conseq [OF restore_step_acts [where ys = ys and zs = zs and d = d, OF _ _ tables]])
      (use 2 acc chain assms(2) in auto)
qed (use before completed in auto)

lemma restore_apply_acts:
  assumes chain: "chain = full # ms" and names: "\<And>m. m \<in> set chain \<Longrightarrow> keys_ok m"
  shows "acts wrep (V, d)
    (perform (map_failure (restore_stage_error i (Some (sm_snapshot_id full)) Preparation []) (in_repository (load_table_exports R C full))) (\<lambda>full_export.
     perform
       (if rx_mode context = DryRun then done_with []
        else perform (map_failure (restore_stage_error i (Some (sm_snapshot_id full)) Apply [])
            (in_application (ad_restore_full database (manifest_schema full) full_export context))) (\<lambda>_.
          done_with [sm_snapshot_id full])) (\<lambda>completed.
     perform (for_each ms (restore_step R C database i context) (0, completed)) (\<lambda>(incremental_change_count, _).
     done_with
       \<lparr>rr_manifest_chain_len = length chain, rr_full_table_count = length full_export,
        rr_full_row_count = sum_list (map (\<lambda>table. length (tx_rows table)) full_export),
        rr_incremental_change_count = incremental_change_count\<rparr>))))
    (\<lambda>res v'. fst v' = V \<and> restore_done C V database context chain res d (snd v')) (fails_truthfully C V database context chain i d)"
proof (rule stage_reads [where v = "(V, d)", unfolded fst_conv, OF load_table_exports_acts], goal_cases)
  case (1 e)
  then show ?case by (simp add: truthful_before chain)
next
  case (2 tables)
  then have tables: "tables_read C V full tables" using names chain by (simp add: tables_read_def)
  let ?completed = "if rx_mode context = DryRun then [] else [sm_snapshot_id full]"
  have first: "acts wrep (V, d)
      (if rx_mode context = DryRun then done_with []
       else perform (map_failure (restore_stage_error i (Some (sm_snapshot_id full)) Apply [])
           (in_application (ad_restore_full database (manifest_schema full) tables context))) (\<lambda>_. done_with [sm_snapshot_id full]))
      (\<lambda>completed v'. fst v' = V \<and> completed = ?completed \<and> restored_to C V database context full [] tables 0 d (snd v'))
      (fails_truthfully C V database context chain i d)"
  proof (cases "rx_mode context = DryRun")
    case False
    show ?thesis
      unfolding if_not_P [OF False]
      by (rule stage_asks) (use False truthful_first [OF tables _ False chain] in \<open>auto intro!: acts_done simp: restored_to_def calls_of_def\<close>)
  qed (auto intro!: acts_done simp: restored_to_def)
  show ?case
  proof (rule acts_perform [OF first], goal_cases)
    case (1 completed v1)
    then have v1: "v1 = (V, snd v1)" and completed: "completed = ?completed" and d1: "restored_to C V database context full [] tables 0 d (snd v1)"
      by (simp_all add: prod_eq_iff)
    have loop: "acts wrep (V, snd v1) (for_each ms (restore_step R C database i context) (0, completed))
      (\<lambda>acc v'. fst v' = V \<and> restored_to C V database context full ms tables (fst acc) d (snd v')) (fails_truthfully C V database context chain i d)"
      by (rule restore_loop_acts [OF chain _ tables d1 completed]) (simp add: names chain)
    show ?case
      by (subst v1, rule acts_perform [OF loop]) (use tables chain in \<open>auto intro!: acts_done simp: restore_done_def\<close>)
  qed
qed

end

lemma crate_payload_keys:
  assumes "crate_names C V" "m \<in> manifests C V"
  shows "keys_ok m" and "fst ` set (payloads m) \<subseteq> backup_keys"
proof -
  show "keys_ok m" using assms by (auto simp: crate_names_def)
  then show "fst ` set (payloads m) \<subseteq> backup_keys"
    using assms unfolding payload_keys content_keys_def by (auto simp: crate_names_def keys_ok_def)
qed

lemma schema_verified:
  assumes "reads_only database" "verify_restore_schema database m d = (r, d')"
  shows "d' = d"
    and "r = Inr schema \<Longrightarrow> schema = manifest_schema m \<and> (\<exists>target. fst (ad_schema_snapshot database d) = Inr target
      \<and> gs_backend target = sm_database_backend m \<and> gs_schema_hash target = sm_schema_hash m)"
proof -
  have "ad_schema_snapshot database d = (fst (ad_schema_snapshot database d), d)" using assms(1) by (simp add: reads_only_def prod_eq_iff)
  with assms(2) show "d' = d" and "r = Inr schema \<Longrightarrow> schema = manifest_schema m \<and> (\<exists>target. fst (ad_schema_snapshot database d) = Inr target
      \<and> gs_backend target = sm_database_backend m \<and> gs_schema_hash target = sm_schema_hash m)"
    by (cases "fst (ad_schema_snapshot database d)"; force simp: verify_restore_schema_def app_then_def Let_def manifest_schema_def split: if_splits)+
qed

context backup_repository
begin

lemma restore_checks_acts:
  assumes "reads_only database" and full: "full \<in> set chain"
    and next_: "target_fits database context full d \<Longrightarrow> acts wrep (V, d) (f (manifest_schema full)) Q (fails_truthfully C V database context chain i d)"
  shows "acts wrep (V, d)
    (perform (map_failure (restore_stage_error i (Some (sm_snapshot_id full)) Validation []) (in_application (verify_restore_schema database full))) (\<lambda>schema.
     perform
       (case rx_mode context of
          DryRun \<Rightarrow> done_with True
        | EmptyDatabase \<Rightarrow> map_failure (restore_stage_error i (Some (sm_snapshot_id full)) Validation []) (in_application (ad_restore_target_is_empty database))) (\<lambda>target_is_empty.
     perform (map_failure (restore_stage_error i (Some (sm_snapshot_id full)) Validation []) (of_result (ensure_empty_restore_target target_is_empty context))) (\<lambda>_.
     f schema))))
    Q (fails_truthfully C V database context chain i d)"
proof (rule stage_asks, goal_cases)
  case (2 e d')
  then have "d' = d" using schema_verified(1) [OF assms(1)] by auto
  then show ?case by (simp add: truthful_before [OF full])
next
  case (1 schema d')
  then have d': "d' = d" and schema: "schema = manifest_schema full" "\<exists>target. fst (ad_schema_snapshot database d) = Inr target
      \<and> gs_backend target = sm_database_backend full \<and> gs_schema_hash target = sm_schema_hash full"
    using schema_verified [OF assms(1)] by auto
  have empty: "acts wrep (V, d)
      (case rx_mode context of
          DryRun \<Rightarrow> done_with True
        | EmptyDatabase \<Rightarrow> map_failure (restore_stage_error i (Some (sm_snapshot_id full)) Validation []) (in_application (ad_restore_target_is_empty database)))
      (\<lambda>b v'. v' = (V, d) \<and> (rx_mode context = EmptyDatabase \<longrightarrow> fst (ad_restore_target_is_empty database d) = Inr b)) (fails_truthfully C V database context chain i d)"
  proof (cases "rx_mode context")
    case EmptyDatabase
    have "d' = d" if "ad_restore_target_is_empty database d = (r, d')" for r d'
      using assms(1) that by (metis reads_only_def snd_conv)
    then show ?thesis
      unfolding EmptyDatabase RestoreMode.case
      by (intro acts_map_failure acts_conseq [OF in_application_acts]) (auto simp: prod_eq_iff truthful_before [OF full])
  qed (auto intro!: acts_done)
  show ?case
    unfolding fst_conv d'
  proof (rule acts_perform [OF empty], goal_cases)
    case (1 b v1)
    have "acts wrep (V, d) (map_failure (restore_stage_error i (Some (sm_snapshot_id full)) Validation []) (of_result (ensure_empty_restore_target b context)))
        (\<lambda>_ v'. v' = (V, d) \<and> ensure_empty_restore_target b context = Inr ()) (fails_truthfully C V database context chain i d)"
      by (intro acts_map_failure acts_of_result) (auto simp: truthful_before [OF full])
    moreover have "target_fits database context full d" if "ensure_empty_restore_target b context = Inr ()"
      using that schema(2) 1 by (auto simp: target_fits_def ensure_empty_restore_target_def split: RestoreMode.splits if_splits)
    ultimately show ?case
      using 1 next_ schema(1) by (auto intro!: acts_perform)
  qed
qed

lemma restore_snapshot_acts:
  assumes "crate_names C V" "reads_only database"
  shows "acts wrep (V, d) (restore_snapshot R C database i context)
    (\<lambda>res v'. fst v' = V \<and> (\<exists>chain. lineage C V (Some i) (rev chain) \<and> valid_chain chain \<and> (\<forall>m \<in> set chain. intact C V m)
       \<and> target_fits database context (hd chain) d \<and> restore_done C V database context chain res d (snd v')))
    (\<lambda>e v'. fst v' = V \<and> truthful C V database context i e d (snd v') \<and> (rx_mode context = DryRun \<longrightarrow> snd v' = d))"
  unfolding restore_snapshot_def
proof (rule stage_reads [where v = "(V, d)", unfolded fst_conv, OF load_manifest_chain_acts], goal_cases)
  case (1 e)
  then show ?case by (simp add: truthful_unloaded)
next
  case (2 chain)
  then have chain: "lineage C V (Some i) (rev chain)" "valid_chain chain" by auto
  then obtain full ms where split: "chain = full # ms" by (cases chain) auto
  have names: "keys_ok m" "fst ` set (payloads m) \<subseteq> backup_keys" if "m \<in> set chain" for m
    using crate_payload_keys [OF assms(1)] lineage_stored [OF chain(1)] that by auto
  have verify: "acts wrep (V, d) (for_each chain (\<lambda>m _.
       perform (map_failure (restore_stage_error i (Some (sm_snapshot_id m)) Validation [])
         (in_repository (verify_manifest_and_objects R C m))) (\<lambda>_. done_with ())) ())
      (\<lambda>_ v'. v' = (V, d) \<and> (\<forall>m \<in> set chain. intact C V m)) (fails_truthfully C V database context chain i d)"
  proof (rule acts_for_each [where I = "\<lambda>ys _ v'. v' = (V, d) \<and> (\<forall>m \<in> set ys. intact C V m)"], goal_cases)
    case (2 ys m zs acc v')
    then have "fst ` set (payloads m) \<subseteq> backup_keys" and v': "v' = (V, d)" and ys: "\<forall>m \<in> set ys. intact C V m" and m: "m \<in> set chain"
      using names(2) by auto
    then show ?case
      unfolding v' by (intro stage_reads [where v = "(V, d)", unfolded fst_conv, OF verify_manifest_acts] acts_done)
        (auto simp: truthful_before [OF m])
  qed simp
  have full: "full \<in> set (full # ms)" by simp
  show ?case
  proof (rule acts_errors [where E' = "fails_truthfully C V database context chain i d"], rule acts_perform [OF verify],
      elim conjE, goal_cases)
    case (1 u v1)
    show ?case
      unfolding 1(1) split Let_def list.sel if_not_P [OF list.distinct(2)]
    proof (rule restore_checks_acts [OF assms(2) full], rule acts_conseq [OF restore_apply_acts [OF refl]], goal_cases)
      case (2 res v')
      then show ?case using chain 1(2) unfolding split by (intro conjI exI [of _ "full # ms"]) simp_all
    qed (use names(1) split in simp_all)
  qed (use truthful_chain [OF _ chain] in auto)
qed

end

lemma truthful_untouched:
  assumes "truthful C V database context i (BeRestoreStageFailed fp source) d d'" "\<not> target_may_have_changed fp"
  shows "d' = d"
proof -
  have phase: "fp_phase fp \<noteq> Apply" "fp_completed_manifest_ids fp = []" using assms(2) by (auto simp: target_may_have_changed_def)
  have "d' = d" if "reports C V database context chain fp source d d'" for chain
    using that unfolding reports_def
  proof (elim exE conjE, goal_cases)
    case (1 n calls d1)
    then have "calls = []" using phase(2) by (auto simp: take_eq_Nil split: if_splits)
    with 1 phase(1) show ?thesis by simp
  qed
  with assms(1) show ?thesis unfolding truthful_def BackupError.inject by blast
qed



section \<open>Restoring objects into the local store\<close>

text \<open>Two components side by side, each with its own view.\<close>

definition both :: "('v \<Rightarrow> 's \<Rightarrow> bool) \<Rightarrow> ('w \<Rightarrow> 't \<Rightarrow> bool) \<Rightarrow> 'v \<times> 'w \<Rightarrow> 's \<times> 't \<Rightarrow> bool" where
  "both rep rep' v w \<longleftrightarrow> rep (fst v) (fst w) \<and> rep' (snd v) (snd w)"

lemma both_repository_acts:
  assumes "acts rep V m Q E"
  shows "acts (both rep rep') (V, W) (in_repository m) (\<lambda>x v'. Q x (fst v') \<and> snd v' = W) (\<lambda>e v'. E e (fst v') \<and> snd v' = W)"
proof (rule acts_runs, rule runsI)
  fix w
  assume w: "both rep rep' (V, W) w"
  then obtain r s' V' where "m (fst w) = Some (r, s')" "rep V' s'" "case r of Inl e \<Rightarrow> E e V' | Inr x \<Rightarrow> Q x V'"
    using acts_ends [OF assms, of "fst w"] by (auto simp: both_def)
  with w show "\<exists>r w'. in_repository m w = Some (r, w') \<and>
      (case r of Inl e \<Rightarrow> \<exists>v'. both rep rep' v' w' \<and> E e (fst v') \<and> snd v' = W
       | Inr x \<Rightarrow> \<exists>v'. both rep rep' v' w' \<and> Q x (fst v') \<and> snd v' = W)"
    by (cases w; cases r) (auto simp: in_repository_def both_def)
qed

lemma both_sink_acts:
  assumes "acts rep' W m Q E"
  shows "acts (both rep rep') (V, W) (in_sink m) (\<lambda>x v'. fst v' = V \<and> Q x (snd v')) (\<lambda>e v'. fst v' = V \<and> E e (snd v'))"
proof (rule acts_runs, rule runsI)
  fix w
  assume w: "both rep rep' (V, W) w"
  then obtain r t' W' where "m (snd w) = Some (r, t')" "rep' W' t'" "case r of Inl e \<Rightarrow> E e W' | Inr x \<Rightarrow> Q x W'"
    using acts_ends [OF assms, of "snd w"] by (auto simp: both_def)
  with w show "\<exists>r w'. in_sink m w = Some (r, w') \<and>
      (case r of Inl e \<Rightarrow> \<exists>v'. both rep rep' v' w' \<and> fst v' = V \<and> E e (snd v')
       | Inr x \<Rightarrow> \<exists>v'. both rep rep' v' w' \<and> fst v' = V \<and> Q x (snd v'))"
    by (cases w; cases r) (auto simp: in_sink_def both_def)
qed

lemma local_sink_acts:
  assumes "shown_key (or_storage_key ref)"
  shows "acts stores W (sk_restore_object_stream (blob_store_sink (local_store lb)) ref body)
    (\<lambda>n W'. n = length (st_chunks body) \<and> (\<exists>b. collect_storage_stream body = Inr b \<and> W' = W(or_storage_key ref \<mapsto> b))) (\<lambda>_ W'. W' = W)"
proof -
  have put: "acts stores W (local_put_blob lb (or_storage_key ref) body (or_mime_type ref))
      (\<lambda>_ W'. \<exists>b. collect_storage_stream body = Inr b \<and> W' = W(or_storage_key ref \<mapsto> b)) (\<lambda>_ W'. W' = W)"
    by (rule acts_runs, rule runs_conseq [OF local_put_blob_runs [OF assms]]) auto
  show ?thesis
    unfolding blob_store_sink_def Let_def
    by (simp add: local_store_def, rule acts_perform [OF acts_map_failure [OF put]], rule acts_done, auto)
qed

lemma passed_collected: "collect_storage_stream body = Inr b \<Longrightarrow> passed_bytes body = b"
proof -
  have "collect_chunks cs = Inr b \<Longrightarrow> concat (map (\<lambda>c. case c of Inl _ \<Rightarrow> [] | Inr bytes \<Rightarrow> bytes) cs) = b" for cs :: "(StorageError + str) list"
  proof (induction cs arbitrary: b rule: collect_chunks.induct)
    case (3 c cs)
    then show ?case by (cases "collect_chunks cs") auto
  qed auto
  then show "collect_storage_stream body = Inr b \<Longrightarrow> ?thesis" by (simp add: collect_storage_stream_def passed_bytes_def)
qed

context backup_repository
begin

lemma restore_object_acts:
  assumes "oe_content_key e \<in> backup_keys" "shown_key (oe_storage_key e)"
  shows "acts (both rep stores) (V, W) (restore_object_entry R C (blob_store_sink (local_store lb)) e)
    (\<lambda>_ v'. fst v' = V \<and> (\<exists>b. V (oe_content_key e) = Some b \<and> cd_sha256 C b = oe_sha256_hex e \<and> snd v' = W(oe_storage_key e \<mapsto> b)))
    (\<lambda>_ v'. fst v' = V \<and> (\<forall>k. k \<noteq> oe_storage_key e \<longrightarrow> snd v' k = W k))"
  unfolding restore_object_entry_def Let_def
proof (rule acts_perform [OF acts_conseq [OF both_repository_acts [OF verify_blob_checksum_acts]]], assumption, simp, goal_cases)
  case (1 n v1)
  then have v1: "v1 = (V, W)" by (simp add: prod_eq_iff)
  show ?case
    unfolding v1
  proof (rule acts_perform [OF acts_conseq [OF both_repository_acts [OF get_acts]]], assumption, simp, goal_cases)
    case (1 source v2)
    then have v2: "v2 = (V, W)" and source: "\<And>b. collect_storage_stream source = Inr b \<Longrightarrow> V (oe_content_key e) = Some b"
      using assms(1) by (auto simp: prod_eq_iff)
    have key: "shown_key (or_storage_key ((object_ref_from_entry e)\<lparr>or_size_bytes := n\<rparr>))"
      using assms(2) by (simp add: object_ref_from_entry_def)
    have same: "collect_storage_stream \<lparr>st_chunks = st_chunks source, st_size_hint = None\<rparr> = collect_storage_stream source"
      by (simp add: collect_storage_stream_def)
    show ?case
      unfolding v2
    proof (rule acts_perform [OF acts_conseq [OF both_sink_acts [OF local_sink_acts [OF key]]]], assumption, simp, goal_cases)
      case (1 taken v3)
      then obtain b where b: "collect_storage_stream source = Inr b" "taken = length (st_chunks source)" "fst v3 = V" "snd v3 = W(oe_storage_key e \<mapsto> b)"
        unfolding same by (auto simp: object_ref_from_entry_def)
      have "passed_bytes \<lparr>st_chunks = take taken (st_chunks source), st_size_hint = None\<rparr> = b"
        using passed_collected [OF b(1)] b(2) by (simp add: passed_bytes_def)
      then show ?case using b source [OF b(1)] by (auto intro!: acts_rules)
    qed
  qed
qed

lemma restore_objects_acts:
  assumes "\<And>e. e \<in> set (sm_objects m) \<Longrightarrow> oe_content_key e \<in> backup_keys \<and> shown_key (oe_storage_key e)" "distinct (map oe_storage_key (sm_objects m))"
  shows "acts (both rep stores) (V, W) (restore_objects R C m (blob_store_sink (local_store lb)))
    (\<lambda>_ v'. fst v' = V \<and> (\<forall>k. k \<notin> oe_storage_key ` set (sm_objects m) \<longrightarrow> snd v' k = W k)
       \<and> (\<forall>e \<in> set (sm_objects m). \<exists>b. V (oe_content_key e) = Some b \<and> cd_sha256 C b = oe_sha256_hex e \<and> snd v' (oe_storage_key e) = Some b))
    (\<lambda>_ v'. fst v' = V \<and> (\<forall>k. k \<notin> oe_storage_key ` set (sm_objects m) \<longrightarrow> snd v' k = W k))"
  unfolding restore_objects_def
proof (rule acts_for_each [where I = "\<lambda>ys _ v'. fst v' = V \<and> (\<forall>k. k \<notin> oe_storage_key ` set ys \<longrightarrow> snd v' k = W k)
       \<and> (\<forall>e \<in> set ys. \<exists>b. V (oe_content_key e) = Some b \<and> cd_sha256 C b = oe_sha256_hex e \<and> snd v' (oe_storage_key e) = Some b)"], goal_cases)
  case (2 ys e zs acc v')
  then have v': "v' = (V, snd v')" and keys: "oe_content_key e \<in> backup_keys" "shown_key (oe_storage_key e)" and new: "oe_storage_key e \<notin> oe_storage_key ` set ys"
    using assms by (auto simp: prod_eq_iff)
  show ?case
    by (subst v', rule acts_conseq [OF restore_object_acts [OF keys]]) (use 2 new in \<open>auto simp: image_iff\<close>)
qed simp

end

text \<open>
  C22. Restoring the objects of a manifest into the local store always ends, leaves the repository
  and every blob at another key alone, and when it succeeds every object is at its storage key with
  the bytes of the backup, and these have the recorded digest.
\<close>

theorem objects_restored:
  assumes "local_rep lb pfx V s" and "stores W t"
    and "\<And>e. e \<in> set (sm_objects m) \<Longrightarrow> oe_content_key e \<in> backup_keys \<and> shown_key (oe_storage_key e)" and "distinct (map oe_storage_key (sm_objects m))"
  shows "\<exists>r s' t' W'. restore_objects (local_repository lb pfx limits) C m (blob_store_sink (local_store target)) (s, t) = Some (r, (s', t'))
    \<and> local_rep lb pfx V s' \<and> stores W' t' \<and> (\<forall>k. k \<notin> oe_storage_key ` set (sm_objects m) \<longrightarrow> W' k = W k)
    \<and> (r = Inr () \<longrightarrow> (\<forall>e \<in> set (sm_objects m). \<exists>b. V (oe_content_key e) = Some b \<and> cd_sha256 C b = oe_sha256_hex e \<and> W' (oe_storage_key e) = Some b))"
proof -
  have "both (local_rep lb pfx) stores (V, W) (s, t)" using assms(1,2) by (simp add: both_def)
  from acts_ends [OF local_repo.restore_objects_acts [OF assms(3,4)] this] obtain r w' v' where
    run: "restore_objects (local_repository lb pfx limits) C m (blob_store_sink (local_store target)) (s, t) = Some (r, w')" "both (local_rep lb pfx) stores v' w'"
    and post: "case r of Inl e \<Rightarrow> fst v' = V \<and> (\<forall>k. k \<notin> oe_storage_key ` set (sm_objects m) \<longrightarrow> snd v' k = W k)
      | Inr _ \<Rightarrow> fst v' = V \<and> (\<forall>k. k \<notin> oe_storage_key ` set (sm_objects m) \<longrightarrow> snd v' k = W k)
          \<and> (\<forall>e \<in> set (sm_objects m). \<exists>b. V (oe_content_key e) = Some b \<and> cd_sha256 C b = oe_sha256_hex e \<and> snd v' (oe_storage_key e) = Some b)"
    by blast
  have "fst v' = V" "\<forall>k. k \<notin> oe_storage_key ` set (sm_objects m) \<longrightarrow> snd v' k = W k" using post by (cases r; simp)+
  with run post show ?thesis
    by (intro exI [of _ r] exI [of _ "fst w'"] exI [of _ "snd w'"] exI [of _ "snd v'"]) (auto simp: both_def)
qed

theorem objects_restored_witness:
  "\<exists>r s' t' W'. restore_objects (local_repository sample_backend None default_capacity_limits) backup_codec
      ((sample_manifest 1 10)\<lparr>sm_objects := [\<lparr>oe_object_id = 7, oe_storage_key = ''b'', oe_content_key = object_content_key ''aabb'',
        oe_sha256_hex = '''', oe_size_bytes = 1, oe_mime_type = None\<rparr>]\<rparr>)
      (blob_store_sink (local_store sample_backend)) (sample_repo_fs, sample_fs) = Some (r, (s', t'))
    \<and> (r = Inr () \<longrightarrow> (\<exists>b. sample_blobs (object_content_key ''aabb'') = Some b \<and> W' ''b'' = Some b)) \<and> stores W' t'"
proof -
  let ?m = "(sample_manifest 1 10)\<lparr>sm_objects := [\<lparr>oe_object_id = 7, oe_storage_key = ''b'', oe_content_key = object_content_key ''aabb'',
        oe_sha256_hex = '''', oe_size_bytes = 1, oe_mime_type = None\<rparr>]\<rparr>"
  have "plain_name ''aabb''" "shown_key ''b''" by code_simp+
  then have "oe_content_key e \<in> backup_keys \<and> shown_key (oe_storage_key e)" if "e \<in> set (sm_objects ?m)" for e
    using that by (auto intro: backup_keys.intros)
  moreover have "distinct (map oe_storage_key (sm_objects ?m))" by simp
  ultimately show ?thesis
    using objects_restored [OF sample_rep sample_fs_stores, of ?m default_capacity_limits backup_codec sample_backend] by auto
qed

end
