(* ===== verification/RoundTrip.thy ===== *)
theory RoundTrip
  imports Restore
begin

text \<open>
  Backing up and restoring: when the file system has no further faults and the byte limits have
  room, restoring a full snapshot hands the adapter exactly the tables the backup exported.
\<close>

section \<open>Reading without faults\<close>

definition payload_bytes :: "('r \<Rightarrow> str option) \<Rightarrow> 'r list \<Rightarrow> nat" where
  "payload_bytes json entries = (case json_lines json entries of None \<Rightarrow> 0 | Some writes \<Rightarrow> length (concat writes))"

lemma roomy_mono: "roomy l n \<Longrightarrow> k \<le> n \<Longrightarrow> roomy l k"
  by (cases l) (auto simp: roomy_def)

lemma roomy_within: "roomy l n \<Longrightarrow> within l n"
  by (cases l) (auto simp: roomy_def)

lemma roomy_min: "roomy l n \<Longrightarrow> roomy l' n \<Longrightarrow> roomy (limit_min l l') n"
  by (cases l; cases l') (auto simp: roomy_def)

lemma roomy_remaining:
  assumes "roomy l (used + n)"
  shows "\<exists>l'. limit_remaining l used = Inr l' \<and> roomy l' n"
proof -
  have "within l used" using roomy_within [OF roomy_mono [OF assms]] by simp
  then show ?thesis using assms by (cases l) (auto simp: limit_remaining_def roomy_def)
qed

context calm_repository
begin

lemma load_jsonl_calm:
  fixes m :: BackupSnapshotManifest
  defines "limits \<equiv> rp_capacity_limits R"
  assumes "calm s" "rep V s" and m: "dm_export_format (sm_database m) = DATABASE_EXPORT_FORMAT" "dm_compression (sm_database m) = Zstd"
    and b: "V (te_content_key e) = Some b" "fits R b" "serialize_jsonl_entries C json entries = Inr b"
    and "zstd_ok C" and json: "\<And>x. x \<in> set entries \<Longrightarrow> json_ok json parse x"
    and total: "stage + payload_bytes json entries \<le> n" "n < 2 ^ 64" "roomy (cl_decompressed_bytes limits) n" "roomy (cl_stage_bytes limits) n"
  shows "load_jsonl_entries R C parse m e stage s = Some (Inr (entries, stage + payload_bytes json entries), s)"
proof -
  obtain writes where w: "json_lines json entries = Some writes" using b(3) by (auto simp: serialize_jsonl_entries_def split: option.splits)
  then have bytes: "payload_bytes json entries = length (concat writes)" by (simp add: payload_bytes_def)
  from get_calm [OF assms(2,3) b(1)] obtain cs where cs: "concat cs = b"
    "rp_get_blob_stream R (te_content_key e) s = Some (Inr \<lparr>st_chunks = map Inr cs, st_size_hint = None\<rparr>, s)" by blast
  have stream: "collect_backup_stream \<lparr>st_chunks = map Inr cs, st_size_hint = None\<rparr> (cl_buffered_bytes limits) = Inr b"
    using cs(1) b(2) by (auto simp: collect_backup_stream_chunks fits_def limits_def)
  obtain l where l: "limit_remaining (cl_stage_bytes limits) stage = Inr l" "roomy l (length (concat writes))"
    using roomy_remaining [OF roomy_mono [OF total(4)], of stage "length (concat writes)"] total(1) bytes by auto
  have "roomy (limit_min (cl_decompressed_bytes limits) l) (length (concat writes))"
    using roomy_min [OF roomy_mono [OF total(3)] l(2)] total(1) bytes by simp
  then have payload: "decode_payload C b Zstd (limit_min (cl_decompressed_bytes limits) l) = Inr (concat writes)"
    using total(1,2) bytes by (intro payload_roundtrip [OF assms(9) b(3) w]) simp_all
  have "within (cl_stage_bytes limits) (stage + length (concat writes))"
    using roomy_within [OF roomy_mono [OF total(4)]] total(1) bytes by simp
  then have staged: "stage_add (cl_stage_bytes limits) stage (length (concat writes)) = Inr (stage + length (concat writes))"
    using total(1,2) bytes by (simp add: stage_add_def u64_checked_add_def)
  show ?thesis
    using m cs(2) stream l(1) payload staged json_lines_parse [OF w json] bytes
    by (simp add: load_jsonl_entries_def action_defs limits_def Let_def)
qed

end

definition table_bytes :: "'v BackupCodec \<Rightarrow> 'v BackupTableExport list \<Rightarrow> nat" where
  "table_bytes C tables = sum_list (map (\<lambda>t. payload_bytes (cd_row_json C) (tx_rows t)) tables)"

text \<open>Limits that admit every blob of a repository and the decoded tables of a snapshot.\<close>

definition room_for :: "BackupCapacityLimits \<Rightarrow> 'v BackupCodec \<Rightarrow> 'v BackupTableExport list \<Rightarrow> bool" where
  "room_for limits C tables \<longleftrightarrow> table_bytes C tables < 2 ^ 64
     \<and> roomy (cl_decompressed_bytes limits) (table_bytes C tables) \<and> roomy (cl_stage_bytes limits) (table_bytes C tables)"

context calm_repository
begin

lemma load_tables_calm:
  assumes "calm s" "rep V s" and m: "dm_export_format (sm_database m) = DATABASE_EXPORT_FORMAT" "dm_compression (sm_database m) = Zstd"
    and written: "list_all2 (table_written C V i) tables (dm_tables (sm_database m))" and fit: "\<And>k b. V k = Some b \<Longrightarrow> fits R b"
    and "zstd_ok C" and json: "\<And>t x. t \<in> set tables \<Longrightarrow> x \<in> set (tx_rows t) \<Longrightarrow> json_ok (cd_row_json C) (cd_row_parse C) x"
    and room: "room_for (rp_capacity_limits R) C tables"
  shows "load_table_exports R C m s = Some (Inr tables, s)"
proof -
  let ?step = "\<lambda>table (exports, stage_bytes).
       perform (load_jsonl_entries R C (cd_row_parse C) m table stage_bytes) (\<lambda>(rows, stage_bytes).
       done_with (exports @ [\<lparr>tx_table_name = te_table_name table, tx_rows = rows\<rparr>], stage_bytes))"
  have "for_each es ?step (exports, stage) s = Some (Inr (exports @ ts, stage + table_bytes C ts), s)"
    if "list_all2 (table_written C V i) ts es" "set ts \<subseteq> set tables" "stage + table_bytes C ts \<le> table_bytes C tables" for ts es exports stage
    using that
  proof (induction arbitrary: exports stage rule: list_all2_induct)
    case Nil
    then show ?case by (simp add: done_with_def table_bytes_def)
  next
    case (Cons t ts e es)
    from Cons.hyps(1) obtain b where b: "te_table_name e = tx_table_name t" "V (te_content_key e) = Some b" "serialize_table_export C t = Inr b"
      by (auto simp: table_written_def payload_written_def)
    have bytes: "table_bytes C (t # ts) = payload_bytes (cd_row_json C) (tx_rows t) + table_bytes C ts" by (simp add: table_bytes_def)
    have "load_jsonl_entries R C (cd_row_parse C) m e stage s = Some (Inr (tx_rows t, stage + payload_bytes (cd_row_json C) (tx_rows t)), s)"
      using b Cons.prems room json bytes
      by (intro load_jsonl_calm [OF assms(1,2) m b(2) fit [OF b(2)] _ assms(7), where n = "table_bytes C tables"])
        (auto simp: serialize_table_export_def room_for_def)
    moreover have "\<lparr>tx_table_name = te_table_name e, tx_rows = tx_rows t\<rparr> = t" using b(1) by simp
    ultimately show ?case
      using Cons.IH [of "stage + payload_bytes (cd_row_json C) (tx_rows t)" "exports @ [t]"] Cons.prems bytes
      by (simp add: perform_step done_with_def perform_def ac_simps)
  qed
  from this [OF written, of 0 "[]"] show ?thesis
    by (simp add: load_table_exports_def perform_def done_with_def)
qed

lemma for_each_calm:
  "(\<And>x. x \<in> set xs \<Longrightarrow> f x () s = Some (Inr (), s)) \<Longrightarrow> for_each xs f () s = Some (Inr (), s)"
  by (induction xs) (simp_all add: done_with_def perform_def)

end

context calm_repository
begin

lemma restore_full_calm:
  assumes "calm s" "rep V s" and written: "snapshot_written C V tables [] m" and full: "sm_parent_snapshot_id m = None" "sm_backup_kind m = Full"
    and fit: "\<And>k b. V k = Some b \<Longrightarrow> fits R b" and "zstd_ok C"
    and json: "\<And>t x. t \<in> set tables \<Longrightarrow> x \<in> set (tx_rows t) \<Longrightarrow> json_ok (cd_row_json C) (cd_row_parse C) x"
    and room: "room_for (rp_capacity_limits R) C tables"
    and target: "reads_only database" "target_fits database context m d" "rx_mode context = EmptyDatabase"
    and call: "ad_restore_full database (manifest_schema m) tables context d = (Inr (), d')"
  shows "restore_snapshot R C database (sm_snapshot_id m) context (s, d) =
    Some (Inr \<lparr>rr_manifest_chain_len = 1, rr_full_table_count = length tables,
      rr_full_row_count = sum_list (map (\<lambda>t. length (tx_rows t)) tables), rr_incremental_change_count = 0\<rparr>, (s, d'))"
proof -
  have st: "stored C V (sm_snapshot_id m) m" and db: "dm_export_format (sm_database m) = DATABASE_EXPORT_FORMAT"
      "dm_compression (sm_database m) = Zstd" "list_all2 (table_written C V (sm_snapshot_id m)) tables (dm_tables (sm_database m))"
    using written by (simp_all add: snapshot_written_def)
  have chain: "load_manifest_chain R C (sm_snapshot_id m) s = Some (Inr [m], s)"
    using st full by (intro load_manifest_chain_calm [OF assms(1,2)] fit) (auto split: option.splits)
  have "verify_manifest_checksum C m = Inr ()" using st by (auto simp: stored_def split: option.splits)
  moreover have "length b < 2 ^ 64" if "V k = Some b" for k b using fit [OF that] by (simp add: fits_def)
  ultimately have verify: "verify_manifest_and_objects R C m s = Some (Inr (), s)"
    using snapshot_written_intact(1) [OF written] by (intro verify_manifest_calm [OF assms(1,2)]) auto
  have load: "load_table_exports R C m s = Some (Inr tables, s)"
    by (rule load_tables_calm [OF assms(1,2) db fit assms(7) json room])
  obtain found where "fst (ad_schema_snapshot database d) = Inr found" "gs_backend found = sm_database_backend m" "gs_schema_hash found = sm_schema_hash m"
    and empty: "fst (ad_restore_target_is_empty database d) = Inr True"
    using target(2,3) by (auto simp: target_fits_def)
  moreover have "snd (ad_schema_snapshot database d) = d" "snd (ad_restore_target_is_empty database d) = d" using target(1) by (simp_all add: reads_only_def)
  ultimately have schema: "verify_restore_schema database m d = (Inr (manifest_schema m), d)" and asked: "ad_restore_target_is_empty database d = (Inr True, d)"
    by (auto simp: verify_restore_schema_def app_then_def Let_def manifest_schema_def prod_eq_iff case_prod_beta)
  show ?thesis
    by (simp add: restore_snapshot_def action_defs in_repository_def in_application_def chain verify load schema asked call target(3)
        ensure_empty_restore_target_def Let_def)
qed

end

text \<open>
  C12. What was backed up is restored: once a full backup has succeeded, and if no file-system call
  fails after it and the byte limits have room, restoring its snapshot into an empty target with
  the schema of the backup makes one call to the adapter, with exactly the schema and the tables the
  source exported, leaves the repository as it is and reports the numbers of tables and rows.
\<close>

theorem backup_restores:
  assumes "local_rep lb pfx V s" and "well_kept C V" and "manifest_json_ok C" and "zstd_ok C"
    and plan: "plan_full_backup source objects d = (Inr plan, d1)" and "plan_ok plan"
    and json: "\<And>t x. t \<in> set (pl_tables plan) \<Longrightarrow> x \<in> set (tx_rows t) \<Longrightarrow> json_ok (cd_row_json C) (cd_row_parse C) x"
    and backup: "create_full_backup (local_repository lb pfx limits) C source objects now request (s, d) = Some (Inr m, (s', d'))"
    and "lf_faults s' = []" and fit: "\<And>V' k b. local_rep lb pfx V' s' \<Longrightarrow> V' k = Some b \<Longrightarrow> fits (local_repository lb pfx limits) b"
    and room: "room_for limits C (pl_tables plan)"
    and target: "reads_only target" "target_fits target empty_database m t"
    and call: "ad_restore_full target (pl_schema plan) (pl_tables plan) empty_database t = (Inr (), t')"
  shows "restore_snapshot (local_repository lb pfx limits) C target (fr_snapshot_id request) empty_database (s', t) =
    Some (Inr \<lparr>rr_manifest_chain_len = 1, rr_full_table_count = length (pl_tables plan),
      rr_full_row_count = sum_list (map (\<lambda>table. length (tx_rows table)) (pl_tables plan)), rr_incremental_change_count = 0\<rparr>, (s', t'))"
proof -
  have "\<exists>r s1 d2 V'. create_full_backup (local_repository lb pfx limits) C source objects now request (s, d) = Some (r, (s1, d2))
      \<and> local_rep lb pfx V' s1 \<and> well_kept C V' \<and> other_kept C V V' (fr_snapshot_id request)
      \<and> (\<forall>m. r = Inr m \<longrightarrow> full_backup_done C source objects request d m V')"
    by (rule full_backup_ends [OF assms(1-3)]) (use plan assms(6) in simp)
  with backup plan obtain V' where V': "local_rep lb pfx V' s'"
    "full_header request (pl_schema plan) m" "snapshot_written C V' (pl_tables plan) [] m" by (auto simp: full_backup_done_def)
  have schema: "manifest_schema m = pl_schema plan" "sm_snapshot_id m = fr_snapshot_id request" "sm_parent_snapshot_id m = None" "sm_backup_kind m = Full"
    using V'(2) by (simp_all add: full_header_def manifest_schema_def)
  have limits: "rp_capacity_limits (local_repository lb pfx limits) = limits" by (simp add: blob_store_repository_def Let_def)
  from local_repo.restore_full_calm [OF assms(9) V'(1,3) schema(3,4) fit [OF V'(1)] assms(4) json _ target _ call [folded schema(1)]]
  show ?thesis by (simp add: schema(2) limits room empty_database_def)
qed

section \<open>A sample round trip\<close>

definition trip_row :: "unit BackupRow" where
  "trip_row = \<lparr>rw_table_name = ''users'', rw_primary_key = ''1'', rw_row_hash = ''h'', rw_values = ()\<rparr>"

definition trip_tables :: "unit BackupTableExport list" where
  "trip_tables = [\<lparr>tx_table_name = ''users'', tx_rows = [trip_row]\<rparr>]"

definition trip_schema :: GraphqlOrmBackupSchema where
  "trip_schema = \<lparr>gs_backend = ''sqlite'', gs_migration_version = ''1'', gs_schema_hash = ''h''\<rparr>"

definition trip_manifest :: BackupSnapshotManifest where
  "trip_manifest =
     \<lparr>sm_format_version = 1, sm_snapshot_id = 5, sm_parent_snapshot_id = None, sm_created_at = 20, sm_app_id = ''app'', sm_app_version = ''1'',
      sm_schema_version = ''1'', sm_schema_hash = ''h'', sm_database_backend = ''sqlite'', sm_backup_kind = Full,
      sm_database = \<lparr>dm_export_format = ''jsonl'', dm_compression = Zstd, dm_row_count = 1, dm_table_count = 1,
        dm_tables = [\<lparr>te_table_name = ''users'', te_row_count = 1, te_content_key = database_table_key 5 ''users'', te_sha256_hex = ''''\<rparr>],
        dm_changes = []\<rparr>,
      sm_objects = [], sm_tombstones = [], sm_checksum = ''''\<rparr>"

definition trip_codec :: "unit BackupCodec" where
  "trip_codec =
     \<lparr>cd_sha256 = (\<lambda>_. ''''), cd_view_json = (\<lambda>_. Some ''''),
      cd_manifest_pretty = (\<lambda>m. if m = trip_manifest then Some ''m'' else None),
      cd_manifest_parse = (\<lambda>b. if b = ''m'' then Some trip_manifest else None),
      cd_row_json = (\<lambda>r. if r = trip_row then Some ''r'' else None), cd_row_parse = (\<lambda>b. if b = ''r'' then Some trip_row else None),
      cd_change_json = (\<lambda>_. None), cd_change_parse = (\<lambda>_. None), cd_key_parts = (\<lambda>_. None),
      cd_zstd_encode = (\<lambda>writes. Some (concat writes)), cd_zstd_reads = (\<lambda>_ b. Some (if b = [] then [] else [Inr b])),
      cd_uuid_parse = sample_uuid_parse\<rparr>"

text \<open>A database that keeps the tables it has restored.\<close>

definition trip_database :: "(unit BackupTableExport list, unit) GraphqlOrmBackupAdapter" where
  "trip_database =
     \<lparr>ad_schema_snapshot = app_done trip_schema, ad_restore_target_is_empty = (\<lambda>d. (Inr (d = []), d)),
      ad_export_full = (\<lambda>d. (Inr d, d)), ad_export_incremental = (\<lambda>_. app_done []),
      ad_restore_full = (\<lambda>_ tables _ d. (Inr (), tables)), ad_restore_incremental = (\<lambda>_ _. app_done ())\<rparr>"

definition trip_index :: "unit BackupTableExport list BackupObjectIndex" where
  "trip_index =
     \<lparr>ix_list_full = app_done [], ix_list_incremental = (\<lambda>_. app_done []), ix_load_object = (\<lambda>_. app_done ''''),
      ix_load_object_stream = (\<lambda>_. app_done (stream_from_bytes ''''))\<rparr>"

definition trip_request :: FullBackupRequest where
  "trip_request = \<lparr>fr_snapshot_id = 5, fr_created_at = 20, fr_app_id = ''app'', fr_app_version = ''1''\<rparr>"

definition empty_fs :: LocalFs where
  "empty_fs = \<lparr>lf_tree = Dir [], lf_faults = [], lf_fresh = 0\<rparr>"

definition trip_limits :: BackupCapacityLimits where
  "trip_limits = \<lparr>cl_buffered_bytes = Unbounded, cl_decompressed_bytes = Unbounded, cl_stage_bytes = Unbounded\<rparr>"

lemma lock_path: "path_for REPOSITORY_LOCK_KEY = Inr [''locks'', ''repository.lock'']"
proof -
  have "path_of REPOSITORY_LOCK_KEY = [''locks'', ''repository.lock'']"
    using split_char_append [of "CHR ''/''" "''locks''" "''repository.lock''"] split_char_free [of "CHR ''/''" "''repository.lock''"]
    by (simp add: REPOSITORY_LOCK_KEY_def del: split_char.simps)
  then show ?thesis by (simp add: path_for_iff valid_key_iff name_ok_def)
qed

lemmas fs_defs = create_parent_dir_def map_failure_def fs_create_dir_all_def fs_call_def syscall_def temp_path_for_def
  observe_def write_stream_to_temp_def stream_from_bytes_def fs_create_def fs_replace_def is_dir_def set_entry_def btree_insert_def
  fs_write_all_def append_to_def file_at_def done_with_def fs_flush_def fs_rename_def fs_hard_link_def fs_remove_file_def discard_def
  perform_def of_result_def

lemma trip_lock:
  "acquire (local_repository sample_backend None trip_limits) 0 empty_fs =
     Some (Inr (), \<lparr>lf_tree = Dir [(''locks'', Dir [(''repository.lock'', File ''0'')])], lf_faults = [], lf_fresh = 1\<rparr>)"
proof -
  have "show_int 0 = ''0''" by code_simp
  then show ?thesis
    by (simp add: acquire_def blob_store_repository_def Let_def apply_prefix_def local_store_def local_put_blob_if_not_exists_def lock_path
      fs_defs sample_backend_def empty_fs_def)
qed

lemma table_path: "path_for (database_table_key i ''users'') = Inr [''snapshots'', uuid_text i, ''database'', ''tables'', ''users.jsonl.zst'']"
proof -
  let ?p = "[''snapshots'', uuid_text i, ''database'', ''tables'', ''users.jsonl.zst'']"
  have names: "\<forall>c \<in> set ?p. name_ok c" using uuid_name [of i] by (simp add: name_ok_def)
  have key: "database_table_key i ''users'' = join [CHR ''/''] ?p" by (simp add: database_table_key_def)
  have "path_of (join [CHR ''/''] ?p) = ?p" by (rule split_char_join) (use names in \<open>auto simp: name_ok_def\<close>)
  then show ?thesis by (simp only: path_for_iff valid_key_iff key if_P [OF names])
qed

lemma manifest_path_for: "path_for (snapshot_manifest_key i) = Inr [''snapshots'', uuid_text i, ''manifest.json'']"
  using uuid_name [of i] by (simp add: path_for_iff valid_key_iff manifest_path name_ok_def)

definition trip_fs :: "(str \<times> Node) list \<Rightarrow> (str \<times> Node) list \<Rightarrow> nat \<Rightarrow> LocalFs" where
  "trip_fs locks files n = \<lparr>lf_tree = Dir [(''locks'', Dir locks), (''snapshots'', Dir [(uuid_text 5, Dir files)])], lf_faults = [], lf_fresh = n\<rparr>"

lemma trip_table:
  "rp_put_blob (local_repository sample_backend None trip_limits) (database_table_key 5 ''users'') b
     \<lparr>lf_tree = Dir [(''locks'', Dir locks)], lf_faults = [], lf_fresh = n\<rparr> =
     Some (Inr (), trip_fs locks [(''database'', Dir [(''tables'', Dir [(''users.jsonl.zst'', File b)])])] (Suc n))"
  by (simp add: blob_store_repository_def Let_def apply_prefix_def local_store_def local_put_blob_def table_path
      fs_defs sample_backend_def trip_fs_def)

lemma trip_manifest_write:
  "rp_put_blob (local_repository sample_backend None trip_limits) (snapshot_manifest_key 5) b (trip_fs locks [(''database'', t)] n) =
     Some (Inr (), trip_fs locks [(''database'', t), (''manifest.json'', File b)] (Suc n))"
  by (simp add: blob_store_repository_def Let_def apply_prefix_def local_store_def local_put_blob_def manifest_path_for
      fs_defs sample_backend_def trip_fs_def)

lemma trip_release:
  "lock_release (local_repository sample_backend None trip_limits) (trip_fs [(''repository.lock'', File b)] files n) = Some (Inr (), trip_fs [] files n)"
  by (simp add: lock_release_def blob_store_repository_def Let_def apply_prefix_def local_store_def local_delete_blob_once_def local_delete_blob_def lock_path
      fs_defs sample_backend_def trip_fs_def)

lemma trip_backup:
  "create_full_backup (local_repository sample_backend None trip_limits) trip_codec trip_database trip_index 0 trip_request (empty_fs, trip_tables)
     = Some (Inr trip_manifest, (trip_fs [] [(''database'', Dir [(''tables'', Dir [(''users.jsonl.zst'', File (''r'' @ [newline]))])]),
         (''manifest.json'', File ''m'')] 3, trip_tables))"
proof -
  have plan: "plan_full_backup trip_database trip_index trip_tables = (Inr \<lparr>pl_schema = trip_schema, pl_tables = trip_tables, pl_objects = []\<rparr>, trip_tables)"
    by (simp add: plan_full_backup_def trip_database_def trip_index_def app_then_def app_done_def)
  have bytes: "serialize_table_export trip_codec \<lparr>tx_table_name = ''users'', tx_rows = [trip_row]\<rparr> = Inr (''r'' @ [newline])"
    by (simp add: serialize_table_export_def serialize_jsonl_entries_def trip_codec_def)
  have sum: "set_manifest_checksum trip_codec m = Inr (m\<lparr>sm_checksum := ''''\<rparr>)" for m
    by (simp add: set_manifest_checksum_def manifest_checksum_def trip_codec_def)
  have sha: "cd_sha256 trip_codec b = ''''" for b by (simp add: trip_codec_def)
  let ?R = "local_repository sample_backend None trip_limits"
  let ?t = "Dir [(''tables'', Dir [(''users.jsonl.zst'', File (''r'' @ [newline]))])]"
  have tables: "write_tables ?R trip_codec 5 trip_tables \<lparr>lf_tree = Dir [(''locks'', Dir locks)], lf_faults = [], lf_fresh = 1\<rparr> =
      Some (Inr (dm_tables (sm_database trip_manifest), 1), trip_fs locks [(''database'', ?t)] 2)" for locks
    by (simp add: write_tables_def write_payload_def trip_tables_def action_defs bytes trip_table sha trip_manifest_def numeral_2_eq_2)
  have pretty: "cd_manifest_pretty trip_codec trip_manifest = Some ''m''" by (simp add: trip_codec_def)
  have "trip_manifest\<lparr>sm_checksum := ''''\<rparr> = trip_manifest" "sm_snapshot_id trip_manifest = 5" by (simp_all add: trip_manifest_def)
  then have manifest: "write_manifest ?R trip_codec trip_manifest (trip_fs locks [(''database'', ?t)] 2) =
      Some (Inr trip_manifest, trip_fs locks [(''database'', ?t), (''manifest.json'', File ''m'')] 3)" for locks
    by (simp add: write_manifest_def action_defs sum pretty trip_manifest_write)
  have built: "trip_manifest = \<lparr>sm_format_version = BACKUP_FORMAT_VERSION, sm_snapshot_id = fr_snapshot_id trip_request, sm_parent_snapshot_id = None,
      sm_created_at = fr_created_at trip_request, sm_app_id = fr_app_id trip_request, sm_app_version = fr_app_version trip_request,
      sm_schema_version = gs_migration_version trip_schema, sm_schema_hash = gs_schema_hash trip_schema,
      sm_database_backend = gs_backend trip_schema, sm_backup_kind = Full,
      sm_database = \<lparr>dm_export_format = DATABASE_EXPORT_FORMAT, dm_compression = Zstd, dm_row_count = Suc 0,
        dm_table_count = length (dm_tables (sm_database trip_manifest)), dm_tables = dm_tables (sm_database trip_manifest), dm_changes = []\<rparr>,
      sm_objects = [], sm_tombstones = [], sm_checksum = []\<rparr>"
    by (simp add: trip_manifest_def trip_request_def trip_schema_def BACKUP_FORMAT_VERSION_def DATABASE_EXPORT_FORMAT_def)
  have five: "fr_snapshot_id trip_request = 5" by (simp add: trip_request_def)
  have inner: "create_full_backup_inner ?R trip_codec trip_database trip_index trip_request
      (\<lparr>lf_tree = Dir [(''locks'', Dir locks)], lf_faults = [], lf_fresh = 1\<rparr>, trip_tables) =
      Some (Inr trip_manifest, (trip_fs locks [(''database'', ?t), (''manifest.json'', File ''m'')] 3, trip_tables))" for locks
    unfolding create_full_backup_inner_def
    using tables manifest
    by (simp add: action_defs in_repository_def in_application_def plan write_object_entries_def built [unfolded five, symmetric] five)
  show ?thesis
    using inner by (simp add: create_full_backup_def locked_with_def release_lock_def action_defs in_repository_def trip_lock trip_release)
qed

text \<open>The blobs of the repository after the backup.\<close>

definition trip_done :: LocalFs where
  "trip_done = trip_fs [] [(''database'', Dir [(''tables'', Dir [(''users.jsonl.zst'', File (''r'' @ [newline]))])]), (''manifest.json'', File ''m'')] 3"

lemma file_in_dir: "file_at (Dir es) p = Some b \<Longrightarrow> \<exists>e \<in> set es. \<exists>q. file_at (snd e) q = Some b"
proof (cases p)
  case (Cons c cs)
  assume "file_at (Dir es) p = Some b"
  with Cons obtain n where "map_of es c = Some n" "file_at n cs = Some b" by (auto split: option.splits)
  then show ?thesis by (intro bexI [of _ "(c, n)"] exI [of _ cs]) (auto dest: map_of_SomeD)
qed simp

lemma file_is: "file_at (File c) p = Some b \<Longrightarrow> b = c"
  by (cases p) (auto simp: file_at_def)

lemma empty_rep: "local_rep sample_backend None (repository_view None (blobs empty_fs)) empty_fs" "repository_view None (blobs empty_fs) = Map.empty"
proof -
  have "stores (blobs empty_fs) empty_fs" by (auto simp: stores_def empty_fs_def btree_def is_dir_def)
  moreover have none: "blobs empty_fs = Map.empty"
    by (rule ext) (auto simp: blobs_def vis_files_def empty_fs_def dest: file_in_dir split: option.split)
  ultimately show "local_rep sample_backend None (repository_view None (blobs empty_fs)) empty_fs"
    by (auto simp: local_rep_def prefix_ok_def sample_backend_def repository_view_def)
  show "repository_view None (blobs empty_fs) = Map.empty" by (simp add: none repository_view_def fun_eq_iff)
qed

lemma short_files:
  assumes "\<And>p b. file_at (lf_tree s) p = Some b \<Longrightarrow> length b < 2 ^ 64" "local_rep lb pfx V s" "V k = Some b"
  shows "length b < 2 ^ 64"
proof -
  from assms(2) obtain W where W: "stores W s" "V = repository_view pfx W" by (auto simp: local_rep_def)
  with assms(3) have "W (apply_prefix pfx k) = Some b" by (auto simp: repository_view_def split: if_splits)
  moreover have "W = blobs s" using W(1) by (simp add: stores_def)
  ultimately show ?thesis using assms(1) by (auto simp: blobs_def vis_files_def split: if_splits)
qed

theorem backup_restores_witness:
  "restore_snapshot (local_repository sample_backend None trip_limits) trip_codec trip_database 5 empty_database (trip_done, []) =
     Some (Inr \<lparr>rr_manifest_chain_len = 1, rr_full_table_count = 1, rr_full_row_count = 1, rr_incremental_change_count = 0\<rparr>, (trip_done, trip_tables))"
proof -
  let ?plan = "\<lparr>pl_schema = trip_schema, pl_tables = trip_tables, pl_objects = []\<rparr>"
  have plan: "plan_full_backup trip_database trip_index trip_tables = (Inr ?plan, trip_tables)"
    by (simp add: plan_full_backup_def trip_database_def trip_index_def app_then_def app_done_def)
  have ok: "plan_ok ?plan" by (simp add: plan_ok_def trip_tables_def plain_name_def ends_with_def starts_with_def)
  have kept: "well_kept trip_codec (repository_view None (blobs empty_fs))" by (simp add: empty_rep(2) well_kept_def stored_def)
  have codec: "manifest_json_ok trip_codec" "zstd_ok trip_codec"
    by (auto simp: manifest_json_ok_def zstd_ok_def trip_codec_def intro: exI [of _ "[]"] exI [of _ "[concat _]"])
  have json: "json_ok (cd_row_json trip_codec) (cd_row_parse trip_codec) x" if "t \<in> set (pl_tables ?plan)" "x \<in> set (tx_rows t)" for t x
    using that by (simp add: trip_tables_def json_ok_def trip_codec_def)
  have room: "room_for trip_limits trip_codec (pl_tables ?plan)"
    by (simp add: room_for_def trip_limits_def roomy_def table_bytes_def trip_tables_def payload_bytes_def trip_codec_def)
  have "length b < 2 ^ 64" if "file_at (lf_tree trip_done) p = Some b" for p b
    using that by (auto simp: trip_done_def trip_fs_def dest!: file_in_dir file_is)
  then have fit: "fits (local_repository sample_backend None trip_limits) b" if "local_rep sample_backend None V' trip_done" "V' k = Some b" for V' k b
    using short_files [OF _ that] by (simp add: fits_def blob_store_repository_def Let_def trip_limits_def)
  have target: "reads_only trip_database" "target_fits trip_database empty_database trip_manifest []"
    by (simp_all add: reads_only_def target_fits_def trip_database_def app_done_def trip_schema_def trip_manifest_def)
  have call: "ad_restore_full trip_database (pl_schema ?plan) (pl_tables ?plan) empty_database [] = (Inr (), trip_tables)"
    by (simp add: trip_database_def)
  have calm: "lf_faults trip_done = []" by (simp add: trip_done_def trip_fs_def)
  from backup_restores [OF empty_rep(1) kept codec plan ok json trip_backup [folded trip_done_def] calm fit room target call]
  show ?thesis by (simp add: trip_request_def trip_tables_def)
qed

end
