(* ===== verification/PgText.thy ===== *)
theory PgText
  imports SqlText
begin

text \<open>
  What \<open>normalize_postgres_statement\<close> is for, stated without its scanner: a PostgreSQL statement as a
  sequence of lexemes (quoted text with its escapes, line and nested block comments, dollar quotes,
  numbered parameters and other characters), the conditions under which a text reads as such a
  sequence, and the theorem that exactly the parameter lexemes are found and moved.
\<close>

section \<open>Lexemes\<close>

datatype quote_item = QChar char | QDouble | QEscape char

datatype comment_item = CChar char | CNested "comment_item list"

datatype pg_lexeme =
    Other char
  | QuotedText char "quote_item list"
  | LineComment str
  | BlockComment "comment_item list"
  | DollarQuoted str str
  | Parameter str

fun quote_item_text :: "char \<Rightarrow> quote_item \<Rightarrow> str" where
  "quote_item_text q (QChar c) = [c]"
| "quote_item_text q QDouble = [q, q]"
| "quote_item_text q (QEscape c) = [bsl, c]"

fun comment_text :: "comment_item list \<Rightarrow> str" where
  "comment_text [] = []"
| "comment_text (CChar c # is) = c # comment_text is"
| "comment_text (CNested js # is) = ''/*'' @ comment_text js @ ''*/'' @ comment_text is"

definition dollar_delimiter :: "str \<Rightarrow> str" where
  "dollar_delimiter tag = CHR ''$'' # tag @ ''$''"

fun lexeme_text :: "pg_lexeme \<Rightarrow> str" where
  "lexeme_text (Other c) = [c]"
| "lexeme_text (QuotedText q is) = q # concat (map (quote_item_text q) is) @ [q]"
| "lexeme_text (LineComment body) = ''--'' @ body"
| "lexeme_text (BlockComment is) = ''/*'' @ comment_text is @ ''*/''"
| "lexeme_text (DollarQuoted tag body) = dollar_delimiter tag @ body @ dollar_delimiter tag"
| "lexeme_text (Parameter ds) = CHR ''$'' # ds"

definition lexemes_text :: "pg_lexeme list \<Rightarrow> str" where
  "lexemes_text ls = concat (map lexeme_text ls)"

section \<open>When a text reads as a sequence of lexemes\<close>

definition starts_on :: "(char \<Rightarrow> bool) \<Rightarrow> str \<Rightarrow> bool" where
  "starts_on P s \<longleftrightarrow> s \<noteq> [] \<and> P (hd s)"

definition after_identifier :: "str \<Rightarrow> bool" where
  "after_identifier before \<longleftrightarrow> before \<noteq> [] \<and> postgres_identifier_byte (last before)"

text \<open>A quote opens an escape string right behind an \<open>E\<close> that is a word of its own.\<close>

definition after_escape_prefix :: "str \<Rightarrow> bool" where
  "after_escape_prefix before \<longleftrightarrow>
     before \<noteq> [] \<and> last before \<in> {CHR ''e'', CHR ''E''} \<and> \<not> after_identifier (butlast before)"

fun quote_item_ok :: "char \<Rightarrow> bool \<Rightarrow> quote_item \<Rightarrow> bool" where
  "quote_item_ok q escapes (QChar c) \<longleftrightarrow> c \<noteq> q \<and> (escapes \<longrightarrow> c \<noteq> bsl)"
| "quote_item_ok q escapes QDouble \<longleftrightarrow> True"
| "quote_item_ok q escapes (QEscape c) \<longleftrightarrow> escapes"

text \<open>Inside a block comment no character opens or closes a comment by accident.\<close>

fun comment_ok :: "comment_item list \<Rightarrow> bool" where
  "comment_ok [] \<longleftrightarrow> True"
| "comment_ok (CChar c # is) \<longleftrightarrow>
     (c = CHR ''/'' \<longrightarrow> hd (comment_text is @ ''*/'') \<noteq> CHR ''*'') \<and>
     (c = CHR ''*'' \<longrightarrow> hd (comment_text is @ ''*/'') \<noteq> CHR ''/'') \<and> comment_ok is"
| "comment_ok (CNested js # is) \<longleftrightarrow> comment_ok js \<and> comment_ok is"

definition tag_start :: "char \<Rightarrow> bool" where
  "tag_start c \<longleftrightarrow> is_ascii_alphabetic c \<or> c = CHR ''_'' \<or> 128 \<le> (of_char c :: nat)"

definition tag_char :: "char \<Rightarrow> bool" where
  "tag_char c \<longleftrightarrow> is_ascii_alphanumeric c \<or> c = CHR ''_'' \<or> 128 \<le> (of_char c :: nat)"

definition dollar_tag :: "str \<Rightarrow> bool" where
  "dollar_tag tag \<longleftrightarrow> tag = [] \<or> tag_start (hd tag) \<and> list_all tag_char tag"

definition opens_dollar_quote :: "str \<Rightarrow> bool" where
  "opens_dollar_quote after \<longleftrightarrow>
     (let tag = (if starts_on tag_start after then takeWhile tag_char after else []) in
      starts_on (\<lambda>c. c = CHR ''$'') (drop (length tag) after))"

fun lexeme_ok :: "str \<Rightarrow> pg_lexeme \<Rightarrow> str \<Rightarrow> bool" where
  "lexeme_ok before (Other c) after \<longleftrightarrow>
     c \<noteq> sq \<and> c \<noteq> dq \<and> c \<noteq> CHR ''?'' \<and>
     (c = CHR ''-'' \<longrightarrow> \<not> starts_on (\<lambda>d. d = CHR ''-'') after) \<and>
     (c = CHR ''/'' \<longrightarrow> \<not> starts_on (\<lambda>d. d = CHR ''*'') after) \<and>
     (c = CHR 0x40 \<longrightarrow> \<not> starts_on (\<lambda>d. ascii_lower d = CHR ''p'') after) \<and>
     (c = CHR ''$'' \<longrightarrow> after_identifier before \<or> \<not> starts_on is_ascii_digit after \<and> \<not> opens_dollar_quote after)"
| "lexeme_ok before (QuotedText q is) after \<longleftrightarrow>
     (q = sq \<or> q = dq) \<and> list_all (quote_item_ok q (q = sq \<and> after_escape_prefix before)) is \<and>
     \<not> starts_on (\<lambda>d. d = q) after"
| "lexeme_ok before (LineComment body) after \<longleftrightarrow>
     list_all (\<lambda>c. c \<noteq> nl \<and> c \<noteq> CHR 0x0D) body \<and> (after = [] \<or> hd after \<in> {nl, CHR 0x0D})"
| "lexeme_ok before (BlockComment is) after \<longleftrightarrow> comment_ok is"
| "lexeme_ok before (DollarQuoted tag body) after \<longleftrightarrow>
     \<not> after_identifier before \<and> dollar_tag tag \<and>
     list_all (\<lambda>k. \<not> starts_with (dollar_delimiter tag) (drop k (body @ dollar_delimiter tag))) [0 ..< length body]"
| "lexeme_ok before (Parameter ds) after \<longleftrightarrow>
     \<not> after_identifier before \<and> ds \<noteq> [] \<and> list_all is_ascii_digit ds \<and> \<not> starts_on is_ascii_digit after"

fun reads_as :: "str \<Rightarrow> pg_lexeme list \<Rightarrow> bool" where
  "reads_as before [] \<longleftrightarrow> True"
| "reads_as before (l # ls) \<longleftrightarrow>
     lexeme_ok before l (lexemes_text ls) \<and> reads_as (before @ lexeme_text l) ls"

text \<open>The byte ranges of the parameters, and the parameters moved up by an offset.\<close>

fun parameter_ranges :: "nat \<Rightarrow> pg_lexeme list \<Rightarrow> (nat \<times> nat) list" where
  "parameter_ranges i [] = []"
| "parameter_ranges i (Parameter ds # ls) =
     (i, i + 1 + length ds) # parameter_ranges (i + 1 + length ds) ls"
| "parameter_ranges i (l # ls) = parameter_ranges (i + length (lexeme_text l)) ls"

fun rebase_lexeme :: "nat \<Rightarrow> pg_lexeme \<Rightarrow> pg_lexeme" where
  "rebase_lexeme offset (Parameter ds) =
     (case parse_usize ds of
        None \<Rightarrow> Parameter ds
      | Some n \<Rightarrow> if offset = 0 \<or> n = 0 \<or> 2 ^ 64 \<le> n + offset then Parameter ds else Parameter (show_nat (n + offset)))"
| "rebase_lexeme offset l = l"

section \<open>The scanner on one lexeme\<close>

lemma byte_at_app [simp]: "length xs \<le> i \<Longrightarrow> byte_at (xs @ ys) i = byte_at ys (i - length xs)"
  by (auto simp: byte_at_def nth_append)

lemma byte_at_end [simp]: "length s \<le> i \<Longrightarrow> byte_at s i = None"
  by (simp add: byte_at_def)

lemma byte_at_0: "byte_at s 0 = (case s of [] \<Rightarrow> None | c # _ \<Rightarrow> Some c)"
  by (cases s) (simp_all add: byte_at_def)

lemma byte_at_Suc [simp]: "byte_at (c # s) (Suc k) = byte_at s k"
  by (simp add: byte_at_def)

lemma byte_at_starts: "byte_at s 0 = Some c \<longleftrightarrow> starts_on (\<lambda>d. d = c) s"
  by (cases s) (auto simp: byte_at_def starts_on_def)

lemma skip_while_app:
  assumes "list_all P body" "\<not> starts_on P after"
  shows "skip_while P (before @ body @ after) (length before) = length before + length body"
  using assms by (cases after) (auto simp: skip_while_def starts_on_def list_all_iff takeWhile_append takeWhile_eq_all_conv [THEN iffD2])

text \<open>Quoted text.\<close>

lemma quote_end_items:
  assumes "list_all (quote_item_ok q escapes) is" "q = sq \<or> q = dq" "\<not> starts_on (\<lambda>d. d = q) after"
  shows "pg_quote_end (before @ concat (map (quote_item_text q) is) @ q # after) q escapes (length before)
    = length before + length (concat (map (quote_item_text q) is)) + 1"
  using assms(1)
proof (induction "is" arbitrary: before)
  case Nil
  have "q \<noteq> bsl" using assms(2) by auto
  with assms(3) show ?case by (subst pg_quote_end.simps) (simp add: byte_at_starts)
next
  case (Cons i "is")
  let ?rest = "concat (map (quote_item_text q) is) @ q # after"
  have q: "q \<noteq> bsl" using assms(2) by auto
  have IH: "pg_quote_end (before @ quote_item_text q i @ ?rest) q escapes (length (before @ quote_item_text q i))
      = length (before @ quote_item_text q i) + length (concat (map (quote_item_text q) is)) + 1"
    using Cons.IH [of "before @ quote_item_text q i"] Cons.prems by simp
  have "pg_quote_end (before @ quote_item_text q i @ ?rest) q escapes (length before)
      = pg_quote_end (before @ quote_item_text q i @ ?rest) q escapes (length (before @ quote_item_text q i))"
    using Cons.prems q by (subst pg_quote_end.simps) (cases i; auto simp: byte_at_0 nth_append min_def)
  with IH show ?case by simp
qed

text \<open>Block comments: the items of a comment leave the depth as it is.\<close>

lemma hd_comment: "hd (comment_text is @ ''*/'' @ after) = hd (comment_text is @ ''*/'')"
  by (cases "comment_text is") simp_all

lemma block_end_items:
  assumes "comment_ok is"
  shows "pg_block_end (before @ comment_text is @ ''*/'' @ after) (Suc d) (length before)
    = pg_block_end (before @ comment_text is @ ''*/'' @ after) d (length before + length (comment_text is) + 2)"
  using assms
proof (induction "is" arbitrary: before after d rule: comment_ok.induct)
  case 1
  show ?case by (subst pg_block_end.simps) (simp add: byte_at_0)
next
  case (2 c "is")
  let ?s = "before @ comment_text (CChar c # is) @ ''*/'' @ after"
  have hd: "byte_at (comment_text is @ ''*/'' @ after) 0 = Some (hd (comment_text is @ ''*/''))"
    using hd_comment [of "is" after] by (cases "comment_text is") (simp_all add: byte_at_0)
  have "pg_block_end ?s (Suc d) (length before) = pg_block_end ?s (Suc d) (length before + 1)"
    using 2(2) hd by (subst pg_block_end.simps) (auto simp: byte_at_0)
  also have "\<dots> = pg_block_end ?s d (length before + length (comment_text (CChar c # is)) + 2)"
    using 2(1) [of "before @ [c]" after d] 2(2) by simp
  finally show ?case .
next
  case (3 js "is")
  let ?s = "before @ comment_text (CNested js # is) @ ''*/'' @ after"
  have "pg_block_end ?s (Suc d) (length before) = pg_block_end ?s (Suc (Suc d)) (length before + 2)"
    by (subst pg_block_end.simps) (simp add: byte_at_0)
  also have "\<dots> = pg_block_end ?s (Suc d) (length before + length (comment_text js) + 4)"
    using 3(1) [of "before @ ''/*''" "comment_text is @ ''*/'' @ after" "Suc d"] 3(3) by (simp add: numeral_eq_Suc)
  also have "\<dots> = pg_block_end ?s d (length before + length (comment_text (CNested js # is)) + 2)"
    using 3(2) [of "before @ ''/*'' @ comment_text js @ ''*/''" after d] 3(3) by (simp add: numeral_eq_Suc add.assoc)
  finally show ?case .
qed

text \<open>Dollar quotes.\<close>

lemma tag_char_simps: "\<not> tag_char (CHR ''$'')" "tag_start c \<Longrightarrow> tag_char c" "tag_start c \<Longrightarrow> \<not> is_ascii_digit c" "\<not> tag_start (CHR ''$'')"
  by (auto simp: tag_char_def tag_start_def is_ascii_alphanumeric_def is_ascii_digit_def is_ascii_alphabetic_def
      is_ascii_uppercase_def is_ascii_lowercase_def Let_def)

lemma pg_tag_end_app:
  "pg_tag_end (before @ after) (length before)
     = length before + length (if starts_on tag_start after then takeWhile tag_char after else [])"
  by (cases after) (auto simp: pg_tag_end_def byte_at_0 starts_on_def skip_while_def tag_char_def [abs_def] tag_start_def
      is_ascii_alphanumeric_def)

lemma find_sub_first:
  assumes "list_all (\<lambda>k. \<not> starts_with pat (drop k (body @ pat))) [0 ..< length body]" "pat \<noteq> []"
  shows "find_sub pat (body @ pat @ after) = Some (length body)"
  using assms(1)
proof (induction body)
  case Nil
  with assms(2) show ?case by (cases pat) (simp_all add: starts_with_iff_prefix)
next
  case (Cons c body)
  have no: "\<not> starts_with pat (drop k (c # body @ pat))" if "k < Suc (length body)" for k
    using Cons.prems that by (simp add: list_all_iff del: upt_Suc)
  then have "\<not> starts_with pat (c # body @ pat)" using no [of 0] by simp
  then have "\<not> starts_with pat (c # body @ pat @ after)"
    using assms(2) by (auto simp: starts_with_iff_prefix prefix_def append_eq_append_conv2 Cons_eq_append_conv)
  moreover have "list_all (\<lambda>k. \<not> starts_with pat (drop k (body @ pat))) [0 ..< length body]"
    using no [of "Suc k" for k] by (simp add: list_all_iff)
  ultimately show ?case using Cons.IH by simp
qed

lemma dollar_quote_end:
  assumes "dollar_tag tag"
    "list_all (\<lambda>k. \<not> starts_with (dollar_delimiter tag) (drop k (body @ dollar_delimiter tag))) [0 ..< length body]"
  shows "pg_dollar_end (before @ lexeme_text (DollarQuoted tag body) @ after) (length before)
    = length (before @ lexeme_text (DollarQuoted tag body))"
proof -
  let ?d = "dollar_delimiter tag"
  let ?rest = "tag @ ''$'' @ body @ ?d @ after"
  let ?s = "before @ lexeme_text (DollarQuoted tag body) @ after"
  have split: "?s = (before @ ''$'') @ ?rest" by (simp add: dollar_delimiter_def)
  have "(if starts_on tag_start ?rest then takeWhile tag_char ?rest else []) = tag"
    using assms(1) tag_char_simps
    by (cases tag) (auto simp: starts_on_def dollar_tag_def list_all_iff takeWhile_append)
  then have t: "pg_tag_end ?s (length before + 1) = length before + 1 + length tag"
    using pg_tag_end_app [of "before @ ''$''" ?rest] by (simp only: split) simp
  have b: "byte_at ?s (length before + 1 + length tag) = Some (CHR ''$'')"
    by (simp add: dollar_delimiter_def byte_at_0)
  have d: "take (length before + 1 + length tag + 1 - length before) (drop (length before) ?s) = ?d"
    by (simp add: dollar_delimiter_def)
  have f: "drop (length before + 1 + length tag + 1) ?s = body @ ?d @ after"
    by (simp add: dollar_delimiter_def)
  have n: "find_sub ?d (body @ ?d @ after) = Some (length body)"
    using find_sub_first [OF assms(2)] by (simp add: dollar_delimiter_def)
  show ?thesis unfolding pg_dollar_end_def Let_def t d f n using b
    by (simp add: dollar_delimiter_def)
qed

lemma lone_dollar_end:
  assumes "\<not> opens_dollar_quote after"
  shows "pg_dollar_end (before @ CHR ''$'' # after) (length before) = length before + 1"
proof -
  let ?tag = "if starts_on tag_start after then takeWhile tag_char after else []"
  have t: "pg_tag_end (before @ CHR ''$'' # after) (length before + 1) = length before + 1 + length ?tag"
    using pg_tag_end_app [of "before @ ''$''" after] by simp
  have "byte_at (before @ CHR ''$'' # after) (length before + 1 + length ?tag) = byte_at (drop (length ?tag) after) 0"
    by (simp add: byte_at_def nth_append)
  also have "\<dots> \<noteq> Some (CHR ''$'')"
    using assms unfolding opens_dollar_quote_def Let_def byte_at_starts by simp
  finally show ?thesis unfolding pg_dollar_end_def Let_def t by simp
qed

text \<open>What stands before a position.\<close>

lemma escaped_iff:
  "pg_escaped (before @ q # after) (length before) \<longleftrightarrow> q = sq \<and> after_escape_prefix before"
proof (cases before rule: rev_cases)
  case Nil
  then show ?thesis by (simp add: pg_escaped_def after_escape_prefix_def)
next
  case (snoc before' c)
  then show ?thesis
    by (cases before' rule: rev_cases)
      (auto simp: pg_escaped_def after_escape_prefix_def after_identifier_def nth_append butlast_append)
qed

lemma after_identifier_iff:
  "(length before = 0 \<or> \<not> postgres_identifier_byte ((before @ s) ! (length before - 1))) \<longleftrightarrow> \<not> after_identifier before"
  by (cases before rule: rev_cases) (auto simp: after_identifier_def nth_append)

section \<open>The scanner on a sequence of lexemes\<close>

lemma scan_other:
  assumes "lexeme_ok before (Other c) after"
  shows "pg_scan_loop (before @ c # after) (length before) = pg_scan_loop (before @ c # after) (length before + 1)"
proof -
  let ?s = "before @ c # after"
  have at: "byte_at ?s (length before + 1) = byte_at after 0" by simp
  have nd: "byte_at after 0 = Some d \<longleftrightarrow> after \<noteq> [] \<and> hd after = d" for d
    by (cases after) (auto simp: byte_at_0)
  have lone: "pg_dollar_end ?s (length before) = length before + 1"
    if "c = CHR ''$''" "\<not> after_identifier before"
    using lone_dollar_end [of after before] assms that by simp
  show ?thesis
    using assms lone after_identifier_iff [of before "c # after"] at
    by (subst pg_scan_loop.simps) (auto simp: Let_def nth_append starts_on_def nd split: option.split)
qed

lemma scan_quoted:
  assumes "lexeme_ok before (QuotedText q is) after"
  shows "pg_scan_loop (before @ lexeme_text (QuotedText q is) @ after) (length before)
    = pg_scan_loop (before @ lexeme_text (QuotedText q is) @ after) (length (before @ lexeme_text (QuotedText q is)))"
proof -
  let ?s = "before @ lexeme_text (QuotedText q is) @ after"
  have e: "pg_escaped ?s (length before) \<longleftrightarrow> q = sq \<and> after_escape_prefix before"
    by (simp add: escaped_iff)
  have "pg_quote_end ?s q (q = sq \<and> after_escape_prefix before) (length before + 1)
      = length (before @ lexeme_text (QuotedText q is))"
    using quote_end_items [of q "q = sq \<and> after_escape_prefix before" "is" after "before @ [q]"] assms by simp
  with e assms show ?thesis
    by (subst pg_scan_loop.simps) (simp add: Let_def nth_append)
qed

lemma scan_line_comment:
  assumes "lexeme_ok before (LineComment body) after"
  shows "pg_scan_loop (before @ lexeme_text (LineComment body) @ after) (length before)
    = pg_scan_loop (before @ lexeme_text (LineComment body) @ after) (length (before @ lexeme_text (LineComment body)))"
proof -
  have "skip_while (\<lambda>c. c \<noteq> nl \<and> c \<noteq> CHR 0x0D) ((before @ ''--'') @ body @ after) (length (before @ ''--''))
      = length (before @ ''--'') + length body"
    using assms by (intro skip_while_app) (auto simp: starts_on_def)
  then show ?thesis
    by (subst pg_scan_loop.simps) (simp add: Let_def nth_append byte_at_0)
qed

lemma scan_block_comment:
  assumes "lexeme_ok before (BlockComment is) after"
  shows "pg_scan_loop (before @ lexeme_text (BlockComment is) @ after) (length before)
    = pg_scan_loop (before @ lexeme_text (BlockComment is) @ after) (length (before @ lexeme_text (BlockComment is)))"
proof -
  have z: "pg_block_end s 0 i = i" for s i by (simp add: pg_block_end.simps)
  show ?thesis
    using block_end_items [of "is" "before @ ''/*''" after 0] assms
    by (subst pg_scan_loop.simps) (simp add: Let_def nth_append byte_at_0 z)
qed

lemma scan_dollar_quoted:
  assumes "lexeme_ok before (DollarQuoted tag body) after"
  shows "pg_scan_loop (before @ lexeme_text (DollarQuoted tag body) @ after) (length before)
    = pg_scan_loop (before @ lexeme_text (DollarQuoted tag body) @ after) (length (before @ lexeme_text (DollarQuoted tag body)))"
proof -
  let ?s = "before @ lexeme_text (DollarQuoted tag body) @ after"
  have e: "pg_dollar_end ?s (length before) = length (before @ lexeme_text (DollarQuoted tag body))"
    using assms by (intro dollar_quote_end) auto
  have c: "?s ! length before = CHR ''$''" by (simp add: dollar_delimiter_def)
  have b: "byte_at ?s (length before + 1) = Some d \<Longrightarrow> \<not> is_ascii_digit d" for d
    using assms tag_char_simps(3)
    by (cases tag) (auto simp: dollar_delimiter_def dollar_tag_def byte_at_0 is_ascii_digit_def)
  have l: "dollar_delimiter tag \<noteq> []" by (simp add: dollar_delimiter_def)
  show ?thesis
    using assms e c b l after_identifier_iff [of before "lexeme_text (DollarQuoted tag body) @ after"]
    by (subst pg_scan_loop.simps) (simp add: Let_def split: option.split)
qed

lemma scan_parameter:
  assumes "lexeme_ok before (Parameter ds) after"
  shows "pg_scan_loop (before @ lexeme_text (Parameter ds) @ after) (length before)
    = pg_push (length before, length before + 1 + length ds)
        (pg_scan_loop (before @ lexeme_text (Parameter ds) @ after) (length (before @ lexeme_text (Parameter ds))))"
proof -
  have "skip_while is_ascii_digit ((before @ ''$'') @ ds @ after) (length (before @ ''$'')) = length (before @ ''$'') + length ds"
    using assms by (intro skip_while_app) auto
  moreover have "byte_at (ds @ after) 0 = Some (hd ds)" "is_ascii_digit (hd ds)"
    using assms by (cases ds; simp add: byte_at_0)+
  ultimately show ?thesis
    using assms after_identifier_iff [of before "lexeme_text (Parameter ds) @ after"]
    by (subst pg_scan_loop.simps) (simp add: Let_def)
qed

lemma scan_lexemes:
  assumes "reads_as before ls"
  shows "pg_scan_loop (before @ lexemes_text ls) (length before) = Slots (parameter_ranges (length before) ls)"
  using assms
proof (induction ls arbitrary: before)
  case Nil
  show ?case by (subst pg_scan_loop.simps) (simp add: lexemes_text_def)
next
  case (Cons l ls)
  have ok: "lexeme_ok before l (lexemes_text ls)" using Cons.prems by simp
  have IH: "pg_scan_loop (before @ lexeme_text l @ lexemes_text ls) (length (before @ lexeme_text l))
      = Slots (parameter_ranges (length (before @ lexeme_text l)) ls)"
    using Cons.IH [of "before @ lexeme_text l"] Cons.prems by simp
  have "pg_scan_loop (before @ lexeme_text l @ lexemes_text ls) (length before)
      = Slots (parameter_ranges (length before) (l # ls))"
  proof (cases l)
    case (Other c)
    then show ?thesis using IH ok scan_other [of before c "lexemes_text ls"] by simp
  next
    case (QuotedText q "is")
    then show ?thesis using IH ok scan_quoted [of before q "is" "lexemes_text ls"] by (simp del: lexeme_text.simps)
  next
    case (LineComment body)
    then show ?thesis using IH ok scan_line_comment [of before body "lexemes_text ls"] by (simp del: lexeme_text.simps)
  next
    case (BlockComment "is")
    then show ?thesis using IH ok scan_block_comment [of before "is" "lexemes_text ls"] by (simp del: lexeme_text.simps)
  next
    case (DollarQuoted tag body)
    then show ?thesis using IH ok scan_dollar_quoted [of before tag body "lexemes_text ls"] by (simp del: lexeme_text.simps)
  next
    case (Parameter ds)
    then show ?thesis using IH ok scan_parameter [of before ds "lexemes_text ls"] by simp
  qed
  then show ?case by (simp add: lexemes_text_def)
qed

section \<open>The output\<close>

lemma rebase_lexeme_0: "rebase_lexeme 0 l = l"
  by (cases l) (auto split: option.split)

lemma rebased_text:
  assumes "0 < offset"
  shows "pg_rebased (before @ lexeme_text (Parameter ds) @ after) offset (length before, length before + 1 + length ds)
    = lexeme_text (rebase_lexeme offset (Parameter ds))"
  using assms
  by (auto simp: pg_rebased_def u64_checked_add_def split: option.split)

lemma output_lexemes:
  assumes "0 < offset" "previous \<le> length before"
  shows "pg_output (before @ lexemes_text ls) offset previous (parameter_ranges (length before) ls)
    = drop previous before @ lexemes_text (map (rebase_lexeme offset) ls)"
  using assms(2)
proof (induction ls arbitrary: before previous)
  case Nil
  then show ?case by (simp add: lexemes_text_def)
next
  case (Cons l ls)
  have IH: "previous \<le> length (before @ lexeme_text l) \<Longrightarrow>
      pg_output (before @ lexeme_text l @ lexemes_text ls) offset previous (parameter_ranges (length (before @ lexeme_text l)) ls)
      = drop previous (before @ lexeme_text l) @ lexemes_text (map (rebase_lexeme offset) ls)" for previous
    using Cons.IH [of previous "before @ lexeme_text l"] by simp
  show ?case
  proof (cases "\<exists>ds. l = Parameter ds")
    case True
    then obtain ds where l: "l = Parameter ds" by blast
    show ?thesis
      using IH [of "length before + 1 + length ds"] rebased_text [OF assms(1), of before ds "lexemes_text ls"] Cons.prems
      unfolding l by (simp add: lexemes_text_def del: rebase_lexeme.simps)
  next
    case False
    then have "parameter_ranges (length before) (l # ls) = parameter_ranges (length (before @ lexeme_text l)) ls"
      and "rebase_lexeme offset l = l" by (cases l; simp)+
    then show ?thesis using IH [of previous] Cons.prems by (simp add: lexemes_text_def)
  qed
qed

section \<open>Properties\<close>

text \<open>
  C39. Complete PostgreSQL statements are rebased exactly at their parameters: when the statement
  reads as a sequence of lexemes (quoted text with doubled quotes, escape strings with
  backslashes, line comments, nested block comments, dollar quotes, numbered parameters and other
  characters, none of them an anonymous placeholder), the scanner reports precisely the byte ranges
  of the parameter lexemes, and the normalized statement is the same sequence of lexemes with each
  parameter's index moved up by the start index minus one. A parameter with index zero, or whose
  moved index is beyond 64 bits, stays as it is.
\<close>

theorem postgres_parameters_rebased:
  assumes "reads_as [] ls"
  shows "pg_scan_loop (lexemes_text ls) 0 = Slots (parameter_ranges 0 ls) \<and>
    normalize_postgres_statement (lexemes_text ls) start_index
      = lexemes_text (map (rebase_lexeme (start_index - 1)) ls)"
proof -
  have scan: "pg_scan_loop (lexemes_text ls) 0 = Slots (parameter_ranges 0 ls)"
    using scan_lexemes [OF assms] by simp
  have "map (rebase_lexeme 0) ls = ls"
    by (intro map_idI) (rule rebase_lexeme_0)
  then show ?thesis
    using scan output_lexemes [of "start_index - 1" 0 "[]" ls]
    by (simp add: normalize_postgres_statement_def Let_def)
qed

definition sample_statement :: "str \<Rightarrow> str \<Rightarrow> pg_lexeme list" where
  "sample_statement i j =
     map Other ''SELECT E'' @ [QuotedText sq [QEscape sq, QChar (CHR ''$''), QChar (CHR ''9''), QDouble]] @
     map Other '', a$1, '' @ [QuotedText dq [QChar (CHR ''$''), QChar (CHR ''8'')]] @ map Other '' '' @
     [BlockComment [CChar (CHR ''$''), CChar (CHR ''7''), CNested [CChar (CHR ''*''), CChar (CHR ''$''), CChar (CHR ''6'')]]] @
     map Other '' '' @ [DollarQuoted ''t'' ''$5 $$''] @ map Other '' = '' @ [Parameter i] @ map Other '' + '' @
     [Parameter j] @ map Other '' '' @ [LineComment ''$4'']"

lemma rebased_samples:
  "rebase_lexeme 3 (Parameter ''2'') = Parameter ''5''" "rebase_lexeme 3 (Parameter ''17'') = Parameter ''20''"
proof -
  have "show_nat 5 = ''5''" "show_nat 20 = ''20''" by code_simp+
  then show "rebase_lexeme 3 (Parameter ''2'') = Parameter ''5''" "rebase_lexeme 3 (Parameter ''17'') = Parameter ''20''"
    by (simp_all add: parse_usize_def is_ascii_digit_def)
qed

theorem postgres_parameters_rebased_witness:
  "reads_as [] (sample_statement ''2'' ''17'') \<and>
   pg_scan_loop (lexemes_text (sample_statement ''2'' ''17'')) 0 = Slots [(56, 58), (61, 64)] \<and>
   normalize_postgres_statement (lexemes_text (sample_statement ''2'' ''17'')) 4
     = lexemes_text (sample_statement ''5'' ''20'')"
proof -
  have ok: "reads_as [] (sample_statement ''2'' ''17'')" by code_simp
  have "parameter_ranges 0 (sample_statement ''2'' ''17'') = [(56, 58), (61, 64)]" by code_simp
  moreover have "map (rebase_lexeme (4 - 1)) (sample_statement ''2'' ''17'') = sample_statement ''5'' ''20''"
    by (simp add: sample_statement_def rebased_samples del: rebase_lexeme.simps(1))
  ultimately show ?thesis using ok postgres_parameters_rebased [OF ok, of 4] by simp
qed

end
