(* ===== verification/Spec2Isabelle.thy ===== *)
theory Spec2Isabelle
  imports RunState Plan Scan RoundTrip PgText
begin

text \<open>
  graphql-orm is a Rust workspace for schema-managed GraphQL persistence. Entities declared in
  Rust become a physical schema, the schema manager compares it with the live database and plans
  a migration, and generated queries read the tables; the companion crates add fenced background
  work, agent runs, backup, storage and routing. This development models the parts of that system
  that decide what is written to a database and what is read from it: the lease and run state
  machines, the whole path from a declared schema to the statements of a migration plan, the
  path from a query with its read policies to the pages a client sees, and the backup crate over
  the local blob store, with every file-system call free to fail.

  \<^bold>\<open>Parts and how they interact.\<close> Entity metadata (\<open>orm/core.rs\<close>, \<open>orm/owned_schema.rs\<close>) is
  turned into tables, columns, indexes and foreign keys with bounded generated names, and
  validated. Introspection yields the same model of the live database; its SQL texts are read by
  small scanners (\<open>orm/dialect.rs\<close>, \<open>orm/migrations.rs\<close>). The diff compares both models, columns
  through the default-equivalence profiles of \<open>orm/default_equivalence.rs\<close>, and emits ordered
  migration steps, which are rendered as SQL in the dialect of the backend, on SQLite with table
  rebuilds, and classified by risk. Workers hold a resource through the fenced lease of
  \<open>orm/lease.rs\<close>; the agent runtime (\<open>graphql-orm-ai\<close>) embeds that lease in its run rows and
  moves runs through the states of \<open>run_state.rs\<close>. A read starts as an entity query
  (\<open>orm/query.rs\<close>); a policy answers with a visibility (\<open>orm/authorized_pagination.rs\<close>) whose
  predicate joins the conditions of the query; cursors (\<open>graphql/pagination.rs\<close>) are rendered as
  bound predicates over the key columns, and connections and scans read bounded pages with them.
  A backup (\<open>graphql-orm-backup\<close>) exports tables or changes and objects into a repository, under a
  writer lock, and describes them in a manifest; manifests form chains, which are loaded, verified,
  compacted and pruned. The repository is a prefix of a blob store (\<open>graphql-orm-storage\<close>), here the
  local one, which keeps blobs as files and writes them through temporary files.

  \<^bold>\<open>Conventions.\<close> A Rust \<open>&str\<close> is its list of UTF-8 bytes, one HOL character per byte. \<open>Option\<close>
  is \<open>option\<close>, \<open>Result<T, E>\<close> is \<open>E + T\<close>, a method on \<open>&mut self\<close> maps a state to the new state
  and its result. Signed 64-bit quantities that can overflow are integers with the checked
  operations of the source; hashes and identifiers are words. \<open>BTreeMap\<close> is a sorted association
  list. Loops over an index are functions of the remaining input with a proved measure. The
  scan loop, the listing loop of the blob store (\<open>list_loop\<close>) and the loop over parent manifests
  (\<open>chain_loop\<close>) are partial functions whose value \<open>None\<close> is not returning, and are proved to return.
  Storage and backup code is an \<open>action\<close>: from a state it yields a result and the next state, or does
  not return; the file system has a list of faults, one per call, so every error path is a run;
  no definition of the program uses fuel. The clients \<open>walk\<close> and \<open>scan_walk\<close>, which follow
  cursors, take a number of requests, and their theorems give a number that is enough. Names follow the source; a suffix or prefix marks a name HOL already uses
  and the fields of a record carry the initials of their structure.

  \<^bold>\<open>Theories.\<close>
  \<^item> \<open>Prelude\<close>: strings, ASCII and trimming, hexadecimal, FNV-1a, UTF-8, binary search, results,
    and ordered maps with the interface locale \<open>ordered_map\<close> (interpretation \<open>bt\<close>).
  \<^item> \<open>Lease\<close> (\<open>orm/lease.rs\<close>): the lease row and its transitions. The locale \<open>cas_machine\<close> is
    the compare-and-swap contract; leases and runs both interpret it. Shown: a stale holder is
    fenced, a holder keeps its lease until the deadline, of concurrent writers on one row version
    one succeeds, and well-formedness is preserved.
  \<^item> \<open>RunState\<close> (\<open>graphql-orm-ai/src/run_state.rs\<close>): run states, the fenced run row, retry
    admission. Shown: terminal states absorb, the fencing token of a reachable row is bounded by its
    version, retries are admitted only on evidence, texts round trip.
  \<^item> \<open>Dialect\<close> (\<open>orm/dialect.rs\<close>): backends, reserved words, identifiers and expressions. The
    locales \<open>delimited\<close> and \<open>part_renderer\<close> carry quoting and qualified names. Shown: quoted
    identifiers read back, paths keep their parts, bare identifiers need no quotes.
  \<^item> \<open>SqlText\<close> (\<open>orm/dialect.rs\<close>): canonical defaults, placeholder normalization and the
    PostgreSQL statement scanner. Shown: canonical forms are stable, placeholders are renumbered
    and nothing else changes.
  \<^item> \<open>PgText\<close>: PostgreSQL statements as sequences of lexemes, a specification of quotes, comments,
    dollar quotes and parameters that does not use the scanner. Shown: the scanner finds exactly
    the parameters and normalization moves them and nothing else.
  \<^item> \<open>Schema\<close> (\<open>orm/core.rs\<close>, \<open>orm/owned_schema.rs\<close>): the physical model, its construction from
    entities, generated names, validation. Shown: validation is exact, relation columns are
    indexed, generated names fit 63 bytes.
  \<^item> \<open>Defaults\<close> (\<open>orm/default_equivalence.rs\<close>, \<open>orm/migrations.rs\<close>): when a column differs.
    Shown: text literals compare by value, the typed profile only removes changes.
  \<^item> \<open>CheckSql\<close> (\<open>orm/migrations.rs\<close>): CHECK comparison, constraint comments, the structural
    tokenizer, index predicates, append-only triggers. Shown: rendered predicates, comments and
    triggers are recognized again, CHECK comparison is an equivalence.
  \<^item> \<open>Diff\<close> and \<open>DiffSound\<close> (\<open>orm/migrations.rs\<close>): table order and diff; the abstract
    specification \<open>PhysSchema\<close> with the effect of every step, and the locale \<open>keyed_steps\<close> for
    maps changed one key at a time (interpretations for columns, indexes, search indexes). Shown:
    applying the diff to the live schema creates missing tables as declared and makes existing
    ones agree with the target in everything the planner compares (not the order of primary keys
    and the composite unique keys of existing tables), a matching schema plans nothing,
    tables are created after those they reference, foreign keys are dropped before they are added.
  \<^item> \<open>Render\<close> (\<open>orm/migrations.rs\<close>, \<open>orm/search.rs\<close>): the SQL of every step and the capability
    checks. Shown: PostgreSQL column statements make the column match, SQLite defaults read back,
    accepted names fit.
  \<^item> \<open>Plan\<close> (\<open>orm/migrations.rs\<close>): risk classes, whole plans, migration files. Shown: plans
    contain no placeholder comments, SQLite rebuilds each table once, destructive steps are exact.
  \<^item> \<open>Query\<close> (\<open>orm/query.rs\<close>): values, filter expressions, statements, the query builder, page
    limits, matching in memory, LIKE patterns. Shown: every placeholder of a built statement has
    its own value when each of its parts has as many slots as values, patterns built from user text match literally.
  \<^item> \<open>Visibility\<close> (\<open>orm/authorized_pagination.rs\<close>): read predicates and visibilities, with the
    three-valued semantics of rendered conditions. Shown: a negated predicate admits a row only
    when the predicate is false, not when it is unknown.
  \<^item> \<open>Keyset\<close> (\<open>graphql/pagination.rs\<close>, \<open>orm/query.rs\<close>): cursors, connection requests, order
    columns and bound predicates. The locale \<open>key_comparison\<close> states what one column comparison
    promises (interpretations \<open>after\<close> and \<open>before\<close>). Shown: the predicates hold exactly behind and in
    front of the cursor, a cursor is bound to its order.
  \<^item> \<open>Paging\<close> (\<open>orm/authorized_pagination.rs\<close>): authorized connections. The locale \<open>key_order\<close>
    has the lemmas on a list of rows in a total key order (interpretation \<open>keys\<close>). Shown: a page is
    exactly the requested window with exact flags, its rows satisfy the visibility predicate or
    passed the row policies, and following
    cursors visits every visible row once.
  \<^item> \<open>Scan\<close> (\<open>orm/authorized_pagination.rs\<close>): scans with row callbacks. Shown: the loop returns
    within page size and budget with exactly the readable rows it examined, and following
    continuations finds every readable row.
  \<^item> \<open>Effect\<close>: actions, with the triples \<open>runs\<close> over states and \<open>acts\<close> over the view a relation
    gives of a state; both are total: they also say that the action returns.
  \<^item> \<open>FileTree\<close>: directory trees, their paths and updates.
  \<^item> \<open>LocalStore\<close> and \<open>LocalLaws\<close> (\<open>graphql-orm-storage/src/local.rs\<close>, \<open>blob.rs\<close>, \<open>key.rs\<close>):
    blob keys, byte streams, the store interface with its default methods and the local backend; its
    abstract state is a map from keys to bytes (\<open>stores\<close>). Shown: listings end and return
    only blobs below the prefix, all of them when no two keys clash; writes are atomic under any fault, written blobs read back.
  \<^item> \<open>Repository\<close> (\<open>repository.rs\<close>, \<open>capacity.rs\<close>, \<open>lock.rs\<close>): the repository over a blob store. The
    locale \<open>backup_repository\<close> is what the operations promise of the blobs whatever fails,
    \<open>calm_repository\<close> what they promise when nothing fails; the crate's operations are proved
    against these and \<open>local_repo\<close> interprets both on the local repository.
  \<^item> \<open>Manifest\<close> (\<open>manifest.rs\<close>, \<open>verify.rs\<close>): manifests, checksums, chains and payload checks.
  \<^item> \<open>Prune\<close> (\<open>prune.rs\<close>): retention. Shown: pruning and deletion remove exactly the garbage (also
    objects no snapshot refers to), keep
    what the remaining snapshots need whatever fails, and a parent is never deleted.
  \<^item> \<open>Payload\<close> (\<open>backup.rs\<close>, \<open>restore.rs\<close>): writing rows as compressed lines and reading them back.
  \<^item> \<open>Backup\<close> and \<open>Compact\<close> (\<open>backup.rs\<close>, \<open>planner.rs\<close>): full and incremental backups and the
    compaction of a chain. Shown: compaction replays the changes over the base rows.
  \<^item> \<open>BackupLaws\<close>: the crate over the local repository. Shown: loading a chain ends and is exact,
    backups only add and store complete snapshots, the writer lock excludes other writers.
  \<^item> \<open>CompactLaws\<close>: compaction in a repository. Shown: it only adds, and the new snapshot restores
    what the chain would.
  \<^item> \<open>Restore\<close> (\<open>restore.rs\<close>): restoring a chain through the adapter and objects through a sink.
    Shown: dry runs change nothing, a failure names the manifest of the lineage at which it failed
    and exactly the manifests before it as applied, restored
    objects have the bytes of the backup.
  \<^item> \<open>RoundTrip\<close>: after a successful full backup, a restore hands the adapter exactly the exported
    tables; the witness runs a whole backup and restore on an empty directory.

  \<^bold>\<open>Parameters.\<close> Code of other crates is an argument: the readers of floats, decimals, UUIDs,
  JSON and timestamps (record \<open>LiteralReaders\<close>), JSON string escaping (\<open>js\<close>), the serializer of
  cursors (\<open>CursorCodec\<close>), hashing and UUIDs (\<open>Codecs\<close>), the cipher of continuations (\<open>Cipher\<close>), the
  database with the answers of the application's policies (\<open>Host\<close>), SHA-256, JSON, zstd and UUID
  texts of the backup crate (\<open>BackupCodec\<close>), digests, random identifiers and the chunks of a file
  (\<open>LocalStorageBackend\<close>), the database adapter and the object index of the application
  (\<open>GraphqlOrmBackupAdapter\<close>, \<open>BackupObjectIndex\<close>), and the iteration order of a hash set (\<open>hash_order\<close>). The theorems on pages and
  scans assume of them what the code relies on: reading back what was serialized
  (\<open>codec_reads\<close>) or encrypted (\<open>cipher_sound\<close>), and that the database returns the rows
  satisfying a condition in the requested order (\<open>db_serves\<close>) over rows with distinct keys
  (\<open>keyed_rows\<close>); the witnesses meet these hypotheses on a concrete table. The theorems on backups
  assume that manifests parse back (\<open>manifest_json_ok\<close>) and identifiers too (\<open>reads_ids\<close>), never that
  calls succeed, except where they say that a result is returned; that names and keys are those
  the crate writes (\<open>crate_names\<close>), and of a target that its schema query and its check for emptiness
  do not change it (\<open>reads_only\<close>). Their witnesses run on a concrete repository with two snapshots.

  \<^bold>\<open>Not modelled.\<close> Database and network input and output, asynchronous execution, the catalog
  queries of introspection, grouped aggregates, mutation statements, GraphQL resolvers, the derive macros, the S3,
  SMB and Azure clients, multipart uploads, the object interface of the local store, the SQL of
  the database adapter, and the crates for routing, the operation catalog and tool profiles.
  Objects of a backup are written and verified one after the other, not concurrently; a file system
  call either fails without effect or takes effect, except that appending may stop in the middle. Lemmas that record where the code
  differs from its comments or loses information stand beside the definitions they are about
  (\<open>generated_index_name_collision\<close>, \<open>check_comparison_confuses_quoted\<close>,
  \<open>composite_unique_change_unplanned\<close>, \<open>waiting_keeps_lease\<close>, \<open>rebuild_skips_search_index\<close>, \<open>search_names_overlap\<close>,
  \<open>phase_invalid_never_qualified\<close>, \<open>recovery_required_closed\<close>,
  \<open>bracketed_placeholder_unbound\<close>, \<open>local_listing_skips\<close>, \<open>compaction_drops_readded\<close>).
\<close>

end
